(* ===== verification/JS_Base.thy ===== *)
theory JS_Base
  imports Main "HOL-Library.Word" "HOL-Library.Sublist"
begin

text \<open>
  The prelude of the development: the part of JavaScript that the packages use.
  Errors are values (\<open>js_error\<close>), a fallible call is a value of \<open>'a res\<close>; a number
  is an \<open>int\<close>, with the 32-bit bitwise operators written out; a string is a list of
  UTF-16 code units; a \<open>Uint8Array\<close> is a list of bytes, with \<open>DataView\<close> reads and
  writes that throw a \<open>RangeError\<close> out of bounds.
\<close>

unbundle bit_operations_syntax

named_theorems res_simps \<open>elimination of the error monad\<close>
named_theorems js_arith \<open>bitwise operators as arithmetic on small numbers\<close>
named_theorems layout \<open>evaluation of reads and writes on explicit buffers\<close>

subsection \<open>Strings and errors\<close>

type_synonym jschar = "16 word"
type_synonym jstring = "jschar list"

definition lit :: "string \<Rightarrow> jstring" where
  "lit s = List.map (\<lambda>c. of_nat (of_char c)) s"

datatype js_error = Error jstring | RangeError | TypeError

type_synonym 'a res = "js_error + 'a"

abbreviation throw :: "string \<Rightarrow> 'a res" where
  "throw msg \<equiv> Inl (Error (lit msg))"

definition bnd :: "'a res \<Rightarrow> ('a \<Rightarrow> 'b res) \<Rightarrow> 'b res" where
  "bnd m f = (case m of Inl e \<Rightarrow> Inl e | Inr x \<Rightarrow> f x)"

fun mapM :: "('a \<Rightarrow> 'b res) \<Rightarrow> 'a list \<Rightarrow> 'b list res" where
  "mapM f [] = Inr []"
| "mapM f (x # xs) = bnd (f x) (\<lambda>y. bnd (mapM f xs) (\<lambda>ys. Inr (y # ys)))"

lemma bnd_simps [simp]:
  "bnd (Inl e) f = Inl e"
  "bnd (Inr x) f = f x"
  by (simp_all add: bnd_def)

lemma bnd_eq_Inr [res_simps]: "bnd m f = Inr y \<longleftrightarrow> (\<exists>x. m = Inr x \<and> f x = Inr y)"
  by (cases m) auto

lemma bnd_eq_Inl [res_simps]:
  "bnd m f = Inl e \<longleftrightarrow> m = Inl e \<or> (\<exists>x. m = Inr x \<and> f x = Inl e)"
  by (cases m) auto

lemma bnd_cong [fundef_cong]:
  "m = m' \<Longrightarrow> (\<And>x. m' = Inr x \<Longrightarrow> f x = f' x) \<Longrightarrow> bnd m f = bnd m' f'"
  by (cases m') auto

lemma bnd_assoc: "bnd (bnd m f) g = bnd m (\<lambda>x. bnd (f x) g)"
  by (cases m) auto

lemma bnd_if: "bnd (if c then m else m') f = (if c then bnd m f else bnd m' f)"
  by simp

lemma mapM_Inr: "(\<And>x. x \<in> set xs \<Longrightarrow> f x = Inr (g x)) \<Longrightarrow> mapM f xs = Inr (List.map g xs)"
  by (induction xs) auto

lemma mapM_Inr_iff: "mapM f xs = Inr ys \<longleftrightarrow> list_all2 (\<lambda>x y. f x = Inr y) xs ys"
  by (induction xs arbitrary: ys) (auto simp: res_simps list_all2_Cons1)

lemma mapM_length: "mapM f xs = Inr ys \<Longrightarrow> length ys = length xs"
  by (simp add: mapM_Inr_iff list_all2_lengthD)

lemma mapM_map: "mapM f (List.map g xs) = mapM (f \<circ> g) xs"
  by (induction xs) auto

subsection \<open>Numbers and bitwise operators\<close>

text \<open>
  The operands of a bitwise operator are converted with \<open>ToInt32\<close>; the shift count is
  taken modulo 32. Only \<open>>>>\<close> reads its left operand as unsigned.
\<close>

definition to_int32 :: "int \<Rightarrow> int" where
  "to_int32 x = signed_take_bit 31 x"

definition js_and :: "int \<Rightarrow> int \<Rightarrow> int" where
  "js_and a b = to_int32 a AND to_int32 b"

definition js_or :: "int \<Rightarrow> int \<Rightarrow> int" where
  "js_or a b = to_int32 a OR to_int32 b"

definition js_not :: "int \<Rightarrow> int" where
  "js_not a = NOT (to_int32 a)"

definition js_shl :: "int \<Rightarrow> int \<Rightarrow> int" where
  "js_shl a n = to_int32 (push_bit (nat (n mod 32)) (to_int32 a))"

definition js_shr :: "int \<Rightarrow> int \<Rightarrow> int" where
  "js_shr a n = drop_bit (nat (n mod 32)) (to_int32 a)"

definition js_shru :: "int \<Rightarrow> int \<Rightarrow> int" where
  "js_shru a n = drop_bit (nat (n mod 32)) (take_bit 32 a)"

lemma to_int32_id [simp]: "- 2147483648 \<le> x \<Longrightarrow> x < 2147483648 \<Longrightarrow> to_int32 x = x"
  by (simp add: to_int32_def signed_take_bit_int_eq_self)

lemma to_int32_small [simp]: "0 \<le> x \<Longrightarrow> x < 2147483648 \<Longrightarrow> to_int32 x = x"
  by simp

lemma to_int32_bounds: "- 2147483648 \<le> to_int32 x \<and> to_int32 x < 2147483648"
  using signed_take_bit_int_greater_eq_minus_exp [of 31 x] signed_take_bit_int_less_exp [of 31 x]
  by (simp add: to_int32_def)

lemma js_shl_arith [js_arith]:
  "0 \<le> a \<Longrightarrow> 0 \<le> n \<Longrightarrow> n < 32 \<Longrightarrow> a * 2 ^ nat n < 2147483648 \<Longrightarrow> js_shl a n = a * 2 ^ nat n"
proof -
  assume a: "0 \<le> a" "0 \<le> n" "n < 32" "a * 2 ^ nat n < 2147483648"
  have "a * 1 \<le> a * 2 ^ nat n" using a(1) by (intro mult_left_mono) auto
  with a have "to_int32 a = a" by simp
  with a show ?thesis by (simp add: js_shl_def push_bit_eq_mult)
qed

lemma js_shr_arith [js_arith]:
  "0 \<le> a \<Longrightarrow> a < 2147483648 \<Longrightarrow> 0 \<le> n \<Longrightarrow> n < 32 \<Longrightarrow> js_shr a n = a div 2 ^ nat n"
  by (simp add: js_shr_def drop_bit_eq_div)

lemma js_and_mask:
  "- 2147483648 \<le> a \<Longrightarrow> a < 2147483648 \<Longrightarrow> k < 31 \<Longrightarrow> js_and a (2 ^ k - 1) = a mod 2 ^ k"
proof -
  assume a: "- 2147483648 \<le> a" "a < 2147483648" "k < 31"
  have "(2::int) ^ k < 2 ^ 31" using a(3) by (intro power_strict_increasing) auto
  then have "to_int32 (2 ^ k - 1) = 2 ^ k - 1"
    by (intro to_int32_small) auto
  with a have "js_and a (2 ^ k - 1) = a AND mask k"
    by (simp add: js_and_def mask_eq_exp_minus_1)
  then show ?thesis by (simp add: take_bit_eq_mod flip: take_bit_eq_mask)
qed

lemma js_and_masks [js_arith]:
  assumes "- 2147483648 \<le> a" "a < 2147483648"
  shows "js_and a 1 = a mod 2" "js_and a 3 = a mod 4" "js_and a 7 = a mod 8"
    "js_and a 15 = a mod 16" "js_and a 31 = a mod 32"
    "js_and a 255 = a mod 256" "js_and a 65535 = a mod 65536"
  using js_and_mask [OF assms, of 1] js_and_mask [OF assms, of 2] js_and_mask [OF assms, of 3]
    js_and_mask [OF assms, of 4] js_and_mask [OF assms, of 5] js_and_mask [OF assms, of 8]
    js_and_mask [OF assms, of 16] by simp_all

lemma js_not_arith [js_arith]: "- 2147483648 \<le> a \<Longrightarrow> a < 2147483648 \<Longrightarrow> js_not a = - a - 1"
  by (simp add: js_not_def not_int_def)

lemma int_or_disjoint: "0 \<le> b \<Longrightarrow> b < 2 ^ k \<Longrightarrow> (a * 2 ^ k) OR b = a * 2 ^ k + (b :: int)"
proof -
  assume b: "0 \<le> b" "b < 2 ^ k"
  then have tb: "take_bit k b = b" by (simp add: take_bit_int_eq_self)
  have "push_bit k a AND b = 0"
  proof (rule bit_eqI)
    fix n
    have "bit b n \<longleftrightarrow> n < k \<and> bit b n" using tb by (metis bit_take_bit_iff)
    then show "bit (push_bit k a AND b) n \<longleftrightarrow> bit 0 n"
      by (auto simp: bit_and_iff bit_push_bit_iff)
  qed
  then have "push_bit k a OR b = push_bit k a + b"
    by (simp add: disjunctive_add_eq_or)
  then show ?thesis by (simp add: push_bit_eq_mult)
qed

lemma js_or_disjoint:
  "0 \<le> a \<Longrightarrow> 0 \<le> b \<Longrightarrow> b < 2 ^ k \<Longrightarrow> a * 2 ^ k + b < 2147483648 \<Longrightarrow>
   js_or (a * 2 ^ k) b = a * 2 ^ k + b"
proof -
  assume a: "0 \<le> a" "0 \<le> b" "b < 2 ^ k" "a * 2 ^ k + b < 2147483648"
  have "0 \<le> a * 2 ^ k" using a(1) by simp
  with a have "a * 2 ^ k < 2147483648" "b < 2147483648" by linarith+
  with a \<open>0 \<le> a * 2 ^ k\<close> show ?thesis by (simp add: js_or_def int_or_disjoint)
qed

lemma js_or_instances [js_arith]:
  assumes "0 \<le> a" "0 \<le> b"
  shows "b < 2 \<Longrightarrow> a * 2 + b < 2147483648 \<Longrightarrow> js_or (a * 2) b = a * 2 + b"
    "b < 4 \<Longrightarrow> a * 4 + b < 2147483648 \<Longrightarrow> js_or (a * 4) b = a * 4 + b"
    "b < 16 \<Longrightarrow> a * 16 + b < 2147483648 \<Longrightarrow> js_or (a * 16) b = a * 16 + b"
    "b < 32 \<Longrightarrow> a * 32 + b < 2147483648 \<Longrightarrow> js_or (a * 32) b = a * 32 + b"
    "b < 256 \<Longrightarrow> a * 256 + b < 2147483648 \<Longrightarrow> js_or (a * 256) b = a * 256 + b"
  using assms js_or_disjoint [of a b 1] js_or_disjoint [of a b 2] js_or_disjoint [of a b 4]
    js_or_disjoint [of a b 5] js_or_disjoint [of a b 8] by simp_all

lemma js_or_zero [js_arith]: "0 \<le> a \<Longrightarrow> a < 2147483648 \<Longrightarrow> js_or a 0 = a"
  by (simp add: js_or_def)

subsection \<open>Bytes, subarrays and DataViews\<close>

type_synonym byte = "8 word"
type_synonym bytes = "byte list"

lemma uint_byte_bounds: "0 \<le> uint (b :: byte)" "uint (b :: byte) < 256"
  using uint_lt2p [of b] by simp_all

lemma uint_byte_of_int [simp]: "0 \<le> x \<Longrightarrow> x < 256 \<Longrightarrow> uint (of_int x :: byte) = x"
  by (simp add: uint_word_of_int)

lemma uint_byte_of_int_mod: "uint (of_int x :: byte) = x mod 256"
  by (simp add: uint_word_of_int)

lemma of_int_uint_byte [simp]: "of_int (uint b) = (b :: byte)"
  by simp

text \<open>\<open>subarray(a, b)\<close> clamps both ends; \<open>subarray(a)\<close> is \<open>List.drop a\<close>.\<close>

definition subarray :: "nat \<Rightarrow> nat \<Rightarrow> 'a list \<Rightarrow> 'a list" where
  "subarray a b xs = List.drop a (List.take b xs)"

definition getUint8 :: "bytes \<Rightarrow> nat \<Rightarrow> int res" where
  "getUint8 d i = (if i < length d then Inr (uint (d ! i)) else Inl RangeError)"

definition getUint16 :: "bytes \<Rightarrow> nat \<Rightarrow> int res" where
  "getUint16 d i =
     (if i + 2 \<le> length d then Inr (uint (d ! i) * 256 + uint (d ! Suc i)) else Inl RangeError)"

definition getUint32 :: "bytes \<Rightarrow> nat \<Rightarrow> int res" where
  "getUint32 d i =
     (if i + 4 \<le> length d
      then Inr (uint (d ! i) * 16777216 + uint (d ! (i + 1)) * 65536
                + uint (d ! (i + 2)) * 256 + uint (d ! (i + 3)))
      else Inl RangeError)"

text \<open>
  A write takes the value as a fallible computation, as its argument is evaluated before
  the write, and maps the buffer to the new buffer. \<open>writes\<close> runs a sequence of them.
\<close>

type_synonym wr = "bytes \<Rightarrow> bytes res"

fun writes :: "wr list \<Rightarrow> bytes \<Rightarrow> bytes res" where
  "writes [] buf = Inr buf"
| "writes (w # ws) buf = bnd (w buf) (writes ws)"

definition setUint8 :: "nat \<Rightarrow> int res \<Rightarrow> wr" where
  "setUint8 i v buf =
     bnd v (\<lambda>x. if i < length buf then Inr (buf[i := of_int x]) else Inl RangeError)"

definition setUint16 :: "nat \<Rightarrow> int res \<Rightarrow> wr" where
  "setUint16 i v buf =
     bnd v (\<lambda>x. if i + 2 \<le> length buf
                then Inr (buf[i := of_int (x div 256), Suc i := of_int x])
                else Inl RangeError)"

definition setUint32 :: "nat \<Rightarrow> int res \<Rightarrow> wr" where
  "setUint32 i v buf =
     bnd v (\<lambda>x. if i + 4 \<le> length buf
                then Inr (buf[i := of_int (x div 16777216), i + 1 := of_int (x div 65536),
                              i + 2 := of_int (x div 256), i + 3 := of_int x])
                else Inl RangeError)"

text \<open>\<open>data.set(src, off)\<close>\<close>

definition setBytes :: "nat \<Rightarrow> bytes res \<Rightarrow> wr" where
  "setBytes off v buf =
     bnd v (\<lambda>src. if off + length src \<le> length buf
                  then Inr (List.take off buf @ src @ List.drop (off + length src) buf)
                  else Inl RangeError)"

text \<open>\<open>buf[i] = x\<close> on a typed array: ignored when out of range.\<close>

definition setIndex :: "nat \<Rightarrow> int res \<Rightarrow> wr" where
  "setIndex i v buf = bnd v (\<lambda>x. Inr (buf[i := of_int x]))"

lemma list_update_Cons_numeral [layout]:
  "(x # xs)[numeral k := y] = x # xs[pred_numeral k := y]"
  by (simp add: numeral_eq_Suc)

lemma replicate_numeral_Cons [layout]:
  "replicate (numeral k) x = x # replicate (pred_numeral k) x"
  by (simp add: numeral_eq_Suc)

lemma replicate_numeral_plus [layout]:
  "replicate (numeral k + n) x = replicate (numeral k) x @ replicate n x"
  by (rule replicate_add)

lemmas buffer_defs [layout] = setUint8_def setUint16_def setUint32_def setBytes_def setIndex_def
  getUint8_def getUint16_def getUint32_def subarray_def

lemma writes_append: "writes (ws @ vs) buf = bnd (writes ws buf) (writes vs)"
  by (induction ws arbitrary: buf) (auto simp: bnd_def split: sum.splits)

text \<open>Numbers that a 16-bit or a 32-bit field carries unchanged.\<close>

definition is_u16 :: "int \<Rightarrow> bool" where
  "is_u16 x \<longleftrightarrow> 0 \<le> x \<and> x < 65536"

definition is_u32 :: "int \<Rightarrow> bool" where
  "is_u32 x \<longleftrightarrow> 0 \<le> x \<and> x < 4294967296"

lemma split16: "0 \<le> x \<Longrightarrow> x < 65536 \<Longrightarrow>
  uint (of_int (x div 256) :: byte) * 256 + uint (of_int x :: byte) = x"
  by (simp add: uint_byte_of_int_mod div_pos_pos_trivial)

lemma four_digits:
  "q1 * 256 + r0 = (x :: int) \<Longrightarrow> q2 * 256 + r1 = q1 \<Longrightarrow> q3 * 256 + r2 = q2
   \<Longrightarrow> q3 * 16777216 + r2 * 65536 + r1 * 256 + r0 = x"
  by simp

lemma split32:
  assumes "0 \<le> x" "x < 4294967296"
  shows "uint (of_int (x div 16777216) :: byte) * 16777216
    + uint (of_int (x div 65536) :: byte) * 65536
    + uint (of_int (x div 256) :: byte) * 256 + uint (of_int x :: byte) = x"
proof -
  have digit: "y div 256 * 256 + y mod 256 = y" for y :: int by simp
  have top: "x div 16777216 mod 256 = x div 16777216" using assms by simp
  have nest: "x div 65536 div 256 = x div 16777216" "x div 256 div 256 = x div 65536"
    by (simp_all add: div_mult2_eq [symmetric])
  show ?thesis
    unfolding uint_byte_of_int_mod top
    by (rule four_digits [OF digit digit [of "x div 256", unfolded nest]
          digit [of "x div 65536", unfolded nest]])
qed

end
