(* ===== verification/JS_String.thy ===== *)
theory JS_String
  imports JS_Base
begin

text \<open>
  The string operations of JavaScript that the packages call: \<open>split\<close>, \<open>join\<close>,
  \<open>padStart\<close>, \<open>toString(radix)\<close> on non-negative integers, \<open>Number.parseInt\<close> and
  \<open>toLowerCase\<close> on the Latin letters, with the laws that the codecs rely on.
\<close>

subsection \<open>Literals\<close>

lemma jschar_of_nat_inject [simp]:
  "a < 65536 \<Longrightarrow> b < 65536 \<Longrightarrow> (of_nat a :: jschar) = of_nat b \<longleftrightarrow> a = b"
  by (simp add: word_of_nat_eq_iff take_bit_nat_eq_self)

lemma unat_jschar [simp]: "a < 65536 \<Longrightarrow> unat (of_nat a :: jschar) = a"
  by (simp add: unat_of_nat)

lemma lit_inject [simp]: "lit s = lit t \<longleftrightarrow> s = t"
proof -
  have "inj (\<lambda>c. of_nat (of_char c) :: jschar)"
  proof (rule injI)
    fix c d
    have b: "(of_char e :: nat) < 65536" for e
      by (rule less_trans [OF nat_of_char_less_256]) simp
    assume "(of_nat (of_char c) :: jschar) = of_nat (of_char d)"
    then have "(of_char c :: nat) = of_char d" by (simp add: b)
    then show "c = d" by simp
  qed
  then show ?thesis by (simp add: lit_def inj_map_eq_map)
qed

lemma lit_simps: "lit [] = []" "lit (c # s) = of_nat (of_char c) # lit s"
  by (simp_all add: lit_def)

lemma lit_append: "lit (s @ t) = lit s @ lit t"
  by (simp add: lit_def)

lemma throw_inject [simp]: "(throw s = throw t) \<longleftrightarrow> s = t"
  by simp

subsection \<open>Splitting and joining\<close>

text \<open>\<open>s.split(sep)\<close> for a non-empty separator: leftmost, non-overlapping occurrences.\<close>

fun js_split :: "'a list \<Rightarrow> 'a list \<Rightarrow> 'a list list" where
  "js_split sep [] = [[]]"
| "js_split sep (c # s) =
     (if prefix sep (c # s) then [] # js_split sep (List.drop (length sep - 1) s)
      else (case js_split sep s of [] \<Rightarrow> [[c]] | p # ps \<Rightarrow> (c # p) # ps))"

fun js_join :: "'a list \<Rightarrow> 'a list list \<Rightarrow> 'a list" where
  "js_join sep [] = []"
| "js_join sep [p] = p"
| "js_join sep (p # q # ps) = p @ sep @ js_join sep (q # ps)"

lemma js_split_not_Nil [simp]: "js_split sep s \<noteq> []"
  by (induction sep s rule: js_split.induct) (auto split: list.splits)

lemma js_split_plain: "c \<notin> set p \<Longrightarrow> js_split [c] p = [p]"
  by (induction p) auto

lemma js_split_append_sep:
  "c \<notin> set p \<Longrightarrow> js_split [c] (p @ c # s) = p # js_split [c] s"
  by (induction p) auto

lemma js_split_join [simp]:
  "ps \<noteq> [] \<Longrightarrow> (\<And>p. p \<in> set ps \<Longrightarrow> c \<notin> set p) \<Longrightarrow> js_split [c] (js_join [c] ps) = ps"
  by (induction "[c]" ps rule: js_join.induct) (auto simp: js_split_plain js_split_append_sep)

lemma js_join_split [simp]: "js_join [c] (js_split [c] s) = s"
proof (induction s)
  case (Cons a s)
  obtain p ps where ps: "js_split [c] s = p # ps" by (cases "js_split [c] s") auto
  with Cons show ?case by (cases ps) auto
qed simp

lemma js_split_no_sep: "p \<in> set (js_split [c] s) \<Longrightarrow> c \<notin> set p"
proof (induction s arbitrary: p)
  case (Cons a s)
  obtain q qs where qs: "js_split [c] s = q # qs" by (cases "js_split [c] s") auto
  with Cons show ?case by (auto split: if_splits)
qed simp

lemma js_join_Cons: "ps \<noteq> [] \<Longrightarrow> js_join sep (p # ps) = p @ sep @ js_join sep ps"
  by (cases ps) auto

lemma set_js_join: "set (js_join sep ps) \<subseteq> set sep \<union> \<Union> (set ` set ps)"
  by (induction sep ps rule: js_join.induct) auto

subsection \<open>Numbers as strings\<close>

definition digit_char :: "nat \<Rightarrow> jschar" where
  "digit_char d = of_nat (if d < 10 then 48 + d else 87 + d)"

text \<open>\<open>n.toString(r)\<close> for a non-negative integer and a radix of at least two.\<close>

fun num_str :: "nat \<Rightarrow> nat \<Rightarrow> jstring" where
  "num_str r n = (if n < r \<or> r < 2 then [digit_char n] else num_str r (n div r) @ [digit_char (n mod r)])"

declare num_str.simps [simp del]

definition padStart :: "nat \<Rightarrow> jschar \<Rightarrow> jstring \<Rightarrow> jstring" where
  "padStart n c s = replicate (n - length s) c @ s"

definition char_digit :: "jschar \<Rightarrow> nat option" where
  "char_digit c =
     (let n = unat c in
      if 48 \<le> n \<and> n \<le> 57 then Some (n - 48)
      else if 97 \<le> n \<and> n \<le> 122 then Some (n - 87)
      else if 65 \<le> n \<and> n \<le> 90 then Some (n - 55)
      else None)"

definition is_space :: "jschar \<Rightarrow> bool" where
  "is_space c \<longleftrightarrow>
     (let n = unat c in
      (9 \<le> n \<and> n \<le> 13) \<or> n = 32 \<or> n = 160 \<or> n = 5760 \<or> (8192 \<le> n \<and> n \<le> 8202)
      \<or> n = 8232 \<or> n = 8233 \<or> n = 8239 \<or> n = 8287 \<or> n = 12288 \<or> n = 65279)"

text \<open>
  \<open>Number.parseInt(s, r)\<close>: leading white space, an optional sign and (for radix 16) an
  optional \<open>0x\<close>, then the longest run of digits; \<open>None\<close> stands for NaN.
\<close>

fun digits_prefix :: "nat \<Rightarrow> jstring \<Rightarrow> nat list" where
  "digits_prefix r [] = []"
| "digits_prefix r (c # s) =
     (case char_digit c of
        Some d \<Rightarrow> if d < r then d # digits_prefix r s else []
      | None \<Rightarrow> [])"

definition digits_value :: "nat \<Rightarrow> nat list \<Rightarrow> nat" where
  "digits_value r ds = foldl (\<lambda>v d. v * r + d) 0 ds"

definition parseInt :: "nat \<Rightarrow> jstring \<Rightarrow> int option" where
  "parseInt r s =
     (let t = dropWhile is_space s;
          neg = (case t of c # _ \<Rightarrow> c = 45 | [] \<Rightarrow> False);
          u = (case t of c # w \<Rightarrow> if c = 45 \<or> c = 43 then w else t | [] \<Rightarrow> []);
          v = (if r = 16 \<and> (prefix (lit ''0x'') u \<or> prefix (lit ''0X'') u) then List.drop 2 u else u);
          ds = digits_prefix r v
      in if ds = [] then None
         else Some (if neg then - int (digits_value r ds) else int (digits_value r ds)))"

definition lower_char :: "jschar \<Rightarrow> jschar" where
  "lower_char c = (if 65 \<le> unat c \<and> unat c \<le> 90 then c + 32 else c)"

text \<open>\<open>s.toLowerCase()\<close> for strings whose letters are \<open>A-Z\<close> and \<open>a-z\<close>.\<close>

definition toLowerCase :: "jstring \<Rightarrow> jstring" where
  "toLowerCase s = List.map lower_char s"

subsection \<open>Laws of the number strings\<close>

fun nat_digits :: "nat \<Rightarrow> nat \<Rightarrow> nat list" where
  "nat_digits r n = (if n < r \<or> r < 2 then [n] else nat_digits r (n div r) @ [n mod r])"

declare nat_digits.simps [simp del]

lemma num_str_digits: "num_str r n = List.map digit_char (nat_digits r n)"
proof (induction r n rule: nat_digits.induct)
  case (1 r n)
  then show ?case by (simp add: num_str.simps [of r n] nat_digits.simps [of r n])
qed

lemma nat_digits_less: "2 \<le> r \<Longrightarrow> d \<in> set (nat_digits r n) \<Longrightarrow> d < r"
proof (induction r n rule: nat_digits.induct)
  case (1 r n)
  then show ?case by (auto simp: nat_digits.simps [of r n] split: if_splits)
qed

lemma digits_value_append: "digits_value r (ds @ [d]) = digits_value r ds * r + d"
  by (simp add: digits_value_def)

lemma digits_value_nat_digits [simp]: "2 \<le> r \<Longrightarrow> digits_value r (nat_digits r n) = n"
proof (induction r n rule: nat_digits.induct)
  case (1 r n)
  show ?case
  proof (cases "n < r")
    case True
    then show ?thesis by (simp add: nat_digits.simps [of r n] digits_value_def)
  next
    case False
    with 1 show ?thesis by (simp add: nat_digits.simps [of r n] digits_value_append)
  qed
qed

lemma nat_digits_not_Nil [simp]: "nat_digits r n \<noteq> []"
  by (subst nat_digits.simps) simp

lemma nat_digits_length: "2 \<le> r \<Longrightarrow> n < r ^ k \<Longrightarrow> 0 < k \<Longrightarrow> length (nat_digits r n) \<le> k"
proof (induction k arbitrary: n)
  case (Suc k)
  show ?case
  proof (cases "n < r")
    case True
    then show ?thesis by (simp add: nat_digits.simps [of r n])
  next
    case False
    with Suc.prems have "0 < k" by (cases k) auto
    moreover have "n div r < r ^ k" using Suc.prems by (simp add: less_mult_imp_div_less mult.commute)
    ultimately have "length (nat_digits r (n div r)) \<le> k" using Suc.IH Suc.prems by simp
    with False show ?thesis by (subst nat_digits.simps) simp
  qed
qed simp

lemma nat_digits_hd_pos: "2 \<le> r \<Longrightarrow> 0 < n \<Longrightarrow> 0 < hd (nat_digits r n)"
proof (induction r n rule: nat_digits.induct)
  case (1 r n)
  show ?case
  proof (cases "n < r")
    case True
    with 1 show ?thesis by (simp add: nat_digits.simps [of r n])
  next
    case False
    with 1 have "0 < n div r" by (simp add: div_greater_zero_iff)
    with 1 False show ?thesis by (simp add: nat_digits.simps [of r n])
  qed
qed

lemma unat_digit_char: "d < 36 \<Longrightarrow> unat (digit_char d) = (if d < 10 then 48 + d else 87 + d)"
  by (simp add: digit_char_def)

lemma char_digit_digit_char [simp]: "d < 36 \<Longrightarrow> char_digit (digit_char d) = Some d"
  by (auto simp: char_digit_def unat_digit_char Let_def)

lemma digits_prefix_map:
  "r \<le> 36 \<Longrightarrow> (\<And>d. d \<in> set ds \<Longrightarrow> d < r) \<Longrightarrow> digits_prefix r (List.map digit_char ds) = ds"
proof (induction ds)
  case (Cons a ds)
  have "a < r" using Cons.prems(2) [of a] by simp
  moreover have "digits_prefix r (List.map digit_char ds) = ds" using Cons by simp
  moreover have "char_digit (digit_char a) = Some a" using \<open>a < r\<close> Cons.prems(1) by simp
  ultimately show ?case by simp
qed simp

lemma num_str_not_Nil [simp]: "num_str r n \<noteq> []"
  by (simp add: num_str_digits)

lemma set_num_str:
  assumes "2 \<le> r" "r \<le> 36" "c \<in> set (num_str r n)"
  shows "\<exists>d<r. c = digit_char d"
  using assms nat_digits_less [of r _ n] by (auto simp: num_str_digits)

lemma num_str_range:
  assumes "2 \<le> r" "r \<le> 36" "c \<in> set (num_str r n)"
  shows "(48 \<le> unat c \<and> unat c \<le> 57) \<or> (97 \<le> unat c \<and> unat c \<le> 122)"
proof -
  obtain d where "d < r" "c = digit_char d" using set_num_str [OF assms] by blast
  with assms show ?thesis by (auto simp: unat_digit_char)
qed

lemma length_num_str: "2 \<le> r \<Longrightarrow> n < r ^ k \<Longrightarrow> 0 < k \<Longrightarrow> length (num_str r n) \<le> k"
  by (simp add: num_str_digits nat_digits_length)

lemma num_str_inject: "2 \<le> r \<Longrightarrow> r \<le> 36 \<Longrightarrow> num_str r m = num_str r n \<Longrightarrow> m = n"
proof -
  assume r: "2 \<le> r" "r \<le> 36" and eq: "num_str r m = num_str r n"
  have "digits_prefix r (num_str r k) = nat_digits r k" for k
    using r nat_digits_less [of r _ k] by (simp add: num_str_digits digits_prefix_map)
  with eq have "nat_digits r m = nat_digits r n" by metis
  then have "digits_value r (nat_digits r m) = digits_value r (nat_digits r n)" by simp
  with r show ?thesis by simp
qed

end
