(* ===== verification/JS_Text.thy ===== *)
theory JS_Text
  imports JS_String
begin

text \<open>
  \<open>TextEncoder\<close> and \<open>TextDecoder\<close> for UTF-8, as the Encoding standard defines them:
  the encoder replaces lone surrogates by U+FFFD; the decoder drops a leading byte order mark and
  replaces each malformed sequence by U+FFFD.
\<close>

definition is_high :: "jschar \<Rightarrow> bool" where
  "is_high c \<longleftrightarrow> 0xd800 \<le> unat c \<and> unat c < 0xdc00"

definition is_low :: "jschar \<Rightarrow> bool" where
  "is_low c \<longleftrightarrow> 0xdc00 \<le> unat c \<and> unat c < 0xe000"

text \<open>The scalar values of a string, lone surrogates replaced.\<close>

fun scalars :: "jstring \<Rightarrow> nat list" where
  "scalars [] = []"
| "scalars [c] = [if is_high c \<or> is_low c then 0xfffd else unat c]"
| "scalars (c # d # s) =
     (if is_high c \<and> is_low d
      then (0x10000 + (unat c - 0xd800) * 0x400 + (unat d - 0xdc00)) # scalars s
      else (if is_high c \<or> is_low c then 0xfffd else unat c) # scalars (d # s))"

definition utf8_bytes :: "nat \<Rightarrow> bytes" where
  "utf8_bytes n =
     (if n < 0x80 then [of_nat n]
      else if n < 0x800 then [of_nat (0xc0 + n div 0x40), of_nat (0x80 + n mod 0x40)]
      else if n < 0x10000 then
        [of_nat (0xe0 + n div 0x1000), of_nat (0x80 + n div 0x40 mod 0x40), of_nat (0x80 + n mod 0x40)]
      else [of_nat (0xf0 + n div 0x40000), of_nat (0x80 + n div 0x1000 mod 0x40),
            of_nat (0x80 + n div 0x40 mod 0x40), of_nat (0x80 + n mod 0x40)])"

definition utf8_encode :: "jstring \<Rightarrow> bytes" where
  "utf8_encode s = concat (List.map utf8_bytes (scalars s))"

text \<open>The decoder's state: the bytes still needed, the bounds of the next byte, the code point.\<close>

record utf8_state =
  u_needed :: nat
  u_lower :: nat
  u_upper :: nat
  u_code :: nat

definition utf8_start :: utf8_state where
  "utf8_start = \<lparr>u_needed = 0, u_lower = 0x80, u_upper = 0xbf, u_code = 0\<rparr>"

definition utf8_lead :: "nat \<Rightarrow> utf8_state option" where
  "utf8_lead b =
     (if 0xc2 \<le> b \<and> b \<le> 0xdf then Some (utf8_start\<lparr>u_needed := 1, u_code := b - 0xc0\<rparr>)
      else if 0xe0 \<le> b \<and> b \<le> 0xef then
        Some \<lparr>u_needed = 2, u_lower = (if b = 0xe0 then 0xa0 else 0x80),
              u_upper = (if b = 0xed then 0x9f else 0xbf), u_code = b - 0xe0\<rparr>
      else if 0xf0 \<le> b \<and> b \<le> 0xf4 then
        Some \<lparr>u_needed = 3, u_lower = (if b = 0xf0 then 0x90 else 0x80),
              u_upper = (if b = 0xf4 then 0x8f else 0xbf), u_code = b - 0xf0\<rparr>
      else None)"

fun utf8_step :: "utf8_state \<Rightarrow> nat \<Rightarrow> utf8_state \<times> nat list" where
  "utf8_step st b =
     (if u_needed st = 0 then
        (if b < 0x80 then (utf8_start, [b])
         else case utf8_lead b of Some st' \<Rightarrow> (st', []) | None \<Rightarrow> (utf8_start, [0xfffd]))
      else if b < u_lower st \<or> u_upper st < b then
        (if b < 0x80 then (utf8_start, [0xfffd, b])
         else case utf8_lead b of Some st' \<Rightarrow> (st', [0xfffd]) | None \<Rightarrow> (utf8_start, [0xfffd, 0xfffd]))
      else
        let code = u_code st * 0x40 + (b - 0x80) in
        if u_needed st = 1 then (utf8_start, [code])
        else (\<lparr>u_needed = u_needed st - 1, u_lower = 0x80, u_upper = 0xbf, u_code = code\<rparr>, []))"

fun utf8_scalars :: "utf8_state \<Rightarrow> bytes \<Rightarrow> nat list" where
  "utf8_scalars st [] = (if u_needed st = 0 then [] else [0xfffd])"
| "utf8_scalars st (b # bs) =
     (case utf8_step st (unat b) of (st', out) \<Rightarrow> out @ utf8_scalars st' bs)"

definition utf16 :: "nat \<Rightarrow> jstring" where
  "utf16 n =
     (if n < 0x10000 then [of_nat n]
      else [of_nat (0xd800 + (n - 0x10000) div 0x400), of_nat (0xdc00 + (n - 0x10000) mod 0x400)])"

definition utf8_decode :: "bytes \<Rightarrow> jstring" where
  "utf8_decode bs =
     concat (List.map utf16
       (utf8_scalars utf8_start (if prefix [0xef, 0xbb, 0xbf] bs then List.drop 3 bs else bs)))"

subsection \<open>Plain text\<close>

definition ascii :: "jstring \<Rightarrow> bool" where
  "ascii s \<longleftrightarrow> (\<forall>c\<in>set s. unat c < 0x80)"

lemma ascii_simps [simp]:
  "ascii []" "ascii (c # s) \<longleftrightarrow> unat c < 0x80 \<and> ascii s" "ascii (s @ t) \<longleftrightarrow> ascii s \<and> ascii t"
  by (auto simp: ascii_def)

lemma scalars_ascii: "ascii s \<Longrightarrow> scalars s = List.map unat s"
  by (induction s rule: scalars.induct) (auto simp: is_high_def is_low_def)

lemma utf8_encode_ascii: "ascii s \<Longrightarrow> utf8_encode s = List.map (\<lambda>c. of_nat (unat c)) s"
proof -
  assume a: "ascii s"
  have "concat (List.map utf8_bytes (List.map unat t)) = List.map (\<lambda>c. of_nat (unat c)) t"
    if "ascii t" for t
    using that by (induction t) (auto simp: utf8_bytes_def)
  with a show ?thesis by (simp add: utf8_encode_def scalars_ascii)
qed

lemma length_utf8_ascii [simp]: "ascii s \<Longrightarrow> length (utf8_encode s) = length s"
  by (simp add: utf8_encode_ascii)

lemma utf8_scalars_ascii:
  "(\<forall>b\<in>set bs. unat b < 0x80) \<Longrightarrow> utf8_scalars utf8_start bs = List.map unat bs"
  by (induction bs) (auto simp: utf8_start_def)

lemma utf8_decode_plain:
  assumes "\<forall>b\<in>set bs. unat b < 0x80"
  shows "utf8_decode bs = List.map (\<lambda>b. of_nat (unat b)) bs"
proof -
  have n: "\<not> prefix [0xef, 0xbb, 0xbf] bs"
    using assms by (cases bs) auto
  have "concat (List.map utf16 (List.map unat cs)) = List.map (\<lambda>b. of_nat (unat b)) cs"
    if "\<forall>b\<in>set cs. unat (b :: byte) < 0x80" for cs
    using that by (induction cs) (auto simp: utf16_def)
  with assms n show ?thesis by (simp add: utf8_decode_def utf8_scalars_ascii)
qed

lemma utf8_decode_encode_ascii: "ascii s \<Longrightarrow> utf8_decode (utf8_encode s) = s"
proof -
  assume a: "ascii s"
  have u: "unat (of_nat (unat c) :: byte) = unat c" if "c \<in> set s" for c
  proof -
    have "unat c < 2 ^ 8" using a that by (auto simp: ascii_def)
    then show ?thesis by (simp add: unsigned_ucast_eq take_bit_nat_eq_self)
  qed
  have "\<forall>b\<in>set (utf8_encode s). unat b < 0x80"
    using a u by (auto simp: utf8_encode_ascii ascii_def)
  then have "utf8_decode (utf8_encode s)
    = List.map (\<lambda>b. of_nat (unat b)) (List.map (\<lambda>c. of_nat (unat c) :: byte) s)"
    using a by (simp add: utf8_decode_plain utf8_encode_ascii)
  also have "\<dots> = s"
    unfolding map_map comp_def by (rule map_idI) (subst u, assumption, simp)
  finally show ?thesis .
qed

end
