(* ===== verification/JS_Map.thy ===== *)
theory JS_Map
  imports JS_Base "HOL-Library.Multiset"
begin

text \<open>
  JavaScript's \<open>Map\<close>: entries in insertion order, at most one per key. Setting a present
  key keeps its place; deleting and setting again moves it to the end. The locale states the laws
  the clients use; \<open>map_get\<close>, \<open>map_set\<close> and \<open>map_delete\<close> on lists of entries
  provide them.
\<close>

locale key_value_map =
  fixes get :: "'m \<Rightarrow> 'k \<Rightarrow> 'v option"
    and put :: "'k \<Rightarrow> 'v \<Rightarrow> 'm \<Rightarrow> 'm"
    and del :: "'k \<Rightarrow> 'm \<Rightarrow> 'm"
    and ok :: "'m \<Rightarrow> bool"
  assumes get_put: "get (put k v m) k' = (if k' = k then Some v else get m k')"
    and get_del: "ok m \<Longrightarrow> get (del k m) k' = (if k' = k then None else get m k')"
    and ok_put: "ok m \<Longrightarrow> ok (put k v m)"
    and ok_del: "ok m \<Longrightarrow> ok (del k m)"
begin

definition holds :: "('k \<Rightarrow> 'v \<Rightarrow> bool) \<Rightarrow> 'm \<Rightarrow> bool" where
  "holds P m \<longleftrightarrow> (\<forall>k v. get m k = Some v \<longrightarrow> P k v)"

lemma holds_put: "holds P m \<Longrightarrow> P k v \<Longrightarrow> holds P (put k v m)"
  by (simp add: holds_def get_put)

lemma holds_del: "ok m \<Longrightarrow> holds P m \<Longrightarrow> holds P (del k m)"
  by (simp add: holds_def get_del)

lemma get_put_same: "get (put k v m) k = Some v"
  by (simp add: get_put)

lemma get_del_same: "ok m \<Longrightarrow> get (del k m) k = None"
  by (simp add: get_del)

text \<open>Deleting a list of keys, as a loop over the entries does.\<close>

lemma get_foldl_del:
  "ok m \<Longrightarrow> get (foldl (\<lambda>m k. del k m) m ks) k' = (if k' \<in> set ks then None else get m k')
     \<and> ok (foldl (\<lambda>m k. del k m) m ks)"
  by (induction ks arbitrary: m) (auto simp: get_del ok_del)

end

type_synonym ('k, 'v) js_map = "('k \<times> 'v) list"

definition map_get :: "('k, 'v) js_map \<Rightarrow> 'k \<Rightarrow> 'v option" where
  "map_get m k = map_of m k"

fun map_set :: "'k \<Rightarrow> 'v \<Rightarrow> ('k, 'v) js_map \<Rightarrow> ('k, 'v) js_map" where
  "map_set k v [] = [(k, v)]"
| "map_set k v ((k', v') # m) = (if k' = k then (k, v) # m else (k', v') # map_set k v m)"

fun map_delete :: "'k \<Rightarrow> ('k, 'v) js_map \<Rightarrow> ('k, 'v) js_map" where
  "map_delete k [] = []"
| "map_delete k ((k', v') # m) = (if k' = k then m else (k', v') # map_delete k m)"

definition map_ok :: "('k, 'v) js_map \<Rightarrow> bool" where
  "map_ok m \<longleftrightarrow> distinct (List.map fst m)"

lemma map_get_simps [simp]:
  "map_get [] k = None" "map_get ((k', v) # m) k = (if k = k' then Some v else map_get m k)"
  by (auto simp: map_get_def)

lemma map_get_None_iff: "map_get m k = None \<longleftrightarrow> k \<notin> fst ` set m"
  by (auto simp: map_get_def map_of_eq_None_iff)

lemma map_get_set: "map_get (map_set k v m) k' = (if k' = k then Some v else map_get m k')"
  by (induction k v m rule: map_set.induct) auto

lemma fst_set_map_delete: "fst ` set (map_delete k m) \<subseteq> fst ` set m"
  by (induction k m rule: map_delete.induct) auto

lemma map_get_delete:
  "map_ok m \<Longrightarrow> map_get (map_delete k m) k' = (if k' = k then None else map_get m k')"
proof (induction k m rule: map_delete.induct)
  case (2 k k' v' m)
  then have "map_get m k' = None" by (simp add: map_ok_def map_get_None_iff)
  with 2 show ?case by (auto simp: map_ok_def)
qed simp

lemma fst_set_map_set: "fst ` set (map_set k v m) = insert k (fst ` set m)"
  by (induction k v m rule: map_set.induct) auto

lemma map_ok_set: "map_ok m \<Longrightarrow> map_ok (map_set k v m)"
proof (induction k v m rule: map_set.induct)
  case (2 k v k' v' m)
  then show ?case using fst_set_map_set [of k v m] by (auto simp: map_ok_def)
qed (simp add: map_ok_def)

lemma map_ok_delete: "map_ok m \<Longrightarrow> map_ok (map_delete k m)"
proof (induction k m rule: map_delete.induct)
  case (2 k k' v' m)
  then show ?case using fst_set_map_delete [of k m] by (auto simp: map_ok_def)
qed (simp add: map_ok_def)

interpretation js_map: key_value_map map_get map_set map_delete map_ok
  by unfold_locales (simp_all add: map_get_set map_get_delete map_ok_set map_ok_delete)

lemma map_ok_Nil [simp]: "map_ok []"
  by (simp add: map_ok_def)

lemma map_get_in_set: "map_ok m \<Longrightarrow> map_get m k = Some v \<longleftrightarrow> (k, v) \<in> set m"
  by (auto simp: map_ok_def map_get_def)

lemma set_map_set: "map_ok m \<Longrightarrow> set (map_set k v m) = insert (k, v) {e \<in> set m. fst e \<noteq> k}"
proof (induction k v m rule: map_set.induct)
  case (2 k v k' v' m)
  then have "k' \<notin> fst ` set m" by (simp add: map_ok_def)
  then have "fst e \<noteq> k'" if "e \<in> set m" for e using that by blast
  with 2 show ?case by (auto simp: map_ok_def)
qed simp

lemma set_map_delete: "map_ok m \<Longrightarrow> set (map_delete k m) = {e \<in> set m. fst e \<noteq> k}"
proof (induction k m rule: map_delete.induct)
  case (2 k k' v' m)
  then have "k' \<notin> fst ` set m" by (simp add: map_ok_def)
  then have "fst e \<noteq> k'" if "e \<in> set m" for e using that by blast
  with 2 show ?case by (auto simp: map_ok_def)
qed simp

text \<open>Setting and deleting one key.\<close>

lemma map_set_new: "map_get m k = None \<Longrightarrow> map_set k v m = m @ [(k, v)]"
  by (induction k v m rule: map_set.induct) (auto split: if_splits)

lemma map_delete_new: "map_get m k = None \<Longrightarrow> map_delete k (m @ [(k, v)]) = m"
  by (induction k m rule: map_delete.induct) (auto split: if_splits)

lemma map_delete_set_new: "map_get m k = None \<Longrightarrow> map_delete k (map_set k v m) = m"
  by (simp add: map_set_new map_delete_new)

lemma map_set_back: "map_get m k = Some v \<Longrightarrow> map_set k v (map_set k w m) = m"
  by (induction k w m rule: map_set.induct) (auto split: if_splits)

lemma filter_map_delete:
  "map_get m k = Some v \<Longrightarrow>
   length (filter P (map_delete k m)) + (if P (k, v) then 1 else 0) = length (filter P m)"
  by (induction k m rule: map_delete.induct) (auto split: if_splits)

lemma mset_map_delete: "map_get m k = Some v \<Longrightarrow> add_mset (k, v) (mset (map_delete k m)) = mset m"
  by (induction k m rule: map_delete.induct) (auto split: if_splits)

lemma map_delete_absent: "map_get m k = None \<Longrightarrow> map_delete k m = m"
  by (induction k m rule: map_delete.induct) (auto split: if_splits)

end
