(* ===== verification/JS_Sort.thy ===== *)
theory JS_Sort
  imports Main "HOL-Library.Multiset"
begin

text \<open>
  \<open>Array.prototype.sort\<close> with a comparator: a stable sort. The locale states what a
  comparator has to satisfy; under it the result is the sorted permutation and its first element
  is a best one.
\<close>

fun insert_cmp :: "('a \<Rightarrow> 'a \<Rightarrow> int) \<Rightarrow> 'a \<Rightarrow> 'a list \<Rightarrow> 'a list" where
  "insert_cmp cmp x [] = [x]"
| "insert_cmp cmp x (y # ys) = (if cmp x y \<le> 0 then x # y # ys else y # insert_cmp cmp x ys)"

definition js_sort :: "('a \<Rightarrow> 'a \<Rightarrow> int) \<Rightarrow> 'a list \<Rightarrow> 'a list" where
  "js_sort cmp xs = foldr (insert_cmp cmp) xs []"

lemma js_sort_simps [simp]:
  "js_sort cmp [] = []" "js_sort cmp (x # xs) = insert_cmp cmp x (js_sort cmp xs)"
  by (simp_all add: js_sort_def)

lemma mset_insert_cmp [simp]: "mset (insert_cmp cmp x ys) = add_mset x (mset ys)"
  by (induction ys) auto

lemma mset_js_sort [simp]: "mset (js_sort cmp xs) = mset xs"
  by (induction xs) auto

lemma set_js_sort [simp]: "set (js_sort cmp xs) = set xs"
  using mset_js_sort by (metis set_mset_mset)

lemma js_sort_Nil_iff [simp]: "js_sort cmp xs = [] \<longleftrightarrow> xs = []"
  by (metis list.set_intros(1) neq_Nil_conv set_empty set_js_sort empty_iff)

locale comparator =
  fixes cmp :: "'a \<Rightarrow> 'a \<Rightarrow> int"
  assumes total: "0 < cmp x y \<Longrightarrow> cmp y x \<le> 0"
    and trans: "cmp x y \<le> 0 \<Longrightarrow> cmp y z \<le> 0 \<Longrightarrow> cmp x z \<le> 0"
begin

lemma refl: "cmp x x \<le> 0"
  using total [of x x] by linarith

lemma sorted_insert:
  "sorted_wrt (\<lambda>a b. cmp a b \<le> 0) ys \<Longrightarrow> sorted_wrt (\<lambda>a b. cmp a b \<le> 0) (insert_cmp cmp x ys)"
proof (induction ys)
  case (Cons y ys)
  show ?case
  proof (cases "cmp x y \<le> 0")
    case True
    with Cons.prems show ?thesis by (auto intro: trans)
  next
    case False
    then have "cmp y x \<le> 0" using total by simp
    moreover have "set (insert_cmp cmp x ys) = insert x (set ys)"
      by (metis mset_insert_cmp set_mset_add_mset_insert set_mset_mset)
    ultimately show ?thesis using False Cons by auto
  qed
qed simp

lemma sorted_js_sort: "sorted_wrt (\<lambda>a b. cmp a b \<le> 0) (js_sort cmp xs)"
  by (induction xs) (simp_all add: sorted_insert)

lemma first_is_best:
  assumes "js_sort cmp xs = y # ys"
  shows "y \<in> set xs" "x \<in> set xs \<Longrightarrow> cmp y x \<le> 0"
proof -
  show "y \<in> set xs" using assms by (metis list.set_intros(1) set_js_sort)
  show "cmp y x \<le> 0" if "x \<in> set xs"
  proof -
    have "x \<in> insert y (set ys)" using that assms by (metis list.simps(15) set_js_sort)
    moreover have "\<forall>z\<in>set ys. cmp y z \<le> 0" using sorted_js_sort [of xs] assms by simp
    ultimately show ?thesis using refl by blast
  qed
qed

end

end
