(* ===== verification/JS_Table.thy ===== *)
theory JS_Table
  imports JS_Base
begin

text \<open>
  Constant objects used as tables of codes: \<open>Object.entries(table).find(([, value]) => value === x)\<close>
  and indexing by a key. The locale states what such a table has to satisfy for the two to be inverse.
\<close>

definition find_value :: "('a \<times> int) list \<Rightarrow> int \<Rightarrow> 'a option" where
  "find_value table x = map_option fst (List.find (\<lambda>e. snd e = x) table)"

definition table_at :: "('a \<times> int) list \<Rightarrow> 'a \<Rightarrow> int" where
  "table_at table k = the (map_of table k)"

lemma find_value_entry: "find_value table x = Some k \<Longrightarrow> (k, x) \<in> set table"
  unfolding find_value_def by (induction table) (auto split: if_splits)

lemma find_value_None: "find_value table x = None \<Longrightarrow> (k, x) \<notin> set table"
  unfolding find_value_def by (induction table) (auto split: if_splits)

locale code_table =
  fixes table :: "('a \<times> int) list"
  assumes total: "k \<in> fst ` set table"
    and keys: "distinct (List.map fst table)"
    and codes: "distinct (List.map snd table)"
begin

lemma entry: "(k, table_at table k) \<in> set table"
proof -
  have "map_of table k \<noteq> None" using total [of k] by (simp add: map_of_eq_None_iff)
  then show ?thesis by (auto simp: table_at_def dest: map_of_SomeD)
qed

lemma find_at [simp]: "find_value table (table_at table k) = Some k"
proof -
  obtain k' where k': "find_value table (table_at table k) = Some k'"
    using find_value_None [of table "table_at table k" k] entry [of k] by fastforce
  have "inj_on snd (set table)" using codes by (simp add: distinct_map)
  then have "(k', table_at table k) = (k, table_at table k)"
    by (rule inj_onD) (use find_value_entry [OF k'] entry [of k] in simp_all)
  with k' show ?thesis by simp
qed

lemma at_find: "find_value table x = Some k \<longleftrightarrow> x = table_at table k"
proof
  assume "find_value table x = Some k"
  then have "(k, x) \<in> set table" by (rule find_value_entry)
  then show "x = table_at table k" using keys by (simp add: table_at_def map_of_eq_Some_iff)
qed simp

lemma at_inject: "table_at table k = table_at table k' \<longleftrightarrow> k = k'"
  by (metis at_find option.inject)

end

end
