(* ===== verification/Wire_Util.thy ===== *)
theory Wire_Util
  imports JS_String
begin

text \<open>
  \<open>packages/wire/src/util.ts\<close>: the internet checksum and the strict number parsers.
  The checksum loop is proved equal to one's complement addition (RFC 1071) for every
  input of at most 64 KiB, the longest the packet formats allow.
\<close>

subsection \<open>The internet checksum\<close>

text \<open>\<open>checksumOffset && i >= checksumOffset && i < checksumOffset + 2\<close>: an offset of zero is falsy.\<close>

definition checksum_skip :: "nat option \<Rightarrow> nat \<Rightarrow> bool" where
  "checksum_skip off i =
     (case off of None \<Rightarrow> False | Some k \<Rightarrow> k \<noteq> 0 \<and> k \<le> i \<and> i < k + 2)"

text \<open>
  The first loop, on what is left of the data from index \<open>i\<close>. On an odd length the last
  \<open>data[i + 1]\<close> is \<open>undefined\<close>, which the bitwise or reads as zero.
\<close>

fun sum_words :: "nat option \<Rightarrow> nat \<Rightarrow> bytes \<Rightarrow> int \<Rightarrow> int" where
  "sum_words off i [] acc = acc"
| "sum_words off i [a] acc =
     (if checksum_skip off i then acc else acc + js_or (js_shl (uint a) 8) 0)"
| "sum_words off i (a # b # rest) acc =
     sum_words off (i + 2) rest
       (if checksum_skip off i then acc else acc + js_or (js_shl (uint a) 8) (uint b))"

text \<open>
  After one round the sum is within \<open>-32768 .. 98302\<close>; a negative sum needs one more
  round, a sum above 65535 at most one more.
\<close>

definition fold_measure :: "int \<Rightarrow> nat" where
  "fold_measure s =
     (if 0 \<le> s \<and> s < 65536 then 0 else if - 65536 < s \<and> s < 131071 then 1 else 2)"

lemma fold_step_bounds:
  "- 32768 \<le> js_and s 65535 + js_shr s 16 \<and> js_and s 65535 + js_shr s 16 < 98304"
proof -
  have a: "js_and s 65535 = to_int32 s mod 65536"
    using js_and_masks(7) [of "to_int32 s"] to_int32_bounds [of s] by (simp add: js_and_def)
  have b: "js_shr s 16 = to_int32 s div 65536"
    by (simp add: js_shr_def drop_bit_eq_div)
  have "0 \<le> to_int32 s mod 65536" "to_int32 s mod 65536 < 65536" by simp_all
  moreover have "- 32768 \<le> to_int32 s div 65536" "to_int32 s div 65536 < 32768"
    using to_int32_bounds [of s] by linarith+
  ultimately show ?thesis unfolding a b by linarith
qed

lemma fold_step_decreases:
  assumes "js_shr s 16 \<noteq> 0"
  shows "fold_measure (js_and s 65535 + js_shr s 16) < fold_measure s"
proof (cases "- 65536 < s \<and> s < 131071")
  case True
  then have e: "js_and s 65535 = s mod 65536" "js_shr s 16 = s div 65536"
    by (simp_all add: js_arith js_shr_def drop_bit_eq_div)
  have "s div 65536 = - 1 \<or> s div 65536 = 0 \<or> s div 65536 = 1" using True by linarith
  with assms e have d: "s div 65536 = - 1 \<or> s div 65536 = 1" by simp
  have m: "s = s div 65536 * 65536 + s mod 65536" by simp
  have r: "0 \<le> s mod 65536" "s mod 65536 < 65536" by simp_all
  from d have "0 \<le> s mod 65536 + s div 65536 \<and> s mod 65536 + s div 65536 < 65536"
    using r m True by linarith
  moreover have "\<not> (0 \<le> s \<and> s < 65536)" using d by auto
  ultimately show ?thesis using True unfolding e fold_measure_def by simp
next
  case False
  with fold_step_bounds [of s] show ?thesis by (auto simp: fold_measure_def)
qed

function fold_sum :: "int \<Rightarrow> int" where
  "fold_sum acc =
     (if js_shr acc 16 \<noteq> 0 then fold_sum (js_and acc 65535 + js_shr acc 16) else acc)"
  by pat_completeness auto
termination
  by (relation "measure fold_measure") (auto simp: fold_step_decreases)

declare fold_sum.simps [simp del]

definition calculateChecksum :: "bytes \<Rightarrow> nat option \<Rightarrow> int" where
  "calculateChecksum data off = js_and (js_not (fold_sum (sum_words off 0 data 0))) 65535"

subsection \<open>The checksum of RFC 1071, and that the loop computes it\<close>

fun be_words :: "bytes \<Rightarrow> int list" where
  "be_words [] = []"
| "be_words [a] = [uint a * 256]"
| "be_words (a # b # rest) = (uint a * 256 + uint b) # be_words rest"

definition oc_add :: "int \<Rightarrow> int \<Rightarrow> int" where
  "oc_add a b = (if a + b \<ge> 65536 then a + b - 65535 else a + b)"

definition rfc1071 :: "bytes \<Rightarrow> int" where
  "rfc1071 data = 65535 - foldl oc_add 0 (be_words data)"

text \<open>The data with the checksum field at \<open>k\<close> cleared.\<close>

definition blank :: "nat \<Rightarrow> bytes \<Rightarrow> bytes" where
  "blank k data = data[k := 0, Suc k := 0]"

definition word_sum :: "bytes \<Rightarrow> int" where
  "word_sum data = sum_list (be_words data)"

text \<open>The representative of a sum modulo 65535 that one's complement addition keeps.\<close>

definition oc_norm :: "int \<Rightarrow> int" where
  "oc_norm s = (if s = 0 then 0 else (s - 1) mod 65535 + 1)"

lemma word_sum_simps [simp]:
  "word_sum [] = 0" "word_sum [a] = uint a * 256"
  "word_sum (a # b # rest) = uint a * 256 + uint b + word_sum rest"
  by (simp_all add: word_sum_def)

lemma be_words_range: "w \<in> set (be_words d) \<Longrightarrow> 0 \<le> w \<and> w \<le> 65535"
proof (induction d rule: be_words.induct)
  case (2 a)
  then show ?case using uint_byte_bounds [of a] by simp
next
  case (3 a b rest)
  then show ?case using uint_byte_bounds [of a] uint_byte_bounds [of b] by auto
qed simp

lemma word_sum_nonneg [simp]: "0 \<le> word_sum d"
  using be_words_range [of _ d] by (auto simp: word_sum_def intro: sum_list_nonneg)

lemma word_sum_bound: "word_sum d \<le> 65535 * int ((length d + 1) div 2)"
proof (induction d rule: be_words.induct)
  case (2 a)
  then show ?case using uint_byte_bounds [of a] by simp
next
  case (3 a b rest)
  then show ?case using uint_byte_bounds [of a] uint_byte_bounds [of b] by simp
qed simp

lemma word_of_two_bytes:
  fixes a b :: byte
  shows "js_or (js_shl (uint a) 8) (uint b) = uint a * 256 + uint b"
  using uint_byte_bounds [of a] uint_byte_bounds [of b] by (simp add: js_arith)

lemma word_of_one_byte: "js_or (js_shl (uint a) 8) 0 = uint (a :: byte) * 256"
  using uint_byte_bounds [of a] by (simp add: js_arith)

lemma sum_words_None: "sum_words None i d acc = acc + word_sum d"
  by (induction "None :: nat option" i d acc rule: sum_words.induct)
     (simp_all add: checksum_skip_def word_of_two_bytes word_of_one_byte)

lemma sum_words_after: "k + 2 \<le> i \<Longrightarrow> sum_words (Some k) i d acc = acc + word_sum d"
  by (induction "Some k" i d acc rule: sum_words.induct)
     (simp_all add: checksum_skip_def word_of_two_bytes word_of_one_byte)

lemma sum_words_field:
  "0 < k \<Longrightarrow> i \<le> k \<Longrightarrow> even (k - i) \<Longrightarrow>
   sum_words (Some k) i d acc = acc + word_sum (blank (k - i) d)"
proof (induction "Some k" i d acc rule: sum_words.induct)
  case (1 i acc)
  then show ?case by (simp add: blank_def)
next
  case (2 i a acc)
  show ?case
  proof (cases "k = i")
    case True
    with 2 show ?thesis by (simp add: blank_def checksum_skip_def)
  next
    case False
    with 2 obtain m where "k - i = Suc m" by (cases "k - i") auto
    with 2 False show ?thesis by (simp add: blank_def checksum_skip_def word_of_one_byte)
  qed
next
  case (3 i a b rest acc)
  show ?case
  proof (cases "k = i")
    case True
    with 3 show ?thesis by (simp add: blank_def checksum_skip_def sum_words_after)
  next
    case False
    have "i + 2 \<le> k" using False 3(3,4) by presburger
    then have m: "k - i = Suc (Suc (k - (i + 2)))" by simp
    have "sum_words (Some k) (i + 2) rest (acc + (uint a * 256 + uint b))
      = acc + (uint a * 256 + uint b) + word_sum (blank (k - (i + 2)) rest)"
      using 3 False \<open>i + 2 \<le> k\<close> by (simp add: checksum_skip_def word_of_two_bytes)
    with False \<open>i + 2 \<le> k\<close> show ?thesis
      by (simp add: m blank_def checksum_skip_def word_of_two_bytes)
  qed
qed

lemma fold_sum_norm: "0 \<le> s \<Longrightarrow> s < 2147483648 \<Longrightarrow> fold_sum s = oc_norm s"
proof (induction s rule: fold_sum.induct)
  case (1 s)
  have e: "js_and s 65535 = s mod 65536" "js_shr s 16 = s div 65536"
    using 1 by (simp_all add: js_arith)
  show ?case
  proof (cases "s < 65536")
    case True
    with 1 e show ?thesis by (subst fold_sum.simps) (simp add: oc_norm_def)
  next
    case False
    let ?t = "s mod 65536 + s div 65536"
    have m: "s = s div 65536 * 65536 + s mod 65536" by simp
    have r: "0 \<le> s mod 65536" "s mod 65536 < 65536" by simp_all
    have q: "1 \<le> s div 65536" "s div 65536 < 32768" using False 1 by linarith+
    have "fold_sum s = fold_sum ?t"
      using q e by (subst fold_sum.simps) simp
    also have "\<dots> = oc_norm ?t"
      using 1 e q r by simp
    also have "\<dots> = oc_norm s"
    proof -
      have "s - 1 = (?t - 1) + s div 65536 * 65535" using m by linarith
      then have "(s - 1) mod 65535 = (?t - 1) mod 65535" by (metis mod_mult_self1)
      with q r False show ?thesis by (simp add: oc_norm_def)
    qed
    finally show ?thesis .
  qed
qed

lemma oc_norm_range: "0 \<le> s \<Longrightarrow> 0 \<le> oc_norm s \<and> oc_norm s \<le> 65535"
proof -
  assume "0 \<le> s"
  have "0 \<le> (s - 1) mod 65535" "(s - 1) mod 65535 < 65535" by simp_all
  then have "(s - 1) mod 65535 + 1 \<le> 65535" "0 \<le> (s - 1) mod 65535 + 1" by linarith+
  then show ?thesis by (simp add: oc_norm_def)
qed

lemma oc_add_norm:
  assumes "0 \<le> s" "0 \<le> w" "w \<le> 65535"
  shows "oc_add (oc_norm s) w = oc_norm (s + w)"
proof (cases "s = 0 \<or> w = 0")
  case True
  with assms oc_norm_range [of s] show ?thesis by (auto simp: oc_add_def oc_norm_def)
next
  case False
  define r where "r = (s - 1) mod 65535"
  have r: "0 \<le> r" "r < 65535" by (simp_all add: r_def)
  have "(s + w - 1) mod 65535 = ((s - 1) + w) mod 65535" by (simp add: algebra_simps)
  also have "\<dots> = (r + w) mod 65535" by (simp add: r_def mod_add_left_eq)
  finally have m: "(s + w - 1) mod 65535 = (r + w) mod 65535" .
  show ?thesis
  proof (cases "r + w < 65535")
    case True
    with r assms have "(r + w) mod 65535 = r + w" by (simp add: mod_pos_pos_trivial)
    with False True assms m show ?thesis by (simp add: oc_add_def oc_norm_def flip: r_def)
  next
    case ge: False
    have "(r + w) mod 65535 = (r + w - 65535) mod 65535"
      by (rule mod_pos_geq) (use ge in simp_all)
    also have "\<dots> = r + w - 65535" using ge r assms by (intro mod_pos_pos_trivial) auto
    finally show ?thesis
      using False ge assms m by (simp add: oc_add_def oc_norm_def flip: r_def)
  qed
qed

lemma foldl_oc_add:
  assumes "0 \<le> s" "\<And>w. w \<in> set ws \<Longrightarrow> 0 \<le> w \<and> w \<le> 65535"
  shows "foldl oc_add (oc_norm s) ws = oc_norm (s + sum_list ws)"
  using assms
proof (induction ws arbitrary: s)
  case (Cons w ws)
  have "0 \<le> w" "w \<le> 65535" using Cons.prems(2) [of w] by simp_all
  with Cons have "foldl oc_add (oc_norm (s + w)) ws = oc_norm (s + w + sum_list ws)"
    by (intro Cons.IH) auto
  with Cons.prems \<open>0 \<le> w\<close> \<open>w \<le> 65535\<close> show ?case by (simp add: oc_add_norm add.assoc)
qed simp

lemma rfc1071_norm: "rfc1071 d = 65535 - oc_norm (word_sum d)"
  using foldl_oc_add [of 0 "be_words d"] be_words_range [of _ d]
  by (simp add: rfc1071_def word_sum_def oc_norm_def)

lemma complement_16: "0 \<le> x \<Longrightarrow> x \<le> 65535 \<Longrightarrow> js_and (js_not x) 65535 = 65535 - x"
proof -
  assume x: "0 \<le> x" "x \<le> 65535"
  have "(- x - 1) mod 65536 = (- x - 1 + 65536) mod 65536" by (rule mod_add_self2 [symmetric])
  also have "\<dots> = 65535 - x" using x by (subst mod_pos_pos_trivial) auto
  finally show ?thesis using x by (simp add: js_arith)
qed

text \<open>Inputs of at most 64 KiB: their sum stays below the sign bit of the 32-bit shifts.\<close>

lemma word_sum_small: "length d \<le> 65536 \<Longrightarrow> word_sum d < 2147483648"
proof -
  assume "length d \<le> 65536"
  then have "int ((length d + 1) div 2) \<le> 32768" by simp
  then show ?thesis using word_sum_bound [of d] by linarith
qed

lemma length_blank [simp]: "length (blank k d) = length d"
  by (simp add: blank_def)

lemma calculateChecksum_eq_rfc1071:
  assumes "length d \<le> 65536"
  shows "calculateChecksum d None = rfc1071 d"
    "0 < k \<Longrightarrow> even k \<Longrightarrow> calculateChecksum d (Some k) = rfc1071 (blank k d)"
  using assms word_sum_small [of d] word_sum_small [of "blank k d"]
    oc_norm_range [of "word_sum d"] oc_norm_range [of "word_sum (blank k d)"]
  by (simp_all add: calculateChecksum_def sum_words_None sum_words_field fold_sum_norm
      rfc1071_norm complement_16)

lemma rfc1071_range: "0 \<le> rfc1071 d \<and> rfc1071 d \<le> 65535"
  using oc_norm_range [of "word_sum d"] by (simp add: rfc1071_norm)

lemma js_and_16_range: "0 \<le> js_and a 65535 \<and> js_and a 65535 < 65536"
proof -
  have "js_and a 65535 = to_int32 a mod 65536"
    using js_and_masks(7) [of "to_int32 a"] to_int32_bounds [of a] by (simp add: js_and_def)
  then show ?thesis by simp
qed

lemma calculateChecksum_range: "0 \<le> calculateChecksum d off" "calculateChecksum d off < 65536"
  using js_and_16_range by (simp_all add: calculateChecksum_def)

text \<open>
  The contract between a serializer that stores the checksum of its buffer in a field and
  the parser that verifies it, with a prefix (the pseudo-header) that only the checksum covers.
\<close>

locale checksum_field =
  fixes field :: nat
  assumes even_field: "even field" and pos_field: "0 < field"
begin

lemma checksum_ignores_field:
  "even (length p) \<Longrightarrow> blank field d = blank field d' \<Longrightarrow>
   calculateChecksum (p @ d) (Some (length p + field)) = calculateChecksum (p @ d') (Some (length p + field))"
  using even_field pos_field
  by (simp add: calculateChecksum_def sum_words_field blank_def list_update_append
      flip: add_Suc_right)

lemma checksum_stored:
  assumes "even (length p)" "field + 2 \<le> length d"
    "c = calculateChecksum (p @ d) (Some (length p + field))"
    "d' = d[field := of_int (c div 256), Suc field := of_int c]"
  shows "getUint16 d' field = Inr c"
    "calculateChecksum (p @ d') (Some (length p + field)) = c"
proof -
  have c: "0 \<le> c" "c < 65536" using calculateChecksum_range assms(3) by simp_all
  show "getUint16 d' field = Inr c"
    using assms(2,4) split16 [OF c] by (simp add: getUint16_def nth_list_update)
  have "blank field d' = blank field d"
    using assms(4) by (simp add: blank_def list_update_swap)
  then show "calculateChecksum (p @ d') (Some (length p + field)) = c"
    using checksum_ignores_field [OF assms(1), of d' d] assms(3) by simp
qed

end

text \<open>Equal checksums mean congruent sums: what the checksum can and cannot detect.\<close>

lemma rfc1071_eq_iff:
  "rfc1071 d = rfc1071 d' \<longleftrightarrow> oc_norm (word_sum d) = oc_norm (word_sum d')"
  by (simp add: rfc1071_norm)

lemma oc_norm_cong: "0 \<le> s \<Longrightarrow> oc_norm s mod 65535 = s mod 65535"
proof -
  have "((s - 1) mod 65535 + 1) mod 65535 = s mod 65535"
    by (metis diff_add_cancel mod_add_left_eq)
  then show ?thesis by (simp add: oc_norm_def)
qed

lemma rfc1071_mod: "(rfc1071 d + word_sum d) mod 65535 = 0"
proof -
  have "(rfc1071 d + word_sum d) mod 65535 = (65535 - oc_norm (word_sum d) + word_sum d) mod 65535"
    by (simp add: rfc1071_norm)
  also have "\<dots> = (65535 - oc_norm (word_sum d) mod 65535 + word_sum d) mod 65535"
    by (metis mod_add_left_eq mod_diff_right_eq)
  also have "\<dots> = (65535 - word_sum d mod 65535 + word_sum d) mod 65535"
    by (simp add: oc_norm_cong)
  also have "\<dots> = (65535 - word_sum d + word_sum d) mod 65535"
    by (metis mod_add_left_eq mod_diff_right_eq)
  finally show ?thesis by simp
qed

subsection \<open>Strict number parsing\<close>

text \<open>The loop of \<open>parseUint\<close>, with the value so far.\<close>

fun parseUint_loop :: "int \<Rightarrow> jstring \<Rightarrow> int res" where
  "parseUint_loop value [] = Inr value"
| "parseUint_loop value (char # rest) =
     (if unat char < 48 \<or> unat char > 57 then throw ''invalid character''
      else parseUint_loop (value * 10 + (int (unat char) - 48)) rest)"

definition parseUint :: "jstring \<Rightarrow> int res" where
  "parseUint str = (if length str = 0 then throw ''empty string'' else parseUint_loop 0 str)"

fun parseHex_loop :: "int \<Rightarrow> jstring \<Rightarrow> int res" where
  "parseHex_loop value [] = Inr value"
| "parseHex_loop value (c # rest) =
     (let char = int (unat c) in
      bnd (if char \<ge> 48 \<and> char \<le> 57 then Inr (char - 48)
           else if char \<ge> 97 \<and> char \<le> 102 then Inr (char - 87)
           else if char \<ge> 65 \<and> char \<le> 70 then Inr (char - 55)
           else throw ''invalid hex character'')
        (\<lambda>digit. parseHex_loop (js_or (js_shl value 4) digit) rest))"

definition parseHex :: "jstring \<Rightarrow> int res" where
  "parseHex hex = parseHex_loop 0 hex"

definition is_digit :: "jschar \<Rightarrow> bool" where
  "is_digit c \<longleftrightarrow> 48 \<le> unat c \<and> unat c \<le> 57"

definition dec_value :: "jstring \<Rightarrow> nat" where
  "dec_value s = digits_value 10 (List.map (\<lambda>c. unat c - 48) s)"

lemma parseUint_loop_eq:
  "parseUint_loop v s =
     (if list_all is_digit s
      then Inr (v * 10 ^ length s + int (dec_value s)) else throw ''invalid character'')"
proof (induction v s rule: parseUint_loop.induct)
  case (2 v c s)
  have shift: "foldl (\<lambda>v d. v * r + d) a ds = a * r ^ length ds + foldl (\<lambda>v d. v * r + d) 0 ds"
    for r a :: nat and ds
  proof (induction ds arbitrary: a)
    case (Cons d ds)
    show ?case using Cons [of "a * r + d"] Cons [of d] by (simp add: algebra_simps)
  qed simp
  have "dec_value (c # s) = (unat c - 48) * 10 ^ length s + dec_value s"
    using shift [of 10 "unat c - 48" "List.map (\<lambda>c. unat c - 48) s"]
    by (simp add: dec_value_def digits_value_def)
  show ?case
  proof (cases "is_digit c")
    case True
    then obtain e where e: "unat c = 48 + e" by (metis is_digit_def le_Suc_ex)
    then have "uint c = 48 + int e" by (metis of_nat_add of_nat_numeral uint_nat)
    moreover have "dec_value (c # s) = e * 10 ^ length s + dec_value s"
      using e \<open>dec_value (c # s) = _\<close> by simp
    ultimately show ?thesis using 2 True e by (auto simp: is_digit_def algebra_simps)
  next
    case False
    then show ?thesis by (auto simp: is_digit_def)
  qed
qed (simp add: dec_value_def digits_value_def)

lemma parseUint_eq:
  "parseUint s = (if s = [] then throw ''empty string''
                  else if list_all is_digit s then Inr (int (dec_value s))
                  else throw ''invalid character'')"
  by (simp add: parseUint_def parseUint_loop_eq)

lemma num_str_10_digits: "list_all is_digit (num_str 10 n)"
proof -
  have "is_digit c" if c: "c \<in> set (num_str 10 n)" for c
  proof -
    obtain d where "d < 10" "c = digit_char d" using set_num_str [of 10 c n] c by auto
    then show ?thesis by (simp add: is_digit_def unat_digit_char)
  qed
  then show ?thesis by (simp add: list_all_iff)
qed

lemma dec_value_num_str [simp]: "dec_value (num_str 10 n) = n"
proof -
  have "List.map (\<lambda>c. unat c - 48) (num_str 10 n) = nat_digits 10 n"
    using nat_digits_less [of 10 _ n]
    by (force simp: num_str_digits unat_digit_char intro: map_idI)
  then show ?thesis by (simp add: dec_value_def)
qed

lemma parseUint_num_str [simp]: "parseUint (num_str 10 n) = Inr (int n)"
  by (simp add: parseUint_eq num_str_10_digits)

text \<open>Hex strings of at most seven digits stay clear of the sign bit.\<close>

lemma parseHex_loop_digits:
  assumes "0 \<le> v" "v < 16 ^ k" "k + length ds \<le> 7" "\<And>d. d \<in> set ds \<Longrightarrow> d < 16"
  shows "parseHex_loop v (List.map digit_char ds) = Inr (foldl (\<lambda>v d. v * 16 + int d) v ds)"
  using assms
proof (induction ds arbitrary: v k)
  case (Cons d ds)
  have d: "d < 16" using Cons.prems(4) [of d] by simp
  have "(16::int) ^ Suc k \<le> 16 ^ 7" using Cons.prems(3) by (intro power_increasing) auto
  moreover have b: "v * 16 + int d < 16 ^ Suc k" using Cons.prems(2) d by simp
  ultimately have "v * 16 + int d < 2147483648" by simp
  then have step: "js_or (js_shl v 4) (int d) = v * 16 + int d"
    using Cons.prems(1) d by (simp add: js_arith)
  have "parseHex_loop (v * 16 + int d) (List.map digit_char ds)
    = Inr (foldl (\<lambda>v d. v * 16 + int d) (v * 16 + int d) ds)"
    using Cons.prems b by (intro Cons.IH [of _ "Suc k"]) auto
  with d step show ?case by (auto simp: unat_digit_char)
qed simp

lemma foldl_int_digits:
  "foldl (\<lambda>v d. v * int r + int d) (int a) ds = int (foldl (\<lambda>v d. v * r + d) a ds)"
proof (induction ds arbitrary: a)
  case (Cons d ds)
  show ?case using Cons [of "a * r + d"] by simp
qed simp

lemma parseHex_digits:
  assumes "length ds \<le> 7" "\<And>d. d \<in> set ds \<Longrightarrow> d < 16"
  shows "parseHex (List.map digit_char ds) = Inr (int (digits_value 16 ds))"
  using parseHex_loop_digits [of 0 0 ds] assms foldl_int_digits [of 16 0 ds]
  by (simp add: parseHex_def digits_value_def)

subsection \<open>Properties\<close>

text \<open>C9: \<open>calculateChecksum\<close> is the Internet checksum of RFC 1071 (the complement of the
  one's complement sum of the big-endian words, a last odd byte padded), for every buffer that
  an IPv4 packet with its pseudo-header can fill; with a field to skip, it is the checksum of the
  buffer with that field zeroed.\<close>

theorem checksum_is_rfc1071:
  assumes "length data \<le> 65536" "0 < k" "even k"
  shows "calculateChecksum data None = rfc1071 data
    \<and> calculateChecksum data (Some k) = rfc1071 (data[k := 0, Suc k := 0])"
  using calculateChecksum_eq_rfc1071 [OF assms(1)] assms(2,3) by (simp_all add: blank_def)

theorem checksum_is_rfc1071_witness:
  "calculateChecksum [0x45, 0, 0, 0x1c, 0xab] None = 0xfe3
   \<and> calculateChecksum [0x45, 0, 0x12, 0x34, 0xab] (Some 2) = 0xfff"
proof -
  have r: "rfc1071 [0x45, 0, 0, 0x1c, 0xab] = 0xfe3"
      "rfc1071 ([0x45, 0, 0x12, 0x34, 0xab][2 := 0, Suc 2 := 0]) = 0xfff"
    by code_simp+
  have "length [0x45, 0, 0, 0x1c, 0xab :: byte] \<le> 65536" "length [0x45, 0, 0x12, 0x34, 0xab :: byte] \<le> 65536"
      "(0::nat) < 2" "even (2::nat)" by simp_all
  from checksum_is_rfc1071 [OF this(1,3,4)] checksum_is_rfc1071 [OF this(2,3,4)]
  show ?thesis by (simp only: r)
qed

text \<open>Whatever the input and the field to skip, \<open>calculateChecksum\<close> returns, and its
  result fits the 16-bit field it is stored in.\<close>

theorem checksum_fits_field: "\<exists>c. calculateChecksum data off = c \<and> 0 \<le> c \<and> c \<le> 0xffff"
  using calculateChecksum_range [of data off] by simp

end
