(* ===== verification/Wire_Addr.thy ===== *)
theory Wire_Addr
  imports Wire_Util
begin

text \<open>
  The address functions of \<open>packages/wire/src/ethernet.ts\<close> and
  \<open>packages/wire/src/ipv4.ts\<close>: MAC and IPv4 addresses as text and bytes, the ethertype and
  protocol numbers, CIDR notation, netmasks and the pseudo-header of the transport checksums.
  The locale \<open>codec\<close> is the contract that a serializer and its parser share; each pair
  is an interpretation of it.
\<close>

subsection \<open>The contract of a serializer and its parser\<close>

locale codec =
  fixes ser :: "'a \<Rightarrow> bytes res" and par :: "bytes \<Rightarrow> 'a res" and valid :: "'a \<Rightarrow> bool"
  assumes ser_total: "valid x \<Longrightarrow> \<exists>bs. ser x = Inr bs"
    and par_ser: "valid x \<Longrightarrow> ser x = Inr bs \<Longrightarrow> par bs = Inr x"
begin

lemma ser_inject: "valid x \<Longrightarrow> valid y \<Longrightarrow> ser x = ser y \<Longrightarrow> x = y"
  using ser_total [of x] par_ser [of x] par_ser [of y] by auto

lemma roundtrip: "valid x \<Longrightarrow> bnd (ser x) par = Inr x"
  using ser_total [of x] par_ser [of x] by auto

end

locale fixed_codec = codec +
  fixes width :: nat
  assumes ser_length: "valid x \<Longrightarrow> ser x = Inr bs \<Longrightarrow> length bs = width"
begin

lemma ser_ex: "valid x \<Longrightarrow> \<exists>bs. ser x = Inr bs \<and> length bs = width \<and> par bs = Inr x"
  using ser_total [of x] par_ser [of x] ser_length [of x] by blast

end

subsection \<open>MAC addresses\<close>

definition hex_byte :: "byte \<Rightarrow> jstring" where
  "hex_byte b = padStart 2 48 (num_str 16 (unat b))"

definition parseMacAddress :: "bytes \<Rightarrow> jstring res" where
  "parseMacAddress mac =
     (if length mac \<noteq> 6 then throw ''invalid mac address''
      else Inr (js_join (lit '':'') (List.map hex_byte mac)))"

definition serializeMacAddress :: "jstring \<Rightarrow> bytes res" where
  "serializeMacAddress mac =
     (let segments = js_split (lit '':'') mac in
      if length segments \<noteq> 6 then throw ''invalid mac address''
      else mapM (\<lambda>byte. case parseInt 16 byte of
                   None \<Rightarrow> throw ''invalid mac address''
                 | Some parsed \<Rightarrow> Inr (of_int parsed)) segments)"

text \<open>\<open>random\<close> is what \<open>crypto.getRandomValues\<close> filled in, six bytes.\<close>

definition generateMacAddress :: "bytes \<Rightarrow> bytes" where
  "generateMacAddress random =
     random[0 := of_int (js_or (js_and (uint (random ! 0)) 252) 2)]"

definition mac_text :: "bytes \<Rightarrow> jstring" where
  "mac_text bs = js_join (lit '':'') (List.map hex_byte bs)"

definition valid_mac :: "jstring \<Rightarrow> bool" where
  "valid_mac s \<longleftrightarrow> (\<exists>bs. length bs = 6 \<and> s = mac_text bs)"

lemma lit_sep: "lit '':'' = [58]" "lit ''.'' = [46]" "lit ''/'' = [47]" "lit ''::'' = [58, 58]"
  by (simp_all add: lit_simps)

lemma unat_byte_less: "unat (b :: byte) < 256"
  using unsigned_less [of b, where ?'a = nat] by simp

definition byte_nibbles :: "byte \<Rightarrow> nat list" where
  "byte_nibbles b = [unat b div 16, unat b mod 16]"

lemma hex_byte_nibbles: "hex_byte b = List.map digit_char (byte_nibbles b)"
proof (cases "unat b < 16")
  case True
  then show ?thesis
    by (simp add: hex_byte_def byte_nibbles_def padStart_def num_str.simps [of 16 "unat b"]
        digit_char_def)
next
  case False
  then have "unat b div 16 < 16" using unat_byte_less [of b] by simp
  with False show ?thesis
    by (simp add: hex_byte_def byte_nibbles_def padStart_def num_str.simps [of 16 "unat b"]
        num_str.simps [of 16 "unat b div 16"])
qed

lemma byte_nibbles_less: "d \<in> set (byte_nibbles b) \<Longrightarrow> d < 16"
  using unat_byte_less [of b] by (auto simp: byte_nibbles_def)

lemma digits_value_nibbles: "digits_value 16 (byte_nibbles b) = unat b"
  by (simp add: digits_value_def byte_nibbles_def)

lemma digit_char_not_sep:
  assumes "d < 36"
  shows "digit_char d \<noteq> 58" "digit_char d \<noteq> 46" "digit_char d \<noteq> 47"
  using unat_digit_char [OF assms] assms by (auto split: if_splits)

lemma digit_char_not_special:
  assumes "d < 16"
  shows "digit_char d \<noteq> 120" "digit_char d \<noteq> 88" "digit_char d \<noteq> 45" "digit_char d \<noteq> 43"
proof -
  have "unat (digit_char d) = (if d < 10 then 48 + d else 87 + d)"
    using assms by (simp add: unat_digit_char)
  then show "digit_char d \<noteq> 120" "digit_char d \<noteq> 88" "digit_char d \<noteq> 45" "digit_char d \<noteq> 43"
    using assms by (auto split: if_splits)
qed

lemma num_str_not_sep: "2 \<le> r \<Longrightarrow> r \<le> 36 \<Longrightarrow> 58 \<notin> set (num_str r n) \<and> 46 \<notin> set (num_str r n) \<and> 47 \<notin> set (num_str r n)"
  using set_num_str [of r _ n] digit_char_not_sep by fastforce

lemma hex_byte_not_sep: "58 \<notin> set (hex_byte b)"
  using byte_nibbles_less [of _ b] digit_char_not_sep(1) by (fastforce simp: hex_byte_nibbles)

lemma not_space: "48 \<le> unat c \<Longrightarrow> unat c \<le> 122 \<Longrightarrow> \<not> is_space c"
  unfolding is_space_def Let_def by linarith

lemma digit_char_not_space: "d < 36 \<Longrightarrow> \<not> is_space (digit_char d)"
  by (rule not_space) (simp_all add: unat_digit_char)

lemma hex_byte_plain:
  "dropWhile is_space (hex_byte b) = hex_byte b"
  "\<not> prefix (lit ''0x'') (hex_byte b)" "\<not> prefix (lit ''0X'') (hex_byte b)"
  "\<exists>c w. hex_byte b = c # w \<and> c \<noteq> 45 \<and> c \<noteq> 43"
proof -
  obtain h l where hl: "byte_nibbles b = [h, l]" "h < 16" "l < 16"
    using unat_byte_less [of b] by (simp add: byte_nibbles_def)
  note special = digit_char_not_special [OF hl(2)] digit_char_not_special [OF hl(3)]
  show "dropWhile is_space (hex_byte b) = hex_byte b"
    using hl by (simp add: hex_byte_nibbles digit_char_not_space)
  show "\<not> prefix (lit ''0x'') (hex_byte b)" "\<not> prefix (lit ''0X'') (hex_byte b)"
    using hl(1) special by (auto simp: hex_byte_nibbles lit_simps)
  show "\<exists>c w. hex_byte b = c # w \<and> c \<noteq> 45 \<and> c \<noteq> 43"
    using hl(1) special by (simp add: hex_byte_nibbles)
qed

lemma parseInt_hex_byte [simp]: "parseInt 16 (hex_byte b) = Some (int (unat b))"
proof -
  obtain c w where cw: "hex_byte b = c # w" "c \<noteq> 45" "c \<noteq> 43" using hex_byte_plain(4) [of b] by blast
  have "digits_prefix 16 (hex_byte b) = byte_nibbles b"
    using byte_nibbles_less [of _ b] by (simp add: hex_byte_nibbles digits_prefix_map)
  moreover have "byte_nibbles b \<noteq> []" by (simp add: byte_nibbles_def)
  ultimately show ?thesis
    using hex_byte_plain [of b] cw by (simp add: parseInt_def digits_value_nibbles)
qed

lemma serialize_mac_text:
  assumes "length bs = 6"
  shows "serializeMacAddress (mac_text bs) = Inr bs"
proof -
  have "js_split [58] (mac_text bs) = List.map hex_byte bs"
    using assms hex_byte_not_sep by (auto simp: mac_text_def lit_sep intro!: js_split_join)
  then show ?thesis
    using assms mapM_Inr [of bs _ id]
    by (simp add: serializeMacAddress_def lit_sep mapM_map comp_def Let_def)
qed

lemma parse_mac: "length bs = 6 \<Longrightarrow> parseMacAddress bs = Inr (mac_text bs)"
  by (simp add: parseMacAddress_def mac_text_def)

interpretation mac: fixed_codec serializeMacAddress parseMacAddress valid_mac 6
  by unfold_locales (auto simp: valid_mac_def serialize_mac_text parse_mac)

lemma valid_mac_text [simp]: "length bs = 6 \<Longrightarrow> valid_mac (mac_text bs)"
  by (auto simp: valid_mac_def)

subsection \<open>Ethertypes and protocol numbers\<close>

datatype ethertype = Ether_ipv4 | Ether_ipv6 | Ether_arp

definition parseEthernetType :: "bytes \<Rightarrow> ethertype res" where
  "parseEthernetType etherType =
     bnd (getUint16 etherType 0) (\<lambda>type.
       if type = 0x0800 then Inr Ether_ipv4
       else if type = 0x86dd then Inr Ether_ipv6
       else if type = 0x0806 then Inr Ether_arp
       else throw ''unknown ethernet type'')"

definition serializeEthernetType :: "ethertype \<Rightarrow> bytes res" where
  "serializeEthernetType type =
     writes [setUint16 0 (Inr (case type of
         Ether_ipv4 \<Rightarrow> 0x0800 | Ether_ipv6 \<Rightarrow> 0x86dd | Ether_arp \<Rightarrow> 0x0806))]
       (replicate 2 0)"

lemma serializeEthernetType_bytes:
  "serializeEthernetType t = Inr (case t of
     Ether_ipv4 \<Rightarrow> [8, 0] | Ether_ipv6 \<Rightarrow> [0x86, 0xdd] | Ether_arp \<Rightarrow> [8, 6])"
  by (cases t) (simp_all add: serializeEthernetType_def layout)

interpretation ether: fixed_codec serializeEthernetType parseEthernetType "\<lambda>_. True" 2
  by unfold_locales
     (auto simp: serializeEthernetType_bytes parseEthernetType_def layout split: ethertype.splits)

datatype ipv4_protocol = Proto_icmp | Proto_tcp | Proto_udp

definition parseIPv4Protocol :: "int \<Rightarrow> ipv4_protocol res" where
  "parseIPv4Protocol protocol =
     (if protocol = 1 then Inr Proto_icmp
      else if protocol = 6 then Inr Proto_tcp
      else if protocol = 17 then Inr Proto_udp
      else throw ''unknown ipv4 protocol'')"

fun serializeIPv4Protocol :: "ipv4_protocol \<Rightarrow> int" where
  "serializeIPv4Protocol Proto_icmp = 1"
| "serializeIPv4Protocol Proto_tcp = 6"
| "serializeIPv4Protocol Proto_udp = 17"

lemma parse_serialize_protocol [simp]: "parseIPv4Protocol (serializeIPv4Protocol p) = Inr p"
  by (cases p) (simp_all add: parseIPv4Protocol_def)

subsection \<open>IPv4 addresses\<close>

definition ipv4_text :: "bytes \<Rightarrow> jstring" where
  "ipv4_text bs = js_join (lit ''.'') (List.map (\<lambda>b. num_str 10 (unat b)) bs)"

definition parseIPv4Address :: "bytes \<Rightarrow> jstring res" where
  "parseIPv4Address data =
     (if length data \<noteq> 4 then throw ''invalid ipv4 address'' else Inr (ipv4_text data))"

definition octet_error :: "string \<Rightarrow> nat \<Rightarrow> 'a res" where
  "octet_error msg i = Inl (Error (lit msg @ num_str 10 i))"

text \<open>The loop over the four parts, from position \<open>i\<close>.\<close>

fun octets_loop :: "nat \<Rightarrow> jstring list \<Rightarrow> bytes res" where
  "octets_loop i [] = Inr []"
| "octets_loop i (part # parts) =
     (if length part = 0 then octet_error ''invalid ipv4 address: empty octet at position '' i
      else if length part > 3 then octet_error ''invalid ipv4 address: octet too long at position '' i
      else bnd (parseUint part) (\<lambda>value.
        if value > 255 then octet_error ''invalid ipv4 address: octet too large at position '' i
        else bnd (octets_loop (i + 1) parts) (\<lambda>bs. Inr (of_int value # bs))))"

definition serializeIPv4Address :: "jstring \<Rightarrow> bytes res" where
  "serializeIPv4Address ip =
     (let parts = js_split (lit ''.'') ip in
      if length parts \<noteq> 4 then throw ''invalid ipv4 address'' else octets_loop 0 parts)"

definition valid_ipv4 :: "jstring \<Rightarrow> bool" where
  "valid_ipv4 s \<longleftrightarrow> (\<exists>bs. length bs = 4 \<and> s = ipv4_text bs)"

lemma octets_loop_text: "octets_loop i (List.map (\<lambda>b. num_str 10 (unat b)) bs) = Inr bs"
proof (induction bs arbitrary: i)
  case (Cons b bs)
  have "length (num_str 10 (unat b)) \<le> 3"
    using unat_byte_less [of b] by (intro length_num_str) auto
  then show ?case using Cons uint_byte_bounds [of b] by simp
qed simp

lemma js_split_ipv4_text:
  "bs \<noteq> [] \<Longrightarrow> js_split (lit ''.'') (ipv4_text bs) = List.map (\<lambda>b. num_str 10 (unat b)) bs"
  unfolding ipv4_text_def lit_sep using num_str_not_sep [of 10]
  by (intro js_split_join) auto

lemma serialize_ipv4_text: "length bs = 4 \<Longrightarrow> serializeIPv4Address (ipv4_text bs) = Inr bs"
  by (auto simp: serializeIPv4Address_def Let_def octets_loop_text js_split_ipv4_text
      simp flip: length_greater_0_conv)

lemma parse_ipv4: "length bs = 4 \<Longrightarrow> parseIPv4Address bs = Inr (ipv4_text bs)"
  by (simp add: parseIPv4Address_def)

interpretation ipv4_addr: fixed_codec serializeIPv4Address parseIPv4Address valid_ipv4 4
  by unfold_locales (auto simp: valid_ipv4_def serialize_ipv4_text parse_ipv4)

lemma valid_ipv4_text [simp]: "length bs = 4 \<Longrightarrow> valid_ipv4 (ipv4_text bs)"
  by (auto simp: valid_ipv4_def)

text \<open>What the address parser accepts, octet by octet.\<close>

definition octet_ok :: "jstring \<Rightarrow> bool" where
  "octet_ok p \<longleftrightarrow> p \<noteq> [] \<and> length p \<le> 3 \<and> list_all is_digit p \<and> dec_value p \<le> 255"

lemma octets_loop_ok:
  "octets_loop i ps = Inr bs \<longleftrightarrow>
   list_all octet_ok ps \<and> bs = List.map (\<lambda>p. of_nat (dec_value p)) ps"
proof (induction ps arbitrary: i bs)
  case (Cons p ps)
  show ?case
    by (auto simp: octet_error_def parseUint_eq octet_ok_def bnd_eq_Inr Cons)
qed auto

subsection \<open>The pseudo-header of the transport checksums\<close>

record pseudo_header =
  ph_sourceIP :: jstring
  ph_destinationIP :: jstring
  ph_protocol :: ipv4_protocol
  ph_length :: int

definition serializeIPv4PseudoHeader :: "pseudo_header \<Rightarrow> bytes res" where
  "serializeIPv4PseudoHeader p =
     bnd (serializeIPv4Address (ph_sourceIP p)) (\<lambda>sourceIPBuffer.
     bnd (serializeIPv4Address (ph_destinationIP p)) (\<lambda>destinationIPBuffer.
     let protocolNumber = serializeIPv4Protocol (ph_protocol p) in
     writes
       [setBytes 0 (Inr sourceIPBuffer),
        setBytes 4 (Inr destinationIPBuffer),
        setUint8 8 (Inr 0),
        setUint8 9 (Inr protocolNumber),
        setUint16 10 (Inr (ph_length p))]
       (replicate 12 0)))"

text \<open>A list of known length, written out.\<close>

lemma length_4E:
  assumes "length bs = 4"
  obtains a b c d where "bs = [a, b, c, d]"
  using assms by (auto simp: length_Suc_conv numeral_eq_Suc)

lemma length_6E:
  assumes "length bs = 6"
  obtains a b c d e f where "bs = [a, b, c, d, e, f]"
  using assms by (auto simp: length_Suc_conv numeral_eq_Suc)

lemma serializeIPv4PseudoHeader_bytes:
  assumes "length s = 4" "length d = 4"
  shows "serializeIPv4PseudoHeader
      \<lparr>ph_sourceIP = ipv4_text s, ph_destinationIP = ipv4_text d, ph_protocol = pr, ph_length = n\<rparr>
    = Inr (s @ d @ [0, of_int (serializeIPv4Protocol pr), of_int (n div 256), of_int n])"
proof -
  obtain s1 s2 s3 s4 d1 d2 d3 d4 where "s = [s1, s2, s3, s4]" "d = [d1, d2, d3, d4]"
    using assms by (metis length_4E)
  then show ?thesis
    by (simp add: serializeIPv4PseudoHeader_def serialize_ipv4_text layout)
qed

subsection \<open>Properties\<close>

text \<open>\<open>serializeIPv4Address\<close> accepts exactly the texts of four dot-separated parts of
  one to three decimal digits with a value up to 255, and returns their values as bytes;
  everything else throws. In particular leading zeros are read as decimal.\<close>

theorem serializeIPv4Address_accepts:
  "serializeIPv4Address ip = Inr bs \<longleftrightarrow>
   (length (js_split (lit ''.'') ip) = 4
    \<and> list_all (\<lambda>p. p \<noteq> [] \<and> length p \<le> 3 \<and> list_all is_digit p \<and> dec_value p \<le> 255)
        (js_split (lit ''.'') ip)
    \<and> bs = List.map (\<lambda>p. of_nat (dec_value p)) (js_split (lit ''.'') ip))"
  unfolding serializeIPv4Address_def Let_def octet_ok_def [symmetric]
  by (simp add: octets_loop_ok)

text \<open>Addresses survive the round trip through their text: four bytes are printed and read
  back as the same bytes, and six bytes of a MAC address likewise.\<close>

theorem address_text_roundtrip:
  assumes "length ip = 4" "length hw = 6"
  shows "bnd (parseIPv4Address ip) serializeIPv4Address = Inr ip
    \<and> bnd (parseMacAddress hw) serializeMacAddress = Inr hw"
  using assms by (simp_all add: parse_ipv4 serialize_ipv4_text parse_mac serialize_mac_text)

theorem address_text_roundtrip_witness:
  "bnd (parseIPv4Address [192, 168, 0, 1]) serializeIPv4Address = Inr [192, 168, 0, 1]
   \<and> bnd (parseMacAddress [0, 0x1a, 0x2b, 0x3c, 0x4d, 0xff]) serializeMacAddress
     = Inr [0, 0x1a, 0x2b, 0x3c, 0x4d, 0xff]"
  using address_text_roundtrip [of "[192, 168, 0, 1]" "[0, 0x1a, 0x2b, 0x3c, 0x4d, 0xff]"] by simp

lemma byte_index_cases: "i < 8 \<Longrightarrow> i \<in> {0, 1, 2, 3, 4, 5, 6, 7::nat}"
  by auto

lemma generated_first_byte:
  fixes b :: byte
  shows "of_int (js_or (js_and (uint b) 252) 2) = (b AND 252) OR 2"
proof -
  have b: "0 \<le> uint b" "uint b < 256" using uint_byte_bounds [of b] by simp_all
  then have "js_and (uint b) 252 = uint b AND 252" by (simp add: js_and_def)
  moreover have "0 \<le> uint b AND 252" "uint b AND 252 \<le> uint b"
    using b by (auto simp: AND_upper1)
  ultimately have "js_or (js_and (uint b) 252) 2 = (uint b AND 252) OR 2"
    using b by (simp add: js_or_def)
  then show ?thesis by (simp add: of_int_and_eq of_int_or_eq)
qed

lemma generated_first_bits:
  fixes b :: byte
  shows "\<not> bit ((b AND 252) OR 2) 0 \<and> bit ((b AND 252) OR 2) 1
    \<and> (\<forall>i\<ge>2. bit ((b AND 252) OR 2) i = bit b i)"
proof -
  have "bit ((b AND 252) OR 2) i = bit b i" if "2 \<le> i" for i
  proof (cases "i < 8")
    case True
    with that show ?thesis
      using byte_index_cases [OF True] by (auto simp: bit_or_iff bit_and_iff)
  next
    case False
    then have "\<not> bit w i" for w :: byte using bit_imp_le_length [of w i] by auto
    then show ?thesis by simp
  qed
  then show ?thesis by (auto simp: bit_or_iff bit_and_iff)
qed

text \<open>Every generated MAC address is unicast and locally administered, and keeps the
  other bits of the random bytes.\<close>

theorem generateMacAddress_bits:
  assumes "length random = 6"
  shows "\<not> bit (generateMacAddress random ! 0) 0 \<and> bit (generateMacAddress random ! 0) 1
    \<and> (\<forall>i\<ge>2. bit (generateMacAddress random ! 0) i = bit (random ! 0) i)
    \<and> length (generateMacAddress random) = 6
    \<and> List.drop 1 (generateMacAddress random) = List.drop 1 random"
  using assms generated_first_bits [of "random ! 0"]
  by (cases random) (simp_all add: generateMacAddress_def generated_first_byte)

theorem generateMacAddress_bits_witness:
  "\<not> bit (generateMacAddress [0xff, 1, 2, 3, 4, 5] ! 0) 0"
  using generateMacAddress_bits [of "[0xff, 1, 2, 3, 4, 5]"] by simp

end
