(* ===== verification/Wire_Netmask.thy ===== *)
theory Wire_Netmask
  imports Wire_Addr
begin

text \<open>
  The netmask functions of \<open>packages/wire/src/ipv4.ts\<close>: \<open>generateNetmask\<close>,
  \<open>serializeIPv4Cidr\<close> and \<open>getPrefixLength\<close>, with their bit-level meaning.
\<close>

subsection \<open>CIDR notation, netmasks and prefix lengths\<close>

text \<open>\<open>mask[byteIndex] = maskByte | (1 << bitIndex)\<close>\<close>

definition netmask_set_bit :: "nat \<Rightarrow> bytes \<Rightarrow> bytes" where
  "netmask_set_bit i m =
     (let byteIndex = i div 8; bitIndex = 7 - i mod 8; maskByte = uint (m ! byteIndex)
      in m[byteIndex := of_int (js_or maskByte (js_shl 1 (int bitIndex)))])"

text \<open>
  The loop of \<open>generateNetmask\<close> from index \<open>i\<close>; \<open>maskSize\<close> is \<open>None\<close> for NaN, and
  then the comparison \<open>i < NaN\<close> is false at once.
\<close>

function netmask_loop :: "nat \<Rightarrow> int \<Rightarrow> bytes \<Rightarrow> bytes res" where
  "netmask_loop i maskSize m =
     (if int i < maskSize
      then if i div 8 < length m then netmask_loop (Suc i) maskSize (netmask_set_bit i m)
           else throw ''invalid mask size''
      else Inr m)"
  by pat_completeness auto
termination
  by (relation "measure (\<lambda>(i, m, _). nat m - i)") auto

declare netmask_loop.simps [simp del]

definition generateNetmask :: "int option \<Rightarrow> bytes res" where
  "generateNetmask maskSize =
     (case maskSize of None \<Rightarrow> Inr (replicate 4 0)
      | Some m \<Rightarrow> netmask_loop 0 m (replicate 4 0))"

record ipv4_cidr =
  cidr_ipAddress :: bytes
  cidr_netmask :: bytes

definition serializeIPv4Cidr :: "jstring \<Rightarrow> ipv4_cidr res" where
  "serializeIPv4Cidr cidr =
     (case js_split (lit ''/'') cidr of
        ipString # maskSizeString # _ \<Rightarrow>
          if ipString = [] \<or> maskSizeString = [] then throw ''invalid cidr''
          else
            let maskSize = parseInt 10 maskSizeString in
            bnd (generateNetmask maskSize) (\<lambda>netmask.
            bnd (serializeIPv4Address ipString) (\<lambda>ipAddress.
              Inr \<lparr>cidr_ipAddress = ipAddress, cidr_netmask = netmask\<rparr>))
      | _ \<Rightarrow> throw ''invalid cidr'')"

text \<open>An absent byte is \<open>undefined\<close>, which a shift reads as zero.\<close>

definition byte_at :: "bytes \<Rightarrow> nat \<Rightarrow> int" where
  "byte_at d i = (if i < length d then uint (d ! i) else 0)"

definition netmask_value :: "bytes \<Rightarrow> int" where
  "netmask_value m =
     js_or (js_or (js_or (js_shl (byte_at m 0) 24) (js_shl (byte_at m 1) 16))
                  (js_shl (byte_at m 2) 8)) (byte_at m 3)"

function prefix_count :: "int \<Rightarrow> int \<Rightarrow> nat \<Rightarrow> nat" where
  "prefix_count v testBit count =
     (if js_and testBit v \<noteq> 0 then prefix_count v (js_shru testBit 1) (Suc count) else count)"
  by pat_completeness auto
termination
proof (relation "measure (\<lambda>(v, t, c). nat (take_bit 32 t))")
  fix v t :: int and c :: nat
  assume "js_and t v \<noteq> 0"
  have "take_bit 32 t \<noteq> 0"
  proof
    assume "take_bit 32 t = 0"
    then have "to_int32 t = 0"
      using signed_take_bit_take_bit [of 31 32 t] by (simp add: to_int32_def)
    with \<open>js_and t v \<noteq> 0\<close> show False by (simp add: js_and_def)
  qed
  then have pos: "0 < take_bit 32 t"
    using take_bit_nonnegative [of 32 t] by linarith
  have "take_bit 32 (js_shru t 1) \<le> js_shru t 1"
    by (simp add: js_shru_def take_bit_int_less_eq_self_iff)
  also have "js_shru t 1 = take_bit 32 t div 2"
    by (simp add: js_shru_def drop_bit_eq_div)
  also have "\<dots> < take_bit 32 t" using pos by simp
  finally show "((v, js_shru t 1, Suc c), v, t, c) \<in> measure (\<lambda>(v, t, c). nat (take_bit 32 t))"
    using pos by simp
qed simp

declare prefix_count.simps [simp del]

definition getPrefixLength :: "bytes \<Rightarrow> nat res" where
  "getPrefixLength netmask =
     (let value = netmask_value netmask in
      if value = 0 then Inr 0
      else if value = 0xffffffff then Inr 32
      else if value = 0xffffff00 then Inr 24
      else if value = 0xffff0000 then Inr 16
      else if value = 0xff000000 then Inr 8
      else
        let count = prefix_count value 0x80000000 0 in
        if js_and value (js_not (js_shl 0xffffffff (32 - int count))) \<noteq> 0
        then throw ''invalid netmask: non-contiguous bits''
        else Inr count)"

subsection \<open>The bits of a netmask\<close>

text \<open>Bit \<open>i\<close> of an address in network order, the most significant bit of the first byte first.\<close>

definition net_bit :: "bytes \<Rightarrow> nat \<Rightarrow> bool" where
  "net_bit d i = bit (d ! (i div 8)) (7 - i mod 8)"

lemma upto_32: "i < 32 \<longleftrightarrow> i \<in> set [0..<32]"
  by simp

lemma net_bits_eqI:
  assumes "length a = 4" "length b = 4" "\<And>i. i < 32 \<Longrightarrow> net_bit a i = net_bit b i"
  shows "a = b"
proof (rule nth_equalityI)
  fix j
  assume "j < length a"
  then have j: "j < 4" using assms by simp
  show "a ! j = b ! j"
  proof (rule bit_eqI)
    fix n
    assume "possible_bit TYPE(8 word) n"
    then have "n < 8" by simp
    define r where "r = 7 - n"
    have r: "r < 8" "n = 7 - r" using \<open>n < 8\<close> by (simp_all add: r_def)
    have "net_bit a (8 * j + r) = net_bit b (8 * j + r)" using j r(1) by (intro assms(3)) simp
    then show "bit (a ! j) n = bit (b ! j) n" using r by (simp add: net_bit_def)
  qed
qed (use assms in simp)

lemma bit_to_int32: "bit (to_int32 x) n = bit x (min 31 n)"
  by (simp add: to_int32_def bit_signed_take_bit_iff min.commute)

lemma to_int32_idem [simp]: "to_int32 (to_int32 x) = to_int32 x"
  using to_int32_bounds [of x] by simp

lemma bit_js_or: "bit (js_or a b) n \<longleftrightarrow> bit a (min 31 n) \<or> bit b (min 31 n)"
  by (simp add: js_or_def bit_or_iff bit_to_int32)

lemma bit_js_shl: "k < 32 \<Longrightarrow> bit (js_shl a (int k)) n \<longleftrightarrow> k \<le> min 31 n \<and> bit a (min 31 n - k)"
proof -
  assume "k < 32"
  then have "min 31 (min 31 n - k) = min 31 n - k" by simp
  with \<open>k < 32\<close> show ?thesis by (simp add: js_shl_def bit_to_int32 bit_push_bit_iff)
qed

lemma bit_byte_at: "bit (byte_at d i) n \<longleftrightarrow> i < length d \<and> bit (d ! i) n"
  using bit_imp_le_length [of "d ! i" n] by (auto simp: byte_at_def bit_uint_iff)

lemma bit_netmask_value:
  assumes "n < 32"
  shows "bit (netmask_value m) n \<longleftrightarrow>
    (24 \<le> n \<and> bit (byte_at m 0) (n - 24)) \<or> (16 \<le> n \<and> bit (byte_at m 1) (n - 16))
    \<or> (8 \<le> n \<and> bit (byte_at m 2) (n - 8)) \<or> bit (byte_at m 3) n"
  using assms bit_js_shl [of 24] bit_js_shl [of 16] bit_js_shl [of 8]
  by (simp add: netmask_value_def bit_js_or)

lemma byte_bit_high: "8 \<le> n \<Longrightarrow> \<not> bit (b :: byte) n"
  using bit_imp_le_length [of b n] by auto

lemma netmask_value_net_bit:
  assumes "length m = 4" "i < 32"
  shows "bit (netmask_value m) (31 - i) = net_bit m i"
proof -
  have e: "bit (netmask_value m) (31 - i) \<longleftrightarrow>
    (24 \<le> 31 - i \<and> bit (m ! 0) (31 - i - 24)) \<or> (16 \<le> 31 - i \<and> bit (m ! 1) (31 - i - 16))
    \<or> (8 \<le> 31 - i \<and> bit (m ! 2) (31 - i - 8)) \<or> bit (m ! 3) (31 - i)"
    using assms by (subst bit_netmask_value) (auto simp: bit_byte_at)
  consider "i < 8" | "8 \<le> i" "i < 16" | "16 \<le> i" "i < 24" | "24 \<le> i" by linarith
  then show ?thesis
  proof cases
    case 1
    then have "i div 8 = 0" "i mod 8 = i" by simp_all
    moreover from 1 have "24 \<le> 31 - i" by simp
    ultimately show ?thesis using 1 unfolding e net_bit_def by (simp add: byte_bit_high)
  next
    case 2
    then have "i div 8 = 1" "i mod 8 = i - 8" by presburger+
    moreover from 2 have "\<not> 24 \<le> 31 - i" "16 \<le> 31 - i" by linarith+
    ultimately show ?thesis using 2 unfolding e net_bit_def by (simp add: byte_bit_high)
  next
    case 3
    then have "i div 8 = 2" "i mod 8 = i - 16" by presburger+
    moreover from 3 have "\<not> 24 \<le> 31 - i" "\<not> 16 \<le> 31 - i" "8 \<le> 31 - i" by linarith+
    ultimately show ?thesis using 3 unfolding e net_bit_def by (simp add: byte_bit_high)
  next
    case 4
    then have "i div 8 = 3" "i mod 8 = i - 24" using assms(2) by presburger+
    moreover from 4 have "\<not> 24 \<le> 31 - i" "\<not> 16 \<le> 31 - i" "\<not> 8 \<le> 31 - i" by linarith+
    ultimately show ?thesis using 4 assms(2) unfolding e net_bit_def by (simp add: byte_bit_high)
  qed
qed

lemma netmask_value_int32 [simp]: "to_int32 (netmask_value m) = netmask_value m"
proof -
  have "bit (to_int32 (js_or a b)) n = bit (js_or a b) n" for a b n
    by (simp add: bit_js_or bit_to_int32)
  then have "to_int32 (js_or a b) = js_or a b" for a b by (simp add: bit_eq_iff)
  then show ?thesis by (simp add: netmask_value_def)
qed

text \<open>The loop of \<open>getPrefixLength\<close> counts the leading one bits.\<close>

lemma js_and_test_bit:
  assumes "c < 32" "to_int32 v = v"
  shows "js_and (2 ^ (31 - c)) v \<noteq> 0 \<longleftrightarrow> bit v (31 - c)"
proof -
  have vb: "bit v n = bit v (min 31 n)" for n using bit_to_int32 [of v n] assms(2) by simp
  have t: "bit (to_int32 (2 ^ (31 - c))) n \<longleftrightarrow> min 31 n = 31 - c" for n
    by (auto simp: bit_to_int32 bit_exp_iff)
  have "js_and (2 ^ (31 - c)) v \<noteq> 0 \<longleftrightarrow> (\<exists>n. min 31 n = 31 - c \<and> bit v n)"
    using assms(2) t by (auto simp: js_and_def bit_eq_iff bit_and_iff)
  also have "\<dots> \<longleftrightarrow> bit v (31 - c)"
    using vb by (metis diff_le_self min.absorb2)
  finally show ?thesis .
qed

lemma js_shru_test_bit: "c < 32 \<Longrightarrow> js_shru (2 ^ (31 - c)) 1 = (if c < 31 then 2 ^ (31 - Suc c) else 0)"
proof -
  assume c: "c < 32"
  have "(2::int) ^ (31 - c) < 2 ^ 32" by (intro power_strict_increasing) auto
  then have "take_bit 32 ((2::int) ^ (31 - c)) = 2 ^ (31 - c)"
    by (intro take_bit_int_eq_self) auto
  moreover have "c < 31 \<Longrightarrow> (2::int) ^ (31 - c) = 2 * 2 ^ (31 - Suc c)"
    by (simp flip: power_Suc add: Suc_diff_Suc)
  ultimately show ?thesis using c by (cases "c < 31") (auto simp: js_shru_def drop_bit_eq_div)
qed

lemma prefix_count_spec:
  assumes "to_int32 v = v" "c \<le> 32"
  defines "k \<equiv> prefix_count v (if c < 32 then 2 ^ (31 - c) else 0) c"
  shows "c \<le> k \<and> k \<le> 32 \<and> (\<forall>j. c \<le> j \<and> j < k \<longrightarrow> bit v (31 - j)) \<and> (k < 32 \<longrightarrow> \<not> bit v (31 - k))"
  using assms(2) unfolding k_def
proof (induction "32 - c" arbitrary: c)
  case 0
  then have "c = 32" by simp
  then show ?case by (auto simp: prefix_count.simps [of v 0] js_and_def)
next
  case (Suc n)
  then have c: "c < 32" by simp
  show ?case
  proof (cases "bit v (31 - c)")
    case True
    define q where "q = prefix_count v (if Suc c < 32 then 2 ^ (31 - Suc c) else 0) (Suc c)"
    have step: "prefix_count v (if c < 32 then 2 ^ (31 - c) else 0) c = q"
      using True c js_and_test_bit [OF c assms(1)] js_shru_test_bit [OF c]
      by (subst prefix_count.simps) (simp add: q_def)
    have "n = 32 - Suc c" "Suc c \<le> 32" using Suc.hyps(2) c by simp_all
    note H = Suc.hyps(1) [OF this, folded q_def]
    have IH: "Suc c \<le> q" "q \<le> 32" "\<And>j. Suc c \<le> j \<Longrightarrow> j < q \<Longrightarrow> bit v (31 - j)"
      "q < 32 \<longrightarrow> \<not> bit v (31 - q)"
      using H by blast+
    have "bit v (31 - j)" if "c \<le> j" "j < q" for j
      using that IH(3) [of j] True by (cases "j = c") auto
    with IH show ?thesis unfolding step by auto
  next
    case False
    then have "prefix_count v (2 ^ (31 - c)) c = c"
      using js_and_test_bit [OF c assms(1)] by (subst prefix_count.simps) simp
    with False c show ?thesis by auto
  qed
qed

lemma netmask_set_bit:
  assumes "length m = 4" "i < 32" "j < 32"
  shows "net_bit (netmask_set_bit i m) j \<longleftrightarrow> net_bit m j \<or> j = i"
proof (cases "j div 8 = i div 8")
  case True
  have "i div 8 < 4" using assms by simp
  have lt: "i mod 8 < 8" "j mod 8 < 8" by simp_all
  have "j = i \<longleftrightarrow> j mod 8 = i mod 8"
    using True by (metis div_mult_mod_eq)
  then have eq: "j = i \<longleftrightarrow> 7 - i mod 8 = 7 - j mod 8" using lt by linarith
  have shl: "bit (js_shl 1 (int a)) b \<longleftrightarrow> a = b" if "a < 8" "b < 8" for a b
    using that bit_js_shl [of a 1 b] by (auto simp: bit_1_iff)
  have "bit (js_shl 1 (int (7 - i mod 8))) (7 - j mod 8) \<longleftrightarrow> 7 - i mod 8 = 7 - j mod 8"
    by (rule shl) linarith+
  moreover have "7 - j mod 8 < 8" by linarith
  ultimately show ?thesis
    using True assms \<open>i div 8 < 4\<close> eq
    by (simp add: netmask_set_bit_def Let_def net_bit_def bit_word_of_int_iff bit_js_or bit_uint_iff
        del: of_nat_diff)
next
  case False
  then show ?thesis using assms by (auto simp: netmask_set_bit_def Let_def net_bit_def)
qed

lemma length_netmask_set_bit [simp]: "length (netmask_set_bit i m) = length m"
  by (simp add: netmask_set_bit_def Let_def)

lemma netmask_loop_bits:
  assumes "length m = 4" "i \<le> n" "n \<le> 32"
  shows "\<exists>m'. netmask_loop i (int n) m = Inr m' \<and> length m' = 4
    \<and> (\<forall>j<32. net_bit m' j \<longleftrightarrow> net_bit m j \<or> (i \<le> j \<and> j < n))"
  using assms
proof (induction "n - i" arbitrary: i m)
  case 0
  then show ?case by (auto simp: netmask_loop.simps [of i])
next
  case (Suc k)
  have i: "i < n" "i div 8 < 4" using Suc by linarith+
  have "k = n - Suc i" "length (netmask_set_bit i m) = 4" "Suc i \<le> n" using Suc i by simp_all
  then obtain m' where m': "netmask_loop (Suc i) (int n) (netmask_set_bit i m) = Inr m'" "length m' = 4"
    "\<forall>j<32. net_bit m' j \<longleftrightarrow> net_bit (netmask_set_bit i m) j \<or> (Suc i \<le> j \<and> j < n)"
    using Suc.hyps(1) [of "Suc i" "netmask_set_bit i m"] Suc.prems(3) by blast
  have "netmask_loop i (int n) m = Inr m'"
    using i Suc.prems m' by (simp add: netmask_loop.simps [of i])
  moreover have "net_bit m' j \<longleftrightarrow> net_bit m j \<or> (i \<le> j \<and> j < n)" if "j < 32" for j
    using m'(3) that netmask_set_bit [of m i j] Suc.prems i by auto
  ultimately show ?case using m'(2) by blast
qed

lemma net_bit_zero [simp]: "j < 32 \<Longrightarrow> \<not> net_bit (replicate 4 0) j"
  by (simp add: net_bit_def)

lemma generateNetmask_bits:
  assumes "n \<le> 32"
  shows "\<exists>m. generateNetmask (Some (int n)) = Inr m \<and> length m = 4
    \<and> (\<forall>j<32. net_bit m j \<longleftrightarrow> j < n)"
  using netmask_loop_bits [of "replicate 4 0" 0 n] assms by (auto simp: generateNetmask_def)

lemma netmask_loop_too_long:
  "length m = 4 \<Longrightarrow> i \<le> 32 \<Longrightarrow> 32 < n \<Longrightarrow> netmask_loop i n m = throw ''invalid mask size''"
proof (induction "32 - i" arbitrary: i m)
  case 0
  then have "i = 32" by simp
  with 0 show ?case by (simp add: netmask_loop.simps [of 32])
next
  case (Suc k)
  then have "i div 8 < 4" "int i < n" by linarith+
  with Suc show ?case by (simp add: netmask_loop.simps [of i])
qed

lemma generateNetmask_eq_iff:
  assumes "n \<le> 32" "length m = 4"
  shows "generateNetmask (Some (int n)) = Inr m \<longleftrightarrow> (\<forall>j<32. net_bit m j \<longleftrightarrow> j < n)"
proof -
  obtain m0 where m0: "generateNetmask (Some (int n)) = Inr m0" "length m0 = 4"
    "\<forall>j<32. net_bit m0 j \<longleftrightarrow> j < n"
    using generateNetmask_bits [OF assms(1)] by blast
  show ?thesis
  proof
    assume "\<forall>j<32. net_bit m j \<longleftrightarrow> j < n"
    with m0 assms(2) have "m0 = m" by (intro net_bits_eqI) auto
    with m0 show "generateNetmask (Some (int n)) = Inr m" by simp
  qed (use m0 in simp)
qed

lemma host_mask:
  assumes "k \<le> 32"
  shows "js_not (js_shl 0xffffffff (32 - int k)) = mask ((32 - k) mod 32)"
proof -
  have m: "to_int32 0xffffffff = - 1" by (simp add: to_int32_def)
  have n: "nat ((32 - int k) mod 32) = (32 - k) mod 32"
    using assms by (metis nat_int of_nat_diff of_nat_mod of_nat_numeral)
  define e where "e = (32 - k) mod 32"
  have "e < 32" by (simp add: e_def)
  have "(2::int) ^ e \<le> 2 ^ 31" using \<open>e < 32\<close> by (intro power_increasing) auto
  then have "(2::int) ^ e \<le> 2147483648" by simp
  moreover have "(0::int) < 2 ^ e" by simp
  ultimately have "to_int32 (- (2 ^ e)) = - (2 ^ e)" by (intro to_int32_id) linarith+
  then have "js_shl 0xffffffff (32 - int k) = - (2 ^ e)"
    unfolding js_shl_def m n e_def [symmetric] by (simp add: push_bit_eq_mult)
  with \<open>to_int32 (- (2 ^ e)) = - (2 ^ e)\<close> show ?thesis
    by (simp add: js_not_def not_int_def mask_eq_exp_minus_1 flip: e_def)
qed

lemma host_bits_check:
  assumes "k \<le> 32" "to_int32 v = v"
  shows "js_and v (js_not (js_shl 0xffffffff (32 - int k))) \<noteq> 0
    \<longleftrightarrow> (0 < k \<and> (\<exists>j. k \<le> j \<and> j < 32 \<and> bit v (31 - j)))"
proof -
  define e where "e = (32 - k) mod 32"
  have e: "e < 32" "e = (if k = 0 then 0 else 32 - k)" using assms(1) by (auto simp: e_def)
  have "(2::int) ^ e \<le> 2 ^ 31" using e(1) by (intro power_increasing) auto
  then have "to_int32 (mask e) = mask e"
    by (intro to_int32_small) (simp_all add: mask_eq_exp_minus_1)
  then have "js_and v (mask e) = take_bit e v"
    using assms(2) by (simp add: js_and_def take_bit_eq_mask)
  then have "js_and v (js_not (js_shl 0xffffffff (32 - int k))) \<noteq> 0 \<longleftrightarrow> (\<exists>n<e. bit v n)"
    unfolding host_mask [OF assms(1)] e_def [symmetric]
    by (simp only: \<open>js_and v (mask e) = take_bit e v\<close>) (auto simp: bit_eq_iff bit_take_bit_iff)
  also have "\<dots> \<longleftrightarrow> (0 < k \<and> (\<exists>j. k \<le> j \<and> j < 32 \<and> bit v (31 - j)))"
  proof
    assume "\<exists>n<e. bit v n"
    then obtain n where n: "n < e" "bit v n" by blast
    with e have "0 < k \<and> k \<le> 31 - n \<and> 31 - n < 32 \<and> bit v (31 - (31 - n))"
      by (auto split: if_splits)
    then show "0 < k \<and> (\<exists>j. k \<le> j \<and> j < 32 \<and> bit v (31 - j))" by blast
  next
    assume "0 < k \<and> (\<exists>j. k \<le> j \<and> j < 32 \<and> bit v (31 - j))"
    then obtain j where "0 < k" "k \<le> j" "j < 32" "bit v (31 - j)" by blast
    with e show "\<exists>n<e. bit v n" by (intro exI [of _ "31 - j"]) auto
  qed
  finally show ?thesis .
qed

lemma netmask_value_fast_paths:
  assumes "length m = 4"
  shows "netmask_value m < 0x80000000"
    "netmask_value m = 0 \<longleftrightarrow> (\<forall>j<32. \<not> net_bit m j)"
proof -
  let ?v = "netmask_value m"
  show "?v < 0x80000000" using to_int32_bounds [of ?v] by simp
  have vb: "bit ?v n = bit ?v (min 31 n)" for n using bit_to_int32 [of ?v n] by simp
  have nb: "bit ?v n \<longleftrightarrow> net_bit m (31 - min 31 n)" for n
    using vb [of n] netmask_value_net_bit [OF assms, of "31 - min 31 n"] by simp
  have "?v = 0 \<longleftrightarrow> (\<forall>n. \<not> bit ?v n)" by (simp add: bit_eq_iff)
  also have "\<dots> \<longleftrightarrow> (\<forall>j<32. \<not> net_bit m j)"
    using netmask_value_net_bit [OF assms] nb by (metis diff_le_self le_imp_less_Suc numeral_eq_Suc
        pred_numeral_simps(2) semiring_norm(26) semiring_norm(27) semiring_norm(28))
  finally show "?v = 0 \<longleftrightarrow> (\<forall>j<32. \<not> net_bit m j)" .
qed

lemma getPrefixLength_cases:
  assumes "length m = 4"
  shows "(\<exists>n\<le>32. getPrefixLength m = Inr n
            \<and> (if net_bit m 0 then 0 < n \<and> (\<forall>j<32. net_bit m j \<longleftrightarrow> j < n) else n = 0))
       \<or> (getPrefixLength m = throw ''invalid netmask: non-contiguous bits''
            \<and> net_bit m 0 \<and> \<not> (\<exists>n\<le>32. \<forall>j<32. net_bit m j \<longleftrightarrow> j < n))"
proof (cases "netmask_value m = 0")
  case True
  then have "getPrefixLength m = Inr 0" by (simp add: getPrefixLength_def)
  moreover have "\<not> net_bit m 0" using True netmask_value_fast_paths [OF assms] by simp
  ultimately show ?thesis by auto
next
  case False
  let ?v = "netmask_value m"
  define k where "k = prefix_count ?v 0x80000000 0"
  have nb: "bit ?v (31 - j) = net_bit m j" if "j < 32" for j
    using netmask_value_net_bit [OF assms that] .
  have "k = prefix_count ?v (if (0::nat) < 32 then 2 ^ (31 - 0) else 0) 0" by (simp add: k_def)
  with prefix_count_spec [of ?v 0]
  have k: "k \<le> 32" "\<And>j. j < k \<Longrightarrow> net_bit m j" "k < 32 \<Longrightarrow> \<not> net_bit m k"
    using nb by auto
  have g: "getPrefixLength m =
    (if 0 < k \<and> (\<exists>j. k \<le> j \<and> j < 32 \<and> net_bit m j)
     then throw ''invalid netmask: non-contiguous bits'' else Inr k)"
    using False netmask_value_fast_paths(1) [OF assms] host_bits_check [OF k(1), of ?v] nb
    by (auto simp: getPrefixLength_def Let_def simp flip: k_def)
  have z: "net_bit m 0 \<longleftrightarrow> 0 < k" using k(2) [of 0] k(3) by (cases "k = 0") auto
  show ?thesis
  proof (cases "0 < k \<and> (\<exists>j. k \<le> j \<and> j < 32 \<and> net_bit m j)")
    case True
    then obtain j where j: "0 < k" "k \<le> j" "j < 32" "net_bit m j" by blast
    have "\<not> (\<forall>j<32. net_bit m j \<longleftrightarrow> j < n)" for n
      using j k(3) by (metis le_less_trans linorder_not_less order.strict_trans1)
    with True g z show ?thesis by auto
  next
    case False
    then have "0 < k \<Longrightarrow> \<forall>j<32. net_bit m j \<longleftrightarrow> j < k" using k(2) by (metis linorder_not_less)
    with False g z k(1) show ?thesis by auto
  qed
qed

subsection \<open>Properties\<close>

text \<open>\<open>generateNetmask\<close> turns a prefix length up to 32 into the four bytes whose first
  bits, and only those, are set; longer prefixes throw; a negative size or \<open>NaN\<close> gives the
  empty mask.\<close>

theorem generateNetmask_spec:
  "(\<forall>n\<le>32. \<forall>m. length m = 4 \<longrightarrow>
      (generateNetmask (Some (int n)) = Inr m \<longleftrightarrow> (\<forall>j<32. net_bit m j \<longleftrightarrow> j < n)))
   \<and> (\<forall>k>32. generateNetmask (Some k) = throw ''invalid mask size'')
   \<and> (\<forall>k\<le>0. generateNetmask (Some k) = Inr [0, 0, 0, 0])
   \<and> generateNetmask None = Inr [0, 0, 0, 0]"
proof (intro conjI allI impI)
  show "generateNetmask (Some (int n)) = Inr m \<longleftrightarrow> (\<forall>j<32. net_bit m j \<longleftrightarrow> j < n)"
    if "n \<le> 32" "length m = 4" for n m
    using that by (rule generateNetmask_eq_iff)
  show "generateNetmask (Some k) = throw ''invalid mask size''" if "32 < k" for k
    using that netmask_loop_too_long [of "replicate 4 0" 0 k] by (simp add: generateNetmask_def)
  show "generateNetmask (Some k) = Inr [0, 0, 0, 0]" if "k \<le> 0" for k
    using that by (subst generateNetmask_def) (simp add: netmask_loop.simps [of 0] replicate_numeral_Cons)
  show "generateNetmask None = Inr [0, 0, 0, 0]"
    by (simp add: generateNetmask_def replicate_numeral_Cons)
qed

theorem generateNetmask_spec_witness:
  "net_bit [255, 255, 240, 0] 19 \<and> \<not> net_bit [255, 255, 240, 0] 20
   \<and> generateNetmask (Some 33) = throw ''invalid mask size''"
proof -
  have "generateNetmask (Some (int 20)) = Inr [255, 255, 240, 0]" by code_simp
  moreover have "length [255, 255, 240, 0 :: byte] = 4" "(20::nat) \<le> 32" by simp_all
  ultimately have "\<forall>j<32. net_bit [255, 255, 240, 0] j \<longleftrightarrow> j < 20"
    using generateNetmask_spec by blast
  moreover have "generateNetmask (Some 33) = throw ''invalid mask size''"
    using generateNetmask_spec by simp
  ultimately show ?thesis by simp
qed

text \<open>\<open>getPrefixLength\<close> on the four bytes of a mask. A mask whose first bit is set gets
  the number of its leading ones when they are all its ones, and throws otherwise. A mask whose
  first bit is clear gets 0, even when later bits are set: the shift by \<open>32 - 0\<close> is a shift by
  0, so the contiguity check has nothing to compare.\<close>

theorem getPrefixLength_spec:
  assumes "length m = 4"
  shows "if net_bit m 0
      then (case getPrefixLength m of
         Inr n \<Rightarrow> 0 < n \<and> n \<le> 32 \<and> (\<forall>j<32. net_bit m j \<longleftrightarrow> j < n)
       | Inl e \<Rightarrow> e = Error (lit ''invalid netmask: non-contiguous bits'')
           \<and> \<not> (\<exists>n\<le>32. \<forall>j<32. net_bit m j \<longleftrightarrow> j < n))
      else getPrefixLength m = Inr 0"
  using getPrefixLength_cases [OF assms] by (auto split: if_splits)

theorem getPrefixLength_spec_witness:
  "getPrefixLength [0, 255, 0, 0] = Inr 0
   \<and> (case getPrefixLength [255, 255, 240, 0] of Inr n \<Rightarrow> 0 < n \<and> n \<le> 32 | Inl e \<Rightarrow> False)"
proof -
  have l: "length [0, 255, 0, 0 :: byte] = 4" "length [255, 255, 240, 0 :: byte] = 4" by simp_all
  have b: "\<not> net_bit [0, 255, 0, 0] 0" "net_bit [255, 255, 240, 0] 0" by code_simp+
  have "getPrefixLength [255, 255, 240, 0] = Inr 20" by code_simp
  with getPrefixLength_spec [OF l(1)] getPrefixLength_spec [OF l(2)] b
  show ?thesis by simp
qed

end
