(* ===== verification/Wire_IPv6.thy ===== *)
theory Wire_IPv6
  imports Wire_Addr
begin

text \<open>
  \<open>packages/wire/src/ipv6.ts\<close>: IPv6 addresses as text and bytes, and the compression and
  expansion of the text. The main lemma is that expanding and serializing the compressed
  text of any sixteen bytes gives these bytes back.
\<close>

subsection \<open>The functions\<close>

text \<open>\<open>s.match(/.{1,4}/g)\<close> on a string with no line terminator.\<close>

function chunks4 :: "jstring \<Rightarrow> jstring list" where
  "chunks4 s = (if s = [] then [] else List.take 4 s # chunks4 (List.drop 4 s))"
  by pat_completeness auto
termination
  by (relation "measure length") auto

declare chunks4.simps [simp del]

definition parseIPv6Address :: "bytes \<Rightarrow> jstring res" where
  "parseIPv6Address data =
     (if length data \<noteq> 16 then throw ''invalid ipv6 address''
      else Inr (js_join (lit '':'') (chunks4 (foldl (\<lambda>acc byte. acc @ hex_byte byte) [] data))))"

definition pad4 :: "jstring \<Rightarrow> jstring" where
  "pad4 g = padStart 4 48 g"

definition expandIPv6 :: "jstring \<Rightarrow> jstring res" where
  "expandIPv6 ip =
     (if ip = [] then Inl (Error (lit ''invalid IPv6 address: '' @ ip))
      else
        case List.map (js_split (lit '':'')) (js_split (lit ''::'') ip) of
          [left] \<Rightarrow> Inr (js_join (lit '':'') (List.map pad4 left))
        | [left, right] \<Rightarrow>
            if length left + length right > 8 then Inl RangeError
            else
              let missingGroups = 8 - (length left + length right);
                  zeros = replicate missingGroups (lit ''0000'')
              in Inr (js_join (lit '':'') (List.map pad4 (left @ zeros @ right)))
        | _ \<Rightarrow> Inl (Error (lit ''invalid IPv6 address: '' @ ip)))"

text \<open>The loop over the eight parts, from position \<open>i\<close>; each part gives two bytes.\<close>

fun groups_loop :: "nat \<Rightarrow> jstring list \<Rightarrow> bytes res" where
  "groups_loop i [] = Inr []"
| "groups_loop i (part # parts) =
     (if length part = 0 then octet_error ''invalid ipv6 address: empty group at position '' i
      else if length part > 4 then octet_error ''invalid ipv6 address: group too long at position '' i
      else bnd (parseHex part) (\<lambda>value.
        if value > 0xffff
        then octet_error ''invalid ipv6 address: group value too large at position '' i
        else bnd (groups_loop (i + 1) parts) (\<lambda>bs.
          Inr (of_int (js_shr value 8) # of_int (js_and value 255) # bs))))"

definition serializeIPv6Address :: "jstring \<Rightarrow> bytes res" where
  "serializeIPv6Address ip =
     bnd (expandIPv6 ip) (\<lambda>expanded.
       let parts = js_split (lit '':'') expanded in
       if length parts \<noteq> 8 then throw ''invalid ipv6 address'' else groups_loop 0 parts)"

text \<open>\<open>group.replace(/^0+(?=\w)/, '')\<close>: a leading zero goes while a word character follows it.\<close>

definition is_word :: "jschar \<Rightarrow> bool" where
  "is_word c \<longleftrightarrow>
     (let n = unat c in
      (48 \<le> n \<and> n \<le> 57) \<or> (65 \<le> n \<and> n \<le> 90) \<or> n = 95 \<or> (97 \<le> n \<and> n \<le> 122))"

fun strip_zeros :: "jstring \<Rightarrow> jstring" where
  "strip_zeros (c # d # s) = (if c = 48 \<and> is_word d then strip_zeros (d # s) else c # d # s)"
| "strip_zeros s = s"

definition zero_group :: "jstring \<Rightarrow> bool" where
  "zero_group g \<longleftrightarrow> g = lit ''0'' \<or> g = []"

text \<open>
  The scan for the longest zero run: \<open>i\<close> is the index, \<open>longest\<close> and \<open>current\<close> are the start
  (\<open>None\<close> for -1) and the length of the longest and of the current run.
\<close>

type_synonym zero_run = "nat option \<times> nat"

fun scan_zeros :: "nat \<Rightarrow> jstring list \<Rightarrow> zero_run \<Rightarrow> zero_run \<Rightarrow> zero_run" where
  "scan_zeros i [] longest current = longest"
| "scan_zeros i (g # gs) longest (currentStart, currentLength) =
     (if zero_group g then
        let start = (case currentStart of None \<Rightarrow> i | Some k \<Rightarrow> k);
            len = Suc currentLength
        in scan_zeros (Suc i) gs
             (if len > snd longest then (Some start, len) else longest) (Some start, len)
      else scan_zeros (Suc i) gs longest (None, 0))"

definition splice_run :: "nat \<Rightarrow> nat \<Rightarrow> jstring list \<Rightarrow> jstring list" where
  "splice_run start len groups =
     (let rest = List.take start groups @ List.drop (start + len) groups in
      if start = 0 then [] # [] # rest
      else if start = length rest then rest @ [[], []]
      else List.take start rest @ [[]] @ List.drop start rest)"

definition compressIPv6 :: "jstring \<Rightarrow> jstring" where
  "compressIPv6 ip =
     (let groups = js_split (lit '':'') (toLowerCase ip);
          normalizedGroups = List.map strip_zeros groups
      in if list_all zero_group normalizedGroups then lit ''::''
         else case scan_zeros 0 normalizedGroups (None, 0) (None, 0) of
             (Some longestZeroStart, longestZeroLength) \<Rightarrow>
               js_join (lit '':'')
                 (if longestZeroLength \<ge> 2
                  then splice_run longestZeroStart longestZeroLength normalizedGroups
                  else normalizedGroups)
           | (None, _) \<Rightarrow> js_join (lit '':'') normalizedGroups)"

subsection \<open>Groups of hex digits\<close>

definition hex_group :: "jstring \<Rightarrow> bool" where
  "hex_group g \<longleftrightarrow> length g = 4 \<and> (\<forall>c\<in>set g. \<exists>d<16. c = digit_char d)"

lemma is_word_digit_char: "d < 36 \<Longrightarrow> is_word (digit_char d)"
  by (simp add: is_word_def unat_digit_char Let_def)

lemma lower_digit_char: "d < 36 \<Longrightarrow> lower_char (digit_char d) = digit_char d"
  by (simp add: lower_char_def unat_digit_char)

lemma strip_zeros_props:
  assumes "g \<noteq> []" "\<forall>c\<in>set g. \<exists>d<16. c = digit_char d"
  shows "strip_zeros g \<noteq> [] \<and> set (strip_zeros g) \<subseteq> set g
    \<and> (\<exists>k. g = replicate k 48 @ strip_zeros g)"
  using assms
proof (induction g rule: strip_zeros.induct)
  case (1 c d s)
  show ?case
  proof (cases "c = 48 \<and> is_word d")
    case True
    with 1 obtain k where "d # s = replicate k 48 @ strip_zeros (d # s)" "strip_zeros (d # s) \<noteq> []"
      "set (strip_zeros (d # s)) \<subseteq> set (d # s)" by auto
    then have "c # d # s = replicate (Suc k) 48 @ strip_zeros (c # d # s)"
      "strip_zeros (c # d # s) \<noteq> []" "set (strip_zeros (c # d # s)) \<subseteq> set (c # d # s)"
      using True by auto
    then show ?thesis by blast
  next
    case False
    then have "strip_zeros (c # d # s) = c # d # s" by auto
    then show ?thesis by (metis append_Nil list.distinct(1) order_refl replicate_0)
  qed
qed (auto intro: exI [of _ 0])

lemma hex_group_strip:
  assumes "hex_group g"
  shows "strip_zeros g \<noteq> []" "58 \<notin> set (strip_zeros g)" "pad4 (strip_zeros g) = g"
    "zero_group (strip_zeros g) \<Longrightarrow> g = lit ''0000''" "length (strip_zeros g) \<le> 4"
proof -
  have g: "length g = 4" "\<forall>c\<in>set g. \<exists>d<16. c = digit_char d"
    using assms by (auto simp: hex_group_def)
  then have "g \<noteq> []" by auto
  from strip_zeros_props [OF this g(2)] obtain k
    where k: "g = replicate k 48 @ strip_zeros g" "strip_zeros g \<noteq> []"
      "set (strip_zeros g) \<subseteq> set g" by auto
  show "strip_zeros g \<noteq> []" by (rule k(2))
  show "58 \<notin> set (strip_zeros g)" using k(3) g(2) digit_char_not_sep(1) by fastforce
  have l: "length g = k + length (strip_zeros g)" by (subst k(1)) simp
  with g(1) have lk: "4 - length (strip_zeros g) = k" "length (strip_zeros g) \<le> 4" by simp_all
  show p: "pad4 (strip_zeros g) = g" unfolding pad4_def padStart_def lk(1) using k(1) by simp
  show "length (strip_zeros g) \<le> 4" by (rule lk(2))
  show "g = lit ''0000''" if "zero_group (strip_zeros g)"
  proof -
    have "strip_zeros g = lit ''0''" using that k(2) by (simp add: zero_group_def)
    then have "pad4 (strip_zeros g) = lit ''0000''"
      by (simp add: pad4_def padStart_def lit_simps numeral_eq_Suc)
    with p show ?thesis by simp
  qed
qed

lemma hex_group_no_colon: "hex_group g \<Longrightarrow> 58 \<notin> set g"
  using digit_char_not_sep(1) by (fastforce simp: hex_group_def)

subsection \<open>Double colons\<close>

fun no_double :: "'a \<Rightarrow> 'a list \<Rightarrow> bool" where
  "no_double x (a # b # s) = (\<not> (a = x \<and> b = x) \<and> no_double x (b # s))"
| "no_double x s = True"

lemma js_split_no_double: "no_double x s \<Longrightarrow> js_split [x, x] s = [s]"
  by (induction x s rule: no_double.induct) (auto simp: prefix_def)

lemma js_split_at_double:
  "no_double x (s @ [x]) \<Longrightarrow> js_split [x, x] (s @ x # x # t) = s # js_split [x, x] t"
proof (induction s)
  case (Cons a s)
  then show ?case by (cases s) auto
qed simp

lemma no_double_append: "x \<notin> set p \<Longrightarrow> p \<noteq> [] \<Longrightarrow> no_double x (p @ s) = no_double x s"
proof (induction p)
  case (Cons a p)
  then show ?case by (cases p; cases s) auto
qed simp

lemma no_double_join:
  assumes "\<And>p. p \<in> set ps \<Longrightarrow> p \<noteq> [] \<and> x \<notin> set p"
  shows "no_double x (js_join [x] ps @ [x])" "no_double x (js_join [x] ps)"
  using assms
proof (induction "[x]" ps rule: js_join.induct)
  case (2 p)
  { case 1 then show ?case by (simp add: no_double_append) }
  { case 2 then show ?case using no_double_append [of x p "[]"] by simp }
next
  case (3 p q ps)
  have q: "js_join [x] (q # ps) \<noteq> []" "hd (js_join [x] (q # ps)) \<noteq> x"
    if "\<And>r. r \<in> set (p # q # ps) \<Longrightarrow> r \<noteq> [] \<and> x \<notin> set r"
    using that [of q] by (cases ps; cases q; auto)+
  have cons: "no_double x (x # s) \<longleftrightarrow> no_double x s" if "s \<noteq> []" "hd s \<noteq> x" for s
    using that by (cases s) auto
  { case 1
    with q 3 cons [of "js_join [x] (q # ps) @ [x]"] show ?case
      by (simp add: no_double_append) }
  { case 2
    with q 3 cons [of "js_join [x] (q # ps)"] show ?case
      by (simp add: no_double_append) }
qed simp_all

subsection \<open>The scan finds a run of zero groups\<close>

definition zero_run_at :: "jstring list \<Rightarrow> nat \<Rightarrow> nat \<Rightarrow> bool" where
  "zero_run_at gs start len \<longleftrightarrow> start + len \<le> length gs \<and> (\<forall>j. start \<le> j \<and> j < start + len \<longrightarrow> zero_group (gs ! j))"

definition scan_inv :: "jstring list \<Rightarrow> nat \<Rightarrow> zero_run \<Rightarrow> zero_run \<Rightarrow> bool" where
  "scan_inv gs i longest current \<longleftrightarrow>
     i \<le> length gs
     \<and> (case fst longest of None \<Rightarrow> snd longest = 0
        | Some st \<Rightarrow> 0 < snd longest \<and> zero_run_at gs st (snd longest))
     \<and> (case fst current of None \<Rightarrow> snd current = 0
        | Some st \<Rightarrow> st + snd current = i \<and> zero_run_at gs st (snd current))
     \<and> (\<forall>a. zero_run_at gs a (i - a) \<and> a \<le> i \<longrightarrow> i - a \<le> snd current)
     \<and> (\<forall>a m. zero_run_at gs a m \<and> a + m \<le> i \<longrightarrow> m \<le> snd longest)"

lemma zero_run_extend:
  "zero_run_at gs st len \<Longrightarrow> st + len < length gs \<Longrightarrow> zero_group (gs ! (st + len)) \<Longrightarrow>
   zero_run_at gs st (Suc len)"
  by (auto simp: zero_run_at_def less_Suc_eq)

lemma zero_run_shorten: "zero_run_at gs a (Suc m) \<Longrightarrow> zero_run_at gs a m \<and> zero_group (gs ! (a + m))"
  by (auto simp: zero_run_at_def)

lemma scan_invD:
  assumes "scan_inv gs i longest current"
  shows "i \<le> length gs"
    "fst longest = None \<Longrightarrow> snd longest = 0"
    "fst longest = Some st \<Longrightarrow> 0 < snd longest \<and> zero_run_at gs st (snd longest)"
    "fst current = None \<Longrightarrow> snd current = 0"
    "fst current = Some st \<Longrightarrow> st + snd current = i \<and> zero_run_at gs st (snd current)"
    "zero_run_at gs a (i - a) \<Longrightarrow> a \<le> i \<Longrightarrow> i - a \<le> snd current"
    "zero_run_at gs a m \<Longrightarrow> a + m \<le> i \<Longrightarrow> m \<le> snd longest"
  using assms by (simp_all add: scan_inv_def)

lemma scan_invI:
  assumes "i \<le> length gs"
    "fst longest = None \<Longrightarrow> snd longest = 0"
    "\<And>st. fst longest = Some st \<Longrightarrow> 0 < snd longest \<and> zero_run_at gs st (snd longest)"
    "fst current = None \<Longrightarrow> snd current = 0"
    "\<And>st. fst current = Some st \<Longrightarrow> st + snd current = i \<and> zero_run_at gs st (snd current)"
    "\<And>a. zero_run_at gs a (i - a) \<Longrightarrow> a \<le> i \<Longrightarrow> i - a \<le> snd current"
    "\<And>a m. zero_run_at gs a m \<Longrightarrow> a + m \<le> i \<Longrightarrow> m \<le> snd longest"
  shows "scan_inv gs i longest current"
  unfolding scan_inv_def using assms by (auto split: option.split)

lemma scan_inv_zero:
  assumes inv: "scan_inv gs i longest (cs, cl)" and i: "i < length gs" and z: "zero_group (gs ! i)"
  defines "start \<equiv> (case cs of None \<Rightarrow> i | Some k \<Rightarrow> k)"
  shows "scan_inv gs (Suc i)
    (if Suc cl > snd longest then (Some start, Suc cl) else longest) (Some start, Suc cl)"
proof -
  have run0: "start + cl = i \<and> zero_run_at gs start cl"
  proof (cases cs)
    case None
    then have "cl = 0" using scan_invD(4) [OF inv] by simp
    with None i show ?thesis by (auto simp: start_def zero_run_at_def)
  next
    case (Some st)
    then show ?thesis using scan_invD(5) [OF inv, of st] by (simp add: start_def)
  qed
  then have run: "zero_run_at gs start (Suc cl)" "start + Suc cl = Suc i"
    using zero_run_extend [of gs start cl] i z by simp_all
  have cur: "Suc i - a \<le> Suc cl" if "zero_run_at gs a (Suc i - a)" "a \<le> Suc i" for a
  proof (cases "a \<le> i")
    case True
    then have "zero_run_at gs a (i - a)" using that zero_run_shorten [of gs a "i - a"]
      by (simp add: Suc_diff_le)
    then have "i - a \<le> cl" using scan_invD(6) [OF inv] True by simp
    then show ?thesis by simp
  qed simp
  have all: "m \<le> max (snd longest) (Suc cl)" if "zero_run_at gs a m" "a + m \<le> Suc i" for a m
  proof (cases "a + m = Suc i")
    case True
    then have "m = Suc i - a" by simp
    then show ?thesis using cur [of a] that by simp
  next
    case False
    then have "m \<le> snd longest" using scan_invD(7) [OF inv that(1)] that(2) by simp
    then show ?thesis by simp
  qed
  show ?thesis
  proof (rule scan_invI)
    fix a m
    assume "zero_run_at gs a m" "a + m \<le> Suc i"
    from all [OF this]
    show "m \<le> snd (if Suc cl > snd longest then (Some start, Suc cl) else longest)" by auto
  qed (use i run cur scan_invD(2,3) [OF inv] in \<open>auto split: if_splits\<close>)
qed

lemma scan_inv_nonzero:
  assumes inv: "scan_inv gs i longest current" and i: "i < length gs" and z: "\<not> zero_group (gs ! i)"
  shows "scan_inv gs (Suc i) longest (None, 0)"
proof (rule scan_invI)
  fix a m
  assume run: "zero_run_at gs a m" "a + m \<le> Suc i"
  show "m \<le> snd longest"
  proof (cases "a + m = Suc i \<and> m \<noteq> 0")
    case True
    then have "a \<le> i" "i < a + m" by auto
    with run have "zero_group (gs ! i)" by (auto simp: zero_run_at_def)
    with z show ?thesis by simp
  next
    case False
    then have "a + m \<le> i \<or> m = 0" using run(2) by auto
    then show ?thesis using scan_invD(7) [OF inv run(1)] by auto
  qed
next
  fix a
  assume "zero_run_at gs a (Suc i - a)" "a \<le> Suc i"
  then show "Suc i - a \<le> snd (None, 0 :: nat)"
    using z i by (cases "a = Suc i") (auto simp: zero_run_at_def)
qed (use i scan_invD(2,3) [OF inv] in auto)

lemma scan_zeros_inv:
  "scan_inv gs i longest current \<Longrightarrow>
   \<exists>current'. scan_inv gs (length gs) (scan_zeros i (List.drop i gs) longest current) current'"
proof (induction "length gs - i" arbitrary: i longest current)
  case 0
  then have "i = length gs" by (simp add: scan_inv_def)
  with 0 show ?case by (intro exI [of _ current]) simp
next
  case (Suc n)
  then have i: "i < length gs" by simp
  obtain cs cl where c: "current = (cs, cl)" by (cases current)
  have d: "List.drop i gs = gs ! i # List.drop (Suc i) gs" using i by (rule Cons_nth_drop_Suc [symmetric])
  have n: "n = length gs - Suc i" using Suc.hyps(2) by simp
  show ?case
  proof (cases "zero_group (gs ! i)")
    case True
    from Suc.hyps(1) [OF n scan_inv_zero [OF Suc.prems [unfolded c] i True]] show ?thesis
      unfolding d c by (simp add: True Let_def)
  next
    case False
    from Suc.hyps(1) [OF n scan_inv_nonzero [OF Suc.prems i False]] show ?thesis
      unfolding d c by (simp add: False)
  qed
qed

lemma scan_zeros_result:
  "(case scan_zeros 0 gs (None, 0) (None, 0) of
      (None, n) \<Rightarrow> n = 0
    | (Some st, n) \<Rightarrow> 0 < n \<and> zero_run_at gs st n)
   \<and> (\<forall>a m. zero_run_at gs a m \<longrightarrow> m \<le> snd (scan_zeros 0 gs (None, 0) (None, 0)))"
proof -
  have "scan_inv gs 0 (None, 0) (None, 0)" by (simp add: scan_inv_def)
  from scan_zeros_inv [OF this] obtain c
    where "scan_inv gs (length gs) (scan_zeros 0 gs (None, 0) (None, 0)) c" by auto
  then show ?thesis
    by (auto simp: scan_inv_def zero_run_at_def split: option.splits prod.splits)
qed

subsection \<open>Text and bytes\<close>

fun byte_groups :: "bytes \<Rightarrow> jstring list" where
  "byte_groups (a # b # bs) = (hex_byte a @ hex_byte b) # byte_groups bs"
| "byte_groups bs = []"

definition ipv6_text :: "bytes \<Rightarrow> jstring" where
  "ipv6_text bs = js_join (lit '':'') (byte_groups bs)"

lemma length_hex_byte [simp]: "length (hex_byte b) = 2"
  by (simp add: hex_byte_nibbles byte_nibbles_def)

lemma foldl_concat: "foldl (\<lambda>acc b. acc @ f b) acc bs = acc @ concat (List.map f bs)"
  by (induction bs arbitrary: acc) auto

lemma length_byte_nibbles [simp]: "length (byte_nibbles b) = 2"
  by (simp add: byte_nibbles_def)

lemma two_bytes_nibbles:
  "hex_byte a @ hex_byte b = List.map digit_char (byte_nibbles a @ byte_nibbles b)"
  "d \<in> set (byte_nibbles a @ byte_nibbles b) \<Longrightarrow> d < 16"
  by (auto simp: hex_byte_nibbles dest: byte_nibbles_less)

lemma hex_group_bytes: "hex_group (hex_byte a @ hex_byte b)"
  unfolding two_bytes_nibbles(1) hex_group_def using two_bytes_nibbles(2) by auto

lemma byte_groups_hex: "g \<in> set (byte_groups bs) \<Longrightarrow> hex_group g"
  by (induction bs rule: byte_groups.induct) (auto simp: hex_group_bytes)

lemma chunks4_bytes: "even (length bs) \<Longrightarrow> chunks4 (concat (List.map hex_byte bs)) = byte_groups bs"
proof (induction bs rule: byte_groups.induct)
  case (1 a b bs)
  have "chunks4 ((hex_byte a @ hex_byte b) @ r) = (hex_byte a @ hex_byte b) # chunks4 r" for r
    by (subst chunks4.simps) (auto simp flip: length_0_conv)
  with 1 show ?case by simp
qed (simp_all add: chunks4.simps)

lemma parse_ipv6: "length bs = 16 \<Longrightarrow> parseIPv6Address bs = Inr (ipv6_text bs)"
  by (simp add: parseIPv6Address_def ipv6_text_def foldl_concat chunks4_bytes)

lemma length_byte_groups [simp]: "length (byte_groups bs) = length bs div 2"
  by (induction bs rule: byte_groups.induct) auto

lemma parseHex_group: "parseHex (hex_byte a @ hex_byte b) = Inr (uint a * 256 + uint b)"
proof -
  have "parseHex (List.map digit_char (byte_nibbles a @ byte_nibbles b))
    = Inr (int (digits_value 16 (byte_nibbles a @ byte_nibbles b)))"
    by (rule parseHex_digits) (auto dest: byte_nibbles_less)
  moreover have "digits_value 16 (byte_nibbles a @ byte_nibbles b) = unat a * 256 + unat b"
    by (simp add: digits_value_def byte_nibbles_def algebra_simps)
  ultimately show ?thesis unfolding two_bytes_nibbles(1) by simp
qed

lemma groups_loop_bytes: "even (length bs) \<Longrightarrow> groups_loop i (byte_groups bs) = Inr bs"
proof (induction bs arbitrary: i rule: byte_groups.induct)
  case (1 a b bs)
  have r: "0 \<le> uint a * 256 + uint b" "uint a * 256 + uint b < 65536"
    using uint_byte_bounds [of a] uint_byte_bounds [of b] by auto
  have "js_shr (uint a * 256 + uint b) 8 = (uint a * 256 + uint b) div 2 ^ nat 8"
    by (rule js_shr_arith) (use r in linarith)+
  then have "js_shr (uint a * 256 + uint b) 8 = uint a"
    using uint_byte_bounds [of b] by simp
  moreover have "js_and (uint a * 256 + uint b) 255 = (uint a * 256 + uint b) mod 256"
    by (rule js_and_masks(6)) (use r in linarith)+
  then have "js_and (uint a * 256 + uint b) 255 = uint b"
    using uint_byte_bounds [of b] by simp
  ultimately show ?case using 1 r by (simp add: parseHex_group)
qed auto

text \<open>Whatever expands to the eight groups of some bytes serializes to these bytes.\<close>

lemma serialize_of_expanded:
  assumes "length bs = 16" "expandIPv6 ip = Inr (ipv6_text bs)"
  shows "serializeIPv6Address ip = Inr bs"
proof -
  have "byte_groups bs \<noteq> []" using assms(1) by (simp flip: length_greater_0_conv)
  then have "js_split [58] (ipv6_text bs) = byte_groups bs"
    unfolding ipv6_text_def lit_sep
    using byte_groups_hex hex_group_no_colon by (intro js_split_join) blast+
  then show ?thesis
    using assms groups_loop_bytes [of bs] by (simp add: serializeIPv6Address_def lit_sep Let_def)
qed

subsection \<open>Expanding the compressed text\<close>

definition plain_groups :: "jstring list \<Rightarrow> bool" where
  "plain_groups ps \<longleftrightarrow> (\<forall>p\<in>set ps. p \<noteq> [] \<and> 58 \<notin> set p)"

lemma plain_groupsD: "plain_groups ps \<Longrightarrow> p \<in> set ps \<Longrightarrow> p \<noteq> [] \<and> 58 \<notin> set p"
  by (auto simp: plain_groups_def)

lemma split_plain: "plain_groups ps \<Longrightarrow> js_split [58] (js_join [58] ps) = (if ps = [] then [[]] else ps)"
  using plain_groupsD by (auto intro!: js_split_join)

lemma join_plain_not_Nil: "plain_groups ps \<Longrightarrow> ps \<noteq> [] \<Longrightarrow> js_join [58] ps \<noteq> []"
  by (cases ps rule: remdups_adj.cases) (auto simp: plain_groups_def)

lemma expand_plain:
  assumes "plain_groups ps" "ps \<noteq> []"
  shows "expandIPv6 (js_join [58] ps) = Inr (js_join [58] (List.map pad4 ps))"
proof -
  have "js_split [58, 58] (js_join [58] ps) = [js_join [58] ps]"
    using plain_groupsD [OF assms(1)] by (intro js_split_no_double no_double_join) blast
  then show ?thesis
    using assms join_plain_not_Nil by (simp add: expandIPv6_def lit_sep split_plain)
qed

lemma pad4_zero [simp]: "pad4 [] = lit ''0000''" "pad4 (lit ''0000'') = lit ''0000''"
  by (simp_all add: pad4_def padStart_def lit_simps numeral_eq_Suc)

lemma expand_double:
  assumes "plain_groups L" "plain_groups R" "length L + length R \<le> 6"
  shows "expandIPv6 (js_join [58] L @ 58 # 58 # js_join [58] R)
    = Inr (js_join [58] (List.map pad4 L @ replicate (8 - length L - length R) (lit ''0000'') @ List.map pad4 R))"
proof -
  have "js_split [58, 58] (js_join [58] L @ 58 # 58 # js_join [58] R)
    = [js_join [58] L, js_join [58] R]"
    using plain_groupsD [OF assms(1)] plain_groupsD [OF assms(2)]
    by (subst js_split_at_double)
       (auto intro!: no_double_join js_split_no_double)
  moreover have "(if L = [] then [[]] else L) = (if L = [] then [[]] else L)" ..
  ultimately have e: "expandIPv6 (js_join [58] L @ 58 # 58 # js_join [58] R)
    = Inr (js_join [58] (List.map pad4 ((if L = [] then [[]] else L)
        @ replicate (8 - (length (if L = [] then [[]] else L :: jstring list)
            + length (if R = [] then [[]] else R :: jstring list))) (lit ''0000'')
        @ (if R = [] then [[]] else R))))"
    using assms by (simp add: expandIPv6_def lit_sep split_plain Let_def)
  have cons: "replicate (Suc n) z = z # replicate n z" "replicate (Suc n) z = replicate n z @ [z]"
    for n and z :: jstring
    by (simp_all add: replicate_append_same)
  have "List.map pad4 ((if L = [] then [[]] else L)
        @ replicate (8 - (length (if L = [] then [[]] else L :: jstring list)
            + length (if R = [] then [[]] else R :: jstring list))) (lit ''0000'')
        @ (if R = [] then [[]] else R))
    = List.map pad4 L @ replicate (8 - length L - length R) (lit ''0000'') @ List.map pad4 R"
  proof -
    have "8 - length R = Suc (7 - length R)" "8 - length L = Suc (7 - length L)"
      using assms(3) by simp_all
    then show ?thesis
      using cons(1) [of "7 - length R" "lit ''0000''"] cons(2) [of "7 - length L" "lit ''0000''"]
      by (auto simp: numeral_eq_Suc replicate_append_same)
  qed
  with e show ?thesis by simp
qed

lemma splice_run_join:
  assumes "plain_groups gs" "2 \<le> len" "start + len \<le> length gs" "len < length gs"
  defines "L \<equiv> List.take start gs" and "R \<equiv> List.drop (start + len) gs"
  shows "js_join [58] (splice_run start len gs) = js_join [58] L @ 58 # 58 # js_join [58] R"
proof -
  have lens: "length L = start" "length R = length gs - (start + len)"
    using assms(3) by (simp_all add: L_def R_def)
  have LR: "List.take start (L @ R) = L" "List.drop start (L @ R) = R" using lens by simp_all
  have snoc: "js_join [58] (ps @ [[], []]) = js_join [58] ps @ [58, 58]" if "ps \<noteq> []" for ps :: "jstring list"
    using that by (induction "[58] :: jstring" ps rule: js_join.induct) auto
  have mid: "js_join [58] (ps @ [] # qs) = js_join [58] ps @ 58 # 58 # js_join [58] qs"
    if "ps \<noteq> []" "qs \<noteq> []" for ps qs :: "jstring list"
    using that by (induction "[58] :: jstring" ps rule: js_join.induct) (auto simp: js_join_Cons)
  consider "start = 0" | "start \<noteq> 0" "R = []" | "start \<noteq> 0" "R \<noteq> []" by blast
  then show ?thesis
  proof cases
    case 1
    then have "R \<noteq> []" using lens assms(3,4) by auto
    then show ?thesis using 1 lens js_join_Cons [of R "[58]" "[]"] by (simp add: splice_run_def R_def)
  next
    case 2
    then have "L \<noteq> []" using lens by auto
    with 2 show ?thesis using lens snoc [of L]
      by (simp add: splice_run_def Let_def flip: L_def R_def)
  next
    case 3
    then have "L \<noteq> []" "start \<noteq> length gs - len" "\<not> length gs \<le> start + len"
      using lens by (auto simp: R_def)
    with 3 show ?thesis using LR mid [of L R] lens
      by (simp add: splice_run_def Let_def flip: L_def R_def)
  qed
qed

lemma lower_ipv6_text: "toLowerCase (ipv6_text bs) = ipv6_text bs"
proof -
  have "lower_char c = c" if "c \<in> set (ipv6_text bs)" for c
  proof -
    have "c = 58 \<or> (\<exists>g\<in>set (byte_groups bs). c \<in> set g)"
      using that set_js_join [of "lit '':''" "byte_groups bs"] by (auto simp: ipv6_text_def lit_sep)
    then show ?thesis
    proof
      assume "\<exists>g\<in>set (byte_groups bs). c \<in> set g"
      then obtain d where "d < 16" "c = digit_char d"
        using byte_groups_hex by (force simp: hex_group_def)
      then show ?thesis by (simp add: lower_digit_char)
    qed (simp add: lower_char_def)
  qed
  then show ?thesis by (simp add: toLowerCase_def map_idI)
qed

text \<open>The two shapes of a compressed text: a run of at least two zero groups left out, or none.\<close>

lemma compress_shape:
  fixes bs :: bytes
  assumes "length bs = 16"
  defines "N \<equiv> List.map strip_zeros (byte_groups bs)"
  shows "compressIPv6 (ipv6_text bs) = js_join [58] N
    \<or> (\<exists>start len. 2 \<le> len \<and> zero_run_at N start len
        \<and> compressIPv6 (ipv6_text bs)
          = js_join [58] (List.take start N) @ 58 # 58 # js_join [58] (List.drop (start + len) N))"
proof -
  have lenN: "length N = 8" using assms(1) by (simp add: N_def)
  have plain: "plain_groups N"
    using hex_group_strip(1,2) byte_groups_hex by (auto simp: N_def plain_groups_def)
  have ne: "byte_groups bs \<noteq> []" using assms(1) by (simp flip: length_greater_0_conv)
  have split: "js_split [58] (ipv6_text bs) = byte_groups bs"
    unfolding ipv6_text_def lit_sep using ne byte_groups_hex hex_group_no_colon
    by (intro js_split_join) blast+
  let ?r = "scan_zeros 0 N (None, 0) (None, 0)"
  have c: "compressIPv6 (ipv6_text bs) =
    (if list_all zero_group N then [58, 58]
     else case ?r of (Some st, n) \<Rightarrow> js_join [58] (if n \<ge> 2 then splice_run st n N else N)
        | (None, _) \<Rightarrow> js_join [58] N)"
    unfolding compressIPv6_def lower_ipv6_text lit_sep split Let_def N_def [symmetric] ..
  show ?thesis
  proof (cases "list_all zero_group N")
    case True
    then have "zero_run_at N 0 8" using lenN by (auto simp: zero_run_at_def list_all_length)
    with True c lenN show ?thesis by (intro disjI2 exI [of _ 0] exI [of _ 8]) simp
  next
    case notall: False
    obtain o1 n where r: "?r = (o1, n)" by (cases ?r)
    show ?thesis
    proof (cases "o1 = None \<or> n < 2")
      case True
      with r c notall show ?thesis by (auto split: option.splits)
    next
      case False
      then obtain st where st: "o1 = Some st" "2 \<le> n" by auto
      have run: "zero_run_at N st n" using scan_zeros_result [of N] r st by simp
      have "n < length N"
      proof (rule ccontr)
        assume "\<not> n < length N"
        with run have "st = 0" "n = length N" by (auto simp: zero_run_at_def)
        with run have "list_all zero_group N" by (auto simp: zero_run_at_def list_all_length)
        with notall show False by simp
      qed
      with run plain st have "js_join [58] (splice_run st n N)
        = js_join [58] (List.take st N) @ 58 # 58 # js_join [58] (List.drop (st + n) N)"
        by (intro splice_run_join) (auto simp: zero_run_at_def)
      with c notall r st run show ?thesis by auto
    qed
  qed
qed

lemma expand_compress:
  assumes "length bs = 16"
  shows "expandIPv6 (compressIPv6 (ipv6_text bs)) = Inr (ipv6_text bs)"
proof -
  define G where "G = byte_groups bs"
  define N where "N = List.map strip_zeros G"
  have lens: "length G = 8" "length N = 8" using assms by (simp_all add: G_def N_def)
  have hex: "hex_group g" if "g \<in> set G" for g using that byte_groups_hex by (simp add: G_def)
  have plain: "plain_groups N"
    using hex_group_strip(1,2) hex by (auto simp: N_def plain_groups_def)
  have pad: "List.map pad4 N = G" using hex hex_group_strip(3) by (simp add: N_def map_idI)
  have joined: "ipv6_text bs = js_join [58] G" by (simp add: ipv6_text_def lit_sep G_def)
  from compress_shape [OF assms] consider
    (whole) "compressIPv6 (ipv6_text bs) = js_join [58] N"
  | (run) start len where "2 \<le> len" "zero_run_at N start len"
      "compressIPv6 (ipv6_text bs)
        = js_join [58] (List.take start N) @ 58 # 58 # js_join [58] (List.drop (start + len) N)"
    by (auto simp flip: N_def G_def)
  then show ?thesis
  proof cases
    case whole
    have "N \<noteq> []" using lens by auto
    with whole show ?thesis using expand_plain [OF plain] by (simp add: pad joined)
  next
    case run
    let ?L = "List.take start N" and ?R = "List.drop (start + len) N"
    have bound: "start + len \<le> 8" using run(2) lens by (simp add: zero_run_at_def)
    have "plain_groups ?L" "plain_groups ?R"
      using plain by (auto simp: plain_groups_def dest: in_set_takeD in_set_dropD)
    moreover have "length ?L + length ?R \<le> 6" using run(1) bound lens by simp
    ultimately have "expandIPv6 (compressIPv6 (ipv6_text bs))
      = Inr (js_join [58] (List.map pad4 ?L @ replicate (8 - length ?L - length ?R) (lit ''0000'')
          @ List.map pad4 ?R))"
      unfolding run(3) by (rule expand_double)
    moreover have "8 - length ?L - length ?R = len" using bound lens by simp
    moreover have "replicate len (lit ''0000'') = List.map pad4 (List.take len (List.drop start N))"
    proof (rule nth_equalityI)
      show "length (replicate len (lit ''0000''))
        = length (List.map pad4 (List.take len (List.drop start N)))" using bound lens by simp
    next
      fix j
      assume "j < length (replicate len (lit ''0000''))"
      then have j: "j < len" "start + j < 8" using bound by simp_all
      then have "zero_group (N ! (start + j))" using run(2) by (simp add: zero_run_at_def)
      then have "G ! (start + j) = lit ''0000''"
        using hex_group_strip(4) [OF hex] j lens by (simp add: N_def)
      moreover have "pad4 (N ! (start + j)) = G ! (start + j)"
        using hex_group_strip(3) [OF hex] j lens by (simp add: N_def)
      ultimately show "replicate len (lit ''0000'') ! j
        = List.map pad4 (List.take len (List.drop start N)) ! j"
        using j lens bound by simp
    qed
    moreover have "List.map pad4 ?L @ List.map pad4 (List.take len (List.drop start N)) @ List.map pad4 ?R = G"
    proof -
      have "?L @ List.take len (List.drop start N) @ ?R = N"
        by (metis append_take_drop_id drop_drop add.commute)
      then show ?thesis by (metis map_append pad)
    qed
    ultimately show ?thesis by (simp add: joined)
  qed
qed

lemma serialize_ipv6_texts:
  assumes "length bs = 16"
  shows "serializeIPv6Address (ipv6_text bs) = Inr bs"
    "serializeIPv6Address (compressIPv6 (ipv6_text bs)) = Inr bs"
proof -
  have "g \<noteq> [] \<and> 58 \<notin> set g" if "g \<in> set (byte_groups bs)" for g
    using byte_groups_hex [OF that] hex_group_no_colon [of g] by (auto simp: hex_group_def)
  then have "plain_groups (byte_groups bs)" by (simp add: plain_groups_def)
  moreover have "byte_groups bs \<noteq> []" using assms by (simp flip: length_greater_0_conv)
  moreover have "List.map pad4 (byte_groups bs) = byte_groups bs"
    using byte_groups_hex by (auto simp: hex_group_def pad4_def padStart_def intro!: map_idI)
  ultimately have "expandIPv6 (ipv6_text bs) = Inr (ipv6_text bs)"
    using expand_plain by (simp add: ipv6_text_def lit_sep)
  with assms show "serializeIPv6Address (ipv6_text bs) = Inr bs"
    by (rule serialize_of_expanded)
  from assms expand_compress [OF assms]
  show "serializeIPv6Address (compressIPv6 (ipv6_text bs)) = Inr bs"
    by (rule serialize_of_expanded)
qed

definition valid_ipv6 :: "jstring \<Rightarrow> bool" where
  "valid_ipv6 s \<longleftrightarrow> (\<exists>bs. length bs = 16 \<and> s = ipv6_text bs)"

interpretation ipv6_addr: fixed_codec serializeIPv6Address parseIPv6Address valid_ipv6 16
  by unfold_locales (auto simp: valid_ipv6_def serialize_ipv6_texts parse_ipv6)

subsection \<open>Properties\<close>

text \<open>The IPv6 text of sixteen bytes, in full or compressed by \<open>compressIPv6\<close> (zeros
  stripped, the first longest run of two or more zero groups replaced by \<open>::\<close>), is read back
  as the same bytes, so that compression loses nothing.\<close>

theorem ipv6_texts_roundtrip:
  assumes "length bs = 16"
  shows "\<exists>ip. parseIPv6Address bs = Inr ip \<and> serializeIPv6Address ip = Inr bs
    \<and> serializeIPv6Address (compressIPv6 ip) = Inr bs"
  using assms serialize_ipv6_texts [OF assms] parse_ipv6 [OF assms] by blast

theorem ipv6_texts_roundtrip_witness:
  "\<exists>ip. parseIPv6Address [0x20, 1, 0xd, 0xb8, 0, 0, 0, 0, 0, 0, 0, 0, 0, 0, 0, 1] = Inr ip
    \<and> serializeIPv6Address (compressIPv6 ip)
      = Inr [0x20, 1, 0xd, 0xb8, 0, 0, 0, 0, 0, 0, 0, 0, 0, 0, 0, 1]"
  using ipv6_texts_roundtrip [of "[0x20, 1, 0xd, 0xb8, 0, 0, 0, 0, 0, 0, 0, 0, 0, 0, 0, 1]"] by auto

text \<open>\<open>compressIPv6\<close> replaces a longest run of zero groups: the run that the scan
  reports is a run, and no run of zero groups anywhere is longer.\<close>

theorem compressIPv6_longest_run:
  "case scan_zeros 0 gs (None, 0) (None, 0) of
      (None, n) \<Rightarrow> n = 0 \<and> (\<forall>i<length gs. \<not> zero_group (gs ! i))
    | (Some st, n) \<Rightarrow> 0 < n \<and> st + n \<le> length gs \<and> (\<forall>j. st \<le> j \<and> j < st + n \<longrightarrow> zero_group (gs ! j))
        \<and> (\<forall>a m. a + m \<le> length gs \<and> (\<forall>j. a \<le> j \<and> j < a + m \<longrightarrow> zero_group (gs ! j)) \<longrightarrow> m \<le> n)"
proof -
  obtain run n where run: "scan_zeros 0 gs (None, 0) (None, 0) = (run, n)" by fastforce
  have one: "zero_run_at gs i 1" if "i < length gs" "zero_group (gs ! i)" for i
    using that by (auto simp: zero_run_at_def le_less_Suc_eq)
  have longest: "\<And>a m. zero_run_at gs a m \<Longrightarrow> m \<le> n"
    using scan_zeros_result [of gs] run by simp
  show ?thesis
  proof (cases run)
    case None
    then have "n = 0" using scan_zeros_result [of gs] run by simp
    then have "\<not> zero_group (gs ! i)" if "i < length gs" for i
      using longest [OF one [OF that]] by auto
    with None run \<open>n = 0\<close> show ?thesis by simp
  next
    case (Some st)
    then have "0 < n" "zero_run_at gs st n" using scan_zeros_result [of gs] run by simp_all
    with Some run longest show ?thesis unfolding zero_run_at_def by simp
  qed
qed

theorem compressIPv6_longest_run_witness:
  "fst (scan_zeros 0 [lit ''1'', lit ''0'', lit ''0''] (None, 0) (None, 0)) = Some 1"
proof -
  have "scan_zeros 0 [lit ''1'', lit ''0'', lit ''0''] (None, 0) (None, 0) = (Some 1, 2)"
    by code_simp
  with compressIPv6_longest_run [of "[lit ''1'', lit ''0'', lit ''0'']"] show ?thesis by simp
qed

text \<open>The strictness checks of the IPv6 parser have a hole: the groups are padded before they
  are checked, so an empty group is never seen. A trailing colon is read as a zero group, and
  three colons as the unspecified address.\<close>

theorem ipv6_empty_groups_accepted:
  "serializeIPv6Address (lit ''1:2:3:4:5:6:7:'') = Inr [0, 1, 0, 2, 0, 3, 0, 4, 0, 5, 0, 6, 0, 7, 0, 0]
   \<and> serializeIPv6Address (lit '':::'') = Inr [0, 0, 0, 0, 0, 0, 0, 0, 0, 0, 0, 0, 0, 0, 0, 0]"
proof
  note printed = ipv6_text_def lit_simps hex_byte_nibbles byte_nibbles_def digit_char_def
  note expand = expandIPv6_def lit_simps pad4_def padStart_def replicate_numeral_Cons
  have "expandIPv6 (lit ''1:2:3:4:5:6:7:'')
      = Inr (ipv6_text [0, 1, 0, 2, 0, 3, 0, 4, 0, 5, 0, 6, 0, 7, 0, 0])"
    by (simp add: expand printed)
  then show "serializeIPv6Address (lit ''1:2:3:4:5:6:7:'')
      = Inr [0, 1, 0, 2, 0, 3, 0, 4, 0, 5, 0, 6, 0, 7, 0, 0]"
    by (intro serialize_of_expanded) simp_all
  have "expandIPv6 (lit '':::'') = Inr (ipv6_text [0, 0, 0, 0, 0, 0, 0, 0, 0, 0, 0, 0, 0, 0, 0, 0])"
    by (simp add: expand printed)
  then show "serializeIPv6Address (lit '':::'') = Inr [0, 0, 0, 0, 0, 0, 0, 0, 0, 0, 0, 0, 0, 0, 0, 0]"
    by (intro serialize_of_expanded) simp_all
qed

end
