(* ===== verification/Wire_Chars.thy ===== *)
theory Wire_Chars
  imports Wire_IPv6
begin

text \<open>
  The characters of printed addresses: digits and one separator, so that neither an IPv4 text nor a
  compressed IPv6 text is mistaken for the other or broken up at a slash.
\<close>

text \<open>The text of an address has digits and separators only.\<close>

definition addr_char :: "jschar \<Rightarrow> jschar \<Rightarrow> bool" where
  "addr_char sep c \<longleftrightarrow> c = sep \<or> (\<exists>d<16. c = digit_char d)"

lemma digit_char_high: "d < 36 \<Longrightarrow> 48 \<le> unat (digit_char d)"
  by (simp add: unat_digit_char)

lemma addr_char_not_slash: "sep \<noteq> 47 \<Longrightarrow> \<not> addr_char sep 47"
proof
  assume "sep \<noteq> 47" "addr_char sep 47"
  then obtain d where "d < 16" "digit_char d = 47" by (metis addr_char_def)
  then show False using digit_char_high [of d] by simp
qed

lemma addr_char_not_dot: "\<not> addr_char 58 46"
  using digit_char_not_sep by (auto simp: addr_char_def)

lemma addr_join:
  assumes "\<And>g. g \<in> set ps \<Longrightarrow> set g \<subseteq> Collect (addr_char sep)"
  shows "set (js_join [sep] ps) \<subseteq> Collect (addr_char sep)"
proof -
  have "set [sep] \<union> \<Union> (set ` set ps) \<subseteq> Collect (addr_char sep)"
    using assms by (auto simp: addr_char_def [of sep sep])
  with set_js_join [of "[sep]" ps] show ?thesis by (rule subset_trans)
qed

lemma ipv4_text_chars: "set (ipv4_text bs) \<subseteq> Collect (addr_char 46)"
  unfolding ipv4_text_def lit_sep
  proof (rule addr_join)
  fix g assume "g \<in> set (List.map (\<lambda>b. num_str 10 (unat b)) bs)"
  then obtain n where "g = num_str 10 n" by auto
  then show "set g \<subseteq> Collect (addr_char 46)"
    using set_num_str [of 10 _ n] by (force simp: addr_char_def)
qed

lemma strip_zeros_subset: "set (strip_zeros g) \<subseteq> set g"
  by (induction g rule: strip_zeros.induct) auto

lemma compressed_chars:
  assumes "length bs = 16"
  shows "set (compressIPv6 (ipv6_text bs)) \<subseteq> Collect (addr_char 58)"
proof -
  let ?N = "List.map strip_zeros (byte_groups bs)" and ?A = "Collect (addr_char 58)"
  have N: "set g \<subseteq> ?A" if g: "g \<in> set ?N" for g
  proof -
    obtain h where h: "h \<in> set (byte_groups bs)" "g = strip_zeros h" using g unfolding set_map by blast
    then have "set h \<subseteq> ?A" using byte_groups_hex [of h bs] by (auto simp: hex_group_def addr_char_def)
    with h strip_zeros_subset [of h] show ?thesis by blast
  qed
  have "set (js_join [58] ?N) \<subseteq> ?A" by (rule addr_join) (rule N)
  moreover have "set (js_join [58] (List.take k ?N)) \<subseteq> ?A" for k
    by (rule addr_join) (meson N in_set_takeD)
  moreover have "set (js_join [58] (List.drop k ?N)) \<subseteq> ?A" for k
    by (rule addr_join) (meson N in_set_dropD)
  moreover have "58 \<in> ?A" by (simp add: addr_char_def)
  ultimately show ?thesis using compress_shape [OF assms] by (elim disjE exE conjE) simp_all
qed

lemma no_dot_not_ipv4: "46 \<notin> set s \<Longrightarrow> \<exists>e. serializeIPv4Address s = Inl e"
  by (simp add: serializeIPv4Address_def lit_sep js_split_plain)

end
