(* ===== verification/Wire_Arp.thy ===== *)
theory Wire_Arp
  imports Wire_Addr
begin

text \<open>\<open>packages/wire/src/arp.ts\<close>: ARP messages for IPv4 over Ethernet.\<close>

record arp_message =
  arp_hardwareType :: jstring
  arp_protocolType :: jstring
  arp_opcode :: jstring
  arp_senderMac :: jstring
  arp_senderIP :: jstring
  arp_targetMac :: jstring
  arp_targetIP :: jstring

definition parseHardwareType :: "int \<Rightarrow> jstring res" where
  "parseHardwareType hardwareType =
     (if hardwareType = 1 then Inr (lit ''ethernet'') else throw ''unknown hardware type'')"

definition serializeHardwareType :: "jstring \<Rightarrow> int res" where
  "serializeHardwareType hardwareType =
     (if hardwareType = lit ''ethernet'' then Inr 1 else throw ''unknown hardware type'')"

definition parseProtocolType :: "int \<Rightarrow> jstring res" where
  "parseProtocolType protocolType =
     (if protocolType = 0x0800 then Inr (lit ''ipv4'') else throw ''unknown protocol type'')"

definition serializeProtocolType :: "jstring \<Rightarrow> int res" where
  "serializeProtocolType protocolType =
     (if protocolType = lit ''ipv4'' then Inr 0x0800 else throw ''unknown protocol type'')"

definition parseOpcode :: "int \<Rightarrow> jstring res" where
  "parseOpcode opcode =
     (if opcode = 1 then Inr (lit ''request'')
      else if opcode = 2 then Inr (lit ''reply'')
      else throw ''unknown opcode'')"

definition serializeOpcode :: "jstring \<Rightarrow> int res" where
  "serializeOpcode opcode =
     (if opcode = lit ''request'' then Inr 1
      else if opcode = lit ''reply'' then Inr 2
      else throw ''unknown opcode'')"

definition parseArpMessage :: "bytes \<Rightarrow> arp_message res" where
  "parseArpMessage data =
     bnd (bnd (getUint16 data 0) parseHardwareType) (\<lambda>hardwareType.
     bnd (bnd (getUint16 data 2) parseProtocolType) (\<lambda>protocolType.
     bnd (bnd (getUint16 data 6) parseOpcode) (\<lambda>opcode.
     bnd (parseMacAddress (subarray 8 14 data)) (\<lambda>senderMac.
     bnd (parseIPv4Address (subarray 14 18 data)) (\<lambda>senderIP.
     bnd (parseMacAddress (subarray 18 24 data)) (\<lambda>targetMac.
     bnd (parseIPv4Address (subarray 24 28 data)) (\<lambda>targetIP.
       Inr \<lparr>arp_hardwareType = hardwareType, arp_protocolType = protocolType,
            arp_opcode = opcode, arp_senderMac = senderMac, arp_senderIP = senderIP,
            arp_targetMac = targetMac, arp_targetIP = targetIP\<rparr>)))))))"

definition serializeArpMessage :: "arp_message \<Rightarrow> bytes res" where
  "serializeArpMessage request =
     writes
       [setUint16 0 (serializeHardwareType (arp_hardwareType request)),
        setUint16 2 (serializeProtocolType (arp_protocolType request)),
        setUint8 4 (Inr 6),
        setUint8 5 (Inr 4),
        setUint16 6 (serializeOpcode (arp_opcode request)),
        setBytes 8 (serializeMacAddress (arp_senderMac request)),
        setBytes 14 (serializeIPv4Address (arp_senderIP request)),
        setBytes 18 (serializeMacAddress (arp_targetMac request)),
        setBytes 24 (serializeIPv4Address (arp_targetIP request))]
       (replicate 28 0)"

subsection \<open>Round trip\<close>

definition valid_arp :: "arp_message \<Rightarrow> bool" where
  "valid_arp m \<longleftrightarrow>
     arp_hardwareType m = lit ''ethernet'' \<and> arp_protocolType m = lit ''ipv4''
     \<and> (arp_opcode m = lit ''request'' \<or> arp_opcode m = lit ''reply'')
     \<and> valid_mac (arp_senderMac m) \<and> valid_ipv4 (arp_senderIP m)
     \<and> valid_mac (arp_targetMac m) \<and> valid_ipv4 (arp_targetIP m)"

lemma opcode_roundtrip:
  "o' = lit ''request'' \<or> o' = lit ''reply'' \<Longrightarrow>
   \<exists>n. serializeOpcode o' = Inr n \<and> (n = 1 \<or> n = 2) \<and> parseOpcode n = Inr o'"
  by (auto simp: serializeOpcode_def parseOpcode_def)

lemma arp_bytes:
  assumes "valid_arp m"
  obtains bs where "serializeArpMessage m = Inr bs" "length bs = 28" "parseArpMessage bs = Inr m"
proof -
  obtain a b c d where abcd: "arp_senderMac m = mac_text a" "arp_senderIP m = ipv4_text b"
      "arp_targetMac m = mac_text c" "arp_targetIP m = ipv4_text d"
      "length a = 6" "length b = 4" "length c = 6" "length d = 4"
    using assms by (auto simp: valid_arp_def valid_mac_def valid_ipv4_def)
  obtain n where n: "serializeOpcode (arp_opcode m) = Inr n" "n = 1 \<or> n = 2"
      "parseOpcode n = Inr (arp_opcode m)"
    using assms opcode_roundtrip by (auto simp: valid_arp_def)
  define bs where "bs = [0, 1, 8, 0, 6, 4, of_int (n div 256), of_int n] @ a @ b @ c @ d"
  have "serializeArpMessage m = Inr bs"
  proof -
    obtain a1 a2 a3 a4 a5 a6 where "a = [a1, a2, a3, a4, a5, a6]" using abcd(5) by (rule length_6E)
    moreover obtain b1 b2 b3 b4 where "b = [b1, b2, b3, b4]" using abcd(6) by (rule length_4E)
    moreover obtain c1 c2 c3 c4 c5 c6 where "c = [c1, c2, c3, c4, c5, c6]" using abcd(7) by (rule length_6E)
    moreover obtain d1 d2 d3 d4 where "d = [d1, d2, d3, d4]" using abcd(8) by (rule length_4E)
    ultimately show ?thesis
      using assms by (simp add: serializeArpMessage_def abcd(1-4) serialize_mac_text
          serialize_ipv4_text n bs_def layout valid_arp_def serializeHardwareType_def
          serializeProtocolType_def)
  qed
  moreover have "length bs = 28" by (simp add: bs_def abcd)
  moreover have "parseArpMessage bs = Inr m"
    using n(2,3) assms
    by (auto simp: parseArpMessage_def bs_def abcd layout parse_mac parse_ipv4 valid_arp_def
        parseHardwareType_def parseProtocolType_def)
  ultimately show thesis by (rule that)
qed

interpretation arp: fixed_codec serializeArpMessage parseArpMessage valid_arp 28
  by unfold_locales (auto elim: arp_bytes)

end
