(* ===== verification/Wire_Icmp.thy ===== *)
theory Wire_Icmp
  imports Wire_Addr
begin

text \<open>
  \<open>packages/wire/src/icmp.ts\<close>: ICMP messages. The type and the code are strings, as the
  source has them; unknown ones throw.
\<close>

record icmp_message =
  icmp_type :: jstring
  icmp_code :: "jstring option"
  icmp_identifier :: int
  icmp_sequenceNumber :: int
  icmp_payload :: bytes

definition ICMP_ECHO_HEADER_LENGTH :: nat where
  "ICMP_ECHO_HEADER_LENGTH = 8"

definition parseIcmpType :: "int \<Rightarrow> jstring res" where
  "parseIcmpType type =
     (if type = 0 then Inr (lit ''echo-reply'')
      else if type = 3 then Inr (lit ''destination-unreachable'')
      else if type = 8 then Inr (lit ''echo-request'')
      else if type = 11 then Inr (lit ''time-exceeded'')
      else throw ''unknown icmp type'')"

definition serializeIcmpType :: "jstring \<Rightarrow> int res" where
  "serializeIcmpType type =
     (if type = lit ''echo-reply'' then Inr 0
      else if type = lit ''destination-unreachable'' then Inr 3
      else if type = lit ''echo-request'' then Inr 8
      else if type = lit ''time-exceeded'' then Inr 11
      else throw ''unknown icmp type'')"

definition parseIcmpCode :: "jstring \<Rightarrow> int \<Rightarrow> jstring option res" where
  "parseIcmpCode type code =
     (if type = lit ''echo-reply'' \<or> type = lit ''echo-request'' then
        (if code = 0 then Inr None else throw ''unknown icmp code'')
      else if type = lit ''destination-unreachable'' then
        (if code = 0 then Inr (Some (lit ''network-unreachable''))
         else if code = 1 then Inr (Some (lit ''host-unreachable''))
         else if code = 2 then Inr (Some (lit ''protocol-unreachable''))
         else throw ''unknown icmp code'')
      else if type = lit ''time-exceeded'' then
        (if code = 0 then Inr (Some (lit ''ttl-exceeded''))
         else if code = 1 then Inr (Some (lit ''fragment-reassembly-time-exceeded''))
         else throw ''unknown icmp code'')
      else throw ''unknown icmp code'')"

definition serializeIcmpCode :: "jstring \<Rightarrow> jstring option \<Rightarrow> int res" where
  "serializeIcmpCode type code =
     (if type = lit ''echo-reply'' \<or> type = lit ''echo-request'' then
        (if code = None then Inr 0 else throw ''unknown icmp code'')
      else if type = lit ''destination-unreachable'' then
        (if code = Some (lit ''network-unreachable'') then Inr 0
         else if code = Some (lit ''host-unreachable'') then Inr 1
         else if code = Some (lit ''protocol-unreachable'') then Inr 2
         else throw ''unknown icmp code'')
      else if type = lit ''time-exceeded'' then
        (if code = Some (lit ''ttl-exceeded'') then Inr 0
         else if code = Some (lit ''fragment-reassembly-time-exceeded'') then Inr 1
         else throw ''unknown icmp code'')
      else throw ''unknown icmp code'')"

definition parseIcmpMessage :: "bytes \<Rightarrow> icmp_message res" where
  "parseIcmpMessage data =
     bnd (getUint16 data 2) (\<lambda>checksum.
     if calculateChecksum data (Some 2) \<noteq> checksum then throw ''invalid icmp checksum''
     else
       bnd (bnd (getUint8 data 0) parseIcmpType) (\<lambda>type.
       bnd (bnd (getUint8 data 1) (parseIcmpCode type)) (\<lambda>code.
       bnd (getUint16 data 4) (\<lambda>identifier.
       bnd (getUint16 data 6) (\<lambda>sequenceNumber.
         let payload = List.drop 8 data in
         Inr \<lparr>icmp_type = type, icmp_code = code, icmp_identifier = identifier,
              icmp_sequenceNumber = sequenceNumber, icmp_payload = payload\<rparr>)))))"

definition serializeIcmpMessage :: "icmp_message \<Rightarrow> bytes res" where
  "serializeIcmpMessage message =
     bnd (writes
       [setUint8 0 (serializeIcmpType (icmp_type message)),
        setUint8 1 (serializeIcmpCode (icmp_type message) (icmp_code message)),
        setUint16 4 (Inr (icmp_identifier message)),
        setUint16 6 (Inr (icmp_sequenceNumber message)),
        setBytes 8 (Inr (icmp_payload message))]
       (replicate (ICMP_ECHO_HEADER_LENGTH + length (icmp_payload message)) 0)) (\<lambda>data.
     let checksum = calculateChecksum data (Some 2) in
     setUint16 2 (Inr checksum) data)"

subsection \<open>Round trip\<close>

text \<open>The messages the wire format can carry: a known type, a code of that type, 16-bit numbers.\<close>

definition valid_icmp :: "icmp_message \<Rightarrow> bool" where
  "valid_icmp m \<longleftrightarrow>
     (\<exists>t. serializeIcmpType (icmp_type m) = Inr t)
     \<and> (\<exists>c. serializeIcmpCode (icmp_type m) (icmp_code m) = Inr c)
     \<and> is_u16 (icmp_identifier m) \<and> is_u16 (icmp_sequenceNumber m)"

lemma icmp_type_roundtrip:
  "serializeIcmpType t = Inr n \<Longrightarrow> 0 \<le> n \<and> n < 256 \<and> parseIcmpType n = Inr t"
  by (auto simp: serializeIcmpType_def parseIcmpType_def split: if_splits)

lemma icmp_code_roundtrip:
  "serializeIcmpCode t c = Inr n \<Longrightarrow> 0 \<le> n \<and> n < 256 \<and> parseIcmpCode t n = Inr c"
  by (auto simp: serializeIcmpCode_def parseIcmpCode_def split: if_splits)

interpretation icmp_checksum: checksum_field 2
  by unfold_locales simp_all

lemma serializeIcmpMessage_bytes:
  assumes "serializeIcmpType (icmp_type m) = Inr t"
    "serializeIcmpCode (icmp_type m) (icmp_code m) = Inr c"
  defines "d \<equiv> [of_int t, of_int c, 0, 0,
      of_int (icmp_identifier m div 256), of_int (icmp_identifier m),
      of_int (icmp_sequenceNumber m div 256), of_int (icmp_sequenceNumber m)] @ icmp_payload m"
  shows "serializeIcmpMessage m =
    Inr (d[2 := of_int (calculateChecksum d (Some 2) div 256),
           3 := of_int (calculateChecksum d (Some 2))])"
  unfolding serializeIcmpMessage_def d_def
  by (simp add: assms ICMP_ECHO_HEADER_LENGTH_def layout Let_def)

lemma parse_serialize_icmp:
  assumes "valid_icmp m" "serializeIcmpMessage m = Inr bs"
  shows "parseIcmpMessage bs = Inr m" "length bs = 8 + length (icmp_payload m)"
proof -
  obtain t c where tc: "serializeIcmpType (icmp_type m) = Inr t"
    "serializeIcmpCode (icmp_type m) (icmp_code m) = Inr c"
    using assms(1) by (auto simp: valid_icmp_def)
  define d where "d = [of_int t, of_int c, 0, 0,
      of_int (icmp_identifier m div 256), of_int (icmp_identifier m),
      of_int (icmp_sequenceNumber m div 256), of_int (icmp_sequenceNumber m)] @ icmp_payload m"
  define ck where "ck = calculateChecksum d (Some 2)"
  have bs: "bs = d[2 := of_int (ck div 256), 3 := of_int ck]"
    using serializeIcmpMessage_bytes [OF tc] assms(2) by (simp add: d_def ck_def)
  have stored: "getUint16 bs 2 = Inr ck" "calculateChecksum bs (Some 2) = ck"
    using icmp_checksum.checksum_stored [of "[]" d ck bs] bs
    by (simp_all add: ck_def d_def numeral_eq_Suc)
  show "length bs = 8 + length (icmp_payload m)" using bs by (simp add: d_def)
  show "parseIcmpMessage bs = Inr m"
    unfolding parseIcmpMessage_def stored using bs assms(1) icmp_type_roundtrip [OF tc(1)]
      icmp_code_roundtrip [OF tc(2)]
    by (simp add: d_def layout valid_icmp_def is_u16_def split16)
qed

interpretation icmp: codec serializeIcmpMessage parseIcmpMessage valid_icmp
proof
  fix m bs
  show "valid_icmp m \<Longrightarrow> \<exists>bs. serializeIcmpMessage m = Inr bs"
    using serializeIcmpMessage_bytes by (auto simp: valid_icmp_def)
  show "valid_icmp m \<Longrightarrow> serializeIcmpMessage m = Inr bs \<Longrightarrow> parseIcmpMessage bs = Inr m"
    by (rule parse_serialize_icmp(1))
qed

end
