(* ===== verification/Wire_Udp.thy ===== *)
theory Wire_Udp
  imports Wire_Addr
begin

text \<open>
  \<open>packages/wire/src/udp.ts\<close>: UDP datagrams, with the checksum over the pseudo-header
  when one is given. The warnings on the console are not modelled.
\<close>

record udp_datagram =
  udp_sourcePort :: int
  udp_destinationPort :: int
  udp_payload :: bytes

definition UDP_HEADER_LENGTH :: nat where
  "UDP_HEADER_LENGTH = 8"

definition parseUdpDatagram :: "bytes \<Rightarrow> bytes option \<Rightarrow> udp_datagram res" where
  "parseUdpDatagram data pseudoHeader =
     bnd (getUint16 data 6) (\<lambda>checksum.
     if (case pseudoHeader of None \<Rightarrow> False
         | Some p \<Rightarrow> calculateChecksum (p @ data) (Some (length p + 6)) \<noteq> checksum)
     then throw ''invalid udp checksum''
     else
       bnd (getUint16 data 4) (\<lambda>len.
       let payload = List.drop 8 data in
       if len \<noteq> int (UDP_HEADER_LENGTH + length payload) then throw ''invalid udp length''
       else
         bnd (getUint16 data 0) (\<lambda>sourcePort.
         bnd (getUint16 data 2) (\<lambda>destinationPort.
           Inr \<lparr>udp_sourcePort = sourcePort, udp_destinationPort = destinationPort,
                udp_payload = payload\<rparr>))))"

definition serializeUdpDatagram :: "udp_datagram \<Rightarrow> pseudo_header option \<Rightarrow> bytes res" where
  "serializeUdpDatagram datagram pseudoHeader =
     bnd (writes
       [setUint16 0 (Inr (udp_sourcePort datagram)),
        setUint16 2 (Inr (udp_destinationPort datagram)),
        setUint16 4 (Inr (int (UDP_HEADER_LENGTH + length (udp_payload datagram)))),
        setUint16 6 (Inr 0),
        setBytes 8 (Inr (udp_payload datagram))]
       (replicate (UDP_HEADER_LENGTH + length (udp_payload datagram)) 0)) (\<lambda>buffer.
     case pseudoHeader of None \<Rightarrow> Inr buffer
     | Some ph \<Rightarrow>
         bnd (serializeIPv4PseudoHeader ph) (\<lambda>pseudoHeaderBuffer.
           let checksum =
             calculateChecksum (pseudoHeaderBuffer @ buffer) (Some (length pseudoHeaderBuffer + 6))
           in setUint16 6 (Inr checksum) buffer))"

subsection \<open>Round trip\<close>

definition valid_udp :: "udp_datagram \<Rightarrow> bool" where
  "valid_udp d \<longleftrightarrow> is_u16 (udp_sourcePort d) \<and> is_u16 (udp_destinationPort d)
     \<and> length (udp_payload d) \<le> 65527"

interpretation udp_checksum: checksum_field 6
  by unfold_locales simp_all

definition udp_unsummed :: "udp_datagram \<Rightarrow> bytes" where
  "udp_unsummed d =
     [of_int (udp_sourcePort d div 256), of_int (udp_sourcePort d),
      of_int (udp_destinationPort d div 256), of_int (udp_destinationPort d),
      of_int (int (8 + length (udp_payload d)) div 256), of_int (int (8 + length (udp_payload d))),
      0, 0] @ udp_payload d"

lemma udp_buffer:
  "writes
     [setUint16 0 (Inr (udp_sourcePort d)), setUint16 2 (Inr (udp_destinationPort d)),
      setUint16 4 (Inr (int (UDP_HEADER_LENGTH + length (udp_payload d)))),
      setUint16 6 (Inr 0), setBytes 8 (Inr (udp_payload d))]
     (replicate (UDP_HEADER_LENGTH + length (udp_payload d)) 0) = Inr (udp_unsummed d)"
  by (simp add: UDP_HEADER_LENGTH_def udp_unsummed_def layout)

lemma serializeUdpDatagram_bytes:
  fixes d :: udp_datagram
  assumes "serializeIPv4PseudoHeader ph = Inr p"
  defines "ck \<equiv> calculateChecksum (p @ udp_unsummed d) (Some (length p + 6))"
  shows "serializeUdpDatagram d (Some ph)
    = Inr ((udp_unsummed d)[6 := of_int (ck div 256), 7 := of_int ck])"
  unfolding serializeUdpDatagram_def udp_buffer bnd_simps option.case assms(1) Let_def
    ck_def [symmetric]
  by (simp add: setUint16_def udp_unsummed_def)

lemma parse_udp_bytes:
  assumes "valid_udp d" "b6 = of_int (ck div 256)" "b7 = of_int ck" "is_u16 ck"
    "bs = (udp_unsummed d)[6 := b6, 7 := b7]"
    "\<And>p. ph = Some p \<Longrightarrow> calculateChecksum (p @ bs) (Some (length p + 6)) = ck"
  shows "parseUdpDatagram bs ph = Inr d"
proof -
  have "getUint16 bs 6 = Inr ck"
    using assms(2-5) by (simp add: udp_unsummed_def layout split16 is_u16_def)
  moreover have "getUint16 bs 4 = Inr (int (8 + length (udp_payload d)))"
    using assms(1,5) split16 [of "int (8 + length (udp_payload d))"]
    by (simp add: udp_unsummed_def layout valid_udp_def)
  moreover have "getUint16 bs 0 = Inr (udp_sourcePort d)" "getUint16 bs 2 = Inr (udp_destinationPort d)"
    "List.drop 8 bs = udp_payload d"
    using assms(1,5) by (simp_all add: udp_unsummed_def layout valid_udp_def is_u16_def split16)
  ultimately show ?thesis
    using assms(6) by (cases ph) (simp_all add: parseUdpDatagram_def UDP_HEADER_LENGTH_def Let_def)
qed

lemma parse_serialize_udp:
  assumes "valid_udp d" "serializeIPv4PseudoHeader ph = Inr p" "even (length p)"
    "serializeUdpDatagram d (Some ph) = Inr bs"
  shows "parseUdpDatagram bs (Some p) = Inr d" "length bs = 8 + length (udp_payload d)"
proof -
  define ck where "ck = calculateChecksum (p @ udp_unsummed d) (Some (length p + 6))"
  have bs: "bs = (udp_unsummed d)[6 := of_int (ck div 256), 7 := of_int ck]"
    using serializeUdpDatagram_bytes [OF assms(2)] assms(4) by (simp add: ck_def)
  have "calculateChecksum (p @ bs) (Some (length p + 6)) = ck"
    using udp_checksum.checksum_stored(2) [OF assms(3) _ ck_def, of bs] bs
    by (simp add: udp_unsummed_def)
  then show "parseUdpDatagram bs (Some p) = Inr d"
    using calculateChecksum_range
    by (intro parse_udp_bytes [OF assms(1) refl refl _ bs]) (auto simp: is_u16_def ck_def)
  show "length bs = 8 + length (udp_payload d)" using bs by (simp add: udp_unsummed_def)
qed

lemma parse_serialize_udp_unsummed:
  assumes "valid_udp d" "serializeUdpDatagram d None = Inr bs"
  shows "parseUdpDatagram bs None = Inr d"
proof -
  have "bs = udp_unsummed d"
    using assms(2) unfolding serializeUdpDatagram_def udp_buffer bnd_simps option.case by simp
  then have "bs = (udp_unsummed d)[6 := of_int (0 div 256), 7 := of_int 0]"
    by (simp add: udp_unsummed_def)
  then show ?thesis
    by (intro parse_udp_bytes [where ck = 0, OF assms(1) refl refl]) (simp_all add: is_u16_def)
qed

end
