(* ===== verification/Wire_Tcp.thy ===== *)
theory Wire_Tcp
  imports Wire_Addr
begin

text \<open>
  \<open>packages/wire/src/tcp.ts\<close>: TCP segments, with their options and the checksum over the
  pseudo-header when one is given.
\<close>

record tcp_flags =
  tcp_urg :: bool
  tcp_ack :: bool
  tcp_psh :: bool
  tcp_rst :: bool
  tcp_syn :: bool
  tcp_fin :: bool

record tcp_segment =
  tcp_sourcePort :: int
  tcp_destinationPort :: int
  tcp_sequenceNumber :: int
  tcp_acknowledgmentNumber :: int
  tcp_dataOffset :: int
  tcp_reserved :: int
  tcp_flags :: tcp_flags
  tcp_windowSize :: int
  tcp_urgentPointer :: int
  tcp_options :: bytes
  tcp_payload :: bytes

definition TCP_HEADER_MIN_LENGTH :: nat where
  "TCP_HEADER_MIN_LENGTH = 20"

definition parseTcpSegment :: "bytes \<Rightarrow> bytes option \<Rightarrow> tcp_segment res" where
  "parseTcpSegment data pseudoHeader =
     (if length data < TCP_HEADER_MIN_LENGTH then throw ''tcp segment too short''
      else
        bnd (getUint16 data 16) (\<lambda>checksum.
        if (case pseudoHeader of None \<Rightarrow> False
            | Some p \<Rightarrow> calculateChecksum (p @ data) (Some (length p + 16)) \<noteq> checksum)
        then throw ''invalid tcp checksum''
        else
          bnd (getUint8 data 12) (\<lambda>byte12.
          let dataOffset = js_shr byte12 4 * 4 in
          if dataOffset < int TCP_HEADER_MIN_LENGTH then throw ''invalid tcp data offset''
          else
            bnd (getUint8 data 13) (\<lambda>flagsByte.
            let options = subarray TCP_HEADER_MIN_LENGTH (nat dataOffset) data;
                payload = List.drop (nat dataOffset) data
            in
            bnd (getUint16 data 0) (\<lambda>sourcePort.
            bnd (getUint16 data 2) (\<lambda>destinationPort.
            bnd (getUint32 data 4) (\<lambda>sequenceNumber.
            bnd (getUint32 data 8) (\<lambda>acknowledgmentNumber.
            bnd (getUint16 data 14) (\<lambda>windowSize.
            bnd (getUint16 data 18) (\<lambda>urgentPointer.
              Inr \<lparr>tcp_sourcePort = sourcePort,
                   tcp_destinationPort = destinationPort,
                   tcp_sequenceNumber = sequenceNumber,
                   tcp_acknowledgmentNumber = acknowledgmentNumber,
                   tcp_dataOffset = dataOffset,
                   tcp_reserved = js_shr (js_and byte12 0x0e) 1,
                   tcp_flags =
                     \<lparr>tcp_urg = js_and flagsByte 0x20 \<noteq> 0,
                      tcp_ack = js_and flagsByte 0x10 \<noteq> 0,
                      tcp_psh = js_and flagsByte 0x08 \<noteq> 0,
                      tcp_rst = js_and flagsByte 0x04 \<noteq> 0,
                      tcp_syn = js_and flagsByte 0x02 \<noteq> 0,
                      tcp_fin = js_and flagsByte 0x01 \<noteq> 0\<rparr>,
                   tcp_windowSize = windowSize,
                   tcp_urgentPointer = urgentPointer,
                   tcp_options = options,
                   tcp_payload = payload\<rparr>))))))))))"

definition flags_byte :: "tcp_flags \<Rightarrow> int" where
  "flags_byte fl =
     js_or (js_or (js_or (js_or (js_or
       (if tcp_urg fl then 0x20 else 0)
       (if tcp_ack fl then 0x10 else 0))
       (if tcp_psh fl then 0x08 else 0))
       (if tcp_rst fl then 0x04 else 0))
       (if tcp_syn fl then 0x02 else 0))
       (if tcp_fin fl then 0x01 else 0)"

text \<open>The division \<open>headerLength / 4\<close> is fractional in general; the shift truncates it.\<close>

definition serializeTcpSegment :: "tcp_segment \<Rightarrow> pseudo_header option \<Rightarrow> bytes res" where
  "serializeTcpSegment segment pseudoHeader =
     (let headerLength = TCP_HEADER_MIN_LENGTH + length (tcp_options segment) in
     bnd (writes
       [setUint16 0 (Inr (tcp_sourcePort segment)),
        setUint16 2 (Inr (tcp_destinationPort segment)),
        setUint32 4 (Inr (tcp_sequenceNumber segment)),
        setUint32 8 (Inr (tcp_acknowledgmentNumber segment)),
        setUint8 12 (Inr (js_or (js_shl (int headerLength div 4) 4) (js_shl (tcp_reserved segment) 1))),
        setUint8 13 (Inr (flags_byte (tcp_flags segment))),
        setUint16 14 (Inr (tcp_windowSize segment)),
        setUint16 16 (Inr 0),
        setUint16 18 (Inr (tcp_urgentPointer segment)),
        setBytes TCP_HEADER_MIN_LENGTH (Inr (tcp_options segment)),
        setBytes headerLength (Inr (tcp_payload segment))]
       (replicate (headerLength + length (tcp_payload segment)) 0)) (\<lambda>buffer.
     case pseudoHeader of None \<Rightarrow> Inr buffer
     | Some ph \<Rightarrow>
         bnd (serializeIPv4PseudoHeader ph) (\<lambda>pseudoHeaderBuffer.
           let checksum =
             calculateChecksum (pseudoHeaderBuffer @ buffer) (Some (length pseudoHeaderBuffer + 16))
           in setUint16 16 (Inr checksum) buffer)))"

subsection \<open>Round trip\<close>

definition valid_tcp :: "tcp_segment \<Rightarrow> bool" where
  "valid_tcp s \<longleftrightarrow>
     is_u16 (tcp_sourcePort s) \<and> is_u16 (tcp_destinationPort s)
     \<and> is_u32 (tcp_sequenceNumber s) \<and> is_u32 (tcp_acknowledgmentNumber s)
     \<and> length (tcp_options s) mod 4 = 0 \<and> length (tcp_options s) \<le> 40
     \<and> tcp_dataOffset s = 20 + int (length (tcp_options s))
     \<and> 0 \<le> tcp_reserved s \<and> tcp_reserved s < 8
     \<and> is_u16 (tcp_windowSize s) \<and> is_u16 (tcp_urgentPointer s)"

interpretation tcp_checksum: checksum_field 16
  by unfold_locales simp_all

definition offset_byte :: "tcp_segment \<Rightarrow> int" where
  "offset_byte s =
     js_or (js_shl (int (20 + length (tcp_options s)) div 4) 4) (js_shl (tcp_reserved s) 1)"

definition tcp_unsummed :: "tcp_segment \<Rightarrow> bytes" where
  "tcp_unsummed s =
     [of_int (tcp_sourcePort s div 256), of_int (tcp_sourcePort s),
      of_int (tcp_destinationPort s div 256), of_int (tcp_destinationPort s),
      of_int (tcp_sequenceNumber s div 16777216), of_int (tcp_sequenceNumber s div 65536),
      of_int (tcp_sequenceNumber s div 256), of_int (tcp_sequenceNumber s),
      of_int (tcp_acknowledgmentNumber s div 16777216), of_int (tcp_acknowledgmentNumber s div 65536),
      of_int (tcp_acknowledgmentNumber s div 256), of_int (tcp_acknowledgmentNumber s),
      of_int (offset_byte s), of_int (flags_byte (tcp_flags s)),
      of_int (tcp_windowSize s div 256), of_int (tcp_windowSize s),
      0, 0,
      of_int (tcp_urgentPointer s div 256), of_int (tcp_urgentPointer s)]
     @ tcp_options s @ tcp_payload s"

lemma setBytes_at_end:
  "k = length a \<Longrightarrow> length p = length z \<Longrightarrow> setBytes k (Inr p) (a @ z) = Inr (a @ p)"
  by (simp add: setBytes_def)

lemma tcp_buffer:
  "writes
       [setUint16 0 (Inr (tcp_sourcePort s)),
        setUint16 2 (Inr (tcp_destinationPort s)),
        setUint32 4 (Inr (tcp_sequenceNumber s)),
        setUint32 8 (Inr (tcp_acknowledgmentNumber s)),
        setUint8 12 (Inr (offset_byte s)),
        setUint8 13 (Inr (flags_byte (tcp_flags s))),
        setUint16 14 (Inr (tcp_windowSize s)),
        setUint16 16 (Inr 0),
        setUint16 18 (Inr (tcp_urgentPointer s)),
        setBytes 20 (Inr (tcp_options s)),
        setBytes (20 + length (tcp_options s)) (Inr (tcp_payload s))]
       (replicate (20 + length (tcp_options s) + length (tcp_payload s)) 0) = Inr (tcp_unsummed s)"
  (is "writes ?ws (replicate (20 + ?o + ?p) 0) = _")
proof -
  define fields where "fields = take 20 (tcp_unsummed s)"
  have start: "writes (take 9 ?ws) (replicate (20 + ?o + ?p) 0)
      = Inr (fields @ replicate ?o 0 @ replicate ?p 0)"
    by (simp add: replicate_add fields_def tcp_unsummed_def layout)
  have len: "length fields = 20" by (simp add: fields_def tcp_unsummed_def)
  have "writes ?ws (replicate (20 + ?o + ?p) 0)
      = bnd (writes (take 9 ?ws) (replicate (20 + ?o + ?p) 0)) (writes (List.drop 9 ?ws))"
    unfolding writes_append [symmetric] append_take_drop_id ..
  also have "\<dots> = Inr (fields @ tcp_options s @ tcp_payload s)"
    unfolding start bnd_simps
    using setBytes_at_end [of "20 + ?o" "fields @ tcp_options s" "tcp_payload s" "replicate ?p 0"]
    by (simp add: len setBytes_def)
  also have "\<dots> = Inr (tcp_unsummed s)" by (simp add: fields_def tcp_unsummed_def)
  finally show ?thesis .
qed

lemma serializeTcpSegment_bytes:
  fixes s :: tcp_segment
  assumes "serializeIPv4PseudoHeader ph = Inr p"
  defines "ck \<equiv> calculateChecksum (p @ tcp_unsummed s) (Some (length p + 16))"
  shows "serializeTcpSegment s (Some ph)
    = Inr ((tcp_unsummed s)[16 := of_int (ck div 256), 17 := of_int ck])"
  unfolding serializeTcpSegment_def TCP_HEADER_MIN_LENGTH_def Let_def offset_byte_def [symmetric]
    tcp_buffer bnd_simps option.case assms(1) ck_def [symmetric]
  by (simp add: setUint16_def tcp_unsummed_def)

subsection \<open>Reading the header back\<close>

lemma nibble_cases:
  "0 \<le> (m :: int) \<Longrightarrow> m < 16 \<Longrightarrow> m \<in> {0, 1, 2, 3, 4, 5, 6, 7, 8, 9, 10, 11, 12, 13, 14, 15}"
  unfolding insert_iff empty_iff by presburger

lemma and_14:
  assumes "0 \<le> a" "a < 2147483648"
  shows "js_and a 14 = a mod 16 div 2 * 2"
proof -
  have "js_and a 14 = a AND 14"
    using assms by (simp add: js_and_def)
  also have "(a AND 14) = (a AND 15) AND 14"
    by (simp add: and.assoc)
  also have "(a AND 15) = a mod 16"
    using take_bit_eq_mask [of 4 a] by (simp add: take_bit_eq_mod mask_eq_exp_minus_1)
  also have "(a mod 16) AND 14 = a mod 16 div 2 * 2"
    using nibble_cases [of "a mod 16"] by auto
  finally show ?thesis .
qed

lemma flags_byte_range: "0 \<le> flags_byte fl \<and> flags_byte fl < 64"
  by (cases "tcp_urg fl"; cases "tcp_ack fl"; cases "tcp_psh fl"; cases "tcp_rst fl";
      cases "tcp_syn fl"; cases "tcp_fin fl") (simp_all add: flags_byte_def js_or_def)

lemma flags_byte_back:
  "\<lparr>tcp_urg = js_and (flags_byte fl) 0x20 \<noteq> 0, tcp_ack = js_and (flags_byte fl) 0x10 \<noteq> 0,
    tcp_psh = js_and (flags_byte fl) 0x08 \<noteq> 0, tcp_rst = js_and (flags_byte fl) 0x04 \<noteq> 0,
    tcp_syn = js_and (flags_byte fl) 0x02 \<noteq> 0, tcp_fin = js_and (flags_byte fl) 0x01 \<noteq> 0\<rparr> = fl"
  by (cases "tcp_urg fl"; cases "tcp_ack fl"; cases "tcp_psh fl"; cases "tcp_rst fl";
      cases "tcp_syn fl"; cases "tcp_fin fl")
    (simp_all add: flags_byte_def js_or_def js_and_def)

lemma offset_byte_value:
  assumes "valid_tcp s"
  shows "offset_byte s = (20 + int (length (tcp_options s))) div 4 * 16 + tcp_reserved s * 2"
    "0 \<le> offset_byte s" "offset_byte s < 256"
proof -
  define n where "n = (20 + int (length (tcp_options s))) div 4"
  have l: "int (length (tcp_options s)) \<le> 40" using assms by (simp add: valid_tcp_def)
  then have n: "0 \<le> n" "n < 16" unfolding n_def by linarith+
  have r: "0 \<le> tcp_reserved s" "tcp_reserved s < 8"
    using assms by (simp_all add: valid_tcp_def)
  have "offset_byte s = js_or (n * 16) (tcp_reserved s * 2)"
    using n r by (simp add: offset_byte_def n_def [symmetric] js_shl_arith)
  also have "\<dots> = n * 16 + tcp_reserved s * 2"
    using n r by (simp add: js_arith)
  finally show "offset_byte s = (20 + int (length (tcp_options s))) div 4 * 16 + tcp_reserved s * 2"
    by (simp add: n_def)
  then show "0 \<le> offset_byte s" "offset_byte s < 256"
    using n r by (simp_all add: n_def [symmetric])
qed

lemma offset_byte_back:
  assumes "valid_tcp s"
  shows "js_shr (offset_byte s) 4 * 4 = tcp_dataOffset s"
    "js_shr (js_and (offset_byte s) 0x0e) 1 = tcp_reserved s"
proof -
  define n where "n = (20 + int (length (tcp_options s))) div 4"
  have l: "int (length (tcp_options s)) \<le> 40" and "length (tcp_options s) mod 4 = 0"
    and o: "tcp_dataOffset s = 20 + int (length (tcp_options s))"
    using assms by (simp_all add: valid_tcp_def)
  then have n4: "n * 4 = tcp_dataOffset s" unfolding n_def by presburger
  then have n: "0 \<le> n" "n < 16" using l o by linarith+
  have r: "0 \<le> tcp_reserved s" "tcp_reserved s < 8"
    using assms by (simp_all add: valid_tcp_def)
  note b = offset_byte_value [OF assms, folded n_def]
  have "js_shr (offset_byte s) 4 = n"
    using b n r by (simp add: js_shr_arith)
  then show "js_shr (offset_byte s) 4 * 4 = tcp_dataOffset s" using n4 by simp
  show "js_shr (js_and (offset_byte s) 0x0e) 1 = tcp_reserved s"
    using b n r by (simp add: and_14 js_shr_arith)
qed

lemma parse_tcp_bytes:
  assumes v: "valid_tcp s" and b: "b16 = of_int (ck div 256)" "b17 = of_int ck" "is_u16 ck"
    and bs: "bs = (tcp_unsummed s)[16 := b16, 17 := b17]"
    and ck: "\<And>p. ph = Some p \<Longrightarrow> calculateChecksum (p @ bs) (Some (length p + 16)) = ck"
  shows "parseTcpSegment bs ph = Inr s"
proof -
  have "getUint16 bs 16 = Inr ck"
    using b by (simp add: bs tcp_unsummed_def layout split16 is_u16_def)
  moreover have "getUint8 bs 12 = Inr (offset_byte s)" "getUint8 bs 13 = Inr (flags_byte (tcp_flags s))"
    using offset_byte_value(2,3) [OF v] flags_byte_range [of "tcp_flags s"]
    by (simp_all add: bs tcp_unsummed_def layout uint_byte_of_int_mod)
  moreover have "getUint16 bs 0 = Inr (tcp_sourcePort s)" "getUint16 bs 2 = Inr (tcp_destinationPort s)"
      "getUint16 bs 14 = Inr (tcp_windowSize s)" "getUint16 bs 18 = Inr (tcp_urgentPointer s)"
    using v by (simp_all add: bs tcp_unsummed_def layout valid_tcp_def is_u16_def split16)
  moreover have "getUint32 bs 4 = Inr (tcp_sequenceNumber s)"
      "getUint32 bs 8 = Inr (tcp_acknowledgmentNumber s)"
    using v by (simp_all add: bs tcp_unsummed_def layout valid_tcp_def is_u32_def split32)
  moreover have "nat (tcp_dataOffset s) = 20 + length (tcp_options s)" "20 \<le> tcp_dataOffset s"
    using v by (simp_all add: valid_tcp_def)
  moreover have rest: "List.drop 20 bs = tcp_options s @ tcp_payload s"
    by (simp add: bs tcp_unsummed_def)
  moreover have "List.drop (20 + length (tcp_options s)) bs = tcp_payload s"
    using arg_cong [OF rest, of "List.drop (length (tcp_options s))"]
    by (simp only: drop_drop add.commute) simp
  moreover have "subarray 20 (20 + length (tcp_options s)) bs = tcp_options s" "\<not> length bs < 20"
    using rest by (simp_all add: subarray_def drop_take) (simp add: bs tcp_unsummed_def)
  ultimately show ?thesis
    using ck offset_byte_back [OF v] flags_byte_back [of "tcp_flags s"]
    by (cases ph) (simp_all add: parseTcpSegment_def TCP_HEADER_MIN_LENGTH_def Let_def)
qed

lemma parse_serialize_tcp:
  assumes "valid_tcp s" "serializeIPv4PseudoHeader ph = Inr p" "even (length p)"
    "serializeTcpSegment s (Some ph) = Inr bs"
  shows "parseTcpSegment bs (Some p) = Inr s"
    "length bs = 20 + length (tcp_options s) + length (tcp_payload s)"
proof -
  define ck where "ck = calculateChecksum (p @ tcp_unsummed s) (Some (length p + 16))"
  have bs: "bs = (tcp_unsummed s)[16 := of_int (ck div 256), 17 := of_int ck]"
    using serializeTcpSegment_bytes [OF assms(2)] assms(4) by (simp add: ck_def)
  have "calculateChecksum (p @ bs) (Some (length p + 16)) = ck"
    using tcp_checksum.checksum_stored(2) [OF assms(3) _ ck_def, of bs] bs
    by (simp add: tcp_unsummed_def)
  then show "parseTcpSegment bs (Some p) = Inr s"
    using calculateChecksum_range
    by (intro parse_tcp_bytes [OF assms(1) refl refl _ bs]) (auto simp: is_u16_def ck_def)
  show "length bs = 20 + length (tcp_options s) + length (tcp_payload s)"
    using bs by (simp add: tcp_unsummed_def)
qed

subsection \<open>Properties\<close>

text \<open>TCP segments round trip under a pseudo-header, options included: a segment whose
  fields fit, with options of a multiple of four bytes up to 40 and the data offset that says so,
  is serialized with its checksum, and parsing the bytes under the same pseudo-header verifies it
  and gives the segment back.\<close>

theorem tcp_segment_roundtrip:
  assumes "valid_tcp s" "serializeIPv4PseudoHeader ph = Inr p" "even (length p)"
  shows "\<exists>bs. serializeTcpSegment s (Some ph) = Inr bs \<and> parseTcpSegment bs (Some p) = Inr s
    \<and> length bs = nat (tcp_dataOffset s) + length (tcp_payload s)"
proof -
  obtain bs where bs: "serializeTcpSegment s (Some ph) = Inr bs"
    using serializeTcpSegment_bytes [OF assms(2)] by blast
  with parse_serialize_tcp [OF assms bs] assms(1) show ?thesis by (auto simp: valid_tcp_def)
qed

theorem tcp_segment_roundtrip_witness:
  "\<exists>bs. serializeTcpSegment
        \<lparr>tcp_sourcePort = 49152, tcp_destinationPort = 80, tcp_sequenceNumber = 4294967295,
         tcp_acknowledgmentNumber = 9, tcp_dataOffset = 24, tcp_reserved = 5,
         tcp_flags = \<lparr>tcp_urg = False, tcp_ack = True, tcp_psh = False, tcp_rst = False,
                      tcp_syn = True, tcp_fin = False\<rparr>,
         tcp_windowSize = 65535, tcp_urgentPointer = 0, tcp_options = [2, 4, 5, 0xb4],
         tcp_payload = [1]\<rparr>
      (Some \<lparr>ph_sourceIP = ipv4_text [10, 0, 0, 1], ph_destinationIP = ipv4_text [10, 0, 0, 2],
        ph_protocol = Proto_tcp, ph_length = 25\<rparr>) = Inr bs \<and> length bs = 25"
proof -
  have "length [10, 0, 0, 1 :: byte] = 4" "length [10, 0, 0, 2 :: byte] = 4" by simp_all
  from tcp_segment_roundtrip [OF _ serializeIPv4PseudoHeader_bytes [OF this, of Proto_tcp 25], of
      "\<lparr>tcp_sourcePort = 49152, tcp_destinationPort = 80, tcp_sequenceNumber = 4294967295,
         tcp_acknowledgmentNumber = 9, tcp_dataOffset = 24, tcp_reserved = 5,
         tcp_flags = \<lparr>tcp_urg = False, tcp_ack = True, tcp_psh = False, tcp_rst = False,
                      tcp_syn = True, tcp_fin = False\<rparr>,
         tcp_windowSize = 65535, tcp_urgentPointer = 0, tcp_options = [2, 4, 5, 0xb4],
         tcp_payload = [1]\<rparr>"]
  show ?thesis by (auto simp: valid_tcp_def is_u16_def is_u32_def)
qed

end
