(* ===== verification/Wire_IPv4.thy ===== *)
theory Wire_IPv4
  imports Wire_Icmp Wire_Udp Wire_Tcp
begin

text \<open>
  \<open>parseIPv4Packet\<close> and \<open>serializeIPv4Packet\<close> of \<open>packages/wire/src/ipv4.ts\<close>.
  The discriminated union of packets is a record whose payload carries the protocol tag.
\<close>

datatype ipv4_payload =
    Icmp_payload icmp_message
  | Tcp_payload tcp_segment
  | Udp_payload udp_datagram

record ipv4_packet =
  ip_version :: int
  ip_dscp :: int
  ip_ecn :: int
  ip_identification :: int
  ip_flags :: int
  ip_fragmentOffset :: int
  ip_ttl :: int
  ip_sourceIP :: jstring
  ip_destinationIP :: jstring
  ip_payload :: ipv4_payload

fun ip_protocol :: "ipv4_payload \<Rightarrow> ipv4_protocol" where
  "ip_protocol (Icmp_payload _) = Proto_icmp"
| "ip_protocol (Tcp_payload _) = Proto_tcp"
| "ip_protocol (Udp_payload _) = Proto_udp"

definition IPV4_HEADER_LENGTH :: nat where
  "IPV4_HEADER_LENGTH = 20"

definition payload_pseudo :: "jstring \<Rightarrow> jstring \<Rightarrow> ipv4_protocol \<Rightarrow> nat \<Rightarrow> pseudo_header" where
  "payload_pseudo sourceIP destinationIP protocol n =
     \<lparr>ph_sourceIP = sourceIP, ph_destinationIP = destinationIP, ph_protocol = protocol,
      ph_length = int n\<rparr>"

text \<open>The \<open>switch (protocol)\<close> of the parser: the payload, parsed under its pseudo-header.\<close>

definition parse_ipv4_payload ::
  "ipv4_protocol \<Rightarrow> jstring \<Rightarrow> jstring \<Rightarrow> bytes \<Rightarrow> ipv4_payload res" where
  "parse_ipv4_payload protocol sourceIP destinationIP payload =
     (let pseudo = payload_pseudo sourceIP destinationIP protocol (length payload) in
      case protocol of
        Proto_icmp \<Rightarrow> bnd (parseIcmpMessage payload) (\<lambda>m. Inr (Icmp_payload m))
      | Proto_tcp \<Rightarrow>
          bnd (serializeIPv4PseudoHeader pseudo) (\<lambda>p.
          bnd (parseTcpSegment payload (Some p)) (\<lambda>s. Inr (Tcp_payload s)))
      | Proto_udp \<Rightarrow>
          bnd (serializeIPv4PseudoHeader pseudo) (\<lambda>p.
          bnd (parseUdpDatagram payload (Some p)) (\<lambda>d. Inr (Udp_payload d))))"

definition parseIPv4Packet :: "bytes \<Rightarrow> ipv4_packet res" where
  "parseIPv4Packet data =
     bnd (getUint16 data 10) (\<lambda>headerChecksum.
     let header = subarray 0 IPV4_HEADER_LENGTH data in
     if calculateChecksum header (Some 10) \<noteq> headerChecksum then throw ''invalid ipv4 checksum''
     else
       bnd (getUint16 data 2) (\<lambda>totalLength.
       if totalLength \<noteq> int (length data) then throw ''invalid ipv4 total length''
       else
         bnd (getUint8 data 0) (\<lambda>versionAndHeaderLength.
         let version = js_shr versionAndHeaderLength 4;
             headerLength = js_and versionAndHeaderLength 0xf * 4 in
         bnd (getUint8 data 1) (\<lambda>byte1.
         let dscp = js_shr byte1 2; ecn = js_and byte1 0x3 in
         bnd (getUint16 data 4) (\<lambda>identification.
         bnd (getUint8 data 6) (\<lambda>byte6.
         let flags = js_shr byte6 5 in
         bnd (getUint8 data 7) (\<lambda>byte7.
         let fragmentOffset = js_or (js_shl (js_and byte6 0x1f) 8) byte7 in
         bnd (getUint8 data 8) (\<lambda>ttl.
         bnd (bnd (getUint8 data 9) parseIPv4Protocol) (\<lambda>protocol.
         bnd (parseIPv4Address (subarray 12 16 data)) (\<lambda>sourceIP.
         bnd (parseIPv4Address (subarray 16 20 data)) (\<lambda>destinationIP.
         let payload = List.drop (nat headerLength) data in
         bnd (parse_ipv4_payload protocol sourceIP destinationIP payload) (\<lambda>parsed.
           Inr \<lparr>ip_version = version, ip_dscp = dscp, ip_ecn = ecn,
                ip_identification = identification, ip_flags = flags,
                ip_fragmentOffset = fragmentOffset, ip_ttl = ttl,
                ip_sourceIP = sourceIP, ip_destinationIP = destinationIP,
                ip_payload = parsed\<rparr>))))))))))))"

text \<open>
  The \<open>switch (packet.protocol)\<close> of the serializer. The length in the pseudo-header of a TCP
  segment counts the fixed header and the payload, not the options.
\<close>

definition serialize_ipv4_payload :: "ipv4_packet \<Rightarrow> bytes res" where
  "serialize_ipv4_payload packet =
     (case ip_payload packet of
        Icmp_payload m \<Rightarrow> serializeIcmpMessage m
      | Tcp_payload s \<Rightarrow>
          serializeTcpSegment s (Some (payload_pseudo (ip_sourceIP packet) (ip_destinationIP packet)
            Proto_tcp (IPV4_HEADER_LENGTH + length (tcp_payload s))))
      | Udp_payload d \<Rightarrow>
          serializeUdpDatagram d (Some (payload_pseudo (ip_sourceIP packet) (ip_destinationIP packet)
            Proto_udp (UDP_HEADER_LENGTH + length (udp_payload d)))))"

definition serializeIPv4Packet :: "ipv4_packet \<Rightarrow> bytes res" where
  "serializeIPv4Packet packet =
     bnd (serialize_ipv4_payload packet) (\<lambda>payload.
     let totalLength = IPV4_HEADER_LENGTH + length payload in
     bnd (writes
       [setUint8 0 (Inr (js_or (js_shl (ip_version packet) 4) (int IPV4_HEADER_LENGTH div 4))),
        setUint8 1 (Inr (js_or (js_shl (ip_dscp packet) 2) (ip_ecn packet))),
        setUint16 2 (Inr (int totalLength)),
        setUint16 4 (Inr (ip_identification packet)),
        setUint8 6 (Inr (js_or (js_shl (ip_flags packet) 5) (js_shr (ip_fragmentOffset packet) 8))),
        setUint8 7 (Inr (js_and (ip_fragmentOffset packet) 0xff)),
        setUint8 8 (Inr (ip_ttl packet)),
        setUint8 9 (Inr (serializeIPv4Protocol (ip_protocol (ip_payload packet)))),
        setBytes 12 (serializeIPv4Address (ip_sourceIP packet)),
        setBytes 16 (serializeIPv4Address (ip_destinationIP packet))]
       (replicate totalLength 0)) (\<lambda>data.
     let header = subarray 0 IPV4_HEADER_LENGTH data;
         checksum = calculateChecksum header (Some 10) in
     writes [setUint16 10 (Inr checksum), setBytes 20 (Inr payload)] data))"

subsection \<open>The header\<close>

definition valid_header :: "ipv4_packet \<Rightarrow> bool" where
  "valid_header p \<longleftrightarrow>
     0 \<le> ip_version p \<and> ip_version p < 16 \<and> 0 \<le> ip_dscp p \<and> ip_dscp p < 64
     \<and> 0 \<le> ip_ecn p \<and> ip_ecn p < 4 \<and> is_u16 (ip_identification p)
     \<and> 0 \<le> ip_flags p \<and> ip_flags p < 8
     \<and> 0 \<le> ip_fragmentOffset p \<and> ip_fragmentOffset p < 8192
     \<and> 0 \<le> ip_ttl p \<and> ip_ttl p < 256
     \<and> valid_ipv4 (ip_sourceIP p) \<and> valid_ipv4 (ip_destinationIP p)"

text \<open>The header before its checksum is stored, for addresses \<open>s\<close>, \<open>d\<close> and total length \<open>n\<close>.\<close>

definition ipv4_head :: "ipv4_packet \<Rightarrow> bytes \<Rightarrow> bytes \<Rightarrow> int \<Rightarrow> bytes" where
  "ipv4_head p s d n =
     [of_int (ip_version p * 16 + 5), of_int (ip_dscp p * 4 + ip_ecn p),
      of_int (n div 256), of_int n,
      of_int (ip_identification p div 256), of_int (ip_identification p),
      of_int (ip_flags p * 32 + ip_fragmentOffset p div 256), of_int (ip_fragmentOffset p mod 256),
      of_int (ip_ttl p), of_int (serializeIPv4Protocol (ip_protocol (ip_payload p))), 0, 0] @ s @ d"

definition with_checksum :: "bytes \<Rightarrow> bytes" where
  "with_checksum h =
     (let c = calculateChecksum h (Some 10) in h[10 := of_int (c div 256), 11 := of_int c])"

lemma length_with_checksum [simp]: "length (with_checksum h) = length h"
  by (simp add: with_checksum_def Let_def)

lemma length_ipv4_head [simp]: "length (ipv4_head p s d n) = 12 + length s + length d"
  by (simp add: ipv4_head_def)

interpretation ipv4_checksum: checksum_field 10
  by unfold_locales simp_all

lemma fragment_parts:
  "0 \<le> f \<Longrightarrow> f < 8192 \<Longrightarrow> 0 \<le> f div 256 \<and> f div 256 < 32 \<and> 0 \<le> f mod 256 \<and> f mod 256 < 256
     \<and> f div 256 * 256 + f mod (256 :: int) = f"
  by auto

lemma header_bit_fields:
  assumes "valid_header p"
  shows "js_or (js_shl (ip_version p) 4) 5 = ip_version p * 16 + 5"
    "js_or (js_shl (ip_dscp p) 2) (ip_ecn p) = ip_dscp p * 4 + ip_ecn p"
    "js_or (js_shl (ip_flags p) 5) (js_shr (ip_fragmentOffset p) 8)
     = ip_flags p * 32 + ip_fragmentOffset p div 256"
    "js_and (ip_fragmentOffset p) 0xff = ip_fragmentOffset p mod 256"
  using assms fragment_parts [of "ip_fragmentOffset p"]
  by (simp_all add: valid_header_def js_arith)

lemma serializeIPv4Packet_bytes:
  assumes v: "valid_header p" and pl: "serialize_ipv4_payload p = Inr pl"
    and s: "ip_sourceIP p = ipv4_text s" "length s = 4"
    and d: "ip_destinationIP p = ipv4_text d" "length d = 4"
  shows "serializeIPv4Packet p = Inr (with_checksum (ipv4_head p s d (int (20 + length pl))) @ pl)"
proof -
  obtain s1 s2 s3 s4 where s': "s = [s1, s2, s3, s4]" using s(2) by (rule length_4E)
  obtain d1 d2 d3 d4 where d': "d = [d1, d2, d3, d4]" using d(2) by (rule length_4E)
  define h where "h = ipv4_head p s d (int (20 + length pl))"
  have five: "int 20 div 4 = 5" by simp
  have bytes: "writes
       [setUint8 0 (Inr (js_or (js_shl (ip_version p) 4) (int 20 div 4))),
        setUint8 1 (Inr (js_or (js_shl (ip_dscp p) 2) (ip_ecn p))),
        setUint16 2 (Inr (int (20 + length pl))),
        setUint16 4 (Inr (ip_identification p)),
        setUint8 6 (Inr (js_or (js_shl (ip_flags p) 5) (js_shr (ip_fragmentOffset p) 8))),
        setUint8 7 (Inr (js_and (ip_fragmentOffset p) 0xff)),
        setUint8 8 (Inr (ip_ttl p)),
        setUint8 9 (Inr (serializeIPv4Protocol (ip_protocol (ip_payload p)))),
        setBytes 12 (serializeIPv4Address (ip_sourceIP p)),
        setBytes 16 (serializeIPv4Address (ip_destinationIP p))]
       (replicate (20 + length pl) 0) = Inr (h @ replicate (length pl) 0)"
    unfolding five header_bit_fields [OF v] s(1) d(1) h_def serialize_ipv4_text [OF s(2)]
      serialize_ipv4_text [OF d(2)]
    by (simp add: ipv4_head_def s' d' layout)
  have h: "length h = 20" by (simp add: h_def ipv4_head_def s d)
  then obtain h0 h1 h2 h3 h4 h5 h6 h7 h8 h9 h10 h11 h12 h13 h14 h15 h16 h17 h18 h19 where
    hs: "h = [h0, h1, h2, h3, h4, h5, h6, h7, h8, h9, h10, h11, h12, h13, h14, h15, h16, h17, h18, h19]"
    by (auto simp: h_def ipv4_head_def s' d')
  have sub: "subarray 0 20 (h @ replicate (length pl) 0) = h" by (simp add: subarray_def h)
  show ?thesis
    unfolding serializeIPv4Packet_def pl bnd_simps Let_def IPV4_HEADER_LENGTH_def bytes sub
      with_checksum_def h_def [symmetric]
    by (simp add: hs layout)
qed

lemma header_fields_back:
  assumes "valid_header p"
  shows "js_shr (ip_version p * 16 + 5) 4 = ip_version p"
    "js_and (ip_version p * 16 + 5) 0xf * 4 = 20"
    "js_shr (ip_dscp p * 4 + ip_ecn p) 2 = ip_dscp p"
    "js_and (ip_dscp p * 4 + ip_ecn p) 0x3 = ip_ecn p"
    "js_shr (ip_flags p * 32 + ip_fragmentOffset p div 256) 5 = ip_flags p"
    "js_or (js_shl (js_and (ip_flags p * 32 + ip_fragmentOffset p div 256) 0x1f) 8)
       (ip_fragmentOffset p mod 256) = ip_fragmentOffset p"
proof -
  define hi lo where "hi = ip_fragmentOffset p div 256" and "lo = ip_fragmentOffset p mod 256"
  have frag: "0 \<le> hi" "hi < 32" "0 \<le> lo" "lo < 256" "hi * 256 + lo = ip_fragmentOffset p"
    using assms fragment_parts [of "ip_fragmentOffset p"] by (simp_all add: valid_header_def hi_def lo_def)
  show "js_shr (ip_version p * 16 + 5) 4 = ip_version p"
    "js_and (ip_version p * 16 + 5) 0xf * 4 = 20"
    "js_shr (ip_dscp p * 4 + ip_ecn p) 2 = ip_dscp p"
    "js_and (ip_dscp p * 4 + ip_ecn p) 0x3 = ip_ecn p"
    using assms by (simp_all add: valid_header_def js_arith)
  show "js_shr (ip_flags p * 32 + ip_fragmentOffset p div 256) 5 = ip_flags p"
    using assms frag(1,2) by (simp add: valid_header_def js_arith flip: hi_def)
  show "js_or (js_shl (js_and (ip_flags p * 32 + ip_fragmentOffset p div 256) 0x1f) 8)
       (ip_fragmentOffset p mod 256) = ip_fragmentOffset p"
    using assms frag by (simp add: valid_header_def js_arith flip: hi_def lo_def)
qed

lemma parseIPv4Packet_bytes:
  assumes v: "valid_header p" and n: "20 + length pl < 65536"
    and s: "ip_sourceIP p = ipv4_text s" "length s = 4"
    and d: "ip_destinationIP p = ipv4_text d" "length d = 4"
  shows "parseIPv4Packet (with_checksum (ipv4_head p s d (int (20 + length pl))) @ pl)
    = bnd (parse_ipv4_payload (ip_protocol (ip_payload p)) (ip_sourceIP p) (ip_destinationIP p) pl)
        (\<lambda>parsed. Inr (p\<lparr>ip_payload := parsed\<rparr>))"
proof -
  define m where "m = int (20 + length pl)"
  define h where "h = ipv4_head p s d m"
  define ck where "ck = calculateChecksum h (Some 10)"
  define h' where "h' = with_checksum h"
  have m: "0 \<le> m" "m < 65536" using n by (simp_all add: m_def)
  have h': "h' = h[10 := of_int (ck div 256), Suc 10 := of_int ck]"
    by (simp add: h'_def with_checksum_def ck_def Let_def)
  have len: "length h = 20" "length h' = 20" by (simp_all add: h' h_def ipv4_head_def s d)
  have stored: "getUint16 h' 10 = Inr ck" "calculateChecksum h' (Some 10) = ck"
    using ipv4_checksum.checksum_stored [of "[]" h ck h'] h' len by (simp_all add: ck_def)
  obtain s1 s2 s3 s4 where s': "s = [s1, s2, s3, s4]" using s(2) by (rule length_4E)
  obtain d1 d2 d3 d4 where d': "d = [d1, d2, d3, d4]" using d(2) by (rule length_4E)
  define b0 b1 b6 b7 where "b0 = ip_version p * 16 + 5" and "b1 = ip_dscp p * 4 + ip_ecn p"
    and "b6 = ip_flags p * 32 + ip_fragmentOffset p div 256" and "b7 = ip_fragmentOffset p mod 256"
  note fields = b0_def b1_def b6_def b7_def
  have r: "0 \<le> b0" "b0 < 256" "0 \<le> b1" "b1 < 256" "0 \<le> b6" "b6 < 256" "0 \<le> b7" "b7 < 256"
    using v fragment_parts [of "ip_fragmentOffset p"] by (simp_all add: fields valid_header_def)
  define bs where "bs = h' @ pl"
  have bytes: "bs = [of_int b0, of_int b1, of_int (m div 256), of_int m,
      of_int (ip_identification p div 256), of_int (ip_identification p), of_int b6, of_int b7,
      of_int (ip_ttl p), of_int (serializeIPv4Protocol (ip_protocol (ip_payload p))),
      of_int (ck div 256), of_int ck, s1, s2, s3, s4, d1, d2, d3, d4] @ pl"
    by (simp add: bs_def h' h_def ipv4_head_def s' d' flip: fields)
  have proto: "0 \<le> serializeIPv4Protocol (ip_protocol (ip_payload p))"
      "serializeIPv4Protocol (ip_protocol (ip_payload p)) < 256"
    by (cases "ip_protocol (ip_payload p)"; simp)+
  have reads: "getUint8 bs 0 = Inr b0" "getUint8 bs 1 = Inr b1" "getUint8 bs 6 = Inr b6"
      "getUint8 bs 7 = Inr b7" "getUint8 bs 8 = Inr (ip_ttl p)"
      "getUint8 bs 9 = Inr (serializeIPv4Protocol (ip_protocol (ip_payload p)))"
    using r v proto by (simp_all add: bytes layout uint_byte_of_int_mod valid_header_def)
  have reads16: "getUint16 bs 2 = Inr m" "getUint16 bs 4 = Inr (ip_identification p)"
    using v split16 [OF m] by (simp_all add: bytes layout split16 valid_header_def is_u16_def)
  have reads_ck: "getUint16 bs 10 = Inr ck"
    using calculateChecksum_range by (simp add: bytes layout split16 ck_def)
  have parts: "subarray 12 16 bs = s" "subarray 16 20 bs = d" "List.drop 20 bs = pl"
    by (simp_all add: bytes layout s' d')
  have head: "subarray 0 20 bs = h'" and total: "int (length bs) = m"
    using len by (simp_all add: bs_def subarray_def m_def)
  show ?thesis
    unfolding parseIPv4Packet_def bs_def [unfolded h'_def h_def m_def, symmetric]
      IPV4_HEADER_LENGTH_def reads_ck bnd_simps Let_def head stored reads reads16 total parts
      parse_serialize_protocol parse_ipv4 [OF s(2)] parse_ipv4 [OF d(2)]
      header_fields_back [OF v, folded fields]
    using s d by (cases p) (simp add: parts)
qed

subsection \<open>Round trip\<close>

text \<open>
  The packets that fit the wire format: header fields of their widths, a payload that its own
  format carries, a total length of 16 bits and, for TCP, no options.
\<close>

fun valid_payload :: "ipv4_payload \<Rightarrow> bool" where
  "valid_payload (Icmp_payload m) \<longleftrightarrow> valid_icmp m \<and> length (icmp_payload m) \<le> 65507"
| "valid_payload (Tcp_payload s) \<longleftrightarrow> valid_tcp s \<and> tcp_options s = [] \<and> length (tcp_payload s) \<le> 65495"
| "valid_payload (Udp_payload d) \<longleftrightarrow> valid_udp d \<and> length (udp_payload d) \<le> 65507"

definition valid_packet :: "ipv4_packet \<Rightarrow> bool" where
  "valid_packet p \<longleftrightarrow> valid_header p \<and> valid_payload (ip_payload p)"

lemma pseudo_bytes:
  "length s = 4 \<Longrightarrow> length d = 4 \<Longrightarrow>
   serializeIPv4PseudoHeader (payload_pseudo (ipv4_text s) (ipv4_text d) pr n)
   = Inr (s @ d @ [0, of_int (serializeIPv4Protocol pr), of_int (int n div 256), of_int (int n)])"
  by (simp add: payload_pseudo_def serializeIPv4PseudoHeader_bytes)

lemma header_addresses:
  assumes "valid_header p"
  obtains s d where "ip_sourceIP p = ipv4_text s" "length s = 4"
    "ip_destinationIP p = ipv4_text d" "length d = 4"
  using assms by (auto simp: valid_header_def valid_ipv4_def)

lemma payload_roundtrip:
  assumes "valid_packet p"
  obtains pl where "serialize_ipv4_payload p = Inr pl" "20 + length pl < 65536"
    "parse_ipv4_payload (ip_protocol (ip_payload p)) (ip_sourceIP p) (ip_destinationIP p) pl
     = Inr (ip_payload p)"
proof -
  obtain s d where sd: "ip_sourceIP p = ipv4_text s" "length s = 4"
    "ip_destinationIP p = ipv4_text d" "length d = 4"
    using assms header_addresses by (auto simp: valid_packet_def)
  note ph = pseudo_bytes [OF sd(2,4)]
  show thesis
  proof (cases "ip_payload p")
    case (Icmp_payload m)
    then have v: "valid_icmp m" "length (icmp_payload m) \<le> 65507"
      using assms by (simp_all add: valid_packet_def)
    then obtain pl where pl: "serializeIcmpMessage m = Inr pl" using icmp.ser_total by blast
    with v Icmp_payload show thesis
      by (intro that [of pl])
        (simp_all add: serialize_ipv4_payload_def parse_ipv4_payload_def parse_serialize_icmp [OF v(1) pl])
  next
    case (Tcp_payload g)
    then have v: "valid_tcp g" "tcp_options g = []" "length (tcp_payload g) \<le> 65495"
      using assms by (simp_all add: valid_packet_def)
    obtain pl where pl: "serializeTcpSegment g (Some (payload_pseudo (ipv4_text s) (ipv4_text d)
        Proto_tcp (20 + length (tcp_payload g)))) = Inr pl"
      using serializeTcpSegment_bytes [OF ph] by blast
    from parse_serialize_tcp [OF v(1) ph _ this] v(2,3) Tcp_payload show thesis
      by (intro that [of pl])
        (simp_all add: serialize_ipv4_payload_def parse_ipv4_payload_def sd ph pl
          IPV4_HEADER_LENGTH_def)
  next
    case (Udp_payload g)
    then have v: "valid_udp g" "length (udp_payload g) \<le> 65507"
      using assms by (simp_all add: valid_packet_def)
    obtain pl where pl: "serializeUdpDatagram g (Some (payload_pseudo (ipv4_text s) (ipv4_text d)
        Proto_udp (8 + length (udp_payload g)))) = Inr pl"
      using serializeUdpDatagram_bytes [OF ph] by blast
    from parse_serialize_udp [OF v(1) ph _ this] v(2) Udp_payload show thesis
      by (intro that [of pl])
        (simp_all add: serialize_ipv4_payload_def parse_ipv4_payload_def sd ph pl
          UDP_HEADER_LENGTH_def)
  qed
qed

lemma parse_serialize_ipv4:
  assumes "valid_packet p"
  obtains bs where "serializeIPv4Packet p = Inr bs" "parseIPv4Packet bs = Inr p"
    "length bs < 65536"
proof -
  have v: "valid_header p" using assms by (simp add: valid_packet_def)
  obtain s d where sd: "ip_sourceIP p = ipv4_text s" "length s = 4"
    "ip_destinationIP p = ipv4_text d" "length d = 4"
    using header_addresses [OF v] by blast
  obtain pl where pl: "serialize_ipv4_payload p = Inr pl" "20 + length pl < 65536"
    "parse_ipv4_payload (ip_protocol (ip_payload p)) (ip_sourceIP p) (ip_destinationIP p) pl
     = Inr (ip_payload p)"
    using payload_roundtrip [OF assms] by blast
  show thesis
    by (rule that [OF serializeIPv4Packet_bytes [OF v pl(1) sd]])
      (use parseIPv4Packet_bytes [OF v pl(2) sd] pl(2,3) sd(2,4) in simp_all)
qed

interpretation ipv4: codec serializeIPv4Packet parseIPv4Packet valid_packet
proof
  fix p bs assume "valid_packet p"
  then obtain bs' where bs': "serializeIPv4Packet p = Inr bs'" "parseIPv4Packet bs' = Inr p"
    by (rule parse_serialize_ipv4)
  then show "\<exists>bs. serializeIPv4Packet p = Inr bs" by blast
  show "serializeIPv4Packet p = Inr bs \<Longrightarrow> parseIPv4Packet bs = Inr p" using bs' by simp
qed

subsection \<open>TCP options break the checksum\<close>

lemma blank_prefix: "blank (length p + k) (p @ d) = p @ blank k d"
  by (simp add: blank_def list_update_append flip: add_Suc_right)

lemma word_sum_append: "even (length p) \<Longrightarrow> word_sum (p @ d) = word_sum p + word_sum d"
  by (induction p rule: be_words.induct) simp_all

text \<open>A difference in the prefix that is not a multiple of 65535 changes the checksum.\<close>

lemma checksum_detects_prefix:
  assumes "even (length p)" "length q = length p" "length p + length d \<le> 65536" "0 < k" "even k"
    "word_sum p mod 65535 \<noteq> word_sum q mod 65535"
  shows "calculateChecksum (p @ d) (Some (length p + k)) \<noteq> calculateChecksum (q @ d) (Some (length q + k))"
proof
  assume eq: "calculateChecksum (p @ d) (Some (length p + k)) = calculateChecksum (q @ d) (Some (length q + k))"
  let ?b = "word_sum (blank k d)"
  have "rfc1071 (p @ blank k d) = rfc1071 (q @ blank k d)"
    using eq assms calculateChecksum_eq_rfc1071(2) [of "p @ d" "length p + k"]
      calculateChecksum_eq_rfc1071(2) [of "q @ d" "length q + k"]
    by (simp add: blank_prefix) (metis blank_prefix)
  then have "oc_norm (word_sum p + ?b) = oc_norm (word_sum q + ?b)"
    using assms by (simp add: rfc1071_eq_iff word_sum_append)
  then have "(word_sum p + ?b) mod 65535 = (word_sum q + ?b) mod 65535"
    using oc_norm_cong [of "word_sum p + ?b"] oc_norm_cong [of "word_sum q + ?b"] by simp
  then have "(word_sum p + ?b - ?b) mod 65535 = (word_sum q + ?b - ?b) mod 65535"
    by (rule mod_diff_cong) simp
  then show False using assms(6) by simp
qed

lemma word_sum_pseudo:
  assumes "length s = 4" "length d = 4" "n < 65536"
  shows "word_sum (s @ d @ [0, x, of_int (int n div 256), of_int (int n)])
    = word_sum (s @ d) + uint x + int n"
proof -
  have "0 \<le> int n" "int n < 65536" using assms(3) by simp_all
  note split = split16 [OF this]
  have "word_sum (s @ d @ [0, x, of_int (int n div 256), of_int (int n)])
    = word_sum (s @ d) + word_sum [0, x, of_int (int n div 256), of_int (int n)]"
    using word_sum_append [of "s @ d"] assms by simp
  then show ?thesis unfolding word_sum_simps split by simp
qed

lemma options_change_length:
  "0 < o' \<Longrightarrow> o' \<le> 40 \<Longrightarrow> (w + n) mod 65535 \<noteq> (w + (n + o')) mod (65535 :: int)"
proof
  assume o': "0 < o'" "o' \<le> 40" and "(w + n) mod 65535 = (w + (n + o')) mod 65535"
  then have "(w + (n + o') - (w + n)) mod 65535 = ((w + n) - (w + n)) mod 65535"
    by (intro mod_diff_cong) simp_all
  with o' show False by simp
qed

lemma tcp_options_rejected:
  assumes v: "valid_header p" "ip_payload p = Tcp_payload g" "valid_tcp g"
    and o: "tcp_options g \<noteq> []" "length (tcp_options g) + length (tcp_payload g) \<le> 65495"
  obtains bs where "serializeIPv4Packet p = Inr bs"
    "parseIPv4Packet bs = throw ''invalid tcp checksum''"
proof -
  obtain s d where sd: "ip_sourceIP p = ipv4_text s" "length s = 4"
    "ip_destinationIP p = ipv4_text d" "length d = 4"
    using header_addresses [OF v(1)] by blast
  note ph = pseudo_bytes [OF sd(2,4), of Proto_tcp]
  let ?n = "20 + length (tcp_payload g)" and ?n' = "20 + length (tcp_options g) + length (tcp_payload g)"
  define x where "x = (of_int (serializeIPv4Protocol Proto_tcp) :: byte)"
  define a where "a n = s @ d @ [0, x, of_int (int n div 256), of_int (int n)]" for n
  define ck where "ck = calculateChecksum (a ?n @ tcp_unsummed g) (Some (length (a ?n) + 16))"
  define pl where "pl = (tcp_unsummed g)[16 := of_int (ck div 256), 17 := of_int ck]"
  have a: "length (a n) = 12" "even (length (a n))" for n by (simp_all add: a_def sd)
  have len: "length pl = ?n'" by (simp add: pl_def tcp_unsummed_def)
  have ser: "serialize_ipv4_payload p = Inr pl"
    unfolding serialize_ipv4_payload_def v(2) ipv4_payload.case sd IPV4_HEADER_LENGTH_def
      pl_def ck_def a_def x_def
    by (rule serializeTcpSegment_bytes [OF ph])
  have "16 + 2 \<le> length (tcp_unsummed g)"
      and "pl = (tcp_unsummed g)[16 := of_int (ck div 256), Suc 16 := of_int ck]"
    by (simp_all add: pl_def) (simp add: tcp_unsummed_def)
  note stored = tcp_checksum.checksum_stored [OF a(2) this(1) ck_def this(2)]
  have "0 < int (length (tcp_options g))" "int (length (tcp_options g)) \<le> 40"
    using o v(3) by (simp_all add: valid_tcp_def)
  from options_change_length [OF this, of "word_sum (s @ d) + uint x" "int ?n"]
  have "word_sum (a ?n) mod 65535 \<noteq> word_sum (a ?n') mod 65535"
    using word_sum_pseudo [OF sd(2,4), of ?n x] word_sum_pseudo [OF sd(2,4), of ?n' x] o(2)
    by (simp add: a_def algebra_simps)
  then have "calculateChecksum (a ?n' @ pl) (Some (length (a ?n') + 16)) \<noteq> ck"
    using checksum_detects_prefix [of "a ?n" "a ?n'" pl 16] a o(2) len stored(2) by auto
  then have "parseTcpSegment pl (Some (a ?n')) = throw ''invalid tcp checksum''"
    using stored(1) len by (simp add: parseTcpSegment_def TCP_HEADER_MIN_LENGTH_def)
  moreover have "serializeIPv4PseudoHeader (payload_pseudo (ip_sourceIP p) (ip_destinationIP p)
      Proto_tcp (length pl)) = Inr (a ?n')"
    unfolding len sd(1,3) a_def x_def by (rule ph)
  ultimately have "parse_ipv4_payload (ip_protocol (ip_payload p)) (ip_sourceIP p)
      (ip_destinationIP p) pl = throw ''invalid tcp checksum''"
    by (simp add: parse_ipv4_payload_def v(2) Let_def)
  then show thesis
    by (intro that [OF serializeIPv4Packet_bytes [OF v(1) ser sd]])
      (use parseIPv4Packet_bytes [OF v(1) _ sd, of pl] len o(2) in simp)
qed

subsection \<open>What the header checksum detects\<close>

lemma word_sum_update:
  "i < length d \<Longrightarrow>
   word_sum (d[i := b]) = word_sum d + (uint b - uint (d ! i)) * (if even i then 256 else 1)"
proof (induction d arbitrary: i rule: be_words.induct)
  case (3 x y rest)
  show ?case
  proof (cases "i < 2")
    case True
    then have "i = 0 \<or> i = 1" by auto
    then show ?thesis by auto
  next
    case False
    then obtain j where "i = Suc (Suc j)" by (metis add_2_eq_Suc le_Suc_ex linorder_not_less)
    with 3 show ?thesis by simp
  qed
qed (simp_all add: less_Suc_eq)

lemma byte_change_mod:
  fixes b c :: byte
  assumes "b \<noteq> c"
  shows "(w + (uint b - uint c) * (if even i then 256 else 1)) mod 65535 \<noteq> w mod (65535 :: int)"
proof
  define u where "u = (uint b - uint c) * (if even i then 256 else 1)"
  have "uint b \<noteq> uint c" using assms by (simp add: word_uint_eq_iff)
  moreover have "- 256 < uint b - uint c" "uint b - uint c < 256"
    using uint_byte_bounds [of b] uint_byte_bounds [of c] by linarith+
  ultimately have u: "u \<noteq> 0" "\<bar>u\<bar> < 65535"
    unfolding u_def by (cases "even i"; simp)+
  assume "(w + (uint b - uint c) * (if even i then 256 else 1)) mod 65535 = w mod 65535"
  then have "(w + u - w) mod 65535 = (w - w) mod 65535"
    unfolding u_def by (rule mod_diff_cong) simp
  then have "65535 dvd u" by (simp add: dvd_eq_mod_eq_0)
  with u show False by (auto dest: zdvd_imp_le dvd_imp_le_int)
qed

lemma accepted_header:
  assumes "parseIPv4Packet bs = Inr p"
  shows "20 \<le> length bs" "getUint16 bs 10 = Inr (calculateChecksum (List.take 20 bs) (Some 10))"
proof -
  from assms show "getUint16 bs 10 = Inr (calculateChecksum (List.take 20 bs) (Some 10))"
    by (auto simp: parseIPv4Packet_def bnd_eq_Inr subarray_def IPV4_HEADER_LENGTH_def Let_def
        split: if_splits)
  from assms obtain a where "parseIPv4Address (subarray 16 20 bs) = Inr a"
    by (auto simp: parseIPv4Packet_def bnd_eq_Inr Let_def split: if_splits)
  then show "20 \<le> length bs"
    by (auto simp: parseIPv4Address_def subarray_def split: if_splits)
qed

lemma stored_checksum_eq:
  "20 \<le> length bs \<Longrightarrow> getUint16 bs 10 = Inr (uint (bs ! 10) * 256 + uint (bs ! 11))"
  by (simp add: getUint16_def)

lemma bad_checksum_rejected:
  "getUint16 bs 10 = Inr c \<Longrightarrow> calculateChecksum (List.take 20 bs) (Some 10) \<noteq> c \<Longrightarrow>
   parseIPv4Packet bs = throw ''invalid ipv4 checksum''"
  by (simp add: parseIPv4Packet_def subarray_def IPV4_HEADER_LENGTH_def)

lemma base_256_inject:
  fixes a b c d :: int
  assumes "a * 256 + b = c * 256 + d" "0 \<le> b" "b < 256" "0 \<le> d" "d < 256"
  shows "a = c \<and> b = d"
proof -
  have "(a * 256 + b) div 256 = a" "(c * 256 + d) div 256 = c" using assms(2-) by simp_all
  with assms(1) have "a = c" by simp
  with assms(1) show ?thesis by simp
qed

lemma two_bytes_inject:
  fixes a b c d :: byte
  assumes "uint a * 256 + uint b = uint c * 256 + uint d"
  shows "a = c \<and> b = d"
proof -
  have "uint a = uint c \<and> uint b = uint d"
    by (rule base_256_inject [OF assms]) (use uint_byte_bounds in simp_all)
  then show ?thesis by (simp add: word_uint_eq_iff)
qed

lemma checksum_of_changed_byte:
  assumes "length h = 20" "i < 20" "i \<noteq> 10" "i \<noteq> 11" "b \<noteq> h ! i"
  shows "calculateChecksum (h[i := b]) (Some 10) \<noteq> calculateChecksum h (Some 10)"
proof
  let ?k = "blank 10 h"
  have k: "blank 10 (h[i := b]) = ?k[i := b]" "?k ! i = h ! i"
    using assms by (simp_all add: blank_def list_update_swap)
  assume "calculateChecksum (h[i := b]) (Some 10) = calculateChecksum h (Some 10)"
  then have "rfc1071 (?k[i := b]) = rfc1071 ?k"
    using calculateChecksum_eq_rfc1071(2) [of h 10] calculateChecksum_eq_rfc1071(2) [of "h[i := b]" 10]
      assms(1) k(1) by simp
  then have "oc_norm (word_sum (?k[i := b])) = oc_norm (word_sum ?k)"
    by (simp add: rfc1071_eq_iff)
  then have "word_sum (?k[i := b]) mod 65535 = word_sum ?k mod 65535"
    using oc_norm_cong [of "word_sum (?k[i := b])"] oc_norm_cong [of "word_sum ?k"] by simp
  then show False
    using byte_change_mod [OF assms(5), of "word_sum ?k" i] word_sum_update [of i ?k b] assms(1,2) k(2)
    by simp
qed

subsection \<open>Properties\<close>

text \<open>C8: The header checksum catches every error in a single byte: from a packet the parser
  accepts, changing any one of the first 20 bytes gives a packet that it rejects with
  'invalid ipv4 checksum'.\<close>

theorem ipv4_single_byte_error_detected:
  assumes "parseIPv4Packet bs = Inr p" "i < 20" "b \<noteq> bs ! i"
  shows "parseIPv4Packet (bs[i := b]) = throw ''invalid ipv4 checksum''"
proof -
  note acc = accepted_header [OF assms(1)]
  let ?h = "List.take 20 bs"
  have h: "length ?h = 20" "?h ! i = bs ! i" using acc(1) assms(2) by simp_all
  have ck: "calculateChecksum ?h (Some 10) = uint (bs ! 10) * 256 + uint (bs ! 11)"
    using acc stored_checksum_eq [OF acc(1)] by simp
  have stored: "getUint16 (bs[i := b]) 10
      = Inr (uint (bs[i := b] ! 10) * 256 + uint (bs[i := b] ! 11))"
    using stored_checksum_eq [of "bs[i := b]"] acc(1) by simp
  have taken: "List.take 20 (bs[i := b]) = ?h[i := b]" by (simp add: take_update_swap)
  have "calculateChecksum (?h[i := b]) (Some 10)
      \<noteq> uint (bs[i := b] ! 10) * 256 + uint (bs[i := b] ! 11)"
  proof (cases "i = 10 \<or> i = 11")
    case True
    then have "blank 10 (?h[i := b]) = blank 10 ?h" by (auto simp: blank_def list_update_swap)
    then have "calculateChecksum (?h[i := b]) (Some 10) = calculateChecksum ?h (Some 10)"
      using ipv4_checksum.checksum_ignores_field [of "[]" "?h[i := b]" ?h]
      unfolding append_Nil list.size add_0 by blast
    moreover have "uint (bs[i := b] ! 10) * 256 + uint (bs[i := b] ! 11)
        \<noteq> uint (bs ! 10) * 256 + uint (bs ! 11)"
    proof
      assume "uint (bs[i := b] ! 10) * 256 + uint (bs[i := b] ! 11)
        = uint (bs ! 10) * 256 + uint (bs ! 11)"
      from two_bytes_inject [OF this] show False using True assms(3) acc(1) by auto
    qed
    ultimately show ?thesis using ck by metis
  next
    case False
    with checksum_of_changed_byte [OF h(1) assms(2)] assms(3) h(2) ck show ?thesis by simp
  qed
  then show ?thesis using stored taken by (intro bad_checksum_rejected) simp_all
qed

theorem ipv4_single_byte_error_detected_witness:
  "parseIPv4Packet ([69, 0, 0, 28, 0, 7, 0, 0, 64, 1, 102, 216, 10, 0, 0, 1, 10, 0, 0, 2, 8, 0, 247, 252, 0, 1, 0, 2][8 := 63]) = throw ''invalid ipv4 checksum''"
proof -
  have "case parseIPv4Packet [69, 0, 0, 28, 0, 7, 0, 0, 64, 1, 102, 216, 10, 0, 0, 1, 10, 0, 0, 2, 8, 0, 247, 252, 0, 1, 0, 2] of Inl e \<Rightarrow> False | Inr p \<Rightarrow> True" by code_simp
  then obtain p where "parseIPv4Packet [69, 0, 0, 28, 0, 7, 0, 0, 64, 1, 102, 216, 10, 0, 0, 1, 10, 0, 0, 2, 8, 0, 247, 252, 0, 1, 0, 2] = Inr p" by (cases "parseIPv4Packet [69, 0, 0, 28, 0, 7, 0, 0, 64, 1, 102, 216, 10, 0, 0, 1, 10, 0, 0, 2, 8, 0, 247, 252, 0, 1, 0, 2]") simp_all
  from ipv4_single_byte_error_detected [OF this, of 8 63] show ?thesis by simp
qed

text \<open>C17: A TCP segment with options, sent in an IPv4 packet that is valid otherwise, cannot be
  read back: the serializer leaves the options out of the length in the pseudo-header, so the
  parser of the same library rejects the packet with 'invalid tcp checksum'.\<close>

theorem tcp_options_packet_rejected:
  assumes "valid_header p" "ip_payload p = Tcp_payload g" "valid_tcp g" "tcp_options g \<noteq> []"
    and "length (tcp_options g) + length (tcp_payload g) \<le> 65495"
  shows "bnd (serializeIPv4Packet p) parseIPv4Packet = throw ''invalid tcp checksum''"
  using tcp_options_rejected [OF assms] by (metis bnd_simps(2))

theorem tcp_options_packet_rejected_witness:
  "bnd (serializeIPv4Packet
     \<lparr>ip_version = 4, ip_dscp = 0, ip_ecn = 0, ip_identification = 7, ip_flags = 2,
      ip_fragmentOffset = 0, ip_ttl = 64, ip_sourceIP = ipv4_text [10, 0, 0, 1],
      ip_destinationIP = ipv4_text [10, 0, 0, 2],
      ip_payload = Tcp_payload
        \<lparr>tcp_sourcePort = 49152, tcp_destinationPort = 80, tcp_sequenceNumber = 1,
         tcp_acknowledgmentNumber = 0, tcp_dataOffset = 24, tcp_reserved = 0,
         tcp_flags = \<lparr>tcp_urg = False, tcp_ack = False, tcp_psh = False, tcp_rst = False,
                      tcp_syn = True, tcp_fin = False\<rparr>,
         tcp_windowSize = 65535, tcp_urgentPointer = 0, tcp_options = [2, 4, 5, 0xb4],
         tcp_payload = []\<rparr>\<rparr>) parseIPv4Packet = throw ''invalid tcp checksum''"
  by (rule tcp_options_packet_rejected [OF _ ipv4_packet.select_convs(10)])
    (simp_all add: valid_header_def valid_tcp_def is_u16_def is_u32_def)

end
