(* ===== verification/Wire_Ethernet.thy ===== *)
theory Wire_Ethernet
  imports Wire_Arp Wire_IPv4
begin

text \<open>
  Ethernet frames: \<open>parseEthernetFrame\<close> and \<open>serializeEthernetFrame\<close> of
  \<open>packages/wire/src/ethernet.ts\<close>. The union of frames is a record whose payload carries
  the type.
\<close>

datatype ethernet_payload = IPv4_frame ipv4_packet | Arp_frame arp_message

record ethernet_frame =
  eth_destinationMac :: jstring
  eth_sourceMac :: jstring
  eth_payload :: ethernet_payload

fun eth_type :: "ethernet_payload \<Rightarrow> ethertype" where
  "eth_type (IPv4_frame _) = Ether_ipv4"
| "eth_type (Arp_frame _) = Ether_arp"

definition parseEthernetFrame :: "bytes \<Rightarrow> ethernet_frame res" where
  "parseEthernetFrame frame =
     (let destinationMacBytes = subarray 0 6 frame;
          sourceMacBytes = subarray 6 12 frame;
          typeBytes = subarray 12 14 frame;
          payload = List.drop 14 frame
      in
      bnd (parseMacAddress destinationMacBytes) (\<lambda>destinationMac.
      bnd (parseMacAddress sourceMacBytes) (\<lambda>sourceMac.
      bnd (parseEthernetType typeBytes) (\<lambda>type.
      bnd (case type of
             Ether_ipv4 \<Rightarrow> bnd (parseIPv4Packet payload) (\<lambda>p. Inr (IPv4_frame p))
           | Ether_arp \<Rightarrow> bnd (parseArpMessage payload) (\<lambda>m. Inr (Arp_frame m))
           | Ether_ipv6 \<Rightarrow> throw ''unknown ethernet type'')
        (\<lambda>parsed.
          Inr \<lparr>eth_destinationMac = destinationMac, eth_sourceMac = sourceMac,
               eth_payload = parsed\<rparr>)))))"

definition serializeEthernetFrame :: "ethernet_frame \<Rightarrow> bytes res" where
  "serializeEthernetFrame frame =
     bnd (case eth_payload frame of
            IPv4_frame p \<Rightarrow> serializeIPv4Packet p
          | Arp_frame m \<Rightarrow> serializeArpMessage m) (\<lambda>payload.
     writes
       [setBytes 0 (serializeMacAddress (eth_destinationMac frame)),
        setBytes 6 (serializeMacAddress (eth_sourceMac frame)),
        setBytes 12 (serializeEthernetType (eth_type (eth_payload frame))),
        setBytes 14 (Inr payload)]
       (replicate (14 + length payload) 0))"

subsection \<open>Round trip\<close>

fun valid_eth_payload :: "ethernet_payload \<Rightarrow> bool" where
  "valid_eth_payload (IPv4_frame p) \<longleftrightarrow> valid_packet p"
| "valid_eth_payload (Arp_frame m) \<longleftrightarrow> valid_arp m"

definition valid_frame :: "ethernet_frame \<Rightarrow> bool" where
  "valid_frame f \<longleftrightarrow> valid_mac (eth_destinationMac f) \<and> valid_mac (eth_sourceMac f)
     \<and> valid_eth_payload (eth_payload f)"

lemma serializeEthernetFrame_bytes:
  assumes d: "eth_destinationMac f = mac_text d" "length d = 6"
    and s: "eth_sourceMac f = mac_text s" "length s = 6"
    and pl: "(case eth_payload f of IPv4_frame p \<Rightarrow> serializeIPv4Packet p
              | Arp_frame m \<Rightarrow> serializeArpMessage m) = Inr pl"
    and t: "serializeEthernetType (eth_type (eth_payload f)) = Inr t" "length t = 2"
  shows "serializeEthernetFrame f = Inr (d @ s @ t @ pl)"
proof -
  obtain d1 d2 d3 d4 d5 d6 where "d = [d1, d2, d3, d4, d5, d6]" using d(2) by (rule length_6E)
  moreover obtain s1 s2 s3 s4 s5 s6 where "s = [s1, s2, s3, s4, s5, s6]" using s(2) by (rule length_6E)
  moreover obtain t1 t2 where "t = [t1, t2]" using t(2) by (auto simp: length_Suc_conv numeral_eq_Suc)
  ultimately show ?thesis
    using d s t unfolding serializeEthernetFrame_def pl bnd_simps
    by (simp add: serialize_mac_text layout)
qed

lemma parseEthernetFrame_bytes:
  assumes "length d = 6" "length s = 6" "length t = 2" "parseEthernetType t = Inr ty"
  shows "parseEthernetFrame (d @ s @ t @ pl) =
    bnd (case ty of
             Ether_ipv4 \<Rightarrow> bnd (parseIPv4Packet pl) (\<lambda>p. Inr (IPv4_frame p))
           | Ether_arp \<Rightarrow> bnd (parseArpMessage pl) (\<lambda>m. Inr (Arp_frame m))
           | Ether_ipv6 \<Rightarrow> throw ''unknown ethernet type'')
      (\<lambda>parsed. Inr \<lparr>eth_destinationMac = mac_text d, eth_sourceMac = mac_text s,
               eth_payload = parsed\<rparr>)"
  using assms by (simp add: parseEthernetFrame_def subarray_def parse_mac)

lemma parse_serialize_frame:
  assumes "valid_frame f"
  obtains bs where "serializeEthernetFrame f = Inr bs" "parseEthernetFrame bs = Inr f"
proof -
  obtain d s where ds: "eth_destinationMac f = mac_text d" "length d = 6"
      "eth_sourceMac f = mac_text s" "length s = 6"
    using assms by (auto simp: valid_frame_def valid_mac_def)
  obtain t where t: "serializeEthernetType (eth_type (eth_payload f)) = Inr t" "length t = 2"
      "parseEthernetType t = Inr (eth_type (eth_payload f))"
    using ether.ser_ex by auto
  show thesis
  proof (cases "eth_payload f")
    case (IPv4_frame p)
    then have "valid_packet p" using assms by (simp add: valid_frame_def)
    then obtain pl where pl: "serializeIPv4Packet p = Inr pl" "parseIPv4Packet pl = Inr p"
      by (rule parse_serialize_ipv4)
    show thesis
      by (rule that [OF serializeEthernetFrame_bytes [OF ds, of pl t]])
        (use IPv4_frame ds t pl in \<open>simp_all add: parseEthernetFrame_bytes\<close>)
  next
    case (Arp_frame m)
    then have "valid_arp m" using assms by (simp add: valid_frame_def)
    then obtain pl where pl: "serializeArpMessage m = Inr pl" "parseArpMessage pl = Inr m"
      by (rule arp_bytes)
    show thesis
      by (rule that [OF serializeEthernetFrame_bytes [OF ds, of pl t]])
        (use Arp_frame ds t pl in \<open>simp_all add: parseEthernetFrame_bytes\<close>)
  qed
qed

interpretation ethernet: codec serializeEthernetFrame parseEthernetFrame valid_frame
proof
  fix f bs assume "valid_frame f"
  then obtain bs' where bs': "serializeEthernetFrame f = Inr bs'" "parseEthernetFrame bs' = Inr f"
    by (rule parse_serialize_frame)
  then show "\<exists>bs. serializeEthernetFrame f = Inr bs" by blast
  show "serializeEthernetFrame f = Inr bs \<Longrightarrow> parseEthernetFrame bs = Inr f" using bs' by simp
qed

subsection \<open>Properties\<close>



end
