(* ===== verification/Dhcp_Util.thy ===== *)
theory Dhcp_Util
  imports Wire_Addr Wire_Netmask
begin

text \<open>
  \<open>packages/dhcp/src/util.ts\<close>: IPv4 addresses as numbers, and that the two directions are
  inverse on the whole 32-bit range.
\<close>

definition ipv4ToNumber :: "jstring \<Rightarrow> int res" where
  "ipv4ToNumber ip =
     bnd (serializeIPv4Address ip) (\<lambda>bytes. Inr (js_shru (netmask_value bytes) 0))"

text \<open>\<open>None\<close> is \<open>NaN\<close>; the result is the four bytes joined with dots.\<close>

definition numberToIPv4 :: "int option \<Rightarrow> jstring res" where
  "numberToIPv4 num =
     (case num of None \<Rightarrow> throw ''invalid ipv4 number''
      | Some n \<Rightarrow>
          if n < 0 \<or> n > 0xffffffff then throw ''invalid ipv4 number''
          else Inr (ipv4_text
            [of_int (js_and (js_shr n 24) 0xff), of_int (js_and (js_shr n 16) 0xff),
             of_int (js_and (js_shr n 8) 0xff), of_int (js_and n 0xff)]))"

text \<open>The value of four bytes, most significant first, and the bytes of a value.\<close>

definition quad_value :: "bytes \<Rightarrow> int" where
  "quad_value bs = uint (bs ! 0) * 16777216 + uint (bs ! 1) * 65536 + uint (bs ! 2) * 256 + uint (bs ! 3)"

definition quad_bytes :: "int \<Rightarrow> bytes" where
  "quad_bytes n = [of_int (n div 16777216), of_int (n div 65536), of_int (n div 256), of_int n]"

lemma length_quad_bytes [simp]: "length (quad_bytes n) = 4"
  by (simp add: quad_bytes_def)

lemma quad_value_bytes: "0 \<le> n \<Longrightarrow> n < 4294967296 \<Longrightarrow> quad_value (quad_bytes n) = n"
  unfolding quad_value_def quad_bytes_def using split32 [of n] by simp

lemma quad_value_range:
  "0 \<le> quad_value bs" "quad_value bs < 4294967296"
proof -
  show "0 \<le> quad_value bs" by (simp add: quad_value_def)
  show "quad_value bs < 4294967296"
    unfolding quad_value_def
    using uint_byte_bounds [of "bs ! 0"] uint_byte_bounds [of "bs ! 1"] uint_byte_bounds [of "bs ! 2"]
      uint_byte_bounds [of "bs ! 3"] by linarith
qed

lemma quad_digits_inject:
  fixes a b c d :: byte
  shows "uint a * 16777216 + uint b * 65536 + uint c * 256 + uint d
    = uint a' * 16777216 + uint b' * 65536 + uint c' * 256 + uint d'
    \<Longrightarrow> a = a' \<and> b = b' \<and> c = c' \<and> d = d'"
proof -
  have step: "x = x' \<and> r = r'"
    if "x * 256 + uint r = x' * 256 + uint r'" for x x' :: int and r r' :: byte
  proof -
    have "(x * 256 + uint r) div 256 = x" "(x' * 256 + uint r') div 256 = x'"
      using uint_byte_bounds [of r] uint_byte_bounds [of r'] by simp_all
    with that show ?thesis by (simp add: word_uint_eq_iff)
  qed
  assume "uint a * 16777216 + uint b * 65536 + uint c * 256 + uint d
    = uint a' * 16777216 + uint b' * 65536 + uint c' * 256 + uint d'"
  then have "((uint a * 256 + uint b) * 256 + uint c) * 256 + uint d
    = ((uint a' * 256 + uint b') * 256 + uint c') * 256 + uint d'" by simp
  from step [OF this] step show ?thesis by (metis word_uint_eq_iff)
qed

lemma quad_value_inject:
  assumes "length a = 4" "length b = 4" "quad_value a = quad_value b"
  shows "a = b"
proof -
  obtain a0 a1 a2 a3 where "a = [a0, a1, a2, a3]" using assms(1) by (rule length_4E)
  moreover obtain b0 b1 b2 b3 where "b = [b0, b1, b2, b3]" using assms(2) by (rule length_4E)
  ultimately show ?thesis using assms(3) quad_digits_inject by (simp add: quad_value_def)
qed

text \<open>The bit operations compute these values.\<close>

lemma take_bit_to_int32: "take_bit 32 (to_int32 x) = take_bit 32 x"
  using take_bit_signed_take_bit [of 32 31 x] by (simp add: to_int32_def)

lemma js_shru_zero: "js_shru x 0 = take_bit 32 x"
  by (simp add: js_shru_def)

lemma or_low_byte: "push_bit 8 x OR uint (b :: byte) = x * 256 + uint b"
  using int_or_disjoint [of "uint b" 8 x] uint_byte_bounds [of b] by (simp add: push_bit_eq_mult)

lemma push_bit_split:
  "push_bit 24 x OR push_bit 16 y = push_bit 16 (push_bit 8 x OR (y :: int))"
  "push_bit 16 x OR push_bit 8 y = push_bit 8 (push_bit 8 x OR (y :: int))"
  by (simp_all add: push_bit_or)

lemma quad_disjoint:
  fixes a b c d :: byte
  shows "((push_bit 24 (uint a) OR push_bit 16 (uint b)) OR push_bit 8 (uint c)) OR uint d
    = uint a * 16777216 + uint b * 65536 + uint c * 256 + uint d"
  by (simp only: push_bit_split or_low_byte) (simp add: push_bit_eq_mult)

lemma js_shru_netmask_value:
  assumes "length bs = 4"
  shows "js_shru (netmask_value bs) 0 = quad_value bs"
proof -
  have byte: "to_int32 (byte_at bs i) = uint (bs ! i)" if "i < 4" for i
    using that assms uint_byte_bounds [of "bs ! i"] by (simp add: byte_at_def)
  have "js_shru (netmask_value bs) 0 = take_bit 32 (((push_bit 24 (uint (bs ! 0))
      OR push_bit 16 (uint (bs ! 1))) OR push_bit 8 (uint (bs ! 2))) OR uint (bs ! 3))"
    using byte [of 0] byte [of 1] byte [of 2] byte [of 3]
    by (simp add: js_shru_zero netmask_value_def js_or_def js_shl_def take_bit_or take_bit_to_int32)
  also have "\<dots> = take_bit 32 (quad_value bs)"
    by (simp only: quad_disjoint quad_value_def)
  also have "\<dots> = quad_value bs"
    using quad_value_range [of bs] by (simp add: take_bit_int_eq_self)
  finally show ?thesis .
qed

lemma low_byte_of_shift:
  assumes "k \<le> 24"
  shows "(of_int (js_and (js_shr n (int k)) 0xff) :: byte) = of_int (n div 2 ^ k)"
proof (rule bit_word_eqI)
  fix i assume "i < LENGTH(8)"
  then have i: "i < 8" by simp
  have "bit (255 :: int) i" using byte_index_cases [OF i] by auto
  then show "bit (of_int (js_and (js_shr n (int k)) 0xff) :: byte) i = bit (of_int (n div 2 ^ k) :: byte) i"
    using i assms
    by (simp add: bit_of_int_iff js_and_def js_shr_def bit_and_iff bit_to_int32 bit_drop_bit_eq
        flip: drop_bit_eq_div)
qed

lemma numberToIPv4_quad:
  assumes "0 \<le> n" "n < 4294967296"
  shows "numberToIPv4 (Some n) = Inr (ipv4_text (quad_bytes n))"
proof -
  have "(of_int (js_and n 0xff) :: byte) = of_int n"
    using low_byte_of_shift [of 0 n] by (simp add: js_shr_def js_and_def)
  then show ?thesis
    using assms low_byte_of_shift [of 24 n] low_byte_of_shift [of 16 n] low_byte_of_shift [of 8 n]
    by (simp add: numberToIPv4_def quad_bytes_def)
qed

lemma ipv4ToNumber_text: "length bs = 4 \<Longrightarrow> ipv4ToNumber (ipv4_text bs) = Inr (quad_value bs)"
  by (simp add: ipv4ToNumber_def serialize_ipv4_text js_shru_netmask_value)

lemma quad_bytes_value: "length bs = 4 \<Longrightarrow> quad_bytes (quad_value bs) = bs"
  using quad_value_range [of bs] by (intro quad_value_inject) (simp_all add: quad_value_bytes)

lemma ipv4_text_inject: "length a = 4 \<Longrightarrow> length b = 4 \<Longrightarrow> ipv4_text a = ipv4_text b \<longleftrightarrow> a = b"
  using serialize_ipv4_text by (metis sum.inject(2))

subsection \<open>Properties\<close>

text \<open>Addresses and numbers: \<open>numberToIPv4\<close> and \<open>ipv4ToNumber\<close> are inverse to
  each other between the 32-bit numbers and the canonical address texts, and \<open>numberToIPv4\<close>
  throws on every number outside that range and on \<open>NaN\<close>.\<close>

theorem ipv4_number_roundtrip:
  "(0 \<le> n \<and> n \<le> 0xffffffff \<longrightarrow> bnd (numberToIPv4 (Some n)) ipv4ToNumber = Inr n)
   \<and> (valid_ipv4 ip \<longrightarrow> bnd (ipv4ToNumber ip) (\<lambda>k. numberToIPv4 (Some k)) = Inr ip)
   \<and> (n < 0 \<or> n > 0xffffffff \<longrightarrow> numberToIPv4 (Some n) = throw ''invalid ipv4 number'')
   \<and> numberToIPv4 None = throw ''invalid ipv4 number''"
proof (intro conjI impI)
  show "bnd (numberToIPv4 (Some n)) ipv4ToNumber = Inr n" if "0 \<le> n \<and> n \<le> 0xffffffff"
    using that by (simp add: numberToIPv4_quad ipv4ToNumber_text quad_value_bytes)
  show "bnd (ipv4ToNumber ip) (\<lambda>k. numberToIPv4 (Some k)) = Inr ip" if ip: "valid_ipv4 ip"
  proof -
    obtain bs where "length bs = 4" "ip = ipv4_text bs" using ip by (auto simp: valid_ipv4_def)
    then show ?thesis
      using quad_value_range [of bs] by (simp add: ipv4ToNumber_text numberToIPv4_quad quad_bytes_value)
  qed
qed (auto simp: numberToIPv4_def)

theorem ipv4_number_roundtrip_witness:
  "bnd (numberToIPv4 (Some 4294967295)) ipv4ToNumber = Inr 4294967295
   \<and> numberToIPv4 (Some 4294967296) = throw ''invalid ipv4 number''"
  using ipv4_number_roundtrip [of 4294967295] ipv4_number_roundtrip [of 4294967296] by simp

end
