(* ===== verification/Dhcp_Wire.thy ===== *)
theory Dhcp_Wire
  imports Dhcp_Util JS_Text JS_Table
begin

text \<open>
  \<open>packages/dhcp/src/wire.ts\<close> with the tables of \<open>constants.ts\<close> and the types of
  \<open>types.ts\<close>: the DHCP message parser (header, then the option list) and the serializer
  of replies.
\<close>

subsection \<open>Message types and options\<close>

datatype dhcp_message_type = DISCOVER | OFFER | REQUEST | DECLINE | ACK | NAK | RELEASE | INFORM

definition DhcpMessageTypes :: "(dhcp_message_type \<times> int) list" where
  "DhcpMessageTypes =
     [(DISCOVER, 1), (OFFER, 2), (REQUEST, 3), (DECLINE, 4), (ACK, 5), (NAK, 6), (RELEASE, 7),
      (INFORM, 8)]"

datatype dhcp_option = SUBNET_MASK | ROUTER | DNS_SERVERS | HOSTNAME | DOMAIN_NAME | LEASE_TIME
  | MESSAGE_TYPE | SERVER_IDENTIFIER | DOMAIN_SEARCH | END_OPTION

definition DhcpOptions :: "(dhcp_option \<times> int) list" where
  "DhcpOptions =
     [(SUBNET_MASK, 1), (ROUTER, 3), (DNS_SERVERS, 6), (HOSTNAME, 12), (DOMAIN_NAME, 15),
      (LEASE_TIME, 51), (MESSAGE_TYPE, 53), (SERVER_IDENTIFIER, 54), (DOMAIN_SEARCH, 119),
      (END_OPTION, 255)]"

interpretation message_types: code_table DhcpMessageTypes
proof
  fix k show "k \<in> fst ` set DhcpMessageTypes" by (cases k) (simp_all add: DhcpMessageTypes_def)
qed (simp_all add: DhcpMessageTypes_def)

interpretation options: code_table DhcpOptions
proof
  fix k show "k \<in> fst ` set DhcpOptions" by (cases k) (simp_all add: DhcpOptions_def)
qed (simp_all add: DhcpOptions_def)

definition parseDhcpMessageType :: "int \<Rightarrow> dhcp_message_type res" where
  "parseDhcpMessageType type =
     (case find_value DhcpMessageTypes type of
        None \<Rightarrow> Inl (Error (lit ''unknown dhcp message type: '' @ num_str 10 (nat type)))
      | Some key \<Rightarrow> Inr key)"

definition serializeDhcpMessageType :: "dhcp_message_type \<Rightarrow> int" where
  "serializeDhcpMessageType type = table_at DhcpMessageTypes type"

definition parseDhcpOption :: "int \<Rightarrow> dhcp_option res" where
  "parseDhcpOption option =
     (case find_value DhcpOptions option of
        None \<Rightarrow> Inl (Error (lit ''unknown dhcp option: '' @ num_str 10 (nat option)))
      | Some key \<Rightarrow> Inr key)"

definition serializeDhcpOption :: "dhcp_option \<Rightarrow> int" where
  "serializeDhcpOption option = table_at DhcpOptions option"

subsection \<open>The parser\<close>

record dhcp_message =
  msg_op :: int
  msg_htype :: int
  msg_hlen :: int
  msg_xid :: int
  msg_ciaddr :: jstring
  msg_yiaddr :: jstring
  msg_mac :: jstring
  msg_type :: "dhcp_message_type option"
  msg_requestedIP :: "jstring option"
  msg_serverIdentifier :: "jstring option"

record dhcp_parsed_options =
  opt_type :: "dhcp_message_type option"
  opt_requestedIp :: "jstring option"
  opt_serverIdentifier :: "jstring option"

text \<open>The \<open>switch (option)\<close> of the option loop; other options are skipped.\<close>

definition read_option :: "int \<Rightarrow> bytes \<Rightarrow> dhcp_parsed_options \<Rightarrow> dhcp_parsed_options res" where
  "read_option option v o' =
     (if option = 53 then
        (if length v \<noteq> 1 then throw ''invalid dhcp message type option length''
         else bnd (parseDhcpMessageType (uint (v ! 0))) (\<lambda>t. Inr (o'\<lparr>opt_type := Some t\<rparr>)))
      else if option = 50 then
        (if length v \<noteq> 4 then throw ''invalid dhcp requested ip option length''
         else bnd (parseIPv4Address v) (\<lambda>ip. Inr (o'\<lparr>opt_requestedIp := Some ip\<rparr>)))
      else if option = 54 then
        (if length v \<noteq> 4 then throw ''invalid dhcp server identifier option length''
         else bnd (parseIPv4Address v) (\<lambda>ip. Inr (o'\<lparr>opt_serverIdentifier := Some ip\<rparr>)))
      else Inr o')"

text \<open>The option loop from index \<open>i\<close>.\<close>

function options_loop :: "bytes \<Rightarrow> nat \<Rightarrow> dhcp_parsed_options \<Rightarrow> dhcp_parsed_options res" where
  "options_loop data i o' =
     (if i < length data then
        let option = uint (data ! i) in
        if option = 255 then Inr o'
        else if option = 0 then options_loop data (i + 1) o'
        else if i + 1 \<ge> length data then throw ''truncated dhcp option''
        else
          let len = nat (uint (data ! (i + 1)));
              valueOffset = i + 2;
              nextOptionOffset = valueOffset + len
          in
          if nextOptionOffset > length data then throw ''truncated dhcp option''
          else bnd (read_option option (subarray valueOffset nextOptionOffset data) o') (\<lambda>o''.
            options_loop data (i + len + 2) o'')
      else Inr o')"
  by pat_completeness auto
termination
  by (relation "measure (\<lambda>(data, i, _). length data - i)") auto

declare options_loop.simps [simp del]

definition parseDhcpMessage :: "bytes \<Rightarrow> dhcp_message res" where
  "parseDhcpMessage data =
     (if length data < 240 then throw ''dhcp message too short''
      else
        bnd (getUint8 data 0) (\<lambda>op.
        bnd (getUint8 data 1) (\<lambda>htype.
        bnd (getUint8 data 2) (\<lambda>hlen.
        bnd (getUint32 data 4) (\<lambda>xid.
        bnd (parseIPv4Address (subarray 12 16 data)) (\<lambda>ciaddr.
        bnd (parseIPv4Address (subarray 16 20 data)) (\<lambda>yiaddr.
        let mac = js_join (lit '':'') (List.map hex_byte (subarray 28 34 data)) in
        bnd (options_loop data 240
               \<lparr>opt_type = None, opt_requestedIp = None, opt_serverIdentifier = None\<rparr>) (\<lambda>o'.
          Inr \<lparr>msg_op = op, msg_htype = htype, msg_hlen = hlen, msg_xid = xid,
               msg_ciaddr = ciaddr, msg_yiaddr = yiaddr, msg_mac = mac,
               msg_type = opt_type o', msg_requestedIP = opt_requestedIp o',
               msg_serverIdentifier = opt_serverIdentifier o'\<rparr>))))))))"

subsection \<open>The serializer\<close>

record dhcp_server_options =
  rangeStart :: jstring
  rangeEnd :: jstring
  leaseDuration :: int
  serverIdentifier :: jstring
  netmask :: jstring
  router :: jstring
  hostname :: "jstring option"
  domainName :: "jstring option"
  searchDomains :: "jstring list option"
  dnsServers :: "jstring list option"

record dhcp_message_params =
  par_op :: int
  par_xid :: int
  par_yiaddr :: jstring
  par_mac :: jstring
  par_type :: int

text \<open>
  The writes at a running offset: \<open>message[offset++] = x\<close> is ignored out of range,
  \<open>message.set(bytes, offset)\<close> and \<open>view.setUint32(offset, x)\<close> throw, and the offset
  advances in each case.
\<close>

type_synonym cursor = "nat \<times> bytes"
type_synonym emit = "cursor \<Rightarrow> cursor res"

definition emitByte :: "int \<Rightarrow> emit" where
  "emitByte x c = Inr (fst c + 1, (snd c)[fst c := of_int x])"

definition emitBytes :: "bytes res \<Rightarrow> emit" where
  "emitBytes v c =
     bnd v (\<lambda>src. bnd (setBytes (fst c) (Inr src) (snd c)) (\<lambda>buf. Inr (fst c + length src, buf)))"

definition emitUint32 :: "int \<Rightarrow> emit" where
  "emitUint32 x c = bnd (setUint32 (fst c) (Inr x) (snd c)) (\<lambda>buf. Inr (fst c + 4, buf))"

fun emits :: "emit list \<Rightarrow> emit" where
  "emits [] c = Inr c"
| "emits (e # es) c = bnd (e c) (emits es)"

text \<open>\<open>options.x ? encode(options.x) : undefined\<close>: an absent or empty string gives nothing.\<close>

definition encode_text :: "jstring option \<Rightarrow> bytes option" where
  "encode_text s = (case s of None \<Rightarrow> None | Some t \<Rightarrow> if t = [] then None else Some (utf8_encode t))"

definition encode_domain :: "jstring \<Rightarrow> bytes" where
  "encode_domain domain =
     concat (List.map (\<lambda>label. of_nat (length (utf8_encode label)) # utf8_encode label)
       (js_split (lit ''.'') domain)) @ [0]"

definition list_or_empty :: "'a list option \<Rightarrow> 'a list" where
  "list_or_empty xs = (case xs of None \<Rightarrow> [] | Some ys \<Rightarrow> ys)"

definition serializeDhcpMessage :: "dhcp_message_params \<Rightarrow> dhcp_server_options \<Rightarrow> bytes res" where
  "serializeDhcpMessage params options =
     (let hostnameBytes = encode_text (hostname options);
          domainBytes = encode_text (domainName options);
          dns = list_or_empty (dnsServers options);
          encodedSearchDomains = List.map encode_domain (list_or_empty (searchDomains options));
          searchDomainsSize = sum_list (List.map length encodedSearchDomains);
          optionsSize =
            3 + 6 + 6 + 6 + 6
            + (if length dns \<noteq> 0 then 2 + length dns * 4 else 0)
            + (case hostnameBytes of None \<Rightarrow> 0 | Some b \<Rightarrow> 2 + length b)
            + (case domainBytes of None \<Rightarrow> 0 | Some b \<Rightarrow> 2 + length b)
            + (if searchDomainsSize \<noteq> 0 then 2 + searchDomainsSize else 0)
            + 1
      in
      bnd (writes
        [setUint8 0 (Inr (par_op params)), setUint8 1 (Inr 1), setUint8 2 (Inr 6),
         setUint32 4 (Inr (par_xid params)),
         setBytes 16 (serializeIPv4Address (par_yiaddr params)),
         setBytes 28 (serializeMacAddress (par_mac params)),
         setUint32 236 (Inr 0x63825363)]
        (replicate (240 + optionsSize) 0)) (\<lambda>message.
      bnd (emits
        ([emitByte 53, emitByte 1, emitByte (par_type params),
          emitByte 54, emitByte 4, emitBytes (serializeIPv4Address (serverIdentifier options)),
          emitByte 51, emitByte 4, emitUint32 (leaseDuration options),
          emitByte 1, emitByte 4, emitBytes (serializeIPv4Address (netmask options)),
          emitByte 3, emitByte 4, emitBytes (serializeIPv4Address (router options))]
         @ (if length dns \<noteq> 0
            then [emitByte 6, emitByte (4 * int (length dns))]
                 @ List.map (\<lambda>s. emitBytes (serializeIPv4Address s)) dns
            else [])
         @ (case hostnameBytes of None \<Rightarrow> []
            | Some b \<Rightarrow> [emitByte 12, emitByte (int (length b)), emitBytes (Inr b)])
         @ (case domainBytes of None \<Rightarrow> []
            | Some b \<Rightarrow> [emitByte 15, emitByte (int (length b)), emitBytes (Inr b)])
         @ (if length encodedSearchDomains \<noteq> 0 \<and> searchDomainsSize > 0
            then [emitByte 119, emitByte (int searchDomainsSize)]
                 @ List.map (\<lambda>b. emitBytes (Inr b)) encodedSearchDomains
            else [])
         @ [emitByte 255]) (240, message)) (\<lambda>c.
        Inr (subarray 0 (fst c) (snd c)))))"

subsection \<open>Option lists\<close>

definition tlv :: "int \<times> bytes \<Rightarrow> bytes" where
  "tlv o' = of_int (fst o') # of_nat (length (snd o')) # snd o'"

text \<open>Options as a list of codes and values, read one after the other.\<close>

fun read_options :: "(int \<times> bytes) list \<Rightarrow> dhcp_parsed_options \<Rightarrow> dhcp_parsed_options res" where
  "read_options [] o' = Inr o'"
| "read_options ((code, v) # os) o' = bnd (read_option code v o') (read_options os)"

definition option_ok :: "int \<times> bytes \<Rightarrow> bool" where
  "option_ok o' \<longleftrightarrow> 0 < fst o' \<and> fst o' < 255 \<and> length (snd o') \<le> 255"

lemma nth_append_length_plus: "(xs @ ys) ! (length xs + n) = ys ! n"
  by simp

lemma options_loop_end: "options_loop (pre @ 255 # rest) (length pre) o' = Inr o'"
  by (subst options_loop.simps) (simp add: Let_def)

lemma options_loop_pad:
  "options_loop (pre @ 0 # rest) (length pre) o' = options_loop ((pre @ [0]) @ rest) (length (pre @ [0])) o'"
  by (subst options_loop.simps) (simp add: Let_def)

lemma options_loop_tlv:
  assumes "option_ok (code, v)"
  shows "options_loop (pre @ tlv (code, v) @ rest) (length pre) o'
    = bnd (read_option code v o')
        (\<lambda>o''. options_loop ((pre @ tlv (code, v)) @ rest) (length (pre @ tlv (code, v))) o'')"
proof -
  define D where "D = pre @ tlv (code, v) @ rest"
  have c: "0 < code" "code < 255" "length v \<le> 255" using assms by (simp_all add: option_ok_def)
  have d: "D ! length pre = of_int code" "D ! (length pre + 1) = of_nat (length v)"
    by (simp_all only: D_def nth_append_length_plus nth_append_length add_0_right tlv_def fst_conv snd_conv
        append_Cons nth_Cons_0 One_nat_def nth_Cons_Suc)
  have u: "uint (of_int code :: byte) = code" "nat (uint (of_nat (length v) :: byte)) = length v"
  proof -
    show "uint (of_int code :: byte) = code" using c by (simp add: uint_byte_of_int_mod)
    have "uint (of_int (int (length v)) :: byte) = int (length v)"
      using c by (simp add: uint_byte_of_int_mod del: of_int_of_nat_eq)
    then show "nat (uint (of_nat (length v) :: byte)) = length v" by simp
  qed
  have v: "subarray (length pre + 2) (length pre + 2 + length v) D = v"
    by (simp add: D_def subarray_def tlv_def drop_take)
  have l: "length D = length pre + 2 + length v + length rest"
    by (simp add: D_def tlv_def)
  have d': "D ! Suc (length pre) = of_nat (length v)" using d(2) by simp
  have u': "unat (of_nat (length v) :: byte) = length v" using u(2) by simp
  have v': "subarray (Suc (Suc (length pre))) (Suc (Suc (length pre + length v))) D = v"
    using v by simp
  have "options_loop D (length pre) o'
    = bnd (read_option code v o') (options_loop D (length pre + length v + 2))"
    using c l by (subst options_loop.simps) (simp add: d(1) d' u u' v' Let_def)
  then show ?thesis by (simp add: D_def tlv_def)
qed

lemma options_loop_list:
  assumes "list_all option_ok os"
  shows "options_loop (pre @ concat (List.map tlv os) @ 255 # rest) (length pre) o' = read_options os o'"
  using assms
proof (induction os arbitrary: pre o')
  case Nil
  then show ?case by (simp add: options_loop_end)
next
  case (Cons ov os)
  obtain code v where ov: "ov = (code, v)" by (cases ov)
  then have "options_loop (pre @ concat (List.map tlv (ov # os)) @ 255 # rest) (length pre) o'
    = bnd (read_option code v o') (\<lambda>o''. options_loop ((pre @ tlv (code, v))
        @ concat (List.map tlv os) @ 255 # rest) (length (pre @ tlv (code, v))) o'')"
    using options_loop_tlv [of code v pre] Cons.prems by simp
  moreover have "options_loop ((pre @ tlv (code, v)) @ concat (List.map tlv os) @ 255 # rest)
      (length (pre @ tlv (code, v))) o'' = read_options os o''" for o''
    using Cons.prems by (intro Cons.IH) simp
  ultimately show ?case using ov by simp
qed

subsection \<open>What the serializer writes\<close>

definition u32_bytes :: "int \<Rightarrow> bytes" where
  "u32_bytes x = [of_int (x div 16777216), of_int (x div 65536), of_int (x div 256), of_int x]"

lemma setBytes_segment:
  "k = length a \<Longrightarrow> length old = length src \<Longrightarrow>
   setBytes k (Inr src) (a @ old @ c) = Inr (a @ src @ c)"
  by (simp add: setBytes_def)

lemma list_update_segment:
  "k = length a \<Longrightarrow> (a @ x # c)[k := y] = a @ y # c"
  by simp

lemma setUint32_segment:
  "k = length a \<Longrightarrow> length old = 4 \<Longrightarrow>
   setUint32 k (Inr x) (a @ old @ c) = Inr (a @ u32_bytes x @ c)"
  by (erule length_4E) (simp add: setUint32_def u32_bytes_def list_update_append)

text \<open>\<open>emits_list es out\<close>: the writes append \<open>out\<close> to what is written so far.\<close>

definition emits_list :: "emit list \<Rightarrow> bytes \<Rightarrow> bool" where
  "emits_list es out \<longleftrightarrow>
     (\<forall>w z. length out \<le> length z \<longrightarrow>
        emits es (length w, w @ z) = Inr (length (w @ out), w @ out @ List.drop (length out) z))"

lemma emits_append: "emits (es @ fs) c = bnd (emits es c) (emits fs)"
  by (induction es arbitrary: c) (auto simp: bnd_def split: sum.splits)

lemma emits_list_Nil: "emits_list [] []"
  by (simp add: emits_list_def)

lemma emits_list_append:
  assumes "emits_list es a" "emits_list fs b"
  shows "emits_list (es @ fs) (a @ b)"
  unfolding emits_list_def
proof (intro allI impI)
  fix w z :: bytes
  assume l: "length (a @ b) \<le> length z"
  then have "emits es (length w, w @ z) = Inr (length (w @ a), (w @ a) @ List.drop (length a) z)"
    using assms(1) by (simp add: emits_list_def)
  moreover have "emits fs (length (w @ a), (w @ a) @ List.drop (length a) z)
      = Inr (length ((w @ a) @ b), (w @ a) @ b @ List.drop (length b) (List.drop (length a) z))"
    using assms(2) [unfolded emits_list_def, rule_format, of "List.drop (length a) z" "w @ a"] l
    by simp
  ultimately show "emits (es @ fs) (length w, w @ z)
      = Inr (length (w @ a @ b), w @ (a @ b) @ List.drop (length (a @ b)) z)"
    by (simp add: emits_append add.commute add.left_commute)
qed

lemma emits_list_byte: "emits_list [emitByte x] [of_int x]"
  unfolding emits_list_def
proof (intro allI impI)
  fix w z :: bytes assume "length [of_int x :: byte] \<le> length z"
  then obtain y ys where "z = y # ys" by (cases z) auto
  then show "emits [emitByte x] (length w, w @ z) =
      Inr (length (w @ [of_int x]), w @ [of_int x] @ List.drop (length [of_int x :: byte]) z)"
    by (simp add: emitByte_def)
qed

lemma emits_list_bytes: "emits_list [emitBytes (Inr b)] b"
  by (simp add: emits_list_def emitBytes_def setBytes_def)

lemma emits_list_u32: "emits_list [emitUint32 x] (u32_bytes x)"
  unfolding emits_list_def
proof (intro allI impI)
  fix w z :: bytes assume "length (u32_bytes x) \<le> length z"
  then have "length (List.take 4 z) = 4" by (simp add: u32_bytes_def)
  from setUint32_segment [OF refl this, of w x "List.drop 4 z"]
  show "emits [emitUint32 x] (length w, w @ z) =
      Inr (length (w @ u32_bytes x), w @ u32_bytes x @ List.drop (length (u32_bytes x)) z)"
    by (simp add: emitUint32_def u32_bytes_def numeral_eq_Suc)
qed

lemma emits_list_Cons: "emits_list [e] a \<Longrightarrow> emits_list es b \<Longrightarrow> emits_list (e # es) (a @ b)"
  using emits_list_append [of "[e]" a es b] by simp

lemma emits_list_map:
  assumes "\<And>x. x \<in> set xs \<Longrightarrow> emits_list [f x] (g x)"
  shows "emits_list (List.map f xs) (concat (List.map g xs))"
  using assms by (induction xs) (simp_all add: emits_list_Nil emits_list_Cons)

lemma emits_list_tlv:
  assumes "emits_list es v"
  shows "emits_list (emitByte t # emitByte (int (length v)) # es) (tlv (t, v))"
  using emits_list_Cons [OF emits_list_byte [of t]
    emits_list_Cons [OF emits_list_byte [of "int (length v)"] assms]]
  by (simp add: tlv_def)

subsection \<open>The reply as a header and an option list\<close>

definition addr_bytes :: "jstring \<Rightarrow> bytes" where
  "addr_bytes t = (case serializeIPv4Address t of Inr b \<Rightarrow> b | Inl _ \<Rightarrow> [])"

lemma addr_bytes: "valid_ipv4 t \<Longrightarrow> serializeIPv4Address t = Inr (addr_bytes t) \<and> length (addr_bytes t) = 4
    \<and> parseIPv4Address (addr_bytes t) = Inr t"
  using ipv4_addr.ser_ex [of t] by (auto simp: addr_bytes_def)

definition text_option :: "int \<Rightarrow> bytes option \<Rightarrow> (int \<times> bytes) list" where
  "text_option code b = (case b of None \<Rightarrow> [] | Some v \<Rightarrow> [(code, v)])"

definition list_option :: "int \<Rightarrow> bytes list \<Rightarrow> (int \<times> bytes) list" where
  "list_option code vs = (if concat vs = [] then [] else [(code, concat vs)])"

definition reply_options :: "dhcp_message_params \<Rightarrow> dhcp_server_options \<Rightarrow> (int \<times> bytes) list" where
  "reply_options params options =
     [(53, [of_int (par_type params)]), (54, addr_bytes (serverIdentifier options)),
      (51, u32_bytes (leaseDuration options)), (1, addr_bytes (netmask options)),
      (3, addr_bytes (router options))]
     @ list_option 6 (List.map addr_bytes (list_or_empty (dnsServers options)))
     @ text_option 12 (encode_text (hostname options))
     @ text_option 15 (encode_text (domainName options))
     @ list_option 119 (List.map encode_domain (list_or_empty (searchDomains options)))"

definition reply_header :: "dhcp_message_params \<Rightarrow> bytes \<Rightarrow> bytes" where
  "reply_header params hw =
     [of_int (par_op params), 1, 6, 0] @ u32_bytes (par_xid params) @ replicate 8 0
     @ addr_bytes (par_yiaddr params) @ replicate 8 0 @ hw @ replicate 202 0
     @ u32_bytes 0x63825363"

definition valid_options :: "dhcp_server_options \<Rightarrow> bool" where
  "valid_options options \<longleftrightarrow>
     valid_ipv4 (serverIdentifier options) \<and> valid_ipv4 (netmask options) \<and> valid_ipv4 (router options)
     \<and> list_all valid_ipv4 (list_or_empty (dnsServers options))"

lemma reply_header_writes:
  assumes "valid_ipv4 (par_yiaddr params)" "serializeMacAddress (par_mac params) = Inr hw" "length hw = 6"
  shows "writes
        [setUint8 0 (Inr (par_op params)), setUint8 1 (Inr 1), setUint8 2 (Inr 6),
         setUint32 4 (Inr (par_xid params)),
         setBytes 16 (serializeIPv4Address (par_yiaddr params)),
         setBytes 28 (serializeMacAddress (par_mac params)),
         setUint32 236 (Inr 0x63825363)]
        (replicate (240 + n) 0) = Inr (reply_header params hw @ replicate n 0)"
proof -
  let ?a = "[of_int (par_op params), 1, 6, 0] :: bytes"
  let ?x = "u32_bytes (par_xid params)" and ?y = "addr_bytes (par_yiaddr params)"
  define z8 z4 z6 z202 zn :: bytes where z: "z8 = replicate 8 0" "z4 = replicate 4 0"
    "z6 = replicate 6 0" "z202 = replicate 202 0" "zn = replicate n 0"
  have len: "length z8 = 8" "length z4 = 4" "length z6 = 6" "length z202 = 202" "length ?x = 4"
      "length ?y = 4"
    using assms addr_bytes by (simp_all add: z u32_bytes_def)
  have "replicate (240 + n) (0 :: byte)
      = replicate (4 + (4 + (8 + (4 + (8 + (6 + (202 + (4 + n)))))))) 0" by simp
  also have "\<dots> = replicate 4 0 @ z4 @ z8 @ z4 @ z8 @ z6 @ z202 @ z4 @ zn"
    unfolding replicate_add z ..
  also have "\<dots> = [0, 0, 0, 0] @ z4 @ z8 @ z4 @ z8 @ z6 @ z202 @ z4 @ zn"
    by (simp add: replicate_numeral_Cons)
  finally have start: "replicate (240 + n) (0 :: byte)
      = [0, 0, 0, 0] @ z4 @ z8 @ z4 @ z8 @ z6 @ z202 @ z4 @ zn" .
  have "setUint32 4 (Inr (par_xid params)) (?a @ z4 @ z8 @ z4 @ z8 @ z6 @ z202 @ z4 @ zn)
      = Inr (?a @ ?x @ z8 @ z4 @ z8 @ z6 @ z202 @ z4 @ zn)"
    using len by (intro setUint32_segment) simp_all
  moreover have "setBytes 16 (Inr ?y) ((?a @ ?x @ z8) @ z4 @ z8 @ z6 @ z202 @ z4 @ zn)
      = Inr ((?a @ ?x @ z8) @ ?y @ z8 @ z6 @ z202 @ z4 @ zn)"
    using len by (intro setBytes_segment) simp_all
  moreover have "setBytes 28 (Inr hw) ((?a @ ?x @ z8 @ ?y @ z8) @ z6 @ z202 @ z4 @ zn)
      = Inr ((?a @ ?x @ z8 @ ?y @ z8) @ hw @ z202 @ z4 @ zn)"
    using len assms(3) by (intro setBytes_segment) simp_all
  moreover have "setUint32 236 (Inr 0x63825363) ((?a @ ?x @ z8 @ ?y @ z8 @ hw @ z202) @ z4 @ zn)
      = Inr ((?a @ ?x @ z8 @ ?y @ z8 @ hw @ z202) @ u32_bytes 0x63825363 @ zn)"
    using len assms(3) by (intro setUint32_segment) simp_all
  ultimately show ?thesis
    using addr_bytes [OF assms(1)]
    by (simp add: start setUint8_def assms(2) reply_header_def z(1,4,5))
qed

lemma length_reply_header:
  "valid_ipv4 (par_yiaddr params) \<Longrightarrow> length hw = 6 \<Longrightarrow> length (reply_header params hw) = 240"
  using addr_bytes [of "par_yiaddr params"] by (simp add: reply_header_def u32_bytes_def)

lemma emits_list_addr:
  "valid_ipv4 t \<Longrightarrow> emits_list [emitBytes (serializeIPv4Address t)] (addr_bytes t)"
  using addr_bytes [of t] emits_list_bytes by simp

lemma length_concat_addrs:
  "list_all valid_ipv4 ds \<Longrightarrow> length (concat (List.map addr_bytes ds)) = 4 * length ds"
  using addr_bytes by (induction ds) auto

lemma encode_domain_not_Nil: "encode_domain d \<noteq> []"
  by (simp add: encode_domain_def)

lemma length_text_option:
  "length (concat (List.map tlv (text_option c b))) = (case b of None \<Rightarrow> 0 | Some v \<Rightarrow> 2 + length v)"
  by (cases b) (simp_all add: text_option_def tlv_def)

lemma length_list_option:
  "length (concat (List.map tlv (list_option c vs))) =
     (if sum_list (List.map length vs) \<noteq> 0 then 2 + sum_list (List.map length vs) else 0)"
  by (auto simp: list_option_def tlv_def length_concat)

lemma emits_text_option:
  "emits_list (case b of None \<Rightarrow> []
      | Some v \<Rightarrow> [emitByte code, emitByte (int (length v)), emitBytes (Inr v)])
    (concat (List.map tlv (text_option code b)))"
  using emits_list_tlv [OF emits_list_bytes]
  by (cases b) (simp_all add: text_option_def emits_list_Nil)

lemma emits_dns_option:
  assumes "list_all valid_ipv4 dns"
  shows "emits_list (if length dns \<noteq> 0
      then [emitByte 6, emitByte (4 * int (length dns))]
           @ List.map (\<lambda>s. emitBytes (serializeIPv4Address s)) dns else [])
    (concat (List.map tlv (list_option 6 (List.map addr_bytes dns))))"
proof (cases "dns = []")
  case True
  then show ?thesis by (simp add: list_option_def emits_list_Nil)
next
  case False
  have "emits_list (List.map (\<lambda>s. emitBytes (serializeIPv4Address s)) dns) (concat (List.map addr_bytes dns))"
    using assms by (intro emits_list_map emits_list_addr) (simp add: list_all_iff)
  from emits_list_tlv [OF this, of 6] False assms
  have "emits_list (emitByte 6 # emitByte (4 * int (length dns))
      # List.map (\<lambda>s. emitBytes (serializeIPv4Address s)) dns) (tlv (6, concat (List.map addr_bytes dns)))"
    by (simp only: length_concat_addrs of_nat_mult of_nat_numeral)
  moreover have "concat (List.map addr_bytes dns) \<noteq> []"
    using False assms length_concat_addrs [of dns] by (metis length_0_conv mult_eq_0_iff zero_neq_numeral)
  then have "concat (List.map tlv (list_option 6 (List.map addr_bytes dns)))
      = tlv (6, concat (List.map addr_bytes dns))"
    by (simp only: list_option_def if_False list.map concat.simps append_Nil2)
  ultimately show ?thesis using False by simp
qed

lemma emits_search_option:
  defines "enc ds \<equiv> List.map encode_domain ds"
  shows "emits_list (if length (enc ds) \<noteq> 0 \<and> sum_list (List.map length (enc ds)) > 0
      then [emitByte 119, emitByte (int (sum_list (List.map length (enc ds))))]
           @ List.map (\<lambda>b. emitBytes (Inr b)) (enc ds) else [])
    (concat (List.map tlv (list_option 119 (enc ds))))"
proof (cases "concat (enc ds) = []")
  case True
  then have "ds = []" using encode_domain_not_Nil by (cases ds) (auto simp: enc_def)
  then show ?thesis by (simp add: enc_def list_option_def emits_list_Nil)
next
  case False
  have "emits_list (List.map (\<lambda>b. emitBytes (Inr b)) (enc ds)) (concat (enc ds))"
    using emits_list_map [of "enc ds" "\<lambda>b. emitBytes (Inr b)" "\<lambda>b. b"] emits_list_bytes by simp
  note run = emits_list_tlv [OF this, of 119]
  have "length (enc ds) \<noteq> 0 \<and> sum_list (List.map length (enc ds)) > 0"
    using False by (auto simp: length_concat [symmetric])
  moreover have "concat (List.map tlv (list_option 119 (enc ds))) = tlv (119, concat (enc ds))"
    using False by (simp only: list_option_def if_False list.map concat.simps append_Nil2)
  ultimately show ?thesis using run by (simp add: length_concat del: concat_eq_Nil_conv)
qed

lemma emits_list_fills:
  "emits_list es out \<Longrightarrow> length w = k \<Longrightarrow>
   emits es (k, w @ replicate (length out) 0) = Inr (k + length out, w @ out)"
  by (auto simp: emits_list_def)

lemma serializeDhcpMessage_bytes:
  assumes "valid_options options" "valid_ipv4 (par_yiaddr params)"
    "serializeMacAddress (par_mac params) = Inr hw" "length hw = 6"
  shows "serializeDhcpMessage params options
    = Inr (reply_header params hw @ concat (List.map tlv (reply_options params options)) @ [255])"
proof -
  define dns where "dns = list_or_empty (dnsServers options)"
  define enc where "enc = List.map encode_domain (list_or_empty (searchDomains options))"
  define out where "out = concat (List.map tlv (reply_options params options)) @ [255]"
  have v: "valid_ipv4 (serverIdentifier options)" "valid_ipv4 (netmask options)"
      "valid_ipv4 (router options)" "list_all valid_ipv4 dns"
    using assms(1) by (simp_all add: valid_options_def dns_def)
  let ?fixed = "[emitByte 53, emitByte 1, emitByte (par_type params),
          emitByte 54, emitByte 4, emitBytes (serializeIPv4Address (serverIdentifier options)),
          emitByte 51, emitByte 4, emitUint32 (leaseDuration options),
          emitByte 1, emitByte 4, emitBytes (serializeIPv4Address (netmask options)),
          emitByte 3, emitByte 4, emitBytes (serializeIPv4Address (router options))]"
  let ?es = "?fixed
         @ (if length dns \<noteq> 0
            then [emitByte 6, emitByte (4 * int (length dns))]
                 @ List.map (\<lambda>s. emitBytes (serializeIPv4Address s)) dns
            else [])
         @ (case encode_text (hostname options) of None \<Rightarrow> []
            | Some b \<Rightarrow> [emitByte 12, emitByte (int (length b)), emitBytes (Inr b)])
         @ (case encode_text (domainName options) of None \<Rightarrow> []
            | Some b \<Rightarrow> [emitByte 15, emitByte (int (length b)), emitBytes (Inr b)])
         @ (if length enc \<noteq> 0 \<and> sum_list (List.map length enc) > 0
            then [emitByte 119, emitByte (int (sum_list (List.map length enc)))]
                 @ List.map (\<lambda>b. emitBytes (Inr b)) enc
            else [])
         @ [emitByte 255]"
  let ?size = "3 + 6 + 6 + 6 + 6 + (if length dns \<noteq> 0 then 2 + length dns * 4 else 0)
            + (case encode_text (hostname options) of None \<Rightarrow> 0 | Some b \<Rightarrow> 2 + length b)
            + (case encode_text (domainName options) of None \<Rightarrow> 0 | Some b \<Rightarrow> 2 + length b)
            + (if sum_list (List.map length enc) \<noteq> 0 then 2 + sum_list (List.map length enc) else 0) + 1"
  have fixed: "emits_list ?fixed (concat (List.map tlv
      [(53, [of_int (par_type params)]), (54, addr_bytes (serverIdentifier options)),
       (51, u32_bytes (leaseDuration options)), (1, addr_bytes (netmask options)),
       (3, addr_bytes (router options))]))"
  proof -
    have a: "emits_list [emitByte c, emitByte 4, emitBytes (serializeIPv4Address t)] (tlv (c, addr_bytes t))"
      if "valid_ipv4 t" for c t
      using emits_list_tlv [OF emits_list_addr [OF that], of c] addr_bytes [OF that] by simp
    have b: "emits_list [emitByte 53, emitByte 1, emitByte t] (tlv (53, [of_int t]))" for t
      using emits_list_tlv [OF emits_list_byte, of 53 t] by simp
    have c: "emits_list [emitByte 51, emitByte 4, emitUint32 t] (tlv (51, u32_bytes t))" for t
      using emits_list_tlv [OF emits_list_u32, of 51 t] by (simp add: u32_bytes_def)
    show ?thesis
      using emits_list_append [OF b emits_list_append [OF a [OF v(1)]
        emits_list_append [OF c emits_list_append [OF a [OF v(2)] a [OF v(3)]]]]] by simp
  qed
  have es: "emits_list ?es out"
    unfolding out_def reply_options_def List.map_append concat_append append_assoc
      dns_def [symmetric] enc_def [symmetric]
    by (intro emits_list_append fixed emits_dns_option v(4) emits_text_option emits_list_byte
        emits_search_option [of "list_or_empty (searchDomains options)", folded enc_def]
        emits_list_byte [of 255, simplified])
  have size: "length out = ?size"
    unfolding out_def reply_options_def List.map_append concat_append length_append
      length_text_option length_list_option dns_def [symmetric] enc_def [symmetric]
    using length_concat_addrs [OF v(4)] addr_bytes [OF v(1)] addr_bytes [OF v(2)] addr_bytes [OF v(3)]
    by (simp add: tlv_def u32_bytes_def length_concat)
  have run: "emits ?es (240, reply_header params hw @ replicate ?size 0)
      = Inr (240 + ?size, reply_header params hw @ out)"
    unfolding size [symmetric] by (rule emits_list_fills [OF es length_reply_header [OF assms(2,4)]])
  have "subarray 0 (240 + ?size) (reply_header params hw @ out) = reply_header params hw @ out"
    using length_reply_header [OF assms(2,4)] size by (simp only: subarray_def drop_0) simp
  then show ?thesis
    unfolding serializeDhcpMessage_def Let_def dns_def [symmetric] enc_def [symmetric]
      reply_header_writes [OF assms(2-4), of ?size] bnd_simps run fst_conv snd_conv
      out_def [symmetric]
    by (rule arg_cong)
qed

subsection \<open>Replies read back\<close>

lemma subarray_segment:
  "i = length a \<Longrightarrow> j = length a + length b \<Longrightarrow> subarray i j (a @ b @ c) = b"
  by (simp add: subarray_def)

lemma getUint32_segment:
  assumes "is_u32 x" "k = length a"
  shows "getUint32 (a @ u32_bytes x @ c) k = Inr x"
proof -
  have "\<not> length (a @ u32_bytes x @ c) < length a + 4" by (simp add: u32_bytes_def)
  moreover have "(a @ u32_bytes x @ c) ! (length a + j) = u32_bytes x ! j" if "j < 4" for j
  proof -
    have "length (u32_bytes x) = 4" by (simp add: u32_bytes_def)
    with that show ?thesis by (simp add: nth_append)
  qed
  from this [of 0] this [of 1] this [of 2] this [of 3]
  have "(a @ u32_bytes x @ c) ! length a = of_int (x div 16777216)"
    "(a @ u32_bytes x @ c) ! (length a + 1) = of_int (x div 65536)"
    "(a @ u32_bytes x @ c) ! (length a + 2) = of_int (x div 256)"
    "(a @ u32_bytes x @ c) ! (length a + 3) = of_int x"
    by (simp_all add: u32_bytes_def)
  ultimately show ?thesis
    using split32 [of x] assms unfolding assms(2) getUint32_def is_u32_def by simp
qed

lemma header_reads:
  fixes params :: dhcp_message_params and rest :: bytes
  assumes "valid_ipv4 (par_yiaddr params)" "length hw = 6" "is_u32 (par_xid params)"
    "0 \<le> par_op params" "par_op params < 256"
  defines "bs \<equiv> reply_header params hw @ rest"
  shows "getUint8 bs 0 = Inr (par_op params)" "getUint8 bs 1 = Inr 1" "getUint8 bs 2 = Inr 6"
    "getUint32 bs 4 = Inr (par_xid params)" "subarray 12 16 bs = [0, 0, 0, 0]"
    "subarray 16 20 bs = addr_bytes (par_yiaddr params)" "subarray 28 34 bs = hw"
proof -
  note y = addr_bytes [OF assms(1)]
  let ?a = "[of_int (par_op params), 1, 6, 0] :: bytes" and ?x = "u32_bytes (par_xid params)"
  let ?z = "replicate 4 0 :: bytes" and ?y = "addr_bytes (par_yiaddr params)"
  have x: "length ?x = 4" by (simp add: u32_bytes_def)
  have z8: "replicate 8 (0 :: byte) = ?z @ ?z" by (simp add: replicate_add [symmetric])
  show "getUint8 bs 0 = Inr (par_op params)" "getUint8 bs 1 = Inr 1" "getUint8 bs 2 = Inr 6"
    using assms(4,5) by (simp_all add: bs_def reply_header_def getUint8_def uint_byte_of_int_mod)
  show "getUint32 bs 4 = Inr (par_xid params)"
    using getUint32_segment [OF assms(3), of 4 ?a] by (simp add: bs_def reply_header_def)
  have "subarray 12 16 ((?a @ ?x @ ?z) @ ?z @ ?y @ replicate 8 0 @ hw @ replicate 202 0
      @ u32_bytes 0x63825363 @ rest) = ?z"
    using x by (intro subarray_segment) simp_all
  then show "subarray 12 16 bs = [0, 0, 0, 0]"
    by (simp add: bs_def reply_header_def z8 replicate_numeral_Cons)
  have "subarray 16 20 ((?a @ ?x @ replicate 8 0) @ ?y @ replicate 8 0 @ hw @ replicate 202 0
      @ u32_bytes 0x63825363 @ rest) = ?y"
    using x y by (intro subarray_segment) simp_all
  then show "subarray 16 20 bs = ?y" by (simp add: bs_def reply_header_def)
  have "subarray 28 34 ((?a @ ?x @ replicate 8 0 @ ?y @ replicate 8 0) @ hw @ replicate 202 0
      @ u32_bytes 0x63825363 @ rest) = hw"
    using x y assms(2) by (intro subarray_segment) simp_all
  then show "subarray 28 34 bs = hw" by (simp add: bs_def reply_header_def)
qed

text \<open>The lengths that the one-byte length field of an option can carry.\<close>

definition short_options :: "dhcp_server_options \<Rightarrow> bool" where
  "short_options options \<longleftrightarrow>
     length (list_or_empty (dnsServers options)) \<le> 63
     \<and> (case encode_text (hostname options) of None \<Rightarrow> True | Some b \<Rightarrow> length b \<le> 255)
     \<and> (case encode_text (domainName options) of None \<Rightarrow> True | Some b \<Rightarrow> length b \<le> 255)
     \<and> length (concat (List.map encode_domain (list_or_empty (searchDomains options)))) \<le> 255"

lemma reply_options_ok:
  assumes "valid_options options" "short_options options"
  shows "list_all option_ok (reply_options params options)"
proof -
  have v: "valid_ipv4 (serverIdentifier options)" "valid_ipv4 (netmask options)"
      "valid_ipv4 (router options)" "list_all valid_ipv4 (list_or_empty (dnsServers options))"
    using assms(1) by (simp_all add: valid_options_def)
  show ?thesis
    using addr_bytes [OF v(1)] addr_bytes [OF v(2)] addr_bytes [OF v(3)] assms(2)
      length_concat_addrs [OF v(4)]
    by (auto simp: reply_options_def option_ok_def u32_bytes_def list_option_def text_option_def
        short_options_def simp del: length_concat concat_eq_Nil_conv split: option.splits)
qed

lemma read_option_other: "c \<notin> {53, 50, 54} \<Longrightarrow> read_option c v o' = Inr o'"
  by (auto simp: read_option_def)

lemma read_options_other:
  "(\<And>c v. (c, v) \<in> set os \<Longrightarrow> c \<notin> {53, 50, 54}) \<Longrightarrow> read_options os o' = Inr o'"
proof (induction os)
  case (Cons ov os)
  obtain c v where ov: "ov = (c, v)" by (cases ov)
  with Cons.prems [of c v] have "read_option c v o' = Inr o'" by (intro read_option_other) simp
  moreover have "read_options os o' = Inr o'" using Cons by (meson list.set_intros(2))
  ultimately show ?case by (simp add: ov)
qed simp

lemma read_reply_options:
  assumes "valid_ipv4 (serverIdentifier options)" "par_type params = serializeDhcpMessageType t"
  shows "read_options (reply_options params options)
      \<lparr>opt_type = None, opt_requestedIp = None, opt_serverIdentifier = None\<rparr>
    = Inr \<lparr>opt_type = Some t, opt_requestedIp = None,
        opt_serverIdentifier = Some (serverIdentifier options)\<rparr>"
proof -
  note y = addr_bytes [OF assms(1)]
  have t: "parseDhcpMessageType (uint (of_int (par_type params) :: byte)) = Inr t"
    unfolding assms(2)
    by (cases t) (simp_all add: serializeDhcpMessageType_def table_at_def DhcpMessageTypes_def
        parseDhcpMessageType_def find_value_def)
  have rest: "read_options (list_option 6 ds @ text_option 12 h
      @ text_option 15 d @ list_option 119 e) o' = Inr o'" for ds h d e o'
    by (rule read_options_other)
      (auto simp: list_option_def text_option_def split: if_splits option.splits)
  show ?thesis
    using y by (simp add: reply_options_def read_option_def t rest)
qed

lemma mac_text_of_serialized:
  "valid_mac m \<Longrightarrow> \<exists>hw. serializeMacAddress m = Inr hw \<and> length hw = 6
    \<and> js_join (lit '':'') (List.map hex_byte hw) = m"
proof -
  assume "valid_mac m"
  then obtain hw where "length hw = 6" "m = mac_text hw" by (auto simp: valid_mac_def)
  then show ?thesis using serialize_mac_text [of hw] by (auto simp: mac_text_def)
qed

lemma zero_address_text: "ipv4_text [0, 0, 0, 0] = lit ''0.0.0.0''"
  by (simp add: ipv4_text_def lit_simps num_str.simps digit_char_def)

text \<open>A header with an option list, parsed.\<close>

definition no_options :: dhcp_parsed_options where
  "no_options = \<lparr>opt_type = None, opt_requestedIp = None, opt_serverIdentifier = None\<rparr>"

lemma parse_header_options:
  assumes "valid_ipv4 (par_yiaddr params)" "length hw = 6" "is_u32 (par_xid params)"
    "0 \<le> par_op params" "par_op params < 256" "list_all option_ok os"
    "read_options os no_options = Inr o'"
  shows "parseDhcpMessage (reply_header params hw @ concat (List.map tlv os) @ [255])
    = Inr \<lparr>msg_op = par_op params, msg_htype = 1, msg_hlen = 6, msg_xid = par_xid params,
        msg_ciaddr = lit ''0.0.0.0'', msg_yiaddr = par_yiaddr params, msg_mac = mac_text hw,
        msg_type = opt_type o', msg_requestedIP = opt_requestedIp o',
        msg_serverIdentifier = opt_serverIdentifier o'\<rparr>"
proof -
  define bs where "bs = reply_header params hw @ concat (List.map tlv os) @ [255]"
  note reads = header_reads [OF assms(1-5), of "concat (List.map tlv os) @ [255]", folded bs_def]
  have len: "length (reply_header params hw) = 240" by (rule length_reply_header [OF assms(1,2)])
  have loop: "options_loop bs 240 no_options = Inr o'"
    using options_loop_list [OF assms(6), of "reply_header params hw" "[]" no_options] assms(7) len
    by (simp add: bs_def)
  have "\<not> length bs < 240" using len by (simp add: bs_def)
  moreover have "parseIPv4Address [0, 0, 0, 0] = Inr (lit ''0.0.0.0'')"
    by (simp add: parse_ipv4 zero_address_text)
  ultimately show ?thesis
    unfolding bs_def [symmetric] parseDhcpMessage_def reads bnd_simps Let_def
      loop [unfolded no_options_def]
    using addr_bytes [OF assms(1)] by (simp add: mac_text_def)
qed

lemma parse_reply:
  assumes "valid_options options" "short_options options" "valid_ipv4 (par_yiaddr params)"
    "valid_mac (par_mac params)" "is_u32 (par_xid params)" "0 \<le> par_op params" "par_op params < 256"
    "par_type params = serializeDhcpMessageType t"
  shows "bnd (serializeDhcpMessage params options) parseDhcpMessage
    = Inr \<lparr>msg_op = par_op params, msg_htype = 1, msg_hlen = 6, msg_xid = par_xid params,
        msg_ciaddr = lit ''0.0.0.0'', msg_yiaddr = par_yiaddr params, msg_mac = par_mac params,
        msg_type = Some t, msg_requestedIP = None,
        msg_serverIdentifier = Some (serverIdentifier options)\<rparr>"
proof -
  obtain hw where hw: "serializeMacAddress (par_mac params) = Inr hw" "length hw = 6"
    "mac_text hw = par_mac params"
    using mac_text_of_serialized [OF assms(4)] by (auto simp: mac_text_def)
  have "valid_ipv4 (serverIdentifier options)" using assms(1) by (simp add: valid_options_def)
  note opts = read_reply_options [OF this assms(8), folded no_options_def]
  show ?thesis
    using parse_header_options [OF assms(3) hw(2) assms(5-7) reply_options_ok [OF assms(1,2)] opts] hw(3)
    by (simp add: serializeDhcpMessage_bytes [OF assms(1,3) hw(1,2)])
qed

subsection \<open>Properties\<close>

text \<open>C19: What the server sends, a client can read: a reply whose options fit their one-byte
  lengths is parsed back to the same transaction, address, MAC, message type and server
  identifier.\<close>

theorem dhcp_reply_roundtrip:
  assumes "valid_options options" "short_options options" "valid_ipv4 (par_yiaddr params)"
    "valid_mac (par_mac params)" "is_u32 (par_xid params)" "0 \<le> par_op params" "par_op params < 256"
    "par_type params = serializeDhcpMessageType t"
  shows "bnd (serializeDhcpMessage params options) parseDhcpMessage
    = Inr \<lparr>msg_op = par_op params, msg_htype = 1, msg_hlen = 6, msg_xid = par_xid params,
        msg_ciaddr = lit ''0.0.0.0'', msg_yiaddr = par_yiaddr params, msg_mac = par_mac params,
        msg_type = Some t, msg_requestedIP = None,
        msg_serverIdentifier = Some (serverIdentifier options)\<rparr>"
  using assms by (rule parse_reply)

theorem dhcp_reply_roundtrip_witness:
  "bnd (serializeDhcpMessage
      \<lparr>par_op = 2, par_xid = 305419896, par_yiaddr = ipv4_text [192, 168, 0, 10],
       par_mac = mac_text [2, 0, 0, 0, 0, 1], par_type = 2\<rparr>
      \<lparr>rangeStart = ipv4_text [192, 168, 0, 10], rangeEnd = ipv4_text [192, 168, 0, 20],
       leaseDuration = 86400, serverIdentifier = ipv4_text [192, 168, 0, 1],
       netmask = ipv4_text [255, 255, 255, 0], router = ipv4_text [192, 168, 0, 1],
       hostname = Some (lit ''box''), domainName = None, searchDomains = Some [lit ''a.b''],
       dnsServers = Some [ipv4_text [1, 1, 1, 1]]\<rparr>) parseDhcpMessage
   = Inr \<lparr>msg_op = 2, msg_htype = 1, msg_hlen = 6, msg_xid = 305419896,
        msg_ciaddr = lit ''0.0.0.0'', msg_yiaddr = ipv4_text [192, 168, 0, 10],
        msg_mac = mac_text [2, 0, 0, 0, 0, 1], msg_type = Some OFFER, msg_requestedIP = None,
        msg_serverIdentifier = Some (ipv4_text [192, 168, 0, 1])\<rparr>"
  (is "bnd (serializeDhcpMessage ?p ?o) _ = _")
proof -
  have texts: "length (utf8_encode (lit ''box'')) = 3" "encode_domain (lit ''a.b'') = [1, 97, 1, 98, 0]"
    by (simp_all add: encode_domain_def lit_simps utf8_encode_ascii)
  have "valid_options ?o" by (simp add: valid_options_def list_or_empty_def)
  moreover have "lit ''box'' \<noteq> []" by (simp add: lit_simps)
  then have "short_options ?o"
    by (simp add: short_options_def list_or_empty_def encode_text_def texts)
  moreover have "valid_ipv4 (par_yiaddr ?p)" "valid_mac (par_mac ?p)" "is_u32 (par_xid ?p)"
    "0 \<le> par_op ?p" "par_op ?p < 256" by (simp_all add: is_u32_def)
  moreover have "par_type ?p = serializeDhcpMessageType OFFER"
    by (simp add: serializeDhcpMessageType_def table_at_def DhcpMessageTypes_def)
  ultimately have "bnd (serializeDhcpMessage ?p ?o) parseDhcpMessage
    = Inr \<lparr>msg_op = par_op ?p, msg_htype = 1, msg_hlen = 6, msg_xid = par_xid ?p,
        msg_ciaddr = lit ''0.0.0.0'', msg_yiaddr = par_yiaddr ?p, msg_mac = par_mac ?p,
        msg_type = Some OFFER, msg_requestedIP = None,
        msg_serverIdentifier = Some (serverIdentifier ?o)\<rparr>"
    by (rule dhcp_reply_roundtrip)
  then show ?thesis
    by (simp only: dhcp_message_params.select_convs dhcp_server_options.select_convs)
qed

text \<open>The option loop reads any list of options as it should: on a buffer with the encoded
  options from the start index, each with a code between 1 and 254 and a value of at most 255
  bytes, closed by the end option, it gives what reading the options one by one gives, errors
  included, whatever follows the end option.\<close>

theorem dhcp_option_list_decoded:
  assumes "list_all option_ok os"
  shows "options_loop (pre @ concat (List.map tlv os) @ 255 # rest) (length pre) o' = read_options os o'"
  using assms by (rule options_loop_list)

theorem dhcp_option_list_decoded_witness:
  "options_loop ([7, 7] @ concat (List.map tlv [(53, [3]), (50, [10, 0, 0, 9])]) @ 255 # [99])
     (length [7, 7 :: byte])
     \<lparr>opt_type = None, opt_requestedIp = None, opt_serverIdentifier = None\<rparr>
   = read_options [(53, [3]), (50, [10, 0, 0, 9])]
     \<lparr>opt_type = None, opt_requestedIp = None, opt_serverIdentifier = None\<rparr>"
  by (rule dhcp_option_list_decoded) (simp add: option_ok_def)

end
