(* ===== verification/Dhcp_Server.thy ===== *)
theory Dhcp_Server
  imports Dhcp_Wire JS_Map
begin

text \<open>
  \<open>packages/dhcp/src/dhcp-server.ts\<close>: leases and offers, and a handler per message type. A
  handler takes the state and gives the new state with its reply or the error it throws, so a
  state change before a throw is kept, as in the class. The clock is the sequence of readings of
  \<open>Date.now()\<close>: \<open>t i\<close> is the reading at the \<open>i\<close>-th call site of one handler run;
  the readings may differ.
\<close>

subsection \<open>State and operations\<close>

record dhcp_lease =
  lease_ip :: jstring
  lease_mac :: jstring
  lease_expiresAt :: int

record dhcp_state =
  leases :: "(jstring, dhcp_lease) js_map"
  offers :: "(jstring, dhcp_lease) js_map"

record datagram =
  dg_host :: jstring
  dg_port :: int
  dg_data :: bytes

type_synonym clock = "nat \<Rightarrow> int"
type_synonym 'a outcome = "dhcp_state \<times> 'a res"

definition DHCP_SERVER_PORT :: int where "DHCP_SERVER_PORT = 67"
definition DHCP_CLIENT_PORT :: int where "DHCP_CLIENT_PORT = 68"
definition OFFER_DURATION_MS :: int where "OFFER_DURATION_MS = 60000"

definition dhcp_init :: dhcp_state where
  "dhcp_init = \<lparr>leases = [], offers = []\<rparr>"

text \<open>The constructor's default: a day, unless the options give a duration.\<close>

definition with_default_duration :: "int option \<Rightarrow> dhcp_server_options \<Rightarrow> dhcp_server_options" where
  "with_default_duration d opts = opts\<lparr>leaseDuration := (case d of None \<Rightarrow> 86400 | Some x \<Rightarrow> x)\<rparr>"

text \<open>The loops delete the current entry while they iterate, which a \<open>Map\<close> allows.\<close>

definition delete_expired :: "int \<Rightarrow> (jstring, dhcp_lease) js_map \<Rightarrow> (jstring, dhcp_lease) js_map" where
  "delete_expired now m =
     foldl (\<lambda>acc k. map_delete k acc) m
       (List.map fst (List.filter (\<lambda>e. lease_expiresAt (snd e) \<le> now) m))"

definition deleteExpiredAllocations :: "int \<Rightarrow> dhcp_state \<Rightarrow> dhcp_state" where
  "deleteExpiredAllocations now st =
     st\<lparr>leases := delete_expired now (leases st), offers := delete_expired now (offers st)\<rparr>"

text \<open>The search from \<open>i\<close> to the end of the range.\<close>

function range_loop :: "jstring list \<Rightarrow> int \<Rightarrow> int \<Rightarrow> jstring option res" where
  "range_loop usedIPs i final =
     (if i \<le> final
      then bnd (numberToIPv4 (Some i)) (\<lambda>ip.
        if ip \<notin> set usedIPs then Inr (Some ip) else range_loop usedIPs (i + 1) final)
      else Inr None)"
  by pat_completeness auto
termination
  by (relation "measure (\<lambda>(_, i, final). nat (final + 1 - i))") auto

declare range_loop.simps [simp del]

definition live_ip :: "dhcp_lease option \<Rightarrow> int \<Rightarrow> jstring option" where
  "live_ip l now =
     (case l of None \<Rightarrow> None | Some l' \<Rightarrow> if lease_expiresAt l' > now then Some (lease_ip l') else None)"

definition all_entries :: "dhcp_state \<Rightarrow> (jstring \<times> dhcp_lease) list" where
  "all_entries st = leases st @ offers st"

definition findAvailableIP :: "dhcp_server_options \<Rightarrow> jstring \<Rightarrow> clock \<Rightarrow> dhcp_state \<Rightarrow> jstring option outcome" where
  "findAvailableIP opts mac t st0 =
     (let st = deleteExpiredAllocations (t 0) st0 in
      (st,
       case live_ip (map_get (leases st) mac) (t 1) of
         Some ip \<Rightarrow> Inr (Some ip)
       | None \<Rightarrow>
           (case live_ip (map_get (offers st) mac) (t 2) of
              Some ip \<Rightarrow> Inr (Some ip)
            | None \<Rightarrow>
                bnd (ipv4ToNumber (rangeStart opts)) (\<lambda>start.
                bnd (ipv4ToNumber (rangeEnd opts)) (\<lambda>final.
                  range_loop (List.map (\<lambda>e. lease_ip (snd e)) (all_entries st)) start final)))))"

definition dhcp_reply :: "dhcp_server_options \<Rightarrow> dhcp_message \<Rightarrow> jstring \<Rightarrow> dhcp_message_type \<Rightarrow> jstring
    \<Rightarrow> datagram option res" where
  "dhcp_reply opts message yiaddr type host =
     bnd (serializeDhcpMessage
       \<lparr>par_op = 2, par_xid = msg_xid message, par_yiaddr = yiaddr, par_mac = msg_mac message,
        par_type = serializeDhcpMessageType type\<rparr> opts) (\<lambda>data.
       Inr (Some \<lparr>dg_host = host, dg_port = DHCP_CLIENT_PORT, dg_data = data\<rparr>))"

definition handleDiscover :: "dhcp_server_options \<Rightarrow> dhcp_message \<Rightarrow> clock \<Rightarrow> dhcp_state \<Rightarrow> datagram option outcome" where
  "handleDiscover opts message t st0 =
     (case findAvailableIP opts (msg_mac message) t st0 of
        (st, Inl e) \<Rightarrow> (st, Inl e)
      | (st, Inr None) \<Rightarrow> (st, Inr None)
      | (st, Inr (Some ip)) \<Rightarrow>
          if ip = [] then (st, Inr None)
          else
            (st\<lparr>offers := map_set (msg_mac message)
                \<lparr>lease_ip = ip, lease_mac = msg_mac message,
                 lease_expiresAt = t 3 + OFFER_DURATION_MS\<rparr> (offers st)\<rparr>,
             dhcp_reply opts message ip OFFER (lit ''255.255.255.255'')))"

text \<open>The loop over the entries: the first one with the address decides.\<close>

fun holder_check :: "jstring \<Rightarrow> jstring \<Rightarrow> int \<Rightarrow> (jstring \<times> dhcp_lease) list \<Rightarrow> bool" where
  "holder_check requestedIP clientMac now [] = True"
| "holder_check requestedIP clientMac now ((mac, lease) # es) =
     (if lease_ip lease = requestedIP then mac = clientMac \<and> lease_expiresAt lease > now
      else holder_check requestedIP clientMac now es)"

definition canUseRequestedIP :: "dhcp_server_options \<Rightarrow> jstring \<Rightarrow> jstring \<Rightarrow> int \<Rightarrow> dhcp_state \<Rightarrow> bool res" where
  "canUseRequestedIP opts requestedIP clientMac now st =
     bnd (ipv4ToNumber requestedIP) (\<lambda>ipNum.
     bnd (ipv4ToNumber (rangeStart opts)) (\<lambda>first.
     bnd (ipv4ToNumber (rangeEnd opts)) (\<lambda>final.
       if ipNum < first \<or> ipNum > final then Inr False
       else Inr (holder_check requestedIP clientMac now (all_entries st)))))"

definition createNak :: "dhcp_server_options \<Rightarrow> dhcp_message \<Rightarrow> datagram option res" where
  "createNak opts message =
     dhcp_reply opts message (lit ''0.0.0.0'') NAK (lit ''255.255.255.255'')"

definition requested_address :: "dhcp_message \<Rightarrow> jstring option" where
  "requested_address message =
     (case msg_requestedIP message of
        Some ip \<Rightarrow> Some ip
      | None \<Rightarrow> if msg_ciaddr message \<noteq> lit ''0.0.0.0'' then Some (msg_ciaddr message) else None)"

definition handleRequest :: "dhcp_server_options \<Rightarrow> dhcp_message \<Rightarrow> clock \<Rightarrow> dhcp_state \<Rightarrow> datagram option outcome" where
  "handleRequest opts message t st0 =
     (let st = deleteExpiredAllocations (t 0) st0 in
      if (case msg_serverIdentifier message of None \<Rightarrow> False
          | Some s \<Rightarrow> s \<noteq> [] \<and> s \<noteq> serverIdentifier opts)
      then (st, Inr None)
      else case requested_address message of
        None \<Rightarrow> (st, createNak opts message)
      | Some requestedIP \<Rightarrow>
          if requestedIP = [] then (st, createNak opts message)
          else case canUseRequestedIP opts requestedIP (msg_mac message) (t 1) st of
            Inl e \<Rightarrow> (st, Inl e)
          | Inr True \<Rightarrow>
              (st\<lparr>leases := map_set (msg_mac message)
                    \<lparr>lease_ip = requestedIP, lease_mac = msg_mac message,
                     lease_expiresAt = t 2 + leaseDuration opts * 1000\<rparr> (leases st),
                  offers := map_delete (msg_mac message) (offers st)\<rparr>,
               dhcp_reply opts message requestedIP ACK (lit ''255.255.255.255''))
          | Inr False \<Rightarrow>
              (st\<lparr>offers := map_delete (msg_mac message) (offers st)\<rparr>, createNak opts message))"

definition handleRelease :: "dhcp_message \<Rightarrow> dhcp_state \<Rightarrow> datagram option outcome" where
  "handleRelease message st =
     (st\<lparr>leases := map_delete (msg_mac message) (leases st),
         offers := map_delete (msg_mac message) (offers st)\<rparr>, Inr None)"

definition handleInform :: "dhcp_server_options \<Rightarrow> dhcp_message \<Rightarrow> dhcp_state \<Rightarrow> datagram option outcome" where
  "handleInform opts message st =
     (if msg_ciaddr message = [] \<or> msg_ciaddr message = lit ''0.0.0.0'' then (st, Inr None)
      else (st, dhcp_reply opts message (lit ''0.0.0.0'') ACK (msg_ciaddr message)))"

definition handleDecline :: "dhcp_message \<Rightarrow> dhcp_state \<Rightarrow> datagram option outcome" where
  "handleDecline message st =
     (st\<lparr>offers := map_delete (msg_mac message) (offers st)\<rparr>, Inr None)"

fun type_name :: "dhcp_message_type option \<Rightarrow> string" where
  "type_name None = ''undefined''"
| "type_name (Some DISCOVER) = ''DISCOVER''"
| "type_name (Some OFFER) = ''OFFER''"
| "type_name (Some REQUEST) = ''REQUEST''"
| "type_name (Some DECLINE) = ''DECLINE''"
| "type_name (Some ACK) = ''ACK''"
| "type_name (Some NAK) = ''NAK''"
| "type_name (Some RELEASE) = ''RELEASE''"
| "type_name (Some INFORM) = ''INFORM''"

definition handleDhcpMessage :: "dhcp_server_options \<Rightarrow> bytes \<Rightarrow> clock \<Rightarrow> dhcp_state \<Rightarrow> datagram option outcome" where
  "handleDhcpMessage opts data t st =
     (case parseDhcpMessage data of
        Inl e \<Rightarrow> (st, Inl e)
      | Inr message \<Rightarrow>
          (case msg_type message of
             Some DISCOVER \<Rightarrow> handleDiscover opts message t st
           | Some REQUEST \<Rightarrow> handleRequest opts message t st
           | Some RELEASE \<Rightarrow> handleRelease message st
           | Some INFORM \<Rightarrow> handleInform opts message st
           | Some DECLINE \<Rightarrow> handleDecline message st
           | other \<Rightarrow> (st, Inl (Error (lit ''received unsupported dhcp client message type: ''
               @ lit (type_name other))))))"

text \<open>Errors are caught and logged; a reply is sent when there is one.\<close>

definition processDhcpMessage :: "dhcp_server_options \<Rightarrow> bytes \<Rightarrow> clock \<Rightarrow> dhcp_state \<Rightarrow> dhcp_state \<times> datagram option" where
  "processDhcpMessage opts data t st =
     (case handleDhcpMessage opts data t st of
        (st', Inr reply) \<Rightarrow> (st', reply)
      | (st', Inl e) \<Rightarrow> (st', None))"

text \<open>The server's states: each datagram is handled to its end before the next one.\<close>

inductive dhcp_reachable :: "dhcp_server_options \<Rightarrow> dhcp_state \<Rightarrow> bool" for opts where
  start: "dhcp_reachable opts dhcp_init"
| receive: "dhcp_reachable opts st \<Longrightarrow> dhcp_reachable opts (fst (processDhcpMessage opts data t st))"

subsection \<open>Entries and expiry\<close>

definition entry :: "dhcp_state \<Rightarrow> jstring \<Rightarrow> dhcp_lease \<Rightarrow> bool" where
  "entry st m l \<longleftrightarrow> map_get (leases st) m = Some l \<or> map_get (offers st) m = Some l"

definition maps_ok :: "dhcp_state \<Rightarrow> bool" where
  "maps_ok st \<longleftrightarrow> map_ok (leases st) \<and> map_ok (offers st)"

lemma delete_expired_spec:
  assumes "map_ok m"
  shows "map_ok (delete_expired now m)"
    "map_get (delete_expired now m) k = Some l \<longleftrightarrow> map_get m k = Some l \<and> lease_expiresAt l > now"
proof -
  let ?ks = "List.map fst (List.filter (\<lambda>e. lease_expiresAt (snd e) \<le> now) m)"
  have k: "k \<in> set ?ks \<longleftrightarrow> (\<exists>l. map_get m k = Some l \<and> lease_expiresAt l \<le> now)"
    using map_get_in_set [OF assms] by force
  note del = js_map.get_foldl_del [OF assms, of ?ks k, folded delete_expired_def]
  show "map_ok (delete_expired now m)" using del by blast
  show "map_get (delete_expired now m) k = Some l \<longleftrightarrow> map_get m k = Some l \<and> lease_expiresAt l > now"
    using del k by (auto split: if_splits)
qed

lemma in_all_entries: "maps_ok st \<Longrightarrow> (m, l) \<in> set (all_entries st) \<longleftrightarrow> entry st m l"
  by (simp add: maps_ok_def all_entries_def entry_def map_get_in_set)

lemma deleteExpired_entries:
  assumes "maps_ok st"
  shows "maps_ok (deleteExpiredAllocations now st)"
    "entry (deleteExpiredAllocations now st) m l \<longleftrightarrow> entry st m l \<and> lease_expiresAt l > now"
  using assms by (auto simp: maps_ok_def entry_def deleteExpiredAllocations_def delete_expired_spec)

subsection \<open>The invariant\<close>

definition in_range :: "dhcp_server_options \<Rightarrow> jstring \<Rightarrow> bool" where
  "in_range opts ip \<longleftrightarrow> valid_ipv4 ip \<and>
     (\<exists>n s f. ipv4ToNumber ip = Inr n \<and> ipv4ToNumber (rangeStart opts) = Inr s
        \<and> ipv4ToNumber (rangeEnd opts) = Inr f \<and> s \<le> n \<and> n \<le> f)"

text \<open>Every address held by a lease or an offer is in the range, and no two clients hold the
  same one.\<close>

definition dhcp_inv :: "dhcp_server_options \<Rightarrow> dhcp_state \<Rightarrow> bool" where
  "dhcp_inv opts st \<longleftrightarrow> maps_ok st
     \<and> (\<forall>m l. entry st m l \<longrightarrow> lease_mac l = m \<and> in_range opts (lease_ip l))
     \<and> (\<forall>m l m' l'. entry st m l \<longrightarrow> entry st m' l' \<longrightarrow> lease_ip l = lease_ip l' \<longrightarrow> m = m')"

lemma inv_init: "dhcp_inv opts dhcp_init"
  by (simp add: dhcp_inv_def dhcp_init_def maps_ok_def entry_def)

lemma inv_shrink:
  "dhcp_inv opts st \<Longrightarrow> maps_ok st' \<Longrightarrow> (\<And>m l. entry st' m l \<Longrightarrow> entry st m l) \<Longrightarrow> dhcp_inv opts st'"
  unfolding dhcp_inv_def by blast

lemma inv_grant:
  assumes "dhcp_inv opts st" "maps_ok st'" "lease_mac l = mac" "in_range opts (lease_ip l)"
    "\<And>m l'. entry st m l' \<Longrightarrow> lease_ip l' = lease_ip l \<Longrightarrow> m = mac"
    "\<And>m l'. entry st' m l' \<Longrightarrow> entry st m l' \<or> m = mac \<and> l' = l"
  shows "dhcp_inv opts st'"
  unfolding dhcp_inv_def
proof (intro conjI allI impI)
  show "maps_ok st'" by (rule assms(2))
next
  fix m l' assume "entry st' m l'"
  with assms(6) have "entry st m l' \<or> m = mac \<and> l' = l" by blast
  then show "lease_mac l' = m" "in_range opts (lease_ip l')"
    using assms(1,3,4) unfolding dhcp_inv_def by blast+
next
  fix m a m' b
  assume "entry st' m a" "entry st' m' b" and ip: "lease_ip a = lease_ip b"
  then have "entry st m a \<or> m = mac \<and> a = l" "entry st m' b \<or> m' = mac \<and> b = l"
    using assms(6) by blast+
  then show "m = m'"
    using assms(1,5) ip unfolding dhcp_inv_def by metis
qed

lemma inv_delete_expired:
  assumes "dhcp_inv opts st"
  shows "dhcp_inv opts (deleteExpiredAllocations now st)"
proof (rule inv_shrink [OF assms])
  have "maps_ok st" using assms by (simp add: dhcp_inv_def)
  note del = deleteExpired_entries [OF this]
  show "maps_ok (deleteExpiredAllocations now st)" by (rule del(1))
  show "entry st m l" if "entry (deleteExpiredAllocations now st) m l" for m l
    using that del(2) by blast
qed

lemma inv_delete:
  assumes "dhcp_inv opts st" "maps_ok (st\<lparr>leases := ls, offers := os\<rparr>)"
    "\<And>m l. map_get ls m = Some l \<Longrightarrow> entry st m l" "\<And>m l. map_get os m = Some l \<Longrightarrow> entry st m l"
  shows "dhcp_inv opts (st\<lparr>leases := ls, offers := os\<rparr>)"
  using assms(3,4) by (intro inv_shrink [OF assms(1,2)]) (auto simp: entry_def)

subsection \<open>The search for an address\<close>

lemma range_loop_Some:
  "range_loop used i f = Inr (Some ip) \<Longrightarrow>
   ip \<notin> set used \<and> (\<exists>n. i \<le> n \<and> n \<le> f \<and> numberToIPv4 (Some n) = Inr ip)"
proof (induction used i f rule: range_loop.induct)
  case (1 used i f)
  from 1(2) obtain ip' where "i \<le> f" "numberToIPv4 (Some i) = Inr ip'"
    and r: "(if ip' \<notin> set used then Inr (Some ip') else range_loop used (i + 1) f) = Inr (Some ip)"
    by (subst (asm) range_loop.simps) (auto simp: bnd_eq_Inr split: if_splits)
  then show ?case
  proof (cases "ip' \<in> set used")
    case False
    with r \<open>i \<le> f\<close> \<open>numberToIPv4 (Some i) = Inr ip'\<close> show ?thesis by auto
  next
    case True
    with r 1(1) [OF \<open>i \<le> f\<close> \<open>numberToIPv4 (Some i) = Inr ip'\<close>] have "ip \<notin> set used
        \<and> (\<exists>n. i + 1 \<le> n \<and> n \<le> f \<and> numberToIPv4 (Some n) = Inr ip)" by simp
    then obtain n where "ip \<notin> set used" "i + 1 \<le> n" "n \<le> f" "numberToIPv4 (Some n) = Inr ip" by blast
    then show ?thesis by (intro conjI exI [of _ n]) simp_all
  qed
qed

text \<open>The search gives up only when every address of the range is in use.\<close>

lemma range_loop_total:
  "0 \<le> i \<Longrightarrow> f < 4294967296 \<Longrightarrow>
   (\<exists>ip. range_loop used i f = Inr (Some ip))
   \<or> range_loop used i f = Inr None \<and> (\<forall>n. i \<le> n \<longrightarrow> n \<le> f \<longrightarrow> ipv4_text (quad_bytes n) \<in> set used)"
proof (induction used i f rule: range_loop.induct)
  case (1 used i f)
  show ?case
  proof (cases "i \<le> f")
    case False
    then show ?thesis by (subst (2) range_loop.simps) auto
  next
    case True
    then have n: "numberToIPv4 (Some i) = Inr (ipv4_text (quad_bytes i))"
      using 1(2,3) by (intro numberToIPv4_quad) simp_all
    show ?thesis
    proof (cases "ipv4_text (quad_bytes i) \<in> set used")
      case False
      with True n show ?thesis by (subst range_loop.simps) simp
    next
      case used: True
      have eq: "range_loop used i f = range_loop used (i + 1) f"
        using True n used by (subst range_loop.simps) simp
      have "ipv4_text (quad_bytes k) \<in> set used"
        if "\<forall>n. i + 1 \<le> n \<longrightarrow> n \<le> f \<longrightarrow> ipv4_text (quad_bytes n) \<in> set used" "i \<le> k" "k \<le> f" for k
        using that used by (cases "k = i") auto
      moreover have "(\<exists>ip. range_loop used (i + 1) f = Inr (Some ip))
        \<or> range_loop used (i + 1) f = Inr None
          \<and> (\<forall>n. i + 1 \<le> n \<longrightarrow> n \<le> f \<longrightarrow> ipv4_text (quad_bytes n) \<in> set used)"
        using 1(1) [OF True n] 1(2,3) used by simp
      ultimately show ?thesis unfolding eq by blast
    qed
  qed
qed

lemma ipv4ToNumber_range: "ipv4ToNumber ip = Inr n \<Longrightarrow> 0 \<le> n \<and> n < 4294967296"
  using take_bit_int_less_exp [of 32] by (auto simp: ipv4ToNumber_def bnd_eq_Inr js_shru_zero)

lemma range_text:
  assumes "ipv4ToNumber (rangeStart opts) = Inr s" "ipv4ToNumber (rangeEnd opts) = Inr f"
    "s \<le> n" "n \<le> f"
  shows "numberToIPv4 (Some n) = Inr (ipv4_text (quad_bytes n))" "in_range opts (ipv4_text (quad_bytes n))"
proof -
  have n: "0 \<le> n" "n < 4294967296"
    using assms ipv4ToNumber_range [OF assms(1)] ipv4ToNumber_range [OF assms(2)] by simp_all
  then show "numberToIPv4 (Some n) = Inr (ipv4_text (quad_bytes n))" by (rule numberToIPv4_quad)
  show "in_range opts (ipv4_text (quad_bytes n))"
    using assms n by (simp add: in_range_def ipv4ToNumber_text quad_value_bytes)
qed

lemma live_ip_Some: "live_ip l now = Some ip \<longleftrightarrow> (\<exists>l'. l = Some l' \<and> lease_ip l' = ip \<and> lease_expiresAt l' > now)"
  by (auto simp: live_ip_def split: option.splits if_splits)

lemma findAvailableIP_Some:
  assumes "dhcp_inv opts st0" "findAvailableIP opts mac t st0 = (st, Inr (Some ip))"
  shows "st = deleteExpiredAllocations (t 0) st0" "in_range opts ip"
    "\<And>m l. entry st m l \<Longrightarrow> lease_ip l = ip \<Longrightarrow> m = mac"
proof -
  show st: "st = deleteExpiredAllocations (t 0) st0"
    using assms(2) by (simp add: findAvailableIP_def Let_def)
  have inv: "dhcp_inv opts st" unfolding st by (rule inv_delete_expired [OF assms(1)])
  then have ok: "maps_ok st" by (simp add: dhcp_inv_def)
  have own: "in_range opts (lease_ip l) \<and> (\<forall>m l'. entry st m l' \<longrightarrow> lease_ip l' = lease_ip l \<longrightarrow> m = mac)"
    if "entry st mac l" for l
    using inv that unfolding dhcp_inv_def by blast
  consider (held) l where "entry st mac l" "lease_ip l = ip"
    | (fresh) s f where "ipv4ToNumber (rangeStart opts) = Inr s" "ipv4ToNumber (rangeEnd opts) = Inr f"
        "range_loop (List.map (\<lambda>e. lease_ip (snd e)) (all_entries st)) s f = Inr (Some ip)"
    using assms(2) unfolding findAvailableIP_def Let_def st [symmetric]
    by (auto simp: live_ip_Some entry_def bnd_eq_Inr split: option.splits)
  then have "in_range opts ip \<and> (\<forall>m l. entry st m l \<longrightarrow> lease_ip l = ip \<longrightarrow> m = mac)"
  proof cases
    case held
    with own [OF held(1)] show ?thesis by simp
  next
    case fresh
    from range_loop_Some [OF fresh(3)] obtain n where n: "s \<le> n" "n \<le> f" "numberToIPv4 (Some n) = Inr ip"
      and unused: "ip \<notin> (\<lambda>e. lease_ip (snd e)) ` set (all_entries st)" by auto
    have "in_range opts ip" using range_text [OF fresh(1,2) n(1,2)] n(3) by simp
    moreover have "\<not> (entry st m l \<and> lease_ip l = ip)" for m l
      using unused in_all_entries [OF ok, of m l] by force
    ultimately show ?thesis by blast
  qed
  then show "in_range opts ip" "\<And>m l. entry st m l \<Longrightarrow> lease_ip l = ip \<Longrightarrow> m = mac" by blast+
qed

subsection \<open>The handlers keep the invariant\<close>

lemma holder_check_find:
  "holder_check ip c now es \<longleftrightarrow>
   (case List.find (\<lambda>e. lease_ip (snd e) = ip) es of
      None \<Rightarrow> True | Some (m, l) \<Rightarrow> m = c \<and> lease_expiresAt l > now)"
  by (induction ip c now es rule: holder_check.induct) auto

lemma find_Some_in: "List.find P xs = Some x \<Longrightarrow> x \<in> set xs \<and> P x"
  by (induction xs) (auto split: if_splits)

lemma canUse_True:
  assumes inv: "dhcp_inv opts st" and valid: "valid_ipv4 ip"
    and use: "canUseRequestedIP opts ip mac now st = Inr True"
  shows "in_range opts ip" "\<And>m l. entry st m l \<Longrightarrow> lease_ip l = ip \<Longrightarrow> m = mac"
proof -
  have ok: "maps_ok st" using inv by (simp add: dhcp_inv_def)
  from use obtain n s f where n: "ipv4ToNumber ip = Inr n" "ipv4ToNumber (rangeStart opts) = Inr s"
      "ipv4ToNumber (rangeEnd opts) = Inr f" "s \<le> n" "n \<le> f"
    and h: "holder_check ip mac now (all_entries st)"
    by (auto simp: canUseRequestedIP_def bnd_eq_Inr split: if_splits)
  show "in_range opts ip" using n valid by (auto simp: in_range_def)
  show "m = mac" if e: "entry st m l" "lease_ip l = ip" for m l
  proof (cases "List.find (\<lambda>e. lease_ip (snd e) = ip) (all_entries st)")
    case None
    then have "\<forall>e\<in>set (all_entries st). lease_ip (snd e) \<noteq> ip"
      unfolding find_None_iff by blast
    with e in_all_entries [OF ok, of m l] show ?thesis by auto
  next
    case (Some e')
    obtain m' l' where e': "e' = (m', l')" by (cases e')
    with Some h have "m' = mac" by (simp add: holder_check_find)
    moreover have "entry st m' l'" "lease_ip l' = ip"
      using find_Some_in [OF Some] e' in_all_entries [OF ok, of m' l'] by auto
    ultimately show ?thesis using inv e unfolding dhcp_inv_def by metis
  qed
qed

lemma maps_ok_update:
  "maps_ok st \<Longrightarrow> maps_ok (st\<lparr>leases := map_set m l (leases st)\<rparr>)"
  "maps_ok st \<Longrightarrow> maps_ok (st\<lparr>offers := map_set m l (offers st)\<rparr>)"
  "maps_ok st \<Longrightarrow> maps_ok (st\<lparr>leases := map_delete m (leases st)\<rparr>)"
  "maps_ok st \<Longrightarrow> maps_ok (st\<lparr>offers := map_delete m (offers st)\<rparr>)"
  by (simp_all add: maps_ok_def js_map.ok_put js_map.ok_del)

lemma inv_handleDiscover:
  assumes "dhcp_inv opts st"
  shows "dhcp_inv opts (fst (handleDiscover opts message t st))"
proof -
  obtain st' r where f: "findAvailableIP opts (msg_mac message) t st = (st', r)" by fastforce
  then have st': "st' = deleteExpiredAllocations (t 0) st" by (auto simp: findAvailableIP_def Let_def)
  then have inv: "dhcp_inv opts st'" using inv_delete_expired [OF assms] by simp
  show ?thesis
  proof (cases "\<exists>ip. r = Inr (Some ip) \<and> ip \<noteq> []")
    case False
    with f inv show ?thesis by (auto simp: handleDiscover_def split: sum.splits option.splits)
  next
    case True
    then obtain ip where ip: "r = Inr (Some ip)" "ip \<noteq> []" by blast
    let ?l = "\<lparr>lease_ip = ip, lease_mac = msg_mac message, lease_expiresAt = t 3 + OFFER_DURATION_MS\<rparr>"
    note found = findAvailableIP_Some [OF assms f [unfolded ip]]
    have ok: "maps_ok st'" using inv by (simp add: dhcp_inv_def)
    have "dhcp_inv opts (st'\<lparr>offers := map_set (msg_mac message) ?l (offers st')\<rparr>)"
      using found(2,3) maps_ok_update(2) [OF ok]
      by (intro inv_grant [OF inv, where mac = "msg_mac message" and l = ?l])
        (auto simp: entry_def js_map.get_put split: if_splits)
    with f ip show ?thesis by (simp add: handleDiscover_def)
  qed
qed

lemma inv_handleRequest:
  assumes inv0: "dhcp_inv opts st0"
    and valid: "\<And>ip. requested_address message = Some ip \<Longrightarrow> valid_ipv4 ip"
  shows "dhcp_inv opts (fst (handleRequest opts message t st0))"
proof -
  define st where "st = deleteExpiredAllocations (t 0) st0"
  define mac where "mac = msg_mac message"
  have inv: "dhcp_inv opts st" unfolding st_def by (rule inv_delete_expired [OF inv0])
  then have ok: "maps_ok st" by (simp add: dhcp_inv_def)
  have drop: "dhcp_inv opts (st\<lparr>offers := map_delete mac (offers st)\<rparr>)"
    using ok by (intro inv_shrink [OF inv maps_ok_update(4) [OF ok]])
      (auto simp: entry_def maps_ok_def js_map.get_del split: if_splits)
  have grant: "dhcp_inv opts (st\<lparr>leases := map_set mac l (leases st), offers := map_delete mac (offers st)\<rparr>)"
    if "canUseRequestedIP opts ip mac (t 1) st = Inr True" "requested_address message = Some ip"
      "lease_ip l = ip" "lease_mac l = mac" for ip l
  proof -
    note use = canUse_True [OF inv valid [OF that(2)] that(1)]
    have "maps_ok (st\<lparr>leases := map_set mac l (leases st), offers := map_delete mac (offers st)\<rparr>)"
      using ok by (simp add: maps_ok_def js_map.ok_put js_map.ok_del)
    then show ?thesis
      using use that(3,4) ok
      by (intro inv_grant [OF inv, where mac = mac and l = l])
        (auto simp: entry_def maps_ok_def js_map.get_put js_map.get_del split: if_splits)
  qed
  show ?thesis
    using inv drop grant
    unfolding handleRequest_def Let_def st_def [symmetric] mac_def [symmetric]
    by (auto split: option.splits sum.splits bool.splits)
qed

lemma parsed_address_valid: "parseIPv4Address bs = Inr ip \<Longrightarrow> valid_ipv4 ip"
  by (auto simp: parseIPv4Address_def split: if_splits)

lemma read_option_valid:
  "read_option c v o' = Inr o'' \<Longrightarrow> pred_option valid_ipv4 (opt_requestedIp o')
   \<Longrightarrow> pred_option valid_ipv4 (opt_requestedIp o'')"
  by (auto simp: read_option_def bnd_eq_Inr parsed_address_valid split: if_splits)

lemma options_loop_valid:
  "options_loop data i o' = Inr o'' \<Longrightarrow> pred_option valid_ipv4 (opt_requestedIp o')
   \<Longrightarrow> pred_option valid_ipv4 (opt_requestedIp o'')"
proof (induction data i o' rule: options_loop.induct)
  case (1 data i o')
  show ?case
    using 1(3,4)
    by (subst (asm) options_loop.simps)
      (auto simp: Let_def bnd_eq_Inr split: if_splits intro: 1(1,2) read_option_valid)
qed

lemma parsed_addresses:
  assumes "parseDhcpMessage data = Inr m"
  shows "valid_ipv4 (msg_ciaddr m)" "\<And>ip. msg_requestedIP m = Some ip \<Longrightarrow> valid_ipv4 ip"
proof -
  from assms show "valid_ipv4 (msg_ciaddr m)"
    by (auto simp: parseDhcpMessage_def bnd_eq_Inr Let_def parsed_address_valid split: if_splits)
  from assms obtain o' where "options_loop data 240
      \<lparr>opt_type = None, opt_requestedIp = None, opt_serverIdentifier = None\<rparr> = Inr o'"
    "msg_requestedIP m = opt_requestedIp o'"
    by (auto simp: parseDhcpMessage_def bnd_eq_Inr Let_def split: if_splits)
  with options_loop_valid show "\<And>ip. msg_requestedIP m = Some ip \<Longrightarrow> valid_ipv4 ip" by fastforce
qed

lemma inv_process:
  assumes "dhcp_inv opts st"
  shows "dhcp_inv opts (fst (processDhcpMessage opts data t st))"
proof -
  have ok: "maps_ok st" using assms by (simp add: dhcp_inv_def)
  have "dhcp_inv opts (fst (handleDhcpMessage opts data t st))"
  proof (cases "parseDhcpMessage data")
    case (Inl e)
    with assms show ?thesis by (simp add: handleDhcpMessage_def)
  next
    case (Inr m)
    have addr: "valid_ipv4 ip" if "requested_address m = Some ip" for ip
      using that parsed_addresses [OF Inr] by (auto simp: requested_address_def split: option.splits if_splits)
    have decline: "dhcp_inv opts (fst (handleDecline m st))"
      using ok by (auto simp: handleDecline_def entry_def maps_ok_def js_map.get_del split: if_splits
          intro!: inv_shrink [OF assms maps_ok_update(4) [OF ok]])
    have release: "dhcp_inv opts (fst (handleRelease m st))"
      using ok by (auto simp: handleRelease_def entry_def maps_ok_def js_map.get_del js_map.ok_del
          split: if_splits intro!: inv_shrink [OF assms])
    have inform: "dhcp_inv opts (fst (handleInform opts m st))"
      using assms by (simp add: handleInform_def)
    show ?thesis
      using Inr assms decline release inform inv_handleDiscover [OF assms] inv_handleRequest [OF assms addr]
      by (auto simp: handleDhcpMessage_def split: option.splits dhcp_message_type.splits)
  qed
  then show ?thesis by (auto simp: processDhcpMessage_def split: prod.splits sum.splits)
qed

subsection \<open>Replies as the client reads them\<close>

lemma getUint32_range: "getUint32 d i = Inr x \<Longrightarrow> is_u32 x"
proof -
  assume g: "getUint32 d i = Inr x"
  then have "x = quad_value [d ! i, d ! (i + 1), d ! (i + 2), d ! (i + 3)]"
    by (auto simp: getUint32_def quad_value_def split: if_splits)
  then show "is_u32 x" using quad_value_range by (simp add: is_u32_def)
qed

lemma parsed_identity:
  assumes "parseDhcpMessage data = Inr m"
  shows "valid_mac (msg_mac m)" "is_u32 (msg_xid m)"
proof -
  from assms have l: "\<not> length data < 240" and "msg_mac m = mac_text (subarray 28 34 data)"
    by (auto simp: parseDhcpMessage_def bnd_eq_Inr Let_def mac_text_def split: if_splits)
  then show "valid_mac (msg_mac m)" by (simp add: subarray_def)
  from assms show "is_u32 (msg_xid m)"
    by (auto simp: parseDhcpMessage_def bnd_eq_Inr Let_def split: if_splits intro: getUint32_range)
qed

lemma reply_read:
  assumes "valid_options opts" "short_options opts" "parseDhcpMessage data = Inr m" "valid_ipv4 ip"
  obtains d where "dhcp_reply opts m ip ty host = Inr (Some d)" "dg_host d = host"
    "parseDhcpMessage (dg_data d) = Inr
       \<lparr>msg_op = 2, msg_htype = 1, msg_hlen = 6, msg_xid = msg_xid m,
        msg_ciaddr = lit ''0.0.0.0'', msg_yiaddr = ip, msg_mac = msg_mac m,
        msg_type = Some ty, msg_requestedIP = None,
        msg_serverIdentifier = Some (serverIdentifier opts)\<rparr>"
proof -
  let ?p = "\<lparr>par_op = 2, par_xid = msg_xid m, par_yiaddr = ip, par_mac = msg_mac m,
        par_type = serializeDhcpMessageType ty\<rparr>"
  have "bnd (serializeDhcpMessage ?p opts) parseDhcpMessage = Inr
       \<lparr>msg_op = 2, msg_htype = 1, msg_hlen = 6, msg_xid = msg_xid m,
        msg_ciaddr = lit ''0.0.0.0'', msg_yiaddr = ip, msg_mac = msg_mac m,
        msg_type = Some ty, msg_requestedIP = None,
        msg_serverIdentifier = Some (serverIdentifier opts)\<rparr>"
    using parse_reply [OF assms(1,2), of ?p ty] assms(4) parsed_identity [OF assms(3)] by simp
  then obtain bs where "serializeDhcpMessage ?p opts = Inr bs" "parseDhcpMessage bs = Inr
       \<lparr>msg_op = 2, msg_htype = 1, msg_hlen = 6, msg_xid = msg_xid m,
        msg_ciaddr = lit ''0.0.0.0'', msg_yiaddr = ip, msg_mac = msg_mac m,
        msg_type = Some ty, msg_requestedIP = None,
        msg_serverIdentifier = Some (serverIdentifier opts)\<rparr>"
    by (auto simp: bnd_eq_Inr)
  then show thesis
    by (intro that [of "\<lparr>dg_host = host, dg_port = DHCP_CLIENT_PORT, dg_data = bs\<rparr>"])
      (simp_all add: dhcp_reply_def)
qed

lemma valid_zero_address: "valid_ipv4 (lit ''0.0.0.0'')"
  unfolding zero_address_text [symmetric] by (rule valid_ipv4_text) simp

lemma reachable_inv: "dhcp_reachable opts st \<Longrightarrow> dhcp_inv opts st"
  by (induction rule: dhcp_reachable.induct) (simp_all add: inv_init inv_process)

text \<open>The grant of a request, when it is granted.\<close>

definition granted :: "dhcp_server_options \<Rightarrow> dhcp_message \<Rightarrow> jstring \<Rightarrow> int \<Rightarrow> dhcp_state \<Rightarrow> dhcp_state" where
  "granted opts m ip now st =
     st\<lparr>leases := map_set (msg_mac m)
          \<lparr>lease_ip = ip, lease_mac = msg_mac m, lease_expiresAt = now + leaseDuration opts * 1000\<rparr>
          (leases st),
        offers := map_delete (msg_mac m) (offers st)\<rparr>"

lemma handleRequest_cases:
  fixes t :: clock and st0 :: dhcp_state
  assumes "\<And>ip. requested_address m = Some ip \<Longrightarrow> ip \<noteq> []"
  defines "st \<equiv> deleteExpiredAllocations (t 0) st0"
  shows "(\<exists>ip. requested_address m = Some ip \<and> canUseRequestedIP opts ip (msg_mac m) (t 1) st = Inr True
        \<and> handleRequest opts m t st0
          = (granted opts m ip (t 2) st, dhcp_reply opts m ip ACK (lit ''255.255.255.255'')))
     \<or> (\<exists>st'. handleRequest opts m t st0 = (st', createNak opts m))
     \<or> (\<exists>e. snd (handleRequest opts m t st0) = Inl e)
     \<or> snd (handleRequest opts m t st0) = Inr None"
  using assms(1) unfolding handleRequest_def Let_def st_def [symmetric] granted_def
  by (auto split: option.splits sum.splits bool.splits)

lemma valid_ipv4_not_Nil: "valid_ipv4 ip \<Longrightarrow> ip \<noteq> []"
  using addr_bytes [of ip] by (auto simp: serializeIPv4Address_def)

lemma requested_valid:
  "parseDhcpMessage data = Inr m \<Longrightarrow> requested_address m = Some ip \<Longrightarrow> valid_ipv4 ip"
  using parsed_addresses [of data m] by (auto simp: requested_address_def split: option.splits if_splits)

subsection \<open>Traffic of other clients\<close>

definition process_all :: "dhcp_server_options \<Rightarrow> (bytes \<times> clock) list \<Rightarrow> dhcp_state \<Rightarrow> dhcp_state" where
  "process_all opts msgs st = foldl (\<lambda>st m. fst (processDhcpMessage opts (fst m) (snd m) st)) st msgs"

lemma process_all_reachable: "dhcp_reachable opts st \<Longrightarrow> dhcp_reachable opts (process_all opts msgs st)"
  unfolding process_all_def by (induction msgs arbitrary: st) (simp_all add: dhcp_reachable.receive)

text \<open>A client's unexpired offer survives a message of another client.\<close>

lemma offer_survives_expiry:
  "map_ok os \<Longrightarrow> map_get os mac = Some l \<Longrightarrow> now < lease_expiresAt l
   \<Longrightarrow> map_get (delete_expired now os) mac = Some l"
  by (simp add: delete_expired_spec)

lemma offer_survives_handlers:
  assumes "maps_ok st" "map_get (offers st) mac = Some l" "msg_mac m \<noteq> mac" "t 0 < lease_expiresAt l"
  shows "map_get (offers (fst (handleDiscover opts m t st))) mac = Some l"
    "map_get (offers (fst (handleRequest opts m t st))) mac = Some l"
    "map_get (offers (fst (handleRelease m st))) mac = Some l"
    "map_get (offers (fst (handleInform opts m st))) mac = Some l"
    "map_get (offers (fst (handleDecline m st))) mac = Some l"
proof -
  let ?st = "deleteExpiredAllocations (t 0) st"
  have ok: "map_ok (offers st)" "map_ok (offers ?st)"
    using assms(1) deleteExpired_entries(1) [OF assms(1)] by (simp_all add: maps_ok_def)
  have kept: "map_get (offers ?st) mac = Some l"
    using offer_survives_expiry [OF ok(1) assms(2,4)] by (simp add: deleteExpiredAllocations_def)
  obtain r where f: "findAvailableIP opts (msg_mac m) t st = (?st, r)"
    by (auto simp: findAvailableIP_def Let_def)
  show "map_get (offers (fst (handleDiscover opts m t st))) mac = Some l"
    using kept assms(3) f
    by (auto simp: handleDiscover_def js_map.get_put split: sum.splits option.splits)
  show "map_get (offers (fst (handleRequest opts m t st))) mac = Some l"
    using kept assms(3) ok(2)
    by (auto simp: handleRequest_def Let_def js_map.get_del split: sum.splits option.splits bool.splits)
  show "map_get (offers (fst (handleRelease m st))) mac = Some l"
    "map_get (offers (fst (handleInform opts m st))) mac = Some l"
    "map_get (offers (fst (handleDecline m st))) mac = Some l"
    using assms(2,3) ok by (auto simp: handleRelease_def handleInform_def handleDecline_def js_map.get_del)
qed

lemma offer_survives:
  assumes "maps_ok st" "map_get (offers st) mac = Some l" "t 0 < lease_expiresAt l"
    "\<And>m. parseDhcpMessage data = Inr m \<Longrightarrow> msg_mac m \<noteq> mac"
  shows "map_get (offers (fst (processDhcpMessage opts data t st))) mac = Some l"
proof -
  have "map_get (offers (fst (handleDhcpMessage opts data t st))) mac = Some l"
  proof (cases "parseDhcpMessage data")
    case (Inl e)
    with assms(2) show ?thesis by (simp add: handleDhcpMessage_def)
  next
    case (Inr m)
    with offer_survives_handlers [where t = t, OF assms(1,2) assms(4) [OF Inr] assms(3)] assms(2)
    show ?thesis
      by (auto simp: handleDhcpMessage_def split: option.splits dhcp_message_type.splits)
  qed
  then show ?thesis by (auto simp: processDhcpMessage_def split: prod.splits sum.splits)
qed

lemma offer_survives_all:
  assumes "dhcp_reachable opts st" "map_get (offers st) mac = Some l"
    "\<And>d t. (d, t) \<in> set msgs \<Longrightarrow> t 0 < lease_expiresAt l"
    "\<And>d t m. (d, t) \<in> set msgs \<Longrightarrow> parseDhcpMessage d = Inr m \<Longrightarrow> msg_mac m \<noteq> mac"
  shows "map_get (offers (process_all opts msgs st)) mac = Some l"
  using assms
proof (induction msgs arbitrary: st)
  case Nil
  then show ?case by (simp add: process_all_def)
next
  case (Cons m msgs)
  obtain d t where m: "m = (d, t)" by (cases m)
  let ?st = "fst (processDhcpMessage opts d t st)"
  have ok: "maps_ok st" using reachable_inv [OF Cons.prems(1)] by (simp add: dhcp_inv_def)
  have "map_get (offers ?st) mac = Some l"
    using Cons.prems(2) Cons.prems(3) [of d t] Cons.prems(4) [of d t] m
    by (intro offer_survives [OF ok]) simp_all
  moreover have "dhcp_reachable opts ?st" using Cons.prems(1) by (rule dhcp_reachable.receive)
  moreover have "t' 0 < lease_expiresAt l" if "(d', t') \<in> set msgs" for d' t'
    using Cons.prems(3) [of d' t'] that by simp
  moreover have "msg_mac m' \<noteq> mac" if "(d', t') \<in> set msgs" "parseDhcpMessage d' = Inr m'" for d' t' m'
    using Cons.prems(4) [of d' t' m'] that by simp
  ultimately have "map_get (offers (process_all opts msgs ?st)) mac = Some l"
    by (intro Cons.IH)
  then show ?case by (simp add: process_all_def m)
qed

text \<open>A client that holds an address gets it when it asks for it.\<close>

lemma request_of_holder:
  assumes inv: "dhcp_inv opts st0" and e: "entry st0 mac l" "lease_expiresAt l > now"
  shows "canUseRequestedIP opts (lease_ip l) mac now (deleteExpiredAllocations now st0) = Inr True"
proof -
  define st where "st = deleteExpiredAllocations now st0"
  have ok0: "maps_ok st0" using inv by (simp add: dhcp_inv_def)
  have inv': "dhcp_inv opts st" unfolding st_def by (rule inv_delete_expired [OF inv])
  then have ok: "maps_ok st" by (simp add: dhcp_inv_def)
  have mine: "entry st mac l" using e deleteExpired_entries(2) [OF ok0] by (simp add: st_def)
  have alive: "lease_expiresAt l' > now" if "entry st m l'" for m l'
    using that deleteExpired_entries(2) [OF ok0] by (simp add: st_def)
  have "holder_check (lease_ip l) mac now (all_entries st)"
  proof (cases "List.find (\<lambda>e. lease_ip (snd e) = lease_ip l) (all_entries st)")
    case None
    then show ?thesis by (simp add: holder_check_find)
  next
    case (Some e')
    obtain m' l' where e': "e' = (m', l')" by (cases e')
    then have "entry st m' l'" "lease_ip l' = lease_ip l"
      using find_Some_in [OF Some] in_all_entries [OF ok, of m' l'] by auto
    then have "m' = mac" "lease_expiresAt l' > now"
      using inv' mine alive unfolding dhcp_inv_def by metis+
    with Some e' show ?thesis by (simp add: holder_check_find)
  qed
  moreover have "in_range opts (lease_ip l)" using inv' mine unfolding dhcp_inv_def by blast
  ultimately show ?thesis by (auto simp: canUseRequestedIP_def in_range_def st_def)
qed

subsection \<open>A sample configuration and client messages\<close>

definition sample_options :: dhcp_server_options where
  "sample_options =
     \<lparr>rangeStart = ipv4_text [10, 0, 0, 10], rangeEnd = ipv4_text [10, 0, 0, 20],
      leaseDuration = 3600, serverIdentifier = ipv4_text [10, 0, 0, 1],
      netmask = ipv4_text [255, 255, 255, 0], router = ipv4_text [10, 0, 0, 1],
      hostname = None, domainName = None, searchDomains = None, dnsServers = None\<rparr>"

definition client_message :: "bytes \<Rightarrow> (int \<times> bytes) list \<Rightarrow> bytes" where
  "client_message hw os =
     reply_header \<lparr>par_op = 1, par_xid = 7, par_yiaddr = ipv4_text [0, 0, 0, 0],
       par_mac = mac_text hw, par_type = 0\<rparr> hw @ concat (List.map tlv os) @ [255]"

lemma parse_client_message:
  assumes "length hw = 6" "list_all option_ok os" "read_options os no_options = Inr o'"
  shows "parseDhcpMessage (client_message hw os) = Inr
     \<lparr>msg_op = 1, msg_htype = 1, msg_hlen = 6, msg_xid = 7,
      msg_ciaddr = lit ''0.0.0.0'', msg_yiaddr = ipv4_text [0, 0, 0, 0], msg_mac = mac_text hw,
      msg_type = opt_type o', msg_requestedIP = opt_requestedIp o',
      msg_serverIdentifier = opt_serverIdentifier o'\<rparr>"
  unfolding client_message_def
  by (subst parse_header_options [OF _ assms(1) _ _ _ assms(2,3)]) (simp_all add: is_u32_def)

lemma read_discover: "read_options [(53, [1])] no_options = Inr (no_options\<lparr>opt_type := Some DISCOVER\<rparr>)"
  by (simp add: read_option_def parseDhcpMessageType_def find_value_def DhcpMessageTypes_def)

lemma read_request: "length ip = 4 \<Longrightarrow> read_options [(53, [3]), (50, ip)] no_options
    = Inr (no_options\<lparr>opt_type := Some REQUEST, opt_requestedIp := Some (ipv4_text ip)\<rparr>)"
  by (simp add: read_option_def parseDhcpMessageType_def find_value_def DhcpMessageTypes_def parse_ipv4)

definition discover_of :: "bytes \<Rightarrow> bytes" where
  "discover_of hw = client_message hw [(53, [1])]"

definition request_of :: "bytes \<Rightarrow> bytes \<Rightarrow> bytes" where
  "request_of hw ip = client_message hw [(53, [3]), (50, ip)]"

lemma parse_discover_of:
  "length hw = 6 \<Longrightarrow> parseDhcpMessage (discover_of hw) = Inr
     \<lparr>msg_op = 1, msg_htype = 1, msg_hlen = 6, msg_xid = 7,
      msg_ciaddr = lit ''0.0.0.0'', msg_yiaddr = ipv4_text [0, 0, 0, 0], msg_mac = mac_text hw,
      msg_type = Some DISCOVER, msg_requestedIP = None, msg_serverIdentifier = None\<rparr>"
  using parse_client_message [OF _ _ read_discover, of hw]
  by (simp add: discover_of_def option_ok_def no_options_def)

lemma parse_request_of:
  "length hw = 6 \<Longrightarrow> length ip = 4 \<Longrightarrow> parseDhcpMessage (request_of hw ip) = Inr
     \<lparr>msg_op = 1, msg_htype = 1, msg_hlen = 6, msg_xid = 7,
      msg_ciaddr = lit ''0.0.0.0'', msg_yiaddr = ipv4_text [0, 0, 0, 0], msg_mac = mac_text hw,
      msg_type = Some REQUEST, msg_requestedIP = Some (ipv4_text ip), msg_serverIdentifier = None\<rparr>"
  using parse_client_message [OF _ _ read_request, of hw ip]
  by (simp add: request_of_def option_ok_def no_options_def)

lemma sample_options_valid: "valid_options sample_options" "short_options sample_options"
  by (simp_all add: sample_options_def valid_options_def short_options_def list_or_empty_def
      encode_text_def)

lemma sample_range:
  "ipv4ToNumber (rangeStart sample_options) = Inr 167772170"
  "ipv4ToNumber (rangeEnd sample_options) = Inr 167772180"
  by (simp_all add: sample_options_def ipv4ToNumber_text quad_value_def)

text \<open>An empty server offers the start of the range, and grants an address of the range.\<close>

lemma sample_numberToIPv4: "numberToIPv4 (Some 167772170) = Inr (ipv4_text [10, 0, 0, 10])"
proof -
  have "quad_bytes 167772170 = [10, 0, 0, 10]" by (simp add: quad_bytes_def)
  then show ?thesis by (simp add: numberToIPv4_quad)
qed

lemma sample_discover:
  assumes "length hw = 6"
  obtains st d r where "processDhcpMessage sample_options (discover_of hw) t dhcp_init = (st, Some d)"
    "parseDhcpMessage (dg_data d) = Inr r" "msg_yiaddr r = ipv4_text [10, 0, 0, 10]" "msg_type r = Some OFFER"
proof -
  have found: "findAvailableIP sample_options (mac_text hw) t dhcp_init
      = (dhcp_init, Inr (Some (ipv4_text [10, 0, 0, 10])))"
    by (simp add: findAvailableIP_def deleteExpiredAllocations_def delete_expired_def dhcp_init_def
        live_ip_def sample_range all_entries_def range_loop.simps [of "[]"] sample_numberToIPv4 Let_def)
  note m = parse_discover_of [OF assms]
  have v: "valid_ipv4 (ipv4_text [10, 0, 0, 10])" by simp
  show thesis
    by (rule reply_read [OF sample_options_valid m v, of OFFER "lit ''255.255.255.255''"], rule that)
      (use m found valid_ipv4_not_Nil [OF v] in
        \<open>auto simp: processDhcpMessage_def handleDhcpMessage_def handleDiscover_def\<close>)
qed

lemma sample_request:
  assumes "length hw = 6"
  obtains st d r where "processDhcpMessage sample_options (request_of hw [10, 0, 0, 12]) t dhcp_init = (st, Some d)"
    "parseDhcpMessage (dg_data d) = Inr r" "msg_yiaddr r = ipv4_text [10, 0, 0, 12]" "msg_type r = Some ACK"
    "map_get (leases st) (mac_text hw) = Some \<lparr>lease_ip = ipv4_text [10, 0, 0, 12],
       lease_mac = mac_text hw, lease_expiresAt = t 2 + leaseDuration sample_options * 1000\<rparr>"
proof -
  have "ipv4ToNumber (ipv4_text [10, 0, 0, 12]) = Inr 167772172"
    by (simp add: ipv4ToNumber_text quad_value_def)
  then have use: "canUseRequestedIP sample_options (ipv4_text [10, 0, 0, 12]) (mac_text hw) (t 1)
      (deleteExpiredAllocations (t 0) dhcp_init) = Inr True"
    by (simp add: canUseRequestedIP_def sample_range deleteExpiredAllocations_def delete_expired_def
        dhcp_init_def all_entries_def)
  note m = parse_request_of [OF assms, of "[10, 0, 0, 12]", simplified]
  have v: "valid_ipv4 (ipv4_text [10, 0, 0, 12])" by simp
  show thesis
    by (rule reply_read [OF sample_options_valid m v, of ACK "lit ''255.255.255.255''"], rule that)
      (use m use valid_ipv4_not_Nil [OF v] in
        \<open>auto simp: processDhcpMessage_def handleDhcpMessage_def handleRequest_def requested_address_def Let_def
          js_map.get_put\<close>)
qed

subsection \<open>Properties\<close>

text \<open>C3: In every state the server reaches, from any datagrams at any clock readings, the
  addresses held by leases and offers are in the configured range, and no address is held by two
  clients.\<close>

theorem dhcp_addresses_unique:
  assumes "dhcp_reachable opts st"
    "map_get (leases st) mac = Some l \<or> map_get (offers st) mac = Some l"
    "map_get (leases st) mac' = Some l' \<or> map_get (offers st) mac' = Some l'"
  shows "in_range opts (lease_ip l) \<and> (lease_ip l = lease_ip l' \<longrightarrow> mac = mac')"
  using reachable_inv [OF assms(1)] assms(2,3) unfolding dhcp_inv_def entry_def [symmetric] by blast

theorem dhcp_addresses_unique_witness:
  "\<exists>st mac l. dhcp_reachable sample_options st \<and> map_get (offers st) mac = Some l
    \<and> in_range sample_options (lease_ip l)"
proof -
  have hw: "length [2, 0, 0, 0, 0, 1 :: byte] = 6" by simp
  obtain st d r where st: "processDhcpMessage sample_options (discover_of [2, 0, 0, 0, 0, 1]) (\<lambda>_. 5) dhcp_init
      = (st, Some d)" by (rule sample_discover [OF hw])
  then obtain l where l: "map_get (offers st) (mac_text [2, 0, 0, 0, 0, 1]) = Some l"
    using parse_discover_of [OF hw]
    by (auto simp: processDhcpMessage_def handleDhcpMessage_def handleDiscover_def js_map.get_put
        split: prod.splits sum.splits option.splits if_splits)
  have "dhcp_reachable sample_options st"
    using dhcp_reachable.receive [OF dhcp_reachable.start, of sample_options "discover_of [2, 0, 0, 0, 0, 1]" "\<lambda>_. 5"] st
    by simp
  from dhcp_addresses_unique [OF this, of "mac_text [2, 0, 0, 0, 0, 1]" l] l this show ?thesis by blast
qed

text \<open>C18: A client that reads an ACK to its REQUEST has the lease: the table maps its MAC to the
  acknowledged address until the lease time from now, the address is in range, and nobody else
  holds it.\<close>

theorem dhcp_ack_means_lease:
  assumes "dhcp_reachable opts st" "valid_options opts" "short_options opts"
    "parseDhcpMessage data = Inr m" "msg_type m = Some REQUEST"
    "processDhcpMessage opts data t st = (st', Some d)"
    "parseDhcpMessage (dg_data d) = Inr r" "msg_type r = Some ACK"
  shows "map_get (leases st') (msg_mac m)
      = Some \<lparr>lease_ip = msg_yiaddr r, lease_mac = msg_mac m,
          lease_expiresAt = t 2 + leaseDuration opts * 1000\<rparr>
    \<and> in_range opts (msg_yiaddr r) \<and> msg_xid r = msg_xid m \<and> msg_mac r = msg_mac m
    \<and> (\<forall>mac l. entry st' mac l \<longrightarrow> lease_ip l = msg_yiaddr r \<longrightarrow> mac = msg_mac m)"
proof -
  let ?st = "deleteExpiredAllocations (t 0) st"
  have h: "handleRequest opts m t st = (st', Inr (Some d))"
    using assms(4-6) by (auto simp: processDhcpMessage_def handleDhcpMessage_def split: prod.splits sum.splits)
  have nak: "createNak opts m \<noteq> Inr (Some d)"
  proof
    assume "createNak opts m = Inr (Some d)"
    moreover obtain d' where "dhcp_reply opts m (lit ''0.0.0.0'') NAK (lit ''255.255.255.255'') = Inr (Some d')"
      "parseDhcpMessage (dg_data d') = Inr
       \<lparr>msg_op = 2, msg_htype = 1, msg_hlen = 6, msg_xid = msg_xid m,
        msg_ciaddr = lit ''0.0.0.0'', msg_yiaddr = lit ''0.0.0.0'', msg_mac = msg_mac m,
        msg_type = Some NAK, msg_requestedIP = None,
        msg_serverIdentifier = Some (serverIdentifier opts)\<rparr>"
      by (rule reply_read [OF assms(2-4) valid_zero_address])
    ultimately show False using assms(7,8) unfolding createNak_def by simp
  qed
  have "ip \<noteq> []" if "requested_address m = Some ip" for ip
    using requested_valid [OF assms(4) that] by (rule valid_ipv4_not_Nil)
  from handleRequest_cases [OF this, where opts = opts and t = t and ?st0.0 = st] obtain ip where ip: "requested_address m = Some ip"
      and grant: "handleRequest opts m t st
        = (granted opts m ip (t 2) ?st, dhcp_reply opts m ip ACK (lit ''255.255.255.255''))"
    using h nak by fastforce
  have st': "st' = granted opts m ip (t 2) ?st"
      and d: "dhcp_reply opts m ip ACK (lit ''255.255.255.255'') = Inr (Some d)"
    using grant h by simp_all
  have v: "valid_ipv4 ip" using requested_valid [OF assms(4) ip] .
  have r: "msg_yiaddr r = ip \<and> msg_xid r = msg_xid m \<and> msg_mac r = msg_mac m"
    by (rule reply_read [OF assms(2-4) v, of ACK "lit ''255.255.255.255''"]) (use d assms(7) in auto)
  have lease: "map_get (leases st') (msg_mac m) = Some \<lparr>lease_ip = ip, lease_mac = msg_mac m,
      lease_expiresAt = t 2 + leaseDuration opts * 1000\<rparr>" (is "_ = Some ?l")
    by (simp add: st' granted_def js_map.get_put)
  have inv: "dhcp_inv opts st'"
    using inv_process [OF reachable_inv [OF assms(1)], of data t] assms(6) by simp
  have mine: "entry st' (msg_mac m) ?l" using lease by (simp add: entry_def)
  then have "in_range opts ip" using inv unfolding dhcp_inv_def by fastforce
  moreover have "mac = msg_mac m" if "entry st' mac l" "lease_ip l = ip" for mac l
    using inv mine that unfolding dhcp_inv_def by (metis dhcp_lease.select_convs(1))
  ultimately show ?thesis using lease r by blast
qed

theorem dhcp_ack_means_lease_witness:
  "\<exists>st d. processDhcpMessage sample_options (request_of [2, 0, 0, 0, 0, 1] [10, 0, 0, 12]) (\<lambda>_. 5) dhcp_init
      = (st, Some d)
    \<and> map_get (leases st) (mac_text [2, 0, 0, 0, 0, 1]) = Some \<lparr>lease_ip = ipv4_text [10, 0, 0, 12],
        lease_mac = mac_text [2, 0, 0, 0, 0, 1], lease_expiresAt = 3600005\<rparr>"
proof -
  have hw: "length [2, 0, 0, 0, 0, 1 :: byte] = 6" "length [10, 0, 0, 12 :: byte] = 4" by simp_all
  obtain st d r where st: "processDhcpMessage sample_options (request_of [2, 0, 0, 0, 0, 1] [10, 0, 0, 12])
      (\<lambda>_. 5) dhcp_init = (st, Some d)"
    and r: "parseDhcpMessage (dg_data d) = Inr r" "msg_yiaddr r = ipv4_text [10, 0, 0, 12]"
      "msg_type r = Some ACK"
    by (rule sample_request [OF hw(1)])
  from dhcp_ack_means_lease [OF dhcp_reachable.start sample_options_valid parse_request_of [OF hw] _ st r(1,3)]
  show ?thesis using st r(2) by (simp add: sample_options_def)
qed

text \<open>C1: The handshake completes. After a DISCOVER that got an offer, whatever other clients send
  before the offer expires, a REQUEST of the same client for the offered address is answered with
  an ACK for that address.\<close>

theorem dhcp_offer_is_honoured:
  assumes reach: "dhcp_reachable opts st" and opts: "valid_options opts" "short_options opts"
    and discover: "parseDhcpMessage data1 = Inr m1" "msg_type m1 = Some DISCOVER"
      "processDhcpMessage opts data1 t1 st = (st1, Some d1)" "parseDhcpMessage (dg_data d1) = Inr r1"
    and others: "\<And>d t. (d, t) \<in> set traffic \<Longrightarrow> t 0 < t1 3 + 60000"
      "\<And>d t m. (d, t) \<in> set traffic \<Longrightarrow> parseDhcpMessage d = Inr m \<Longrightarrow> msg_mac m \<noteq> msg_mac m1"
    and request: "parseDhcpMessage data2 = Inr m2" "msg_type m2 = Some REQUEST"
      "msg_mac m2 = msg_mac m1" "msg_requestedIP m2 = Some (msg_yiaddr r1)"
      "msg_serverIdentifier m2 \<in> {None, Some (serverIdentifier opts)}"
    and now: "now < t1 3 + 60000"
  shows "\<exists>st2 d2 r2. processDhcpMessage opts data2 (\<lambda>_. now) (process_all opts traffic st1) = (st2, Some d2)
    \<and> parseDhcpMessage (dg_data d2) = Inr r2 \<and> msg_type r2 = Some ACK \<and> msg_yiaddr r2 = msg_yiaddr r1"
proof -
  have h: "handleDiscover opts m1 t1 st = (st1, Inr (Some d1))"
    using discover(1-3) by (auto simp: processDhcpMessage_def handleDhcpMessage_def split: prod.splits sum.splits)
  then obtain st' ip where f: "findAvailableIP opts (msg_mac m1) t1 st = (st', Inr (Some ip))"
    and st1: "st1 = st'\<lparr>offers := map_set (msg_mac m1) \<lparr>lease_ip = ip, lease_mac = msg_mac m1,
        lease_expiresAt = t1 3 + OFFER_DURATION_MS\<rparr> (offers st')\<rparr>"
    and d1: "dhcp_reply opts m1 ip OFFER (lit ''255.255.255.255'') = Inr (Some d1)"
    by (auto simp: handleDiscover_def split: prod.splits sum.splits option.splits if_splits)
  have v: "valid_ipv4 ip"
    using findAvailableIP_Some(2) [OF reachable_inv [OF reach] f] by (simp add: in_range_def)
  have r1: "msg_yiaddr r1 = ip"
    by (rule reply_read [OF opts discover(1) v, of OFFER "lit ''255.255.255.255''"])
      (use d1 discover(4) in auto)
  define l where "l = \<lparr>lease_ip = ip, lease_mac = msg_mac m1, lease_expiresAt = t1 3 + OFFER_DURATION_MS\<rparr>"
  have offer: "map_get (offers st1) (msg_mac m1) = Some l"
    by (simp add: st1 l_def js_map.get_put)
  have reach1: "dhcp_reachable opts st1"
    using dhcp_reachable.receive [OF reach, of data1 t1] discover(3) by simp
  define st2 where "st2 = process_all opts traffic st1"
  have exp: "lease_expiresAt l = t1 3 + 60000" by (simp add: l_def OFFER_DURATION_MS_def)
  have kept: "map_get (offers st2) (msg_mac m1) = Some l"
    unfolding st2_def
    by (rule offer_survives_all [OF reach1 offer]) (use others exp in simp_all)
  have inv2: "dhcp_inv opts st2"
    using reachable_inv process_all_reachable [OF reach1] by (simp add: st2_def)
  have use: "canUseRequestedIP opts ip (msg_mac m1) now (deleteExpiredAllocations now st2) = Inr True"
    using request_of_holder [OF inv2, of "msg_mac m1" l now] kept now exp
    by (simp add: entry_def l_def)
  obtain d2 where d2: "dhcp_reply opts m2 ip ACK (lit ''255.255.255.255'') = Inr (Some d2)"
    and r2: "parseDhcpMessage (dg_data d2) = Inr
       \<lparr>msg_op = 2, msg_htype = 1, msg_hlen = 6, msg_xid = msg_xid m2,
        msg_ciaddr = lit ''0.0.0.0'', msg_yiaddr = ip, msg_mac = msg_mac m2,
        msg_type = Some ACK, msg_requestedIP = None,
        msg_serverIdentifier = Some (serverIdentifier opts)\<rparr>"
    by (rule reply_read [OF opts request(1) v])
  have "handleRequest opts m2 (\<lambda>_. now) st2
      = (granted opts m2 ip now (deleteExpiredAllocations now st2), Inr (Some d2))"
    using use request(3-5) r1 valid_ipv4_not_Nil [OF v] d2
    by (auto simp: handleRequest_def Let_def requested_address_def granted_def)
  then have "processDhcpMessage opts data2 (\<lambda>_. now) st2
      = (granted opts m2 ip now (deleteExpiredAllocations now st2), Some d2)"
    using request(1,2) by (simp add: processDhcpMessage_def handleDhcpMessage_def)
  then show ?thesis using r2 r1 by (fastforce simp: st2_def)
qed

theorem dhcp_offer_is_honoured_witness:
  "\<exists>st1 st2 d2 r2.
     processDhcpMessage sample_options (request_of [2, 0, 0, 0, 0, 1] [10, 0, 0, 10]) (\<lambda>_. 59999)
       (process_all sample_options [(discover_of [2, 0, 0, 0, 0, 9], \<lambda>_. 30000)] st1) = (st2, Some d2)
     \<and> parseDhcpMessage (dg_data d2) = Inr r2 \<and> msg_type r2 = Some ACK"
proof -
  let ?hw = "[2, 0, 0, 0, 0, 1] :: bytes" and ?other = "[2, 0, 0, 0, 0, 9] :: bytes"
  have hw: "length ?hw = 6" "length ?other = 6" "length [10, 0, 0, 10 :: byte] = 4" by simp_all
  obtain st1 d1 r1 where st1: "processDhcpMessage sample_options (discover_of ?hw) (\<lambda>_. 0) dhcp_init
      = (st1, Some d1)" and r1: "parseDhcpMessage (dg_data d1) = Inr r1" "msg_yiaddr r1 = ipv4_text [10, 0, 0, 10]"
    by (rule sample_discover [OF hw(1)])
  have "mac_text ?other \<noteq> mac_text ?hw"
    using serialize_mac_text [OF hw(1)] serialize_mac_text [OF hw(2)] by auto
  then have "\<exists>st2 d2 r2. processDhcpMessage sample_options (request_of ?hw [10, 0, 0, 10]) (\<lambda>_. 59999)
       (process_all sample_options [(discover_of ?other, \<lambda>_. 30000)] st1) = (st2, Some d2)
     \<and> parseDhcpMessage (dg_data d2) = Inr r2 \<and> msg_type r2 = Some ACK \<and> msg_yiaddr r2 = msg_yiaddr r1"
    using r1(2) parse_discover_of [OF hw(1)] parse_discover_of [OF hw(2)] parse_request_of [OF hw(1,3)]
    by (intro dhcp_offer_is_honoured [OF dhcp_reachable.start sample_options_valid
          parse_discover_of [OF hw(1)] _ st1 r1(1) _ _ parse_request_of [OF hw(1,3)]]) auto
  then show ?thesis by blast
qed

text \<open>A DISCOVER is answered whenever an address is to be had: if some address of the range is
  held by no unexpired lease or offer, the client reads an OFFER of an address in range that no
  other client holds.\<close>

theorem dhcp_discover_answered:
  assumes "dhcp_reachable opts st" "valid_options opts" "short_options opts"
    "parseDhcpMessage data = Inr m" "msg_type m = Some DISCOVER"
    "ipv4ToNumber (rangeStart opts) = Inr s" "ipv4ToNumber (rangeEnd opts) = Inr f" "s \<le> n" "n \<le> f"
    "\<And>mac l. entry st mac l \<Longrightarrow> lease_expiresAt l > t 0 \<Longrightarrow> lease_ip l \<noteq> ipv4_text (quad_bytes n)"
  shows "\<exists>st' d r. processDhcpMessage opts data t st = (st', Some d)
    \<and> parseDhcpMessage (dg_data d) = Inr r \<and> msg_type r = Some OFFER \<and> in_range opts (msg_yiaddr r)
    \<and> (\<forall>mac l. entry st' mac l \<longrightarrow> lease_ip l = msg_yiaddr r \<longrightarrow> mac = msg_mac m)"
proof -
  let ?st = "deleteExpiredAllocations (t 0) st"
  have inv: "dhcp_inv opts st" by (rule reachable_inv [OF assms(1)])
  then have ok: "maps_ok st" by (simp add: dhcp_inv_def)
  have free: "ipv4_text (quad_bytes n) \<notin> set (List.map (\<lambda>e. lease_ip (snd e)) (all_entries ?st))"
    using assms(10) in_all_entries [OF deleteExpired_entries(1) [OF ok]] deleteExpired_entries(2) [OF ok]
    by force
  have "0 \<le> s" "f < 4294967296"
    using ipv4ToNumber_range [OF assms(6)] ipv4ToNumber_range [OF assms(7)] by simp_all
  then obtain ip' where "range_loop (List.map (\<lambda>e. lease_ip (snd e)) (all_entries ?st)) s f = Inr (Some ip')"
    using range_loop_total [of s f] free assms(8,9) by blast
  then obtain ip where f: "findAvailableIP opts (msg_mac m) t st = (?st, Inr (Some ip))"
    using assms(6,7)
    by (cases "live_ip (map_get (leases ?st) (msg_mac m)) (t 1)";
        cases "live_ip (map_get (offers ?st) (msg_mac m)) (t 2)")
      (simp_all add: findAvailableIP_def Let_def)
  note found = findAvailableIP_Some [OF inv f]
  have v: "valid_ipv4 ip" using found(2) by (simp add: in_range_def)
  obtain d where d: "dhcp_reply opts m ip OFFER (lit ''255.255.255.255'') = Inr (Some d)"
    and r: "parseDhcpMessage (dg_data d) = Inr
       \<lparr>msg_op = 2, msg_htype = 1, msg_hlen = 6, msg_xid = msg_xid m,
        msg_ciaddr = lit ''0.0.0.0'', msg_yiaddr = ip, msg_mac = msg_mac m,
        msg_type = Some OFFER, msg_requestedIP = None,
        msg_serverIdentifier = Some (serverIdentifier opts)\<rparr>"
    by (rule reply_read [OF assms(2-4) v])
  define st' where "st' = ?st\<lparr>offers := map_set (msg_mac m) \<lparr>lease_ip = ip, lease_mac = msg_mac m,
      lease_expiresAt = t 3 + OFFER_DURATION_MS\<rparr> (offers ?st)\<rparr>"
  have p: "processDhcpMessage opts data t st = (st', Some d)"
    using f d assms(4,5) valid_ipv4_not_Nil [OF v]
    by (simp add: processDhcpMessage_def handleDhcpMessage_def handleDiscover_def st'_def)
  have "dhcp_inv opts st'" using inv_process [OF inv, of data t] p by simp
  moreover have "entry st' (msg_mac m) \<lparr>lease_ip = ip, lease_mac = msg_mac m,
      lease_expiresAt = t 3 + OFFER_DURATION_MS\<rparr>"
    by (simp add: entry_def st'_def js_map.get_put)
  ultimately have "mac = msg_mac m" if "entry st' mac l" "lease_ip l = ip" for mac l
    using that unfolding dhcp_inv_def by (metis dhcp_lease.select_convs(1))
  with p r found(2) show ?thesis by (intro exI conjI) auto
qed

theorem dhcp_discover_answered_witness:
  "\<exists>st d r. processDhcpMessage sample_options (discover_of [2, 0, 0, 0, 0, 1]) (\<lambda>_. 5) dhcp_init = (st, Some d)
    \<and> parseDhcpMessage (dg_data d) = Inr r \<and> msg_type r = Some OFFER"
proof -
  have hw: "length [2, 0, 0, 0, 0, 1 :: byte] = 6" by simp
  have "\<exists>st d r. processDhcpMessage sample_options (discover_of [2, 0, 0, 0, 0, 1]) (\<lambda>_. 5) dhcp_init = (st, Some d)
    \<and> parseDhcpMessage (dg_data d) = Inr r \<and> msg_type r = Some OFFER
    \<and> in_range sample_options (msg_yiaddr r)
    \<and> (\<forall>mac l. entry st mac l \<longrightarrow> lease_ip l = msg_yiaddr r \<longrightarrow> mac = mac_text [2, 0, 0, 0, 0, 1])"
    using dhcp_discover_answered [OF dhcp_reachable.start sample_options_valid parse_discover_of [OF hw] _
        sample_range, of 167772171 "\<lambda>_. 5"] by (simp add: entry_def dhcp_init_def)
  then show ?thesis by blast
qed

text \<open>A DECLINE does not help a client that holds a lease: only the offer is dropped, so its
  next DISCOVER is offered the address it has just declined.\<close>

theorem dhcp_declined_address_offered_again:
  assumes "dhcp_reachable opts st" "map_get (leases st) mac = Some l" "msg_mac decline = mac"
    "\<And>i. t i < lease_expiresAt l"
  shows "snd (findAvailableIP opts mac t (fst (handleDecline decline st))) = Inr (Some (lease_ip l))"
proof -
  have "map_ok (leases st)" using reachable_inv [OF assms(1)] by (simp add: dhcp_inv_def maps_ok_def)
  then have "map_get (delete_expired (t 0) (leases st)) mac = Some l"
    using assms(2,4) by (simp add: delete_expired_spec)
  then show ?thesis
    using assms(4) [of 1]
    by (simp add: findAvailableIP_def handleDecline_def deleteExpiredAllocations_def live_ip_def Let_def)
qed

theorem dhcp_declined_address_offered_again_witness:
  "\<exists>st l decline. dhcp_reachable sample_options st \<and> map_get (leases st) (mac_text [2, 0, 0, 0, 0, 1]) = Some l
    \<and> snd (findAvailableIP sample_options (mac_text [2, 0, 0, 0, 0, 1]) (\<lambda>_. 9)
        (fst (handleDecline decline st))) = Inr (Some (lease_ip l))"
proof -
  let ?mac = "mac_text [2, 0, 0, 0, 0, 1]"
  have hw: "length [2, 0, 0, 0, 0, 1 :: byte] = 6" "length [10, 0, 0, 12 :: byte] = 4" by simp_all
  obtain st d where st: "processDhcpMessage sample_options (request_of [2, 0, 0, 0, 0, 1] [10, 0, 0, 12])
      (\<lambda>_. 5) dhcp_init = (st, Some d)"
    and l: "map_get (leases st) ?mac = Some \<lparr>lease_ip = ipv4_text [10, 0, 0, 12], lease_mac = ?mac,
      lease_expiresAt = 5 + leaseDuration sample_options * 1000\<rparr>"
    by (rule sample_request [OF hw(1)])
  have reach: "dhcp_reachable sample_options st"
    using dhcp_reachable.receive [OF dhcp_reachable.start, of sample_options
        "request_of [2, 0, 0, 0, 0, 1] [10, 0, 0, 12]" "\<lambda>_. 5"] st by simp
  obtain decline :: dhcp_message where decline: "msg_mac decline = ?mac"
    using parse_discover_of [OF hw(1)] by (metis dhcp_message.select_convs(7))
  from dhcp_declined_address_offered_again [OF reach l decline, of "\<lambda>_. 9"] l reach
  show ?thesis by (fastforce simp: sample_options_def)
qed

end
