(* ===== verification/Dns_Wire.thy ===== *)
theory Dns_Wire
  imports JS_Table JS_Text Wire_IPv6
begin

text \<open>
  \<open>packages/dns/src/wire.ts\<close> with the tables of \<open>constants.ts\<close> and the types of
  \<open>types.ts\<close>: names, questions, resource records, the header and whole messages. A
  \<open>Uint8Array\<close> is given with the buffer it is a view of, since the parsers read 16-bit and
  32-bit fields through \<open>new DataView(data.buffer)\<close>, from the start of the buffer.
\<close>

record u8array =
  ua_buffer :: bytes
  ua_offset :: nat
  ua_length :: nat

definition ua_bytes :: "u8array \<Rightarrow> bytes" where
  "ua_bytes a = List.take (ua_length a) (List.drop (ua_offset a) (ua_buffer a))"

text \<open>An array that has its buffer for itself.\<close>

definition ua_whole :: "bytes \<Rightarrow> u8array" where
  "ua_whole bs = \<lparr>ua_buffer = bs, ua_offset = 0, ua_length = length bs\<rparr>"

subsection \<open>Codes\<close>

datatype dns_type = T_A | T_NS | T_CNAME | T_SOA | T_PTR | T_MX | T_TXT | T_AAAA | T_SRV | T_ANY

definition TypeCode :: "(dns_type \<times> int) list" where
  "TypeCode = [(T_A, 1), (T_NS, 2), (T_CNAME, 5), (T_SOA, 6), (T_PTR, 12), (T_MX, 15), (T_TXT, 16),
     (T_AAAA, 28), (T_SRV, 33), (T_ANY, 255)]"

datatype dns_class = C_IN

definition ClassCode :: "(dns_class \<times> int) list" where
  "ClassCode = [(C_IN, 1)]"

datatype dns_opcode = QUERY | IQUERY | STATUS | NOTIFY | UPDATE

definition OpCode :: "(dns_opcode \<times> int) list" where
  "OpCode = [(QUERY, 0), (IQUERY, 1), (STATUS, 2), (NOTIFY, 4), (UPDATE, 5)]"

datatype dns_rcode = NOERROR | FORMERR | SERVFAIL | NXDOMAIN | NOTIMP | REFUSED

definition RCode :: "(dns_rcode \<times> int) list" where
  "RCode = [(NOERROR, 0), (FORMERR, 1), (SERVFAIL, 2), (NXDOMAIN, 3), (NOTIMP, 4), (REFUSED, 5)]"

definition parseDnsType :: "int \<Rightarrow> dns_type res" where
  "parseDnsType type =
     (case find_value TypeCode type of
        None \<Rightarrow> Inl (Error (lit ''unknown dns type: '' @ num_str 10 (nat type)))
      | Some key \<Rightarrow> Inr key)"

definition serializeDnsType :: "dns_type \<Rightarrow> int" where
  "serializeDnsType type = table_at TypeCode type"

definition parseDnsClass :: "int \<Rightarrow> dns_class res" where
  "parseDnsClass cls =
     (case find_value ClassCode cls of
        None \<Rightarrow> Inl (Error (lit ''unknown dns class: '' @ num_str 10 (nat cls)))
      | Some key \<Rightarrow> Inr key)"

definition serializeDnsClass :: "dns_class \<Rightarrow> int" where
  "serializeDnsClass cls = table_at ClassCode cls"

definition parseDnsOpCode :: "int \<Rightarrow> dns_opcode res" where
  "parseDnsOpCode opcode =
     (case find_value OpCode opcode of
        None \<Rightarrow> Inl (Error (lit ''unknown dns opcode: '' @ num_str 10 (nat opcode)))
      | Some key \<Rightarrow> Inr key)"

definition serializeDnsOpCode :: "dns_opcode \<Rightarrow> int" where
  "serializeDnsOpCode opcode = table_at OpCode opcode"

definition parseDnsRCode :: "int \<Rightarrow> dns_rcode res" where
  "parseDnsRCode rcode =
     (case find_value RCode rcode of
        None \<Rightarrow> Inl (Error (lit ''unknown dns rcode: '' @ num_str 10 (nat rcode)))
      | Some key \<Rightarrow> Inr key)"

definition serializeDnsRCode :: "dns_rcode \<Rightarrow> int" where
  "serializeDnsRCode rcode = table_at RCode rcode"

subsection \<open>Names\<close>

text \<open>The loop over the labels, from \<open>currentOffset\<close>: the labels and the offset of the root label,
  which may be one past the end of the data.\<close>

function name_loop :: "bytes \<Rightarrow> nat \<Rightarrow> jstring list \<times> nat" where
  "name_loop data currentOffset =
     (if currentOffset < length data \<and> data ! currentOffset \<noteq> 0 then
        let len = unat (data ! currentOffset);
            part = utf8_decode (subarray (currentOffset + 1) (currentOffset + 1 + len) data)
        in case name_loop data (currentOffset + 1 + len) of
             (parts, end') \<Rightarrow> (part # parts, end')
      else ([], currentOffset))"
  by pat_completeness auto
termination
  by (relation "measure (\<lambda>(data, i). length data - i)") auto

declare name_loop.simps [simp del]

definition parseName :: "bytes \<Rightarrow> nat \<Rightarrow> jstring \<times> nat" where
  "parseName data offset =
     (case name_loop data offset of
        (parts, currentOffset) \<Rightarrow> (js_join (lit ''.'') parts, currentOffset + 1))"

text \<open>One label: its length byte and the low bytes of its code units.\<close>

definition label_bytes :: "jstring \<Rightarrow> bytes" where
  "label_bytes part = of_nat (length part) # List.map (\<lambda>c. of_nat (unat c)) part"

text \<open>The labels and the root label are written one after the other into a buffer of
  \<open>name.length + 2\<close> bytes, where writes past the end are lost.\<close>

definition serializeName :: "jstring \<Rightarrow> bytes" where
  "serializeName name =
     (let parts = js_split (lit ''.'') name;
          labels = (if name = [] then [] else concat (List.map label_bytes parts))
      in List.take (length name + 2) (labels @ [0]))"

subsection \<open>Questions\<close>

record dns_question =
  q_name :: jstring
  q_type :: dns_type
  q_class :: dns_class

definition parseQuestion :: "u8array \<Rightarrow> nat \<Rightarrow> (dns_question \<times> nat) res" where
  "parseQuestion data offset =
     (case parseName (ua_bytes data) offset of (name, nameOffset) \<Rightarrow>
        bnd (bnd (getUint16 (ua_buffer data) nameOffset) parseDnsType) (\<lambda>type.
        bnd (bnd (getUint16 (ua_buffer data) (nameOffset + 2)) parseDnsClass) (\<lambda>cls.
          Inr (\<lparr>q_name = name, q_type = type, q_class = cls\<rparr>, nameOffset + 4))))"

definition serializeQuestion :: "dns_question \<Rightarrow> bytes res" where
  "serializeQuestion q =
     (let nameBytes = serializeName (q_name q); n = length nameBytes in
      writes
        [setBytes 0 (Inr nameBytes),
         setUint16 n (Inr (serializeDnsType (q_type q))),
         setUint16 (n + 2) (Inr (serializeDnsClass (q_class q)))]
        (replicate (n + 4) 0))"

subsection \<open>TXT values\<close>

text \<open>The loop over the character-strings: it runs while the offset is before the end of the record,
  and stops early at the end of the data.\<close>

function txt_loop :: "bytes \<Rightarrow> nat \<Rightarrow> nat \<Rightarrow> jstring list \<times> nat" where
  "txt_loop data endOffset currentOffset =
     (if currentOffset < endOffset \<and> currentOffset < length data then
        let partLength = unat (data ! currentOffset);
            part = utf8_decode (subarray (currentOffset + 1) (currentOffset + 1 + partLength) data)
        in case txt_loop data endOffset (currentOffset + 1 + partLength) of
             (parts, end') \<Rightarrow> (part # parts, end')
      else ([], currentOffset))"
  by pat_completeness auto
termination
  by (relation "measure (\<lambda>(data, e, i). length data - i)") auto

declare txt_loop.simps [simp del]

definition parseTxtValue :: "bytes \<Rightarrow> nat \<Rightarrow> nat \<Rightarrow> jstring \<times> nat" where
  "parseTxtValue data offset len =
     (case txt_loop data (offset + len) offset of
        (parts, currentOffset) \<Rightarrow> (concat parts, currentOffset))"

text \<open>The slices of at most 255 bytes, from \<open>i\<close>.\<close>

function txt_chunks :: "bytes \<Rightarrow> nat \<Rightarrow> bytes list" where
  "txt_chunks encoded i =
     (if i < length encoded
      then subarray i (min (i + 255) (length encoded)) encoded # txt_chunks encoded (i + 255)
      else [])"
  by pat_completeness auto
termination
  by (relation "measure (\<lambda>(e, i). length e - i)") auto

declare txt_chunks.simps [simp del]

definition serializeTxtValue :: "jstring \<Rightarrow> bytes" where
  "serializeTxtValue value =
     (if value = [] then [0]
      else
        let parts = txt_chunks (utf8_encode value) 0 in
        concat (List.map (\<lambda>part. of_nat (length part) # part) parts))"

subsection \<open>Resource records\<close>

datatype dns_data = Rec_A jstring | Rec_AAAA jstring | Rec_TXT jstring | Rec_PTR jstring

fun data_type :: "dns_data \<Rightarrow> dns_type" where
  "data_type (Rec_A _) = T_A"
| "data_type (Rec_AAAA _) = T_AAAA"
| "data_type (Rec_TXT _) = T_TXT"
| "data_type (Rec_PTR _) = T_PTR"

record dns_record =
  r_name :: jstring
  r_class :: dns_class
  r_ttl :: int
  r_data :: dns_data

definition dns_type_name :: "dns_type \<Rightarrow> jstring" where
  "dns_type_name t =
     (case t of T_A \<Rightarrow> lit ''A'' | T_NS \<Rightarrow> lit ''NS'' | T_CNAME \<Rightarrow> lit ''CNAME'' | T_SOA \<Rightarrow> lit ''SOA''
      | T_PTR \<Rightarrow> lit ''PTR'' | T_MX \<Rightarrow> lit ''MX'' | T_TXT \<Rightarrow> lit ''TXT'' | T_AAAA \<Rightarrow> lit ''AAAA''
      | T_SRV \<Rightarrow> lit ''SRV'' | T_ANY \<Rightarrow> lit ''ANY'')"

text \<open>The \<open>switch (type)\<close> of the record parser: the data and the offset after the record.\<close>

definition parse_rdata :: "bytes \<Rightarrow> dns_type \<Rightarrow> nat \<Rightarrow> nat \<Rightarrow> (dns_data \<times> nat) res" where
  "parse_rdata data type rdOffset rdLength =
     (case type of
        T_A \<Rightarrow> bnd (parseIPv4Address (subarray rdOffset (rdOffset + rdLength) data)) (\<lambda>ip.
          Inr (Rec_A ip, rdOffset + rdLength))
      | T_AAAA \<Rightarrow> bnd (parseIPv6Address (subarray rdOffset (rdOffset + rdLength) data)) (\<lambda>ip.
          Inr (Rec_AAAA (compressIPv6 ip), rdOffset + rdLength))
      | T_TXT \<Rightarrow> (case parseTxtValue data rdOffset rdLength of
          (value, newOffset) \<Rightarrow> Inr (Rec_TXT value, newOffset))
      | T_PTR \<Rightarrow> (case parseName data rdOffset of (ptr, newOffset) \<Rightarrow> Inr (Rec_PTR ptr, newOffset))
      | _ \<Rightarrow> Inl (Error (lit ''unsupported record type: '' @ dns_type_name type)))"

definition parseResourceRecord :: "u8array \<Rightarrow> nat \<Rightarrow> (dns_record \<times> nat) res" where
  "parseResourceRecord data offset =
     (case parseName (ua_bytes data) offset of (name, nameOffset) \<Rightarrow>
        bnd (bnd (getUint16 (ua_buffer data) nameOffset) parseDnsType) (\<lambda>type.
        bnd (bnd (getUint16 (ua_buffer data) (nameOffset + 2)) parseDnsClass) (\<lambda>cls.
        bnd (getUint32 (ua_buffer data) (nameOffset + 4)) (\<lambda>ttl.
        bnd (getUint16 (ua_buffer data) (nameOffset + 8)) (\<lambda>rdLength.
        bnd (parse_rdata (ua_bytes data) type (nameOffset + 10) (nat rdLength)) (\<lambda>(d, newOffset).
          Inr (\<lparr>r_name = name, r_class = cls, r_ttl = ttl, r_data = d\<rparr>, newOffset)))))))"

definition serializeResourceData :: "dns_data \<Rightarrow> bytes res" where
  "serializeResourceData d =
     (case d of
        Rec_A ip \<Rightarrow> serializeIPv4Address ip
      | Rec_AAAA ip \<Rightarrow> bnd (expandIPv6 ip) serializeIPv6Address
      | Rec_TXT value \<Rightarrow> Inr (serializeTxtValue value)
      | Rec_PTR ptr \<Rightarrow> Inr (serializeName ptr))"

definition serializeResourceRecord :: "dns_record \<Rightarrow> bytes res" where
  "serializeResourceRecord record' =
     (let nameBytes = serializeName (r_name record'); n = length nameBytes in
      bnd (serializeResourceData (r_data record')) (\<lambda>resourceData.
        writes
          [setBytes 0 (Inr nameBytes),
           setUint16 n (Inr (serializeDnsType (data_type (r_data record')))),
           setUint16 (n + 2) (Inr (serializeDnsClass (r_class record'))),
           setUint32 (n + 4) (Inr (r_ttl record')),
           setUint16 (n + 8) (Inr (int (length resourceData))),
           setBytes (n + 10) (Inr resourceData)]
          (replicate (n + 10 + length resourceData) 0)))"

subsection \<open>The header\<close>

record dns_header =
  h_id :: int
  h_isResponse :: bool
  h_opcode :: dns_opcode
  h_isAuthoritativeAnswer :: bool
  h_isTruncated :: bool
  h_isRecursionDesired :: bool
  h_isRecursionAvailable :: bool
  h_rcode :: dns_rcode
  h_questionCount :: int
  h_answerCount :: int
  h_authorityCount :: int
  h_additionalCount :: int

definition parseHeader :: "u8array \<Rightarrow> (dns_header \<times> nat) res" where
  "parseHeader data =
     (if length (ua_bytes data) < 12 then throw ''DNS header is too short''
      else
        let b2 = uint (ua_bytes data ! 2); b3 = uint (ua_bytes data ! 3); view = ua_buffer data in
        bnd (getUint16 view 0) (\<lambda>id'.
        bnd (parseDnsOpCode (js_and (js_shr b2 3) 0x0f)) (\<lambda>opcode.
        bnd (parseDnsRCode (js_and b3 0x0f)) (\<lambda>rcode.
        bnd (getUint16 view 4) (\<lambda>questionCount.
        bnd (getUint16 view 6) (\<lambda>answerCount.
        bnd (getUint16 view 8) (\<lambda>authorityCount.
        bnd (getUint16 view 10) (\<lambda>additionalCount.
          Inr (\<lparr>h_id = id', h_isResponse = (js_and b2 0x80 \<noteq> 0), h_opcode = opcode,
                h_isAuthoritativeAnswer = (js_and b2 0x04 \<noteq> 0), h_isTruncated = (js_and b2 0x02 \<noteq> 0),
                h_isRecursionDesired = (js_and b2 0x01 \<noteq> 0),
                h_isRecursionAvailable = (js_and b3 0x80 \<noteq> 0), h_rcode = rcode,
                h_questionCount = questionCount, h_answerCount = answerCount,
                h_authorityCount = authorityCount, h_additionalCount = additionalCount\<rparr>, 12)))))))))"

text \<open>The third and the fourth byte.\<close>

definition header_byte2 :: "dns_header \<Rightarrow> int" where
  "header_byte2 header =
     js_or (js_or (js_or (js_or
       (if h_isResponse header then 0x80 else 0)
       (js_shl (js_and (serializeDnsOpCode (h_opcode header)) 0x0f) 3))
       (if h_isAuthoritativeAnswer header then 0x04 else 0))
       (if h_isTruncated header then 0x02 else 0))
       (if h_isRecursionDesired header then 0x01 else 0)"

definition header_byte3 :: "dns_header \<Rightarrow> int" where
  "header_byte3 header =
     js_or (if h_isRecursionAvailable header then 0x80 else 0)
       (js_and (serializeDnsRCode (h_rcode header)) 0x0f)"

definition serializeHeader :: "dns_header \<Rightarrow> bytes res" where
  "serializeHeader header =
     writes
       [setUint16 0 (Inr (h_id header)),
        setIndex 2 (Inr (header_byte2 header)),
        setIndex 3 (Inr (header_byte3 header)),
        setUint16 4 (Inr (h_questionCount header)),
        setUint16 6 (Inr (h_answerCount header)),
        setUint16 8 (Inr (h_authorityCount header)),
        setUint16 10 (Inr (h_additionalCount header))]
       (replicate 12 0)"

subsection \<open>Messages\<close>

record dns_message =
  m_header :: dns_header
  m_questions :: "dns_question list"
  m_answers :: "dns_record list option"
  m_authorities :: "dns_record list option"
  m_additionals :: "dns_record list option"

text \<open>A section: \<open>count\<close> elements, one after the other.\<close>

fun parse_section :: "(nat \<Rightarrow> ('a \<times> nat) res) \<Rightarrow> nat \<Rightarrow> nat \<Rightarrow> ('a list \<times> nat) res" where
  "parse_section parse 0 offset = Inr ([], offset)"
| "parse_section parse (Suc count) offset =
     bnd (parse offset) (\<lambda>(x, newOffset).
     bnd (parse_section parse count newOffset) (\<lambda>(xs, end').
       Inr (x # xs, end')))"

definition parseDnsMessage :: "u8array \<Rightarrow> dns_message res" where
  "parseDnsMessage data =
     (if length (ua_bytes data) < 12 then throw ''DNS message is too short''
      else
        bnd (parseHeader data) (\<lambda>(header, o0).
        bnd (parse_section (parseQuestion data) (nat (h_questionCount header)) o0) (\<lambda>(questions, o1).
        bnd (parse_section (parseResourceRecord data) (nat (h_answerCount header)) o1) (\<lambda>(answers, o2).
        bnd (parse_section (parseResourceRecord data) (nat (h_authorityCount header)) o2) (\<lambda>(authorities, o3).
        bnd (parse_section (parseResourceRecord data) (nat (h_additionalCount header)) o3) (\<lambda>(additionals, o4).
          Inr \<lparr>m_header = header, m_questions = questions, m_answers = Some answers,
               m_authorities = Some authorities, m_additionals = Some additionals\<rparr>))))))"

text \<open>An optional section counts as empty when it is left out.\<close>

definition section_of :: "'a list option \<Rightarrow> 'a list" where
  "section_of xs = (case xs of None \<Rightarrow> [] | Some l \<Rightarrow> l)"

text \<open>The header counts are updated in the caller's message.\<close>

definition update_counts :: "dns_message \<Rightarrow> dns_message" where
  "update_counts message =
     message\<lparr>m_header := (m_header message)
       \<lparr>h_questionCount := int (length (m_questions message)),
        h_answerCount := int (length (section_of (m_answers message))),
        h_authorityCount := int (length (section_of (m_authorities message))),
        h_additionalCount := int (length (section_of (m_additionals message)))\<rparr>\<rparr>"

definition serializeDnsMessage :: "dns_message \<Rightarrow> bytes res" where
  "serializeDnsMessage message =
     bnd (serializeHeader (m_header (update_counts message))) (\<lambda>headerBytes.
     bnd (mapM serializeQuestion (m_questions message)) (\<lambda>questions.
     bnd (mapM serializeResourceRecord (section_of (m_answers message))) (\<lambda>answers.
     bnd (mapM serializeResourceRecord (section_of (m_authorities message))) (\<lambda>authorities.
     bnd (mapM serializeResourceRecord (section_of (m_additionals message))) (\<lambda>additionals.
       Inr (headerBytes @ concat questions @ concat answers @ concat authorities @ concat additionals))))))"

end
