(* ===== verification/Dns_Message.thy ===== *)
theory Dns_Message
  imports Dns_Wire
begin

text \<open>
  The DNS messages of \<open>Dns_Wire\<close> read back: every serializer's bytes, wherever they stand in a
  message, are parsed to the value they were made from, and the parser goes on right behind them.
\<close>

interpretation dns_types: code_table TypeCode
proof
  fix k show "k \<in> fst ` set TypeCode" by (cases k) (simp_all add: TypeCode_def)
qed (simp_all add: TypeCode_def)

interpretation dns_classes: code_table ClassCode
proof
  fix k show "k \<in> fst ` set ClassCode" by (cases k) (simp_all add: ClassCode_def)
qed (simp_all add: ClassCode_def)

interpretation opcodes: code_table OpCode
proof
  fix k show "k \<in> fst ` set OpCode" by (cases k) (simp_all add: OpCode_def)
qed (simp_all add: OpCode_def)

interpretation rcodes: code_table RCode
proof
  fix k show "k \<in> fst ` set RCode" by (cases k) (simp_all add: RCode_def)
qed (simp_all add: RCode_def)

lemma parse_codes [simp]:
  "parseDnsType (serializeDnsType t) = Inr t" "parseDnsClass (serializeDnsClass c) = Inr c"
  "parseDnsOpCode (serializeDnsOpCode p) = Inr p" "parseDnsRCode (serializeDnsRCode r) = Inr r"
  by (simp_all add: parseDnsType_def serializeDnsType_def parseDnsClass_def serializeDnsClass_def
      parseDnsOpCode_def serializeDnsOpCode_def parseDnsRCode_def serializeDnsRCode_def)

lemma type_code_bounds: "0 \<le> serializeDnsType t \<and> serializeDnsType t < 256"
  by (cases t) (simp_all add: serializeDnsType_def table_at_def TypeCode_def)

lemma class_code_bounds: "0 \<le> serializeDnsClass c \<and> serializeDnsClass c < 256"
  by (cases c) (simp add: serializeDnsClass_def table_at_def ClassCode_def)

subsection \<open>Bytes at an offset\<close>

definition at :: "bytes \<Rightarrow> nat \<Rightarrow> bytes \<Rightarrow> bool" where
  "at d off s \<longleftrightarrow> off + length s \<le> length d \<and> List.take (length s) (List.drop off d) = s"

lemma at_append: "at d off (s @ t) \<longleftrightarrow> at d off s \<and> at d (off + length s) t"
  by (auto simp: at_def take_add add.commute append_eq_append_conv)

lemma at_Cons: "at d off (x # t) \<longleftrightarrow> off < length d \<and> d ! off = x \<and> at d (Suc off) t"
proof -
  have "at d off [x] \<longleftrightarrow> off < length d \<and> d ! off = x"
    by (auto simp: at_def take_Suc hd_drop_conv_nth)
  then show ?thesis using at_append [of d off "[x]" t] by simp
qed

lemma at_Nil: "at d off [] \<longleftrightarrow> off \<le> length d"
  by (simp add: at_def)

lemma at_length: "at d off s \<Longrightarrow> off + length s \<le> length d"
  by (simp add: at_def)

lemma at_subarray: "at d off s \<Longrightarrow> subarray off (off + length s) d = s"
  by (simp add: at_def subarray_def drop_take)

lemma at_whole: "at d 0 d"
  by (simp add: at_def)

lemma at_u16:
  "at d off [of_int (x div 256), of_int x] \<Longrightarrow> 0 \<le> x \<Longrightarrow> x < 65536 \<Longrightarrow> getUint16 d off = Inr x"
  using split16 [of x] by (auto simp: at_Cons at_Nil getUint16_def)

lemma at_u32:
  "at d off [of_int (x div 16777216), of_int (x div 65536), of_int (x div 256), of_int x]
    \<Longrightarrow> 0 \<le> x \<Longrightarrow> x < 4294967296 \<Longrightarrow> getUint32 d off = Inr x"
  using split32 [of x] by (auto simp: at_Cons at_Nil getUint32_def eval_nat_numeral)

definition u16_bytes :: "int \<Rightarrow> bytes" where
  "u16_bytes x = [of_int (x div 256), of_int x]"

definition u32_bytes :: "int \<Rightarrow> bytes" where
  "u32_bytes x = [of_int (x div 16777216), of_int (x div 65536), of_int (x div 256), of_int x]"

lemma length_u_bytes [simp]: "length (u16_bytes x) = 2" "length (u32_bytes x) = 4"
  by (simp_all add: u16_bytes_def u32_bytes_def)

text \<open>A serializer with its parser at an offset; \<open>valid\<close> is what the serializer can carry.\<close>

locale section_codec =
  fixes ser :: "'a \<Rightarrow> bytes res"
    and par :: "bytes \<Rightarrow> nat \<Rightarrow> ('a \<times> nat) res"
    and valid :: "'a \<Rightarrow> bool"
  assumes one: "valid x \<Longrightarrow> \<exists>bs. ser x = Inr bs \<and> (\<forall>d off. at d off bs \<longrightarrow> par d off = Inr (x, off + length bs))"
begin

lemma sections:
  assumes "list_all valid xs"
  shows "\<exists>bss. mapM ser xs = Inr bss
    \<and> (\<forall>d off. at d off (concat bss)
         \<longrightarrow> parse_section (par d) (length xs) off = Inr (xs, off + length (concat bss)))"
  using assms
proof (induction xs)
  case (Cons x xs)
  obtain bs where bs: "ser x = Inr bs" "\<And>d off. at d off bs \<Longrightarrow> par d off = Inr (x, off + length bs)"
    using one [of x] Cons.prems by auto
  obtain bss where bss: "mapM ser xs = Inr bss"
      "\<And>d off. at d off (concat bss) \<Longrightarrow> parse_section (par d) (length xs) off = Inr (xs, off + length (concat bss))"
    using Cons by auto
  have "parse_section (par d) (length (x # xs)) off = Inr (x # xs, off + length (concat (bs # bss)))"
    if "at d off (concat (bs # bss))" for d off
    using that bs(2) bss(2) by (simp add: at_append)
  with bs(1) bss(1) show ?case by auto
qed simp

end

subsection \<open>Names\<close>

text \<open>The names that the serializer can carry: ASCII labels of 1 to 255 characters.\<close>

definition name_ok :: "jstring \<Rightarrow> bool" where
  "name_ok name \<longleftrightarrow> ascii name \<and> (name = [] \<or> list_all (\<lambda>p. p \<noteq> [] \<and> length p < 256) (js_split [46] name))"

lemma length_split_total:
  "length (concat (List.map (\<lambda>p. x # f p) (js_split [c] s))) = length s + 1"
  if "\<And>p. length (f p) = length p"
proof (induction s)
  case (Cons d s)
  obtain p ps where "js_split [c] s = p # ps" by (cases "js_split [c] s") auto
  with Cons show ?case by (auto simp: that prefix_def)
qed (simp add: that)

lemma length_labels: "length (concat (List.map label_bytes (js_split [46] name))) = length name + 1"
proof -
  have "length (label_bytes p) = length p + 1" for p by (simp add: label_bytes_def)
  then have "length (concat (List.map label_bytes ps)) = length (concat (List.map (\<lambda>p. 0 # p) ps))" for ps
    by (induction ps) simp_all
  then show ?thesis using length_split_total [of "\<lambda>p. p" 0 46 name] by simp
qed

text \<open>The buffer of \<open>serializeName\<close> is long enough, so that no write is lost.\<close>

lemma serializeName_eq:
  "serializeName name = (if name = [] then [] else concat (List.map label_bytes (js_split [46] name))) @ [0]"
  using length_labels [of name] by (simp add: serializeName_def Let_def lit_sep)

lemma label_decode: "ascii p \<Longrightarrow> utf8_decode (List.map (\<lambda>c. of_nat (unat c)) p) = p"
  using utf8_decode_encode_ascii [of p] by (simp add: utf8_encode_ascii)

lemma name_loop_labels:
  assumes "list_all (\<lambda>p. p \<noteq> [] \<and> length p < 256 \<and> ascii p) ps"
    and "at d off (concat (List.map label_bytes ps) @ [0])"
  shows "name_loop d off = (ps, off + length (concat (List.map label_bytes ps)))"
  using assms
proof (induction ps arbitrary: off)
  case Nil
  then show ?case by (subst name_loop.simps) (simp add: at_Cons)
next
  case (Cons p ps)
  let ?raw = "List.map (\<lambda>c. of_nat (unat c) :: byte) p"
  have p: "p \<noteq> []" "length p < 256" "ascii p" using Cons.prems(1) by auto
  have head: "off < length d" "d ! off = of_nat (length p)" "at d (Suc off) ?raw"
      and rest: "at d (off + 1 + length p) (concat (List.map label_bytes ps) @ [0])"
    using Cons.prems(2) by (simp_all add: label_bytes_def [of p] at_Cons at_append)
  have len: "unat (d ! off) = length p" using p(2) head(2) by (simp add: unat_of_nat)
  then have "d ! off \<noteq> 0" using p(1) by auto
  moreover have "subarray (off + 1) (off + 1 + length p) d = ?raw"
    using at_subarray [OF head(3)] by simp
  moreover have "name_loop d (off + 1 + length p) = (ps, off + 1 + length p + length (concat (List.map label_bytes ps)))"
    using Cons.IH [OF _ rest] Cons.prems(1) by simp
  ultimately show ?case
    using head(1) p(3) by (subst name_loop.simps) (simp add: len Let_def label_decode [simplified] label_bytes_def)
qed

lemma set_js_split: "p \<in> set (js_split [c] s) \<Longrightarrow> set p \<subseteq> set s"
proof (induction s arbitrary: p)
  case (Cons d s)
  obtain q qs where q: "js_split [c] s = q # qs" by (cases "js_split [c] s") auto
  from Cons.prems consider "p = []" | "p = d # q" | "p \<in> set (js_split [c] s)"
    by (cases "d = c") (auto simp: q)
  then show ?case using Cons.IH [of p] Cons.IH [of q] q by cases auto
qed simp

lemma parseName_at:
  assumes "name_ok name" "at d off (serializeName name)"
  shows "parseName d off = (name, off + length (serializeName name))"
proof (cases "name = []")
  case True
  with assms(2) have "name_loop d off = ([], off)" by (subst name_loop.simps) (simp add: serializeName_eq at_Cons)
  with True show ?thesis by (simp add: parseName_def serializeName_eq)
next
  case False
  have "ascii p" if "p \<in> set (js_split [46] name)" for p
    using set_js_split [OF that] assms(1) by (auto simp: name_ok_def ascii_def)
  with False assms(1) have "list_all (\<lambda>p. p \<noteq> [] \<and> length p < 256 \<and> ascii p) (js_split [46] name)"
    by (auto simp: name_ok_def list_all_iff)
  from name_loop_labels [OF this] assms(2) False show ?thesis
    by (simp add: parseName_def serializeName_eq lit_sep)
qed

subsection \<open>Questions\<close>

text \<open>Writes behind a part of the buffer that is filled already.\<close>

lemma write_behind:
  "setUint16 (length p + i) v (p @ buf) = bnd (setUint16 i v buf) (\<lambda>b. Inr (p @ b))"
  "setUint32 (length p + i) v (p @ buf) = bnd (setUint32 i v buf) (\<lambda>b. Inr (p @ b))"
  "setBytes (length p + i) v' (p @ buf) = bnd (setBytes i v' buf) (\<lambda>b. Inr (p @ b))"
  by (auto simp: setUint16_def setUint32_def setBytes_def bnd_def list_update_append add.assoc
      split: sum.splits simp flip: add_Suc_right)

lemma write_front: "setBytes 0 (Inr p) (replicate (length p + k) x) = Inr (p @ replicate k x)"
  by (simp add: setBytes_def)

lemma serializeQuestion_bytes:
  "serializeQuestion q = Inr (serializeName (q_name q)
     @ u16_bytes (serializeDnsType (q_type q)) @ u16_bytes (serializeDnsClass (q_class q)))"
proof -
  let ?n = "serializeName (q_name q)"
  note w = write_behind [where p = ?n and i = 0, simplified] write_behind [where p = ?n]
  show ?thesis
    by (simp add: serializeQuestion_def Let_def write_front w)
      (simp add: layout u16_bytes_def list_update_append)
qed

definition question_ok :: "dns_question \<Rightarrow> bool" where
  "question_ok q \<longleftrightarrow> name_ok (q_name q)"

lemma parseQuestion_at:
  assumes "question_ok q" "serializeQuestion q = Inr bs" "at d off bs"
  shows "parseQuestion (ua_whole d) off = Inr (q, off + length bs)"
proof -
  let ?n = "serializeName (q_name q)"
  have bs: "bs = ?n @ u16_bytes (serializeDnsType (q_type q)) @ u16_bytes (serializeDnsClass (q_class q))"
    using assms(2) by (simp add: serializeQuestion_bytes)
  have parts: "at d off ?n" "at d (off + length ?n) (u16_bytes (serializeDnsType (q_type q)))"
      "at d (off + length ?n + 2) (u16_bytes (serializeDnsClass (q_class q)))"
    using assms(3) by (simp_all add: bs at_append)
  have "getUint16 d (off + length ?n) = Inr (serializeDnsType (q_type q))"
    using parts(2) type_code_bounds [of "q_type q"] by (intro at_u16) (simp_all add: u16_bytes_def)
  moreover have "getUint16 d (off + length ?n + 2) = Inr (serializeDnsClass (q_class q))"
    using parts(3) class_code_bounds [of "q_class q"] by (intro at_u16) (simp_all add: u16_bytes_def)
  moreover have "parseName d off = (q_name q, off + length ?n)"
    using assms(1) parts(1) by (intro parseName_at) (simp_all add: question_ok_def)
  ultimately show ?thesis by (simp add: parseQuestion_def ua_whole_def ua_bytes_def bs)
qed

interpretation questions: section_codec serializeQuestion "\<lambda>d. parseQuestion (ua_whole d)" question_ok
  by unfold_locales (use parseQuestion_at serializeQuestion_bytes in blast)

subsection \<open>TXT values\<close>

definition string_bytes :: "bytes \<Rightarrow> bytes" where
  "string_bytes part = of_nat (length part) # part"

lemma txt_loop_strings:
  assumes "list_all (\<lambda>p. length p < 256) ps" "at d off (concat (List.map string_bytes ps))"
  shows "txt_loop d (off + length (concat (List.map string_bytes ps))) off
    = (List.map utf8_decode ps, off + length (concat (List.map string_bytes ps)))"
  using assms
proof (induction ps arbitrary: off)
  case Nil
  then show ?case by (subst txt_loop.simps) simp
next
  case (Cons p ps)
  let ?rest = "concat (List.map string_bytes ps)"
  have head: "off < length d" "d ! off = of_nat (length p)" "at d (Suc off) p"
      and rest: "at d (off + 1 + length p) ?rest"
    using Cons.prems(2) by (simp_all add: string_bytes_def [of p] at_Cons at_append)
  have total: "length (concat (List.map string_bytes (p # ps))) = 1 + length p + length ?rest"
    by (simp add: string_bytes_def [of p])
  have len: "unat (d ! off) = length p" using Cons.prems(1) head(2) by (simp add: unat_of_nat)
  have sub: "subarray (off + 1) (off + 1 + length p) d = p" using at_subarray [OF head(3)] by simp
  have "txt_loop d (off + 1 + length p + length ?rest) (off + 1 + length p)
    = (List.map utf8_decode ps, off + 1 + length p + length ?rest)"
    using Cons.IH [OF _ rest] Cons.prems(1) by simp
  then show ?case
    unfolding total using head(1) sub
    by (subst txt_loop.simps) (simp add: len Let_def add.assoc)
qed

lemma concat_txt_chunks: "concat (txt_chunks e i) = List.drop i e"
proof (induction e i rule: txt_chunks.induct)
  case (1 e i)
  show ?case
  proof (cases "i < length e")
    case True
    have "List.drop i e = List.take 255 (List.drop i e) @ List.drop (i + 255) e"
      by (metis append_take_drop_id drop_drop add.commute)
    moreover have "subarray i (min (i + 255) (length e)) e = List.take 255 (List.drop i e)"
      by (simp add: subarray_def take_drop min_def add.commute)
    ultimately show ?thesis using True 1 by (subst txt_chunks.simps) simp
  qed (subst txt_chunks.simps, simp)
qed

lemma txt_chunks_short: "list_all (\<lambda>p. length p < 256) (txt_chunks e i)"
proof (induction e i rule: txt_chunks.induct)
  case (1 e i)
  then show ?case by (subst txt_chunks.simps) (auto simp: subarray_def min_def)
qed

lemma length_txt_chunks: "length (txt_chunks e i) = (length e - i + 254) div 255"
proof (induction e i rule: txt_chunks.induct)
  case (1 e i)
  show ?case
  proof (cases "i < length e")
    case True
    have step: "(n + 254) div 255 = Suc ((n - 255 + 254) div 255)" if "0 < n" for n :: nat
    proof (cases "n \<le> 255")
      case True
      then have "n - 1 < 255" using that by linarith
      moreover have "n + 254 = (n - 1) + 255" using that by linarith
      ultimately show ?thesis using True by simp
    next
      case False
      then have "n + 254 = (n - 255 + 254) + 255" by simp
      then show ?thesis by (simp only: div_add_self2)
    qed
    have "(length e - i + 254) div 255 = Suc ((length e - (i + 255) + 254) div 255)"
      using step [of "length e - i"] True by simp
    with True 1 show ?thesis by (subst txt_chunks.simps) simp
  qed (subst txt_chunks.simps, simp)
qed

lemma length_string_bytes: "length (concat (List.map string_bytes ps)) = length (concat ps) + length ps"
  by (induction ps) (simp_all add: string_bytes_def)

text \<open>Plain values of up to 65279 characters: with their length bytes they fit the 16-bit length.\<close>

definition txt_ok :: "jstring \<Rightarrow> bool" where
  "txt_ok v \<longleftrightarrow> ascii v \<and> length v \<le> 65279"

lemma serializeTxtValue_strings:
  "serializeTxtValue v = concat (List.map string_bytes (if v = [] then [[]] else txt_chunks (utf8_encode v) 0))"
  by (simp add: serializeTxtValue_def string_bytes_def [abs_def] Let_def)

lemma decode_plain_concat:
  assumes "\<forall>b\<in>set (concat ps). unat b < 0x80"
  shows "concat (List.map utf8_decode ps) = utf8_decode (concat ps)"
  using assms by (induction ps) (auto simp: utf8_decode_plain)

lemma parseTxtValue_at:
  assumes "txt_ok v" "at d off (serializeTxtValue v)"
  shows "parseTxtValue d off (length (serializeTxtValue v)) = (v, off + length (serializeTxtValue v))
    \<and> length (serializeTxtValue v) < 65536"
proof -
  let ?ps = "if v = [] then [[]] else txt_chunks (utf8_encode v) 0"
  have a: "ascii v" "length v \<le> 65279" using assms(1) by (simp_all add: txt_ok_def)
  have cat: "concat ?ps = utf8_encode v" by (simp add: concat_txt_chunks utf8_encode_ascii)
  have "list_all (\<lambda>p. length p < 256) ?ps" by (simp add: txt_chunks_short)
  from txt_loop_strings [OF this, of d off] assms(2)
  have loop: "txt_loop d (off + length (serializeTxtValue v)) off
      = (List.map utf8_decode ?ps, off + length (serializeTxtValue v))"
    by (simp only: serializeTxtValue_strings)
  have "unat (of_nat (unat c) :: byte) < 0x80" if "c \<in> set v" for c
  proof -
    have "unat c < 128" using a(1) that by (simp add: ascii_def)
    moreover have "unat c mod 256 \<le> unat c" by simp
    ultimately show ?thesis by (simp add: unat_of_nat unsigned_ucast_eq take_bit_eq_mod)
  qed
  then have "\<forall>b\<in>set (concat ?ps). unat b < 0x80" unfolding cat using a(1) by (auto simp: utf8_encode_ascii)
  then have "concat (List.map utf8_decode ?ps) = v"
    using decode_plain_concat [of ?ps] cat utf8_decode_encode_ascii [OF a(1)] by simp
  moreover have "length (serializeTxtValue v) = length v + length ?ps"
    unfolding serializeTxtValue_strings length_string_bytes cat using a(1) by simp
  moreover have "length ?ps \<le> 256"
    using div_le_mono [of "length v + 254" "65279 + 254" 255] a by (simp add: length_txt_chunks)
  ultimately show ?thesis using a(2) loop by (simp add: parseTxtValue_def)
qed

subsection \<open>Resource records\<close>

fun data_ok :: "dns_data \<Rightarrow> bool" where
  "data_ok (Rec_A ip) \<longleftrightarrow> valid_ipv4 ip"
| "data_ok (Rec_AAAA ip) \<longleftrightarrow> (\<exists>bs. length bs = 16 \<and> ip = compressIPv6 (ipv6_text bs))"
| "data_ok (Rec_TXT v) \<longleftrightarrow> txt_ok v"
| "data_ok (Rec_PTR name) \<longleftrightarrow> name_ok name \<and> length name < 65534"

lemma length_serializeName: "length (serializeName name) = (if name = [] then 1 else length name + 2)"
  using length_labels [of name] by (simp add: serializeName_eq)

lemma serializeResourceData_ok:
  assumes "data_ok x"
  shows "\<exists>bs. serializeResourceData x = Inr bs \<and> length bs < 65536
    \<and> (\<forall>d off. at d off bs \<longrightarrow> parse_rdata d (data_type x) off (length bs) = Inr (x, off + length bs))"
  using assms
proof (cases x)
  case (Rec_A ip)
  with assms obtain bs where "length bs = 4" "ip = ipv4_text bs" by (auto simp: valid_ipv4_def)
  with Rec_A show ?thesis
    by (auto simp: serializeResourceData_def serialize_ipv4_text parse_rdata_def at_subarray parse_ipv4
        dest: at_subarray)
next
  case (Rec_AAAA ip)
  with assms obtain bs where bs: "length bs = 16" "ip = compressIPv6 (ipv6_text bs)" by auto
  have "serializeResourceData x = Inr bs"
    using Rec_AAAA bs expand_compress [OF bs(1)] serialize_ipv6_texts(1) [OF bs(1)]
    by (simp add: serializeResourceData_def)
  moreover have "parse_rdata d (data_type x) off (length bs) = Inr (x, off + length bs)" if "at d off bs" for d off
    using at_subarray [OF that] parse_ipv6 [OF bs(1)] Rec_AAAA bs by (simp add: parse_rdata_def)
  ultimately show ?thesis using bs(1) by auto
next
  case (Rec_TXT v)
  then have v: "txt_ok v" using assms by simp
  have "at (serializeTxtValue v) 0 (serializeTxtValue v)" by (rule at_whole)
  from parseTxtValue_at [OF v this] have "length (serializeTxtValue v) < 65536" by simp
  then show ?thesis using Rec_TXT parseTxtValue_at [OF v]
    by (simp add: serializeResourceData_def parse_rdata_def)
next
  case (Rec_PTR name)
  then have "name_ok name" "length (serializeName name) < 65536"
    using assms by (simp_all add: length_serializeName)
  then show ?thesis using Rec_PTR parseName_at
    by (simp add: serializeResourceData_def parse_rdata_def)
qed

definition record_ok :: "dns_record \<Rightarrow> bool" where
  "record_ok r \<longleftrightarrow> name_ok (r_name r) \<and> is_u32 (r_ttl r) \<and> data_ok (r_data r)"

definition record_fields :: "dns_record \<Rightarrow> nat \<Rightarrow> bytes" where
  "record_fields r n = u16_bytes (serializeDnsType (data_type (r_data r)))
     @ u16_bytes (serializeDnsClass (r_class r)) @ u32_bytes (r_ttl r) @ u16_bytes (int n)"

lemma serializeResourceRecord_bytes:
  assumes "serializeResourceData (r_data r) = Inr data"
  shows "serializeResourceRecord r
    = Inr (serializeName (r_name r) @ record_fields r (length data) @ data)"
proof -
  let ?n = "serializeName (r_name r)"
  note w = write_behind [where p = ?n and i = 0, simplified] write_behind [where p = ?n]
  have rep: "replicate (length ?n + 10 + length data) 0 = replicate (length ?n + (10 + length data)) (0 :: byte)"
    by (simp add: add.assoc)
  show ?thesis
    unfolding serializeResourceRecord_def assms Let_def bnd_simps rep
    by (simp add: write_front w) (simp add: layout record_fields_def u16_bytes_def u32_bytes_def list_update_append)
qed

lemma parseResourceRecord_at:
  assumes ok: "record_ok r" and ser: "serializeResourceRecord r = Inr bs" and at: "at d off bs"
  shows "parseResourceRecord (ua_whole d) off = Inr (r, off + length bs)"
proof -
  obtain data where data: "serializeResourceData (r_data r) = Inr data" "length data < 65536"
      "\<And>d off. at d off data
        \<Longrightarrow> parse_rdata d (data_type (r_data r)) off (length data) = Inr (r_data r, off + length data)"
    using serializeResourceData_ok [of "r_data r"] ok by (auto simp: record_ok_def)
  let ?n = "serializeName (r_name r)"
  let ?k = "off + length ?n"
  have bs: "bs = ?n @ record_fields r (length data) @ data"
    using ser by (simp add: serializeResourceRecord_bytes [OF data(1)])
  have parts: "at d off ?n" "at d ?k (u16_bytes (serializeDnsType (data_type (r_data r))))"
      "at d (?k + 2) (u16_bytes (serializeDnsClass (r_class r)))" "at d (?k + 4) (u32_bytes (r_ttl r))"
      "at d (?k + 8) (u16_bytes (int (length data)))" "at d (?k + 10) data"
    using at by (simp_all add: bs at_append record_fields_def ac_simps numeral_eq_Suc)
  have "getUint16 d ?k = Inr (serializeDnsType (data_type (r_data r)))"
    using parts(2) type_code_bounds by (intro at_u16) (simp_all add: u16_bytes_def less_trans [of _ 256])
  moreover have "getUint16 d (?k + 2) = Inr (serializeDnsClass (r_class r))"
    using parts(3) class_code_bounds by (intro at_u16) (simp_all add: u16_bytes_def less_trans [of _ 256])
  moreover have "getUint32 d (?k + 4) = Inr (r_ttl r)"
    using parts(4) ok by (intro at_u32) (simp_all add: u32_bytes_def record_ok_def is_u32_def)
  moreover have "getUint16 d (?k + 8) = Inr (int (length data))"
    using parts(5) data(2) by (intro at_u16) (simp_all add: u16_bytes_def)
  moreover have "parseName d off = (r_name r, ?k)"
    using ok parts(1) by (intro parseName_at) (simp_all add: record_ok_def)
  moreover have "length bs = length ?n + 10 + length data"
    by (simp add: bs record_fields_def)
  ultimately show ?thesis using data(3) [OF parts(6)]
    by (simp add: parseResourceRecord_def ua_whole_def ua_bytes_def add.assoc)
qed

interpretation records: section_codec serializeResourceRecord "\<lambda>d. parseResourceRecord (ua_whole d)" record_ok
proof
  fix r assume r: "record_ok r"
  then obtain data where "serializeResourceData (r_data r) = Inr data"
    using serializeResourceData_ok [of "r_data r"] by (auto simp: record_ok_def)
  with parseResourceRecord_at [OF r] serializeResourceRecord_bytes
  show "\<exists>bs. serializeResourceRecord r = Inr bs
    \<and> (\<forall>d off. at d off bs \<longrightarrow> parseResourceRecord (ua_whole d) off = Inr (r, off + length bs))"
    by blast
qed

subsection \<open>The header\<close>

lemma header_byte2_back:
  "0 \<le> header_byte2 h \<and> header_byte2 h < 256
   \<and> (js_and (header_byte2 h) 0x80 \<noteq> 0 \<longleftrightarrow> h_isResponse h)
   \<and> js_and (js_shr (header_byte2 h) 3) 0x0f = serializeDnsOpCode (h_opcode h)
   \<and> (js_and (header_byte2 h) 0x04 \<noteq> 0 \<longleftrightarrow> h_isAuthoritativeAnswer h)
   \<and> (js_and (header_byte2 h) 0x02 \<noteq> 0 \<longleftrightarrow> h_isTruncated h)
   \<and> (js_and (header_byte2 h) 0x01 \<noteq> 0 \<longleftrightarrow> h_isRecursionDesired h)"
  by (cases "h_isResponse h"; cases "h_isAuthoritativeAnswer h"; cases "h_isTruncated h";
      cases "h_isRecursionDesired h"; cases "h_opcode h")
    (simp_all add: header_byte2_def serializeDnsOpCode_def table_at_def OpCode_def js_and_def js_or_def
      js_shl_def js_shr_def push_bit_eq_mult drop_bit_eq_div)

lemma header_byte3_back:
  "0 \<le> header_byte3 h \<and> header_byte3 h < 256
   \<and> (js_and (header_byte3 h) 0x80 \<noteq> 0 \<longleftrightarrow> h_isRecursionAvailable h)
   \<and> js_and (header_byte3 h) 0x0f = serializeDnsRCode (h_rcode h)"
  by (cases "h_isRecursionAvailable h"; cases "h_rcode h")
    (simp_all add: header_byte3_def serializeDnsRCode_def table_at_def RCode_def js_and_def js_or_def)

definition header_ok :: "dns_header \<Rightarrow> bool" where
  "header_ok h \<longleftrightarrow> is_u16 (h_id h) \<and> is_u16 (h_questionCount h) \<and> is_u16 (h_answerCount h)
     \<and> is_u16 (h_authorityCount h) \<and> is_u16 (h_additionalCount h)"

definition header_bytes :: "dns_header \<Rightarrow> bytes" where
  "header_bytes h = u16_bytes (h_id h) @ [of_int (header_byte2 h), of_int (header_byte3 h)]
     @ u16_bytes (h_questionCount h) @ u16_bytes (h_answerCount h)
     @ u16_bytes (h_authorityCount h) @ u16_bytes (h_additionalCount h)"

lemma serializeHeader_bytes: "serializeHeader h = Inr (header_bytes h)"
  by (simp add: serializeHeader_def header_bytes_def u16_bytes_def layout)

lemma length_header_bytes [simp]: "length (header_bytes h) = 12"
  by (simp add: header_bytes_def)

lemma parseHeader_at:
  assumes "header_ok h" "at d 0 (header_bytes h)"
  shows "parseHeader (ua_whole d) = Inr (h, 12)"
proof -
  have len: "12 \<le> length d" using at_length [OF assms(2)] by simp
  have parts: "at d 0 (u16_bytes (h_id h))" "d ! 2 = of_int (header_byte2 h)" "d ! 3 = of_int (header_byte3 h)"
      "at d 4 (u16_bytes (h_questionCount h))" "at d 6 (u16_bytes (h_answerCount h))"
      "at d 8 (u16_bytes (h_authorityCount h))" "at d 10 (u16_bytes (h_additionalCount h))"
    using assms(2) by (simp_all add: header_bytes_def at_append at_Cons numeral_eq_Suc)
  have u16: "getUint16 d off = Inr x" if "at d off (u16_bytes x)" "is_u16 x" for off x
    using that by (intro at_u16) (simp_all add: u16_bytes_def is_u16_def)
  have bytes: "uint (d ! 2) = header_byte2 h" "uint (d ! 3) = header_byte3 h"
    using header_byte2_back [of h] header_byte3_back [of h] parts(2,3) by simp_all
  note back2 = header_byte2_back [of h] and back3 = header_byte3_back [of h]
  show ?thesis
    using assms(1) len u16 parts
    by (simp add: parseHeader_def ua_whole_def ua_bytes_def Let_def bytes back2 back3 header_ok_def)
qed

subsection \<open>Messages\<close>

definition message_ok :: "dns_message \<Rightarrow> bool" where
  "message_ok m \<longleftrightarrow> is_u16 (h_id (m_header m))
     \<and> list_all question_ok (m_questions m) \<and> length (m_questions m) < 65536
     \<and> list_all record_ok (section_of (m_answers m)) \<and> length (section_of (m_answers m)) < 65536
     \<and> list_all record_ok (section_of (m_authorities m)) \<and> length (section_of (m_authorities m)) < 65536
     \<and> list_all record_ok (section_of (m_additionals m)) \<and> length (section_of (m_additionals m)) < 65536"

text \<open>The message as the parser gives it: counts filled in, no section left out.\<close>

definition parsed_form :: "dns_message \<Rightarrow> dns_message" where
  "parsed_form m = (update_counts m)\<lparr>m_answers := Some (section_of (m_answers m)),
     m_authorities := Some (section_of (m_authorities m)),
     m_additionals := Some (section_of (m_additionals m))\<rparr>"

lemma serializeDnsMessage_parsed:
  assumes "message_ok m"
  shows "\<exists>bs. serializeDnsMessage m = Inr bs \<and> parseDnsMessage (ua_whole bs) = Inr (parsed_form m)"
proof -
  let ?h = "m_header (update_counts m)"
  obtain qs where q: "mapM serializeQuestion (m_questions m) = Inr qs"
      "\<And>d off. at d off (concat qs) \<Longrightarrow> parse_section (parseQuestion (ua_whole d)) (length (m_questions m)) off
         = Inr (m_questions m, off + length (concat qs))"
    using questions.sections [of "m_questions m"] assms by (auto simp: message_ok_def)
  have recs: "\<exists>bss. mapM serializeResourceRecord rs = Inr bss
      \<and> (\<forall>d off. at d off (concat bss) \<longrightarrow> parse_section (parseResourceRecord (ua_whole d)) (length rs) off
         = Inr (rs, off + length (concat bss)))" if "list_all record_ok rs" for rs
    using records.sections [OF that] .
  obtain an where an: "mapM serializeResourceRecord (section_of (m_answers m)) = Inr an"
      "\<And>d off. at d off (concat an) \<Longrightarrow> parse_section (parseResourceRecord (ua_whole d))
         (length (section_of (m_answers m))) off = Inr (section_of (m_answers m), off + length (concat an))"
    using recs [of "section_of (m_answers m)"] assms by (auto simp: message_ok_def)
  obtain au where au: "mapM serializeResourceRecord (section_of (m_authorities m)) = Inr au"
      "\<And>d off. at d off (concat au) \<Longrightarrow> parse_section (parseResourceRecord (ua_whole d))
         (length (section_of (m_authorities m))) off = Inr (section_of (m_authorities m), off + length (concat au))"
    using recs [of "section_of (m_authorities m)"] assms by (auto simp: message_ok_def)
  obtain ad where ad: "mapM serializeResourceRecord (section_of (m_additionals m)) = Inr ad"
      "\<And>d off. at d off (concat ad) \<Longrightarrow> parse_section (parseResourceRecord (ua_whole d))
         (length (section_of (m_additionals m))) off = Inr (section_of (m_additionals m), off + length (concat ad))"
    using recs [of "section_of (m_additionals m)"] assms by (auto simp: message_ok_def)
  define bs where "bs = header_bytes ?h @ concat qs @ concat an @ concat au @ concat ad"
  have ser: "serializeDnsMessage m = Inr bs"
    by (simp add: serializeDnsMessage_def serializeHeader_bytes q an au ad bs_def)
  have parts: "at bs 0 (header_bytes ?h)" "at bs 12 (concat qs)" "at bs (12 + length (concat qs)) (concat an)"
      "at bs (12 + length (concat qs) + length (concat an)) (concat au)"
      "at bs (12 + length (concat qs) + length (concat an) + length (concat au)) (concat ad)"
    using at_whole [of bs] unfolding bs_def at_append by simp_all
  have h: "header_ok ?h"
    using assms by (simp add: header_ok_def message_ok_def update_counts_def is_u16_def)
  have "length (ua_bytes (ua_whole bs)) = length bs" by (simp add: ua_whole_def ua_bytes_def)
  moreover have "12 \<le> length bs" by (simp add: bs_def)
  ultimately have "parseDnsMessage (ua_whole bs) = Inr (parsed_form m)"
    using parseHeader_at [OF h parts(1)] q(2) [OF parts(2)] an(2) [OF parts(3)]
      au(2) [OF parts(4)] ad(2) [OF parts(5)]
    by (simp add: parseDnsMessage_def parsed_form_def update_counts_def)
  with ser show ?thesis by blast
qed

subsection \<open>Properties\<close>

text \<open>C21: A DNS message whose id is 16 bits wide, whose names have ASCII labels of 1 to 255
  characters and whose records the format can carry (canonical IPv4 text, compressed IPv6 text, plain
  TXT values of any length that fits, PTR names) is read back by \<open>parseDnsMessage\<close>, section by
  section, with the counts filled in.\<close>

theorem dns_message_roundtrip:
  assumes "message_ok m"
  shows "\<exists>bs. serializeDnsMessage m = Inr bs
    \<and> parseDnsMessage (ua_whole bs) = Inr ((update_counts m)\<lparr>m_answers := Some (section_of (m_answers m)),
        m_authorities := Some (section_of (m_authorities m)),
        m_additionals := Some (section_of (m_additionals m))\<rparr>)"
  using serializeDnsMessage_parsed [OF assms] by (simp only: parsed_form_def)

definition example_header :: "int \<Rightarrow> dns_header" where
  "example_header i = \<lparr>h_id = i, h_isResponse = True, h_opcode = QUERY, h_isAuthoritativeAnswer = False,
     h_isTruncated = False, h_isRecursionDesired = True, h_isRecursionAvailable = False,
     h_rcode = NOERROR, h_questionCount = 0, h_answerCount = 0, h_authorityCount = 0,
     h_additionalCount = 0\<rparr>"

definition example_message :: dns_message where
  "example_message = \<lparr>m_header = example_header 7,
     m_questions = [\<lparr>q_name = lit ''a.io'', q_type = T_A, q_class = C_IN\<rparr>],
     m_answers = Some [\<lparr>r_name = lit ''a.io'', r_class = C_IN, r_ttl = 300, r_data = Rec_TXT (lit ''hi'')\<rparr>,
       \<lparr>r_name = lit ''a.io'', r_class = C_IN, r_ttl = 60, r_data = Rec_A (ipv4_text [10, 0, 0, 1])\<rparr>],
     m_authorities = None, m_additionals = None\<rparr>"

lemma example_name_ok: "name_ok (lit ''a.io'')"
  by (simp add: name_ok_def lit_simps)

lemma example_message_ok: "message_ok example_message"
proof -
  have "valid_ipv4 (ipv4_text [10, 0, 0, 1])" by simp
  moreover have "txt_ok (lit ''hi'')" by (simp add: txt_ok_def lit_simps)
  ultimately show ?thesis
    by (simp add: message_ok_def example_message_def example_header_def section_of_def question_ok_def
        record_ok_def example_name_ok is_u16_def is_u32_def)
qed

theorem dns_message_roundtrip_witness:
  "\<exists>bs p. serializeDnsMessage example_message = Inr bs \<and> parseDnsMessage (ua_whole bs) = Inr p
    \<and> m_answers p = m_answers example_message \<and> h_id (m_header p) = 7"
  using dns_message_roundtrip [OF example_message_ok]
  by (auto simp: example_message_def example_header_def update_counts_def section_of_def)

text \<open>The message parser reads its 16-bit fields from the start of the underlying buffer: for an
  array that starts \<open>length pre\<close> bytes into its buffer, the id (and the counts) come from the bytes
  before it, whatever the array holds.\<close>

theorem dns_byte_offset_ignored:
  assumes "parseHeader \<lparr>ua_buffer = a # b # pre @ bs, ua_offset = length pre + 2, ua_length = length bs\<rparr>
    = Inr (h, n)"
  shows "h_id h = uint a * 256 + uint b"
  using assms by (auto simp: parseHeader_def Let_def res_simps getUint16_def split: if_splits)

lemma example_offset_header:
  "\<exists>h. parseHeader \<lparr>ua_buffer = 1 # 2 # [] @ header_bytes (example_header 7), ua_offset = length ([] :: bytes) + 2,
      ua_length = length (header_bytes (example_header 7))\<rparr> = Inr (h, 12)"
  by (simp add: parseHeader_def ua_bytes_def header_bytes_def u16_bytes_def getUint16_def Let_def
      header_byte2_back header_byte3_back example_header_def)

theorem dns_byte_offset_ignored_witness:
  "\<exists>h. parseHeader \<lparr>ua_buffer = 1 # 2 # [] @ header_bytes (example_header 7), ua_offset = 2, ua_length = 12\<rparr>
      = Inr (h, 12) \<and> h_id h = 258"
proof -
  obtain h where h: "parseHeader \<lparr>ua_buffer = 1 # 2 # [] @ header_bytes (example_header 7),
      ua_offset = length ([] :: bytes) + 2, ua_length = length (header_bytes (example_header 7))\<rparr> = Inr (h, 12)"
    using example_offset_header by blast
  have "h_id h = 258" using dns_byte_offset_ignored [OF h] by simp
  moreover have "parseHeader \<lparr>ua_buffer = 1 # 2 # [] @ header_bytes (example_header 7), ua_offset = 2,
      ua_length = 12\<rparr> = Inr (h, 12)"
    using h by (simp only: list.size add_0 length_header_bytes)
  ultimately show ?thesis by blast
qed

lemma js_split_snoc: "js_split [c] (s @ [c]) = js_split [c] s @ [[]]"
proof (induction s)
  case (Cons d s)
  obtain q qs where q: "js_split [c] s = q # qs" by (cases "js_split [c] s") auto
  with Cons show ?case by (cases "d = c") simp_all
qed simp

text \<open>A fully qualified name, with its final dot, is misread: the empty label after the dot is
  written as a second root label, the name parser stops at the first one, and the question parser
  reads its second byte as the start of the type and throws.\<close>

theorem dns_trailing_dot_misread:
  assumes "name_ok name" "name \<noteq> []"
  shows "serializeName (name @ lit ''.'') = serializeName name @ [0]
    \<and> bnd (serializeQuestion \<lparr>q_name = name @ lit ''.'', q_type = t, q_class = c\<rparr>)
        (\<lambda>bs. parseQuestion (ua_whole bs) 0) = throw ''unknown dns type: 0''"
proof -
  have dot: "serializeName (name @ [46]) = serializeName name @ [0]"
    using assms(2) by (simp add: serializeName_eq js_split_snoc label_bytes_def)
  let ?bs = "serializeName name @ [0] @ u16_bytes (serializeDnsType t) @ u16_bytes (serializeDnsClass c)"
  let ?n = "length (serializeName name)"
  have "serializeDnsType t div 256 = 0" using type_code_bounds [of t] by simp
  then have "u16_bytes (serializeDnsType t) = [0, of_int (serializeDnsType t)]" by (simp add: u16_bytes_def)
  then have parts: "at ?bs 0 (serializeName name)" "at ?bs ?n [0, 0]"
    using at_whole [of ?bs] unfolding at_append by (simp_all add: at_append at_Cons at_Nil)
  have "parseName ?bs 0 = (name, ?n)" using parseName_at [OF assms(1) parts(1)] by simp
  moreover have "getUint16 ?bs ?n = Inr 0" using at_u16 [of ?bs ?n 0] parts(2) by simp
  moreover have "parseDnsType 0 = throw ''unknown dns type: 0''"
    by (simp add: parseDnsType_def find_value_def TypeCode_def lit_simps num_str.simps digit_char_def)
  ultimately have "parseQuestion (ua_whole ?bs) 0 = throw ''unknown dns type: 0''"
    by (simp add: parseQuestion_def ua_whole_def ua_bytes_def)
  then show ?thesis by (simp add: serializeQuestion_bytes lit_sep dot)
qed

theorem dns_trailing_dot_misread_witness:
  "bnd (serializeQuestion \<lparr>q_name = lit ''a.io'' @ lit ''.'', q_type = T_A, q_class = C_IN\<rparr>)
     (\<lambda>bs. parseQuestion (ua_whole bs) 0) = throw ''unknown dns type: 0''"
proof -
  have "lit ''a.io'' \<noteq> []" by (simp add: lit_simps)
  with dns_trailing_dot_misread [OF example_name_ok] show ?thesis by blast
qed

text \<open>The decoder on letters before other bytes.\<close>

lemma utf8_scalars_letters:
  "utf8_scalars utf8_start (replicate n 97 @ bs) = replicate n 97 @ utf8_scalars utf8_start bs"
  by (induction n) (simp_all add: utf8_start_def)

lemma scalars_letters: "scalars (replicate n 97 @ [0xe9]) = replicate n 97 @ [0xe9]"
proof (induction n)
  case (Suc n)
  then show ?case by (cases n) (simp_all add: is_high_def is_low_def)
qed (simp add: is_high_def is_low_def)

text \<open>A TXT value can change on the way: the serializer cuts the UTF-8 bytes every 255 bytes and
  the parser decodes each piece on its own, so a character whose bytes straddle a cut comes back as
  replacement characters, as for 254 letters followed by an e with acute accent.\<close>

theorem txt_character_split:
  "let v = replicate 254 97 @ [0xe9] in
   fst (parseTxtValue (serializeTxtValue v) 0 (length (serializeTxtValue v))) = replicate 254 97 @ [0xfffd, 0xfffd]"
proof -
  let ?v = "replicate 254 97 @ [0xe9] :: jstring"
  let ?p1 = "replicate 254 97 @ [0xc3] :: bytes" and ?p2 = "[0xa9] :: bytes"
  have enc: "utf8_encode ?v = ?p1 @ ?p2"
    unfolding utf8_encode_def scalars_letters by (simp add: utf8_bytes_def)
  have chunks: "txt_chunks (?p1 @ ?p2) 0 = [?p1, ?p2]"
    by (subst txt_chunks.simps, simp add: subarray_def, subst txt_chunks.simps, simp add: subarray_def,
        subst txt_chunks.simps, simp)
  have ser: "serializeTxtValue ?v = concat (List.map string_bytes [?p1, ?p2])"
    using enc chunks by (simp add: serializeTxtValue_strings)
  have nobom: "\<not> prefix [0xef, 0xbb, 0xbf] ?p1" by (simp add: replicate_numeral_Cons)
  have "utf8_scalars utf8_start [0xc3] = [0xfffd]" by (simp add: utf8_start_def utf8_lead_def)
  then have "utf8_scalars utf8_start ?p1 = replicate 254 97 @ [0xfffd]"
    by (simp only: utf8_scalars_letters)
  moreover have "concat (List.map utf16 (replicate n 97 @ [0xfffd])) = replicate n 97 @ [0xfffd]" for n
    by (induction n) (simp_all add: utf16_def)
  ultimately have "utf8_decode ?p1 = replicate 254 97 @ [0xfffd]"
    unfolding utf8_decode_def using nobom by (simp only: if_False)
  moreover have "utf8_decode ?p2 = [0xfffd]"
    by (simp add: utf8_decode_def utf16_def utf8_start_def utf8_lead_def)
  moreover have "txt_loop (serializeTxtValue ?v) (0 + length (serializeTxtValue ?v)) 0
    = (List.map utf8_decode [?p1, ?p2], 0 + length (serializeTxtValue ?v))"
    unfolding ser by (rule txt_loop_strings) (simp, rule at_whole)
  ultimately show ?thesis by (simp add: parseTxtValue_def)
qed

end
