(* ===== verification/Dns_Util.thy ===== *)
theory Dns_Util
  imports Wire_Chars
begin

text \<open>\<open>packages/dns/src/util.ts\<close>: addresses as reversed names under \<open>in-addr.arpa\<close> and
  \<open>ip6.arpa\<close>, and back.\<close>

datatype ptr_ip = PtrIPv4 jstring | PtrIPv6 jstring

definition ipToPtrName :: "jstring \<Rightarrow> jstring res" where
  "ipToPtrName ip =
     (let parts = js_split (lit ''.'') ip in
      if length parts = 4 then Inr (js_join (lit ''.'') (rev parts) @ lit ''.in-addr.arpa'')
      else
        bnd (expandIPv6 ip) (\<lambda>ipv6.
        bnd (serializeIPv6Address ipv6) (\<lambda>ipv6Bytes.
          let partsV6 = concat (List.map (\<lambda>byte'. List.map (\<lambda>n. num_str 16 (nat n))
                [js_shr (uint byte') 4, js_and (uint byte') 0xf]) ipv6Bytes)
          in Inr (js_join (lit ''.'') (rev partsV6) @ lit ''.ip6.arpa''))))"

text \<open>\<open>.replace(/(.{4})/g, '$1:')\<close>: a colon after every four characters that are no line
  terminators; \<open>.replace(/:$/, '')\<close>: a final colon is dropped.\<close>

definition line_terminator :: "jschar \<Rightarrow> bool" where
  "line_terminator c \<longleftrightarrow> unat c \<in> {10, 13, 0x2028, 0x2029}"

fun colon_groups :: "jstring \<Rightarrow> jstring" where
  "colon_groups (a # b # c # d # s) =
     (if list_all (\<lambda>x. \<not> line_terminator x) [a, b, c, d] then a # b # c # d # 58 # colon_groups s
      else a # colon_groups (b # c # d # s))"
| "colon_groups s = s"

definition drop_final_colon :: "jstring \<Rightarrow> jstring" where
  "drop_final_colon s = (if s \<noteq> [] \<and> List.last s = 58 then butlast s else s)"

definition ptrNameToIP :: "jstring \<Rightarrow> ptr_ip res" where
  "ptrNameToIP name =
     (let err = Inl (Error (lit ''invalid PTR name: '' @ name)) in
      case List.filter (\<lambda>part. part \<noteq> []) (rev (js_split (lit ''.'') name)) of
        [] \<Rightarrow> err
      | [first] \<Rightarrow> err
      | first # second # parts \<Rightarrow>
          if first \<noteq> lit ''arpa'' then err
          else if second = lit ''in-addr'' then Inr (PtrIPv4 (js_join (lit ''.'') parts))
          else if second = lit ''ip6'' then
            Inr (PtrIPv6 (compressIPv6 (drop_final_colon (colon_groups (concat parts)))))
          else err)"

subsection \<open>Names of addresses\<close>

lemma js_join_append:
  "ps \<noteq> [] \<Longrightarrow> qs \<noteq> [] \<Longrightarrow> js_join sep (ps @ qs) = js_join sep ps @ sep @ js_join sep qs"
  by (induction ps rule: induct_list012) (auto simp: js_join_Cons)

lemma arpa_names:
  "lit ''.in-addr.arpa'' = [46] @ js_join [46] [lit ''in-addr'', lit ''arpa'']"
  "lit ''.ip6.arpa'' = [46] @ js_join [46] [lit ''ip6'', lit ''arpa'']"
  "46 \<notin> set (lit ''arpa'')" "46 \<notin> set (lit ''in-addr'')" "46 \<notin> set (lit ''ip6'')"
  "lit ''arpa'' \<noteq> []" "lit ''in-addr'' \<noteq> []" "lit ''ip6'' \<noteq> []" "lit ''in-addr'' \<noteq> lit ''ip6''"
  by (simp_all add: lit_simps)

text \<open>Splitting a reversed name gives its parts back, in the order before the reversal.\<close>

lemma reversed_parts:
  assumes "parts \<noteq> []" "\<And>p. p \<in> set parts \<Longrightarrow> p \<noteq> [] \<and> 46 \<notin> set p"
    and "zone \<noteq> []" "46 \<notin> set zone"
  shows "List.filter (\<lambda>part. part \<noteq> [])
      (rev (js_split [46] (js_join [46] (rev parts) @ [46] @ js_join [46] [zone, lit ''arpa''])))
    = lit ''arpa'' # zone # parts"
proof -
  have "js_join [46] (rev parts) @ [46] @ js_join [46] [zone, lit ''arpa'']
      = js_join [46] (rev parts @ [zone, lit ''arpa''])"
    using assms(1) by (subst js_join_append) simp_all
  moreover have "js_split [46] (js_join [46] (rev parts @ [zone, lit ''arpa''])) = rev parts @ [zone, lit ''arpa'']"
    using assms arpa_names(3) by (intro js_split_join) auto
  moreover have "List.filter (\<lambda>part. part \<noteq> []) parts = parts"
    using assms(2) by (intro filter_True) auto
  ultimately show ?thesis using assms(3) arpa_names(6) by simp
qed

lemma ptr_ipv4:
  assumes "length bs = 4"
  shows "bnd (ipToPtrName (ipv4_text bs)) ptrNameToIP = Inr (PtrIPv4 (ipv4_text bs))"
proof -
  let ?ps = "List.map (\<lambda>b. num_str 10 (unat b)) bs"
  have ne: "bs \<noteq> []" using assms by auto
  have parts: "p \<noteq> [] \<and> 46 \<notin> set p" if "p \<in> set ?ps" for p
    using that num_str_not_sep [of 10] by auto
  have "ipToPtrName (ipv4_text bs) = Inr (js_join [46] (rev ?ps) @ [46] @ js_join [46] [lit ''in-addr'', lit ''arpa''])"
    unfolding ipToPtrName_def js_split_ipv4_text [OF ne] Let_def
    using assms by (simp only: length_map lit_sep if_True arpa_names(1) simp_thms)
  moreover have "ptrNameToIP (js_join [46] (rev ?ps) @ [46] @ js_join [46] [lit ''in-addr'', lit ''arpa''])
    = Inr (PtrIPv4 (js_join [46] ?ps))"
    unfolding ptrNameToIP_def lit_sep Let_def
    using reversed_parts [of ?ps, OF _ parts arpa_names(7,4)] ne by simp
  ultimately show ?thesis by (simp add: ipv4_text_def lit_sep)
qed

text \<open>The nibbles of a byte, as one-character strings.\<close>

lemma nibble_parts:
  "List.map (\<lambda>n. num_str 16 (nat n)) [js_shr (uint b) 4, js_and (uint (b :: byte)) 0xf]
    = List.map (\<lambda>c. [c]) (hex_byte b)"
proof -
  have "js_shr (uint b) 4 = uint b div 16"
    using uint_byte_bounds [of b] by (simp add: js_arith)
  moreover have "js_and (uint b) 0xf = uint b mod 16"
    by (rule js_and_masks) (use uint_byte_bounds [of b] in linarith)+
  moreover have "uint b div 16 = int (unat b div 16)" "uint b mod 16 = int (unat b mod 16)"
    unfolding uint_nat by (simp_all only: zdiv_int zmod_int of_nat_numeral)
  moreover have "num_str 16 d = [digit_char d]" if "d < 16" for d
    using that by (simp add: num_str.simps)
  moreover have "unat b div 16 < 16" using unat_byte_less [of b] by simp
  ultimately show ?thesis by (simp add: hex_byte_nibbles byte_nibbles_def)
qed

lemma digit_no_terminator: "d < 16 \<Longrightarrow> \<not> line_terminator (digit_char d)"
  by (simp add: line_terminator_def unat_digit_char)

lemma colon_groups_bytes:
  "even (length bs) \<Longrightarrow> colon_groups (concat (List.map hex_byte bs)) = concat (List.map (\<lambda>g. g @ [58]) (byte_groups bs))"
proof (induction bs rule: byte_groups.induct)
  case (1 a b bs)
  obtain p q r s where "byte_nibbles a = [p, q]" "byte_nibbles b = [r, s]"
    by (simp add: byte_nibbles_def)
  moreover from this have "p < 16" "q < 16" "r < 16" "s < 16"
    using byte_nibbles_less [of _ a] byte_nibbles_less [of _ b] by auto
  ultimately show ?case using 1 by (simp add: hex_byte_nibbles digit_no_terminator)
qed simp_all

lemma drop_final_colon_groups:
  "gs \<noteq> [] \<Longrightarrow> drop_final_colon (concat (List.map (\<lambda>g. g @ [58]) gs)) = js_join [58] gs"
proof -
  assume "gs \<noteq> []"
  then have "concat (List.map (\<lambda>g. g @ [58]) gs) = js_join [58] gs @ [58]"
    by (induction gs rule: induct_list012) simp_all
  then show ?thesis by (simp add: drop_final_colon_def)
qed

lemma ptr_ipv6:
  assumes "length bs = 16"
  shows "bnd (ipToPtrName (compressIPv6 (ipv6_text bs))) ptrNameToIP = Inr (PtrIPv6 (compressIPv6 (ipv6_text bs)))"
proof -
  let ?t = "compressIPv6 (ipv6_text bs)" and ?digits = "concat (List.map hex_byte bs)"
  let ?ps = "List.map (\<lambda>c. [c]) ?digits"
  have "46 \<notin> set ?t" using compressed_chars [OF assms] addr_char_not_dot by auto
  then have one: "length (js_split [46] ?t) \<noteq> 4" by (simp add: js_split_plain)
  have nibbles: "concat (List.map (\<lambda>byte'. List.map (\<lambda>n. num_str 16 (nat n))
      [js_shr (uint byte') 4, js_and (uint byte') 0xf]) bs) = ?ps"
    unfolding nibble_parts by (induction bs) simp_all
  have "ipToPtrName ?t = Inr (js_join [46] (rev ?ps) @ [46] @ js_join [46] [lit ''ip6'', lit ''arpa''])"
    unfolding ipToPtrName_def lit_sep Let_def if_not_P [OF one] expand_compress [OF assms]
      serialize_ipv6_texts(1) [OF assms] bnd_simps nibbles arpa_names(2) ..
  moreover have ne: "?ps \<noteq> []" using assms by (cases bs) (auto simp: hex_byte_nibbles byte_nibbles_def)
  have parts: "p \<noteq> [] \<and> 46 \<notin> set p" if p: "p \<in> set ?ps" for p
  proof -
    obtain c b where "p = [c]" "c \<in> set (hex_byte b)" using p by auto
    moreover from this(2) obtain d where "d < 16" "c = digit_char d"
      unfolding hex_byte_nibbles using byte_nibbles_less by auto
    ultimately show ?thesis using digit_char_not_sep(2) [of d] by auto
  qed
  have groups: "byte_groups bs \<noteq> []" using assms by (simp flip: length_greater_0_conv)
  have "drop_final_colon (colon_groups (concat ?ps)) = ipv6_text bs"
    using drop_final_colon_groups [OF groups] colon_groups_bytes [of bs] assms
    by (simp add: ipv6_text_def lit_sep)
  then have "ptrNameToIP (js_join [46] (rev ?ps) @ [46] @ js_join [46] [lit ''ip6'', lit ''arpa''])
    = Inr (PtrIPv6 ?t)"
    unfolding ptrNameToIP_def lit_sep Let_def
    using reversed_parts [of ?ps, OF ne parts arpa_names(8,5)] arpa_names(9) by simp
  ultimately show ?thesis by simp
qed

subsection \<open>Properties\<close>

text \<open>Every address survives the way through its PTR name: the text of four bytes, and the
  compressed text of sixteen bytes, come back from \<open>ptrNameToIP\<close> as they were, in their family.\<close>

theorem ptr_name_roundtrip:
  assumes "length ip4 = 4" "length ip6 = 16"
  shows "bnd (ipToPtrName (ipv4_text ip4)) ptrNameToIP = Inr (PtrIPv4 (ipv4_text ip4))
    \<and> bnd (ipToPtrName (compressIPv6 (ipv6_text ip6))) ptrNameToIP
      = Inr (PtrIPv6 (compressIPv6 (ipv6_text ip6)))"
  using ptr_ipv4 [OF assms(1)] ptr_ipv6 [OF assms(2)] by simp

theorem ptr_name_roundtrip_witness:
  "bnd (ipToPtrName (ipv4_text [10, 0, 0, 1])) ptrNameToIP = Inr (PtrIPv4 (ipv4_text [10, 0, 0, 1]))"
  using ptr_name_roundtrip [of "[10, 0, 0, 1]" "replicate 16 0"] by simp

end
