(* ===== verification/Dns_Peers.thy ===== *)
theory Dns_Peers
  imports Dns_Message Dns_Util
begin

text \<open>
  \<open>packages/dns/src/dns-server.ts\<close> and \<open>dns-client.ts\<close>. The user's callback of the server is
  an argument: from a name and a type to a response, or a rejection. The client's network is an
  argument too: from the bytes of a query to the datagrams that its socket receives before it closes.
  Console output and the opening of sockets are left out.
\<close>

subsection \<open>The server\<close>

record dns_response =
  resp_ttl :: int
  resp_data :: dns_data

text \<open>What the callback resolves to: nothing, one response or an array.\<close>

datatype dns_reply = NoResponse | OneResponse dns_response | Responses "dns_response list"

type_synonym request_fn = "jstring \<Rightarrow> dns_type \<Rightarrow> dns_reply res"

record dns_datagram =
  dg_host :: jstring
  dg_port :: int
  dg_data :: u8array

record dns_sent =
  sent_host :: jstring
  sent_port :: int
  sent_data :: bytes

definition response_header :: "dns_header \<Rightarrow> dns_rcode \<Rightarrow> dns_header" where
  "response_header header rcode =
     header\<lparr>h_isResponse := True, h_isRecursionAvailable := False, h_rcode := rcode\<rparr>"

text \<open>The spread of a response over name and class.\<close>

definition answer_record :: "dns_question \<Rightarrow> dns_response \<Rightarrow> dns_record" where
  "answer_record question response =
     \<lparr>r_name = q_name question, r_class = C_IN, r_ttl = resp_ttl response, r_data = resp_data response\<rparr>"

definition createResponseMessage :: "dns_message \<Rightarrow> dns_reply \<Rightarrow> dns_message res" where
  "createResponseMessage query response =
     (case response of
        NoResponse \<Rightarrow>
          Inr \<lparr>m_header = response_header (m_header query) NXDOMAIN, m_questions = m_questions query,
               m_answers = Some [], m_authorities = Some [], m_additionals = Some []\<rparr>
      | _ \<Rightarrow>
          (case m_questions query of
             [] \<Rightarrow> throw ''no question found in dns message''
           | question # _ \<Rightarrow>
               if q_class question \<noteq> C_IN then throw ''only IN class is supported''
               else
                 let responses = (case response of Responses rs \<Rightarrow> rs | OneResponse r \<Rightarrow> [r] | NoResponse \<Rightarrow> [])
                 in Inr \<lparr>m_header = response_header (m_header query) NOERROR,
                         m_questions = m_questions query,
                         m_answers = Some (List.map (answer_record question) responses),
                         m_authorities = Some [], m_additionals = Some []\<rparr>))"

definition handleRequestMessage :: "dns_message \<Rightarrow> request_fn \<Rightarrow> dns_message res" where
  "handleRequestMessage requestMessage request =
     (if length (m_questions requestMessage) > 1 then throw ''only one dns question is supported''
      else case m_questions requestMessage of
        [] \<Rightarrow> throw ''no question found in dns message''
      | question # _ \<Rightarrow>
          if q_class question \<noteq> C_IN then throw ''only IN class is supported''
          else bnd (request (q_name question) (q_type question)) (\<lambda>response.
            createResponseMessage requestMessage response))"

text \<open>One datagram: the reply to its sender, or none when an error was caught.\<close>

definition processDnsMessage :: "dns_datagram \<Rightarrow> request_fn \<Rightarrow> dns_sent option" where
  "processDnsMessage datagram request =
     (case bnd (parseDnsMessage (dg_data datagram)) (\<lambda>requestMessage.
           bnd (handleRequestMessage requestMessage request) serializeDnsMessage) of
        Inr data \<Rightarrow> Some \<lparr>sent_host = dg_host datagram, sent_port = dg_port datagram, sent_data = data\<rparr>
      | Inl _ \<Rightarrow> None)"

subsection \<open>The client\<close>

record dns_client =
  cl_messageId :: int

definition client_init :: dns_client where
  "client_init = \<lparr>cl_messageId = 0\<rparr>"

definition getNextMessageId :: "dns_client \<Rightarrow> int \<times> dns_client" where
  "getNextMessageId c = (let i = (cl_messageId c + 1) mod 65536 in (i, c\<lparr>cl_messageId := i\<rparr>))"

definition query_message :: "int \<Rightarrow> jstring \<Rightarrow> dns_type \<Rightarrow> dns_message" where
  "query_message messageId name type =
     \<lparr>m_header = \<lparr>h_id = messageId, h_isResponse = False, h_opcode = QUERY,
        h_isAuthoritativeAnswer = False, h_isTruncated = False, h_isRecursionDesired = True,
        h_isRecursionAvailable = False, h_rcode = NOERROR, h_questionCount = 0, h_answerCount = 0,
        h_authorityCount = 0, h_additionalCount = 0\<rparr>,
      m_questions = [\<lparr>q_name = name, q_type = type, q_class = C_IN\<rparr>],
      m_answers = None, m_authorities = None, m_additionals = None\<rparr>"

definition rcode_name :: "dns_rcode \<Rightarrow> jstring" where
  "rcode_name r =
     (case r of NOERROR \<Rightarrow> lit ''NOERROR'' | FORMERR \<Rightarrow> lit ''FORMERR'' | SERVFAIL \<Rightarrow> lit ''SERVFAIL''
      | NXDOMAIN \<Rightarrow> lit ''NXDOMAIN'' | NOTIMP \<Rightarrow> lit ''NOTIMP'' | REFUSED \<Rightarrow> lit ''REFUSED'')"

text \<open>The loop over the received datagrams.\<close>

fun await_response :: "int \<Rightarrow> u8array list \<Rightarrow> dns_record res" where
  "await_response messageId [] = throw ''udp socket closed before receiving response''"
| "await_response messageId (datagram # datagrams) =
     bnd (parseDnsMessage datagram) (\<lambda>response.
       if h_id (m_header response) \<noteq> messageId then await_response messageId datagrams
       else if h_rcode (m_header response) \<noteq> NOERROR
       then Inl (Error (lit ''dns query failed with rcode: '' @ rcode_name (h_rcode (m_header response))))
       else if h_answerCount (m_header response) > 1 then throw ''expected exactly one dns answer''
       else case section_of (m_answers response) of
         [] \<Rightarrow> throw ''no dns answer found''
       | answer # _ \<Rightarrow> Inr answer)"

type_synonym network = "bytes \<Rightarrow> u8array list"

definition client_query :: "network \<Rightarrow> jstring \<Rightarrow> dns_type \<Rightarrow> dns_client \<Rightarrow> dns_record res \<times> dns_client" where
  "client_query net name type c =
     (case getNextMessageId c of (messageId, c') \<Rightarrow>
        (bnd (serializeDnsMessage (query_message messageId name type)) (\<lambda>data.
           await_response messageId (net data)), c'))"

datatype lookup_family = Family_4 | Family_6 | Family_any

text \<open>A lookup of one family, and the one that tries IPv6 first.\<close>

definition lookup_type :: "network \<Rightarrow> jstring \<Rightarrow> dns_type \<Rightarrow> dns_client \<Rightarrow> jstring res \<times> dns_client" where
  "lookup_type net name type c =
     (case client_query net name type c of (response, c') \<Rightarrow>
        (bnd response (\<lambda>record'.
           case r_data record' of
             Rec_A ip \<Rightarrow> if type = T_A then Inr ip
               else Inl (Error (lit ''no '' @ dns_type_name type @ lit '' record found for '' @ name))
           | Rec_AAAA ip \<Rightarrow> if type = T_AAAA then Inr ip
               else Inl (Error (lit ''no '' @ dns_type_name type @ lit '' record found for '' @ name))
           | _ \<Rightarrow> Inl (Error (lit ''no '' @ dns_type_name type @ lit '' record found for '' @ name))), c'))"

definition client_lookup :: "network \<Rightarrow> jstring \<Rightarrow> lookup_family \<Rightarrow> dns_client \<Rightarrow> jstring res \<times> dns_client" where
  "client_lookup net name family c =
     (case family of
        Family_any \<Rightarrow>
          (case lookup_type net name T_AAAA c of
             (Inr ip, c') \<Rightarrow> (Inr ip, c')
           | (Inl _, c') \<Rightarrow> lookup_type net name T_A c')
      | Family_6 \<Rightarrow> lookup_type net name T_AAAA c
      | Family_4 \<Rightarrow> lookup_type net name T_A c)"

definition client_reverse :: "network \<Rightarrow> jstring \<Rightarrow> dns_client \<Rightarrow> jstring res \<times> dns_client" where
  "client_reverse net ip c =
     (case ipToPtrName ip of
        Inl e \<Rightarrow> (Inl e, c)
      | Inr ptrName \<Rightarrow>
          (case client_query net ptrName T_PTR c of (response, c') \<Rightarrow>
             (bnd response (\<lambda>record'.
                case r_data record' of
                  Rec_PTR ptr \<Rightarrow> Inr ptr
                | _ \<Rightarrow> Inl (Error (lit ''No PTR record found for '' @ ip))), c')))"

subsection \<open>A client and a server\<close>

text \<open>The network that hands each query to a server and its reply, if any, to the client.\<close>

definition server_net :: "request_fn \<Rightarrow> network" where
  "server_net request data =
     (case processDnsMessage \<lparr>dg_host = lit ''client'', dg_port = 1024, dg_data = ua_whole data\<rparr> request of
        Some reply \<Rightarrow> [ua_whole (sent_data reply)]
      | None \<Rightarrow> [])"

definition responses_of :: "dns_reply \<Rightarrow> dns_response list" where
  "responses_of reply = (case reply of NoResponse \<Rightarrow> [] | OneResponse r \<Rightarrow> [r] | Responses rs \<Rightarrow> rs)"

definition response_ok :: "dns_response \<Rightarrow> bool" where
  "response_ok r \<longleftrightarrow> is_u32 (resp_ttl r) \<and> data_ok (resp_data r)"

text \<open>What a query should give, from the callback's response alone.\<close>

definition expected_record :: "jstring \<Rightarrow> dns_type \<Rightarrow> dns_reply \<Rightarrow> dns_record res" where
  "expected_record name type reply =
     (case reply of
        NoResponse \<Rightarrow> throw ''dns query failed with rcode: NXDOMAIN''
      | _ \<Rightarrow> (case responses_of reply of
            [] \<Rightarrow> throw ''no dns answer found''
          | [r] \<Rightarrow> Inr (answer_record \<lparr>q_name = name, q_type = type, q_class = C_IN\<rparr> r)
          | _ \<Rightarrow> throw ''expected exactly one dns answer''))"

lemma query_message_ok:
  assumes "name_ok name" "is_u16 i"
  shows "message_ok (query_message i name type)"
  using assms by (simp add: message_ok_def query_message_def question_ok_def section_of_def)

lemma reply_message_ok:
  assumes "message_ok q" "m_questions q = [qu]"
    and "list_all response_ok (responses_of reply)" "length (responses_of reply) < 65536"
  shows "\<exists>m. createResponseMessage q reply = Inr m \<and> message_ok m \<and> h_id (m_header m) = h_id (m_header q)
    \<and> h_rcode (m_header m) = (if reply = NoResponse then NXDOMAIN else NOERROR)
    \<and> section_of (m_answers m) = List.map (answer_record qu) (responses_of reply)"
proof -
  have "name_ok (q_name qu)" using assms(1,2) by (simp add: message_ok_def question_ok_def)
  then have "list_all record_ok (List.map (answer_record qu) (responses_of reply))"
    using assms(3) by (simp add: list_all_iff response_ok_def record_ok_def answer_record_def)
  moreover have "q_class qu = C_IN" by (cases "q_class qu")
  ultimately show ?thesis
    using assms by (cases reply)
      (auto simp: createResponseMessage_def message_ok_def response_header_def section_of_def responses_of_def)
qed

lemma getNextMessageId_u16: "getNextMessageId c = (i, c') \<Longrightarrow> is_u16 i"
  by (auto simp: getNextMessageId_def Let_def is_u16_def)

lemma served_query:
  assumes "name_ok name" "is_u16 i" "request name type = Inr reply"
    and "list_all response_ok (responses_of reply)" "length (responses_of reply) < 65536"
  shows "bnd (serializeDnsMessage (query_message i name type)) (\<lambda>data. await_response i (server_net request data))
    = expected_record name type reply"
proof -
  let ?q = "query_message i name type" and ?qu = "\<lparr>q_name = name, q_type = type, q_class = C_IN\<rparr>"
  have q: "message_ok ?q" using assms(1,2) by (rule query_message_ok)
  obtain bs where bs: "serializeDnsMessage ?q = Inr bs" "parseDnsMessage (ua_whole bs) = Inr (parsed_form ?q)"
    using serializeDnsMessage_parsed [OF q] by blast
  have pq: "message_ok (parsed_form ?q)" "m_questions (parsed_form ?q) = [?qu]" "h_id (m_header (parsed_form ?q)) = i"
    using q by (simp_all add: parsed_form_def update_counts_def query_message_def message_ok_def section_of_def)
  obtain m where m: "createResponseMessage (parsed_form ?q) reply = Inr m" "message_ok m"
      "h_id (m_header m) = i" "h_rcode (m_header m) = (if reply = NoResponse then NXDOMAIN else NOERROR)"
      "section_of (m_answers m) = List.map (answer_record ?qu) (responses_of reply)"
    using reply_message_ok [OF pq(1,2) assms(4,5)] pq(3) by auto
  obtain rs where rs: "serializeDnsMessage m = Inr rs" "parseDnsMessage (ua_whole rs) = Inr (parsed_form m)"
    using serializeDnsMessage_parsed [OF m(2)] by blast
  have "handleRequestMessage (parsed_form ?q) request = Inr m"
    using pq(2) assms(3) m(1) by (simp add: handleRequestMessage_def)
  then have net: "server_net request bs = [ua_whole rs]"
    using bs(2) rs(1) by (simp add: server_net_def processDnsMessage_def)
  have pm: "h_id (m_header (parsed_form m)) = i" "h_rcode (m_header (parsed_form m)) = h_rcode (m_header m)"
      "h_answerCount (m_header (parsed_form m)) = int (length (responses_of reply))"
      "section_of (m_answers (parsed_form m)) = List.map (answer_record ?qu) (responses_of reply)"
    using m(3,5) by (simp_all add: parsed_form_def update_counts_def section_of_def)
  have "await_response i [ua_whole rs] = expected_record name type reply"
    using rs(2) pm m(4)
    by (cases reply) (auto simp: expected_record_def responses_of_def rcode_name_def lit_append [symmetric] split: list.splits)
  with bs(1) net show ?thesis by simp
qed

subsection \<open>Properties\<close>

text \<open>C20: A query through a DNS server is a call of the server's callback: with a name and responses
  that the wire format can carry, the client's query over a server gives exactly the record made from
  the callback's one response, the NXDOMAIN error when the callback returned nothing, and the client's
  own errors when it returned no or several responses.\<close>

theorem dns_query_served:
  assumes "name_ok name" "request name type = Inr reply"
    and "list_all response_ok (responses_of reply)" "length (responses_of reply) < 65536"
  shows "fst (client_query (server_net request) name type c) = expected_record name type reply"
proof -
  obtain i c' where i: "getNextMessageId c = (i, c')" by (cases "getNextMessageId c")
  from served_query [of name i request, OF assms(1) getNextMessageId_u16 [OF i] assms(2-4)] i
  show ?thesis by (simp add: client_query_def)
qed

definition example_request :: request_fn where
  "example_request name type =
     (if type = T_A then Inr (OneResponse \<lparr>resp_ttl = 60, resp_data = Rec_A (ipv4_text [10, 0, 0, 1])\<rparr>)
      else Inr NoResponse)"

lemma example_response_ok: "response_ok \<lparr>resp_ttl = 60, resp_data = Rec_A (ipv4_text [10, 0, 0, 1])\<rparr>"
proof -
  have "valid_ipv4 (ipv4_text [10, 0, 0, 1])" by simp
  then show ?thesis by (simp add: response_ok_def is_u32_def)
qed

theorem dns_query_served_witness:
  "fst (client_query (server_net example_request) (lit ''a.io'') T_A client_init)
    = Inr \<lparr>r_name = lit ''a.io'', r_class = C_IN, r_ttl = 60, r_data = Rec_A (ipv4_text [10, 0, 0, 1])\<rparr>"
  using dns_query_served [OF example_name_ok, of example_request T_A
      "OneResponse \<lparr>resp_ttl = 60, resp_data = Rec_A (ipv4_text [10, 0, 0, 1])\<rparr>" client_init] example_response_ok
  by (simp add: example_request_def responses_of_def expected_record_def answer_record_def)

text \<open>A lookup of any family over a server returns the IPv6 address when the callback gives one,
  and else, when the callback has nothing for AAAA, the IPv4 address it gives for A.\<close>

theorem dns_lookup_prefers_ipv6:
  assumes "name_ok name" "response_ok r"
    and "request name T_AAAA = Inr (OneResponse r) \<and> resp_data r = Rec_AAAA ip
      \<or> request name T_AAAA = Inr NoResponse \<and> request name T_A = Inr (OneResponse r) \<and> resp_data r = Rec_A ip"
  shows "fst (client_lookup (server_net request) name Family_any c) = Inr ip"
proof -
  have one: "fst (client_query (server_net request) name t c')
      = Inr (answer_record \<lparr>q_name = name, q_type = t, q_class = C_IN\<rparr> r)"
    if t: "request name t = Inr (OneResponse r)" for t c'
  proof -
    obtain i c2 where i: "getNextMessageId c' = (i, c2)" by (cases "getNextMessageId c'")
    from served_query [of name i request, OF assms(1) getNextMessageId_u16 [OF i] t] i assms(2)
    show ?thesis by (simp add: client_query_def responses_of_def expected_record_def)
  qed
  have none: "fst (client_query (server_net request) name t c') = throw ''dns query failed with rcode: NXDOMAIN''"
    if t: "request name t = Inr NoResponse" for t c'
  proof -
    obtain i c2 where i: "getNextMessageId c' = (i, c2)" by (cases "getNextMessageId c'")
    from served_query [of name i request, OF assms(1) getNextMessageId_u16 [OF i] t] i
    show ?thesis by (simp add: client_query_def responses_of_def expected_record_def)
  qed
  have lookup: "fst (lookup_type net name t c') = Inr ip"
    if "fst (client_query net name t c') = Inr x" "r_data x = (if t = T_A then Rec_A ip else Rec_AAAA ip)"
       "t = T_A \<or> t = T_AAAA" for net t c' x
    using that by (auto simp: lookup_type_def split: prod.split)
  from assms(3) show ?thesis
  proof
    assume r: "request name T_AAAA = Inr (OneResponse r) \<and> resp_data r = Rec_AAAA ip"
    then have "fst (lookup_type (server_net request) name T_AAAA c) = Inr ip"
      by (intro lookup [OF one]) (simp_all add: answer_record_def)
    then show ?thesis by (auto simp: client_lookup_def split: prod.split sum.split)
  next
    assume r: "request name T_AAAA = Inr NoResponse \<and> request name T_A = Inr (OneResponse r)
      \<and> resp_data r = Rec_A ip"
    then have "fst (lookup_type (server_net request) name T_A c') = Inr ip" for c'
      by (intro lookup [OF one]) (simp_all add: answer_record_def)
    moreover have "fst (lookup_type (server_net request) name T_AAAA c) = throw ''dns query failed with rcode: NXDOMAIN''"
      using none [of T_AAAA c] r by (auto simp: lookup_type_def split: prod.split)
    ultimately show ?thesis by (auto simp: client_lookup_def split: prod.split sum.split)
  qed
qed

theorem dns_lookup_prefers_ipv6_witness:
  "fst (client_lookup (server_net example_request) (lit ''a.io'') Family_any client_init)
    = Inr (ipv4_text [10, 0, 0, 1])"
  using dns_lookup_prefers_ipv6 [OF example_name_ok example_response_ok,
      of example_request "ipv4_text [10, 0, 0, 1]" client_init]
  by (simp add: example_request_def)

text \<open>A client takes the answer of the first datagram that carries the id of its query, whatever
  the name, type and question in it, whoever sent it, and even when it is not marked as a response;
  datagrams with other ids before it are skipped.\<close>

theorem dns_client_accepts_by_id:
  assumes "message_ok m" "h_id (m_header m) = i" "h_rcode (m_header m) = NOERROR" "m_answers m = Some [r]"
    and "message_ok other" "h_id (m_header other) \<noteq> i"
  shows "\<exists>b1 b2. serializeDnsMessage other = Inr b1 \<and> serializeDnsMessage m = Inr b2
    \<and> await_response i (ua_whole b1 # ua_whole b2 # later) = Inr r"
proof -
  obtain b1 b2 where b: "serializeDnsMessage other = Inr b1" "parseDnsMessage (ua_whole b1) = Inr (parsed_form other)"
      "serializeDnsMessage m = Inr b2" "parseDnsMessage (ua_whole b2) = Inr (parsed_form m)"
    using serializeDnsMessage_parsed [OF assms(1)] serializeDnsMessage_parsed [OF assms(5)] by blast
  moreover have "h_id (m_header (parsed_form other)) \<noteq> i" "h_id (m_header (parsed_form m)) = i"
      "h_rcode (m_header (parsed_form m)) = NOERROR" "section_of (m_answers (parsed_form m)) = [r]"
      "h_answerCount (m_header (parsed_form m)) = 1"
    using assms by (simp_all add: parsed_form_def update_counts_def section_of_def)
  ultimately show ?thesis by simp
qed

definition example_spoof :: dns_message where
  "example_spoof = (query_message 1 (lit ''a.io'') T_A)\<lparr>m_answers :=
     Some [\<lparr>r_name = lit ''a.io'', r_class = C_IN, r_ttl = 1, r_data = Rec_PTR (lit ''a.io'')\<rparr>]\<rparr>"

theorem dns_client_accepts_by_id_witness:
  "\<exists>b1 b2. serializeDnsMessage (query_message 2 (lit ''a.io'') T_A) = Inr b1 \<and> serializeDnsMessage example_spoof = Inr b2
    \<and> await_response 1 [ua_whole b1, ua_whole b2]
      = Inr \<lparr>r_name = lit ''a.io'', r_class = C_IN, r_ttl = 1, r_data = Rec_PTR (lit ''a.io'')\<rparr>"
proof -
  have "length (lit ''a.io'') < 65534" by (simp add: lit_simps)
  then have "message_ok example_spoof"
    using query_message_ok [OF example_name_ok, of 1 T_A] example_name_ok
    by (simp add: example_spoof_def message_ok_def section_of_def record_ok_def is_u16_def is_u32_def)
  moreover have "message_ok (query_message 2 (lit ''a.io'') T_A)"
    by (rule query_message_ok [OF example_name_ok]) (simp add: is_u16_def)
  ultimately show ?thesis
    using dns_client_accepts_by_id [of example_spoof 1
        "\<lparr>r_name = lit ''a.io'', r_class = C_IN, r_ttl = 1, r_data = Rec_PTR (lit ''a.io'')\<rparr>"
        "query_message 2 (lit ''a.io'') T_A" "[]"]
    by (simp add: example_spoof_def query_message_def)
qed

text \<open>The ids of the next \<open>n\<close> queries.\<close>

fun next_ids :: "nat \<Rightarrow> dns_client \<Rightarrow> int list" where
  "next_ids 0 c = []"
| "next_ids (Suc n) c = (case getNextMessageId c of (i, c') \<Rightarrow> i # next_ids n c')"

lemma next_ids_eq: "next_ids n c = List.map (\<lambda>k. (cl_messageId c + 1 + int k) mod 65536) [0..<n]"
proof (induction n arbitrary: c)
  case (Suc n)
  have "next_ids (Suc n) c = (cl_messageId c + 1) mod 65536
      # List.map (\<lambda>k. ((cl_messageId c + 1) mod 65536 + 1 + int k) mod 65536) [0..<n]"
    using Suc.IH by (simp add: getNextMessageId_def Let_def)
  also have "\<dots> = List.map (\<lambda>k. (cl_messageId c + 1 + int k) mod 65536) [0..<Suc n]"
  proof -
    have "((m + 1) mod 65536 + 1 + int k) mod 65536 = (m + 1 + int (Suc k)) mod 65536" for m k
      using mod_add_left_eq [of "m + 1" 65536 "1 + int k"] by (simp only: ac_simps of_nat_Suc)
    then show ?thesis unfolding map_upt_Suc by (simp del: of_nat_Suc)
  qed
  finally show ?case .
qed simp

text \<open>The message ids of a client cycle through 16 bits: every id fits the header field, and any
  65536 queries in a row have different ids.\<close>

theorem dns_message_ids_distinct:
  assumes "n \<le> 65536"
  shows "distinct (next_ids n c) \<and> list_all is_u16 (next_ids n c)"
proof -
  have "inj_on (\<lambda>k. (cl_messageId c + 1 + int k) mod 65536) {0..<n}"
  proof (rule inj_onI)
    fix j k
    assume jk: "j \<in> {0..<n}" "k \<in> {0..<n}"
      "(cl_messageId c + 1 + int j) mod 65536 = (cl_messageId c + 1 + int k) mod 65536"
    from jk(3) have "65536 dvd int j - int k" by (simp add: mod_eq_dvd_iff)
    moreover have "\<bar>int j - int k\<bar> < 65536" using jk(1,2) assms by auto
    ultimately have "int j - int k = 0" by (metis dvd_imp_le_int linorder_not_less abs_numeral)
    then show "j = k" by simp
  qed
  then show ?thesis by (auto simp: next_ids_eq distinct_map list_all_iff is_u16_def)
qed

theorem dns_message_ids_distinct_witness:
  "next_ids 3 \<lparr>cl_messageId = 65534\<rparr> = [65535, 0, 1] \<and> distinct (next_ids 3 \<lparr>cl_messageId = 65534\<rparr>)"
proof -
  have "(3 :: nat) \<le> 65536" by simp
  note distinct = dns_message_ids_distinct [OF this, of "\<lparr>cl_messageId = 65534\<rparr>"]
  have "next_ids (Suc (Suc (Suc 0))) \<lparr>cl_messageId = 65534\<rparr> = [65535, 0, 1]"
    by (simp add: getNextMessageId_def)
  with distinct show ?thesis by (simp only: numeral_3_eq_3 simp_thms)
qed

end
