(* ===== verification/Ip_Addr.thy ===== *)
theory Ip_Addr
  imports Wire_Chars Wire_Netmask
begin

text \<open>
  \<open>packages/tcpip/src/ip.ts\<close>: addresses of both families, CIDR notation, masking and prefix
  matching. Bits are numbered from the first bit of the first byte (\<open>net_bit\<close>).
\<close>

datatype address_family = Family4 | Family6

record parsed_address =
  pa_family :: address_family
  pa_bytes :: bytes

record parsed_cidr = parsed_address +
  pc_prefixLength :: nat
  pc_canonical :: jstring
  pc_networkBytes :: bytes
  pc_network :: jstring

definition parseAddress :: "jstring \<Rightarrow> parsed_address res" where
  "parseAddress address =
     (case serializeIPv4Address address of
        Inr bytes \<Rightarrow> Inr \<lparr>pa_family = Family4, pa_bytes = bytes\<rparr>
      | Inl _ \<Rightarrow> bnd (serializeIPv6Address address) (\<lambda>bytes.
          Inr \<lparr>pa_family = Family6, pa_bytes = bytes\<rparr>))"

definition formatAddress :: "address_family \<Rightarrow> bytes \<Rightarrow> jstring res" where
  "formatAddress family bytes =
     (case family of
        Family4 \<Rightarrow> parseIPv4Address bytes
      | Family6 \<Rightarrow> bnd (parseIPv6Address bytes) (\<lambda>ip. Inr (compressIPv6 ip)))"

subsection \<open>Masks and matching\<close>

text \<open>The loop that clears the bytes from \<open>index\<close> on.\<close>

function clear_loop :: "nat \<Rightarrow> bytes \<Rightarrow> bytes" where
  "clear_loop index masked =
     (if index < length masked then clear_loop (index + 1) (masked[index := 0]) else masked)"
  by pat_completeness auto
termination
  by (relation "measure (\<lambda>(i, m). length m - i)") auto

declare clear_loop.simps [simp del]

text \<open>\<open>(0xff << (8 - partialBits)) & 0xff\<close>\<close>

definition partial_mask :: "nat \<Rightarrow> int" where
  "partial_mask partialBits = js_and (js_shl 0xff (8 - int partialBits)) 0xff"

definition maskAddress :: "bytes \<Rightarrow> nat \<Rightarrow> bytes" where
  "maskAddress bytes prefixLength =
     (let wholeBytes = prefixLength div 8;
          partialBits = prefixLength mod 8;
          masked =
            (if partialBits > 0 \<and> wholeBytes < length bytes
             then bytes[wholeBytes := of_int (js_and (uint (bytes ! wholeBytes)) (partial_mask partialBits))]
             else bytes)
      in clear_loop (wholeBytes + (if partialBits > 0 then 1 else 0)) masked)"

text \<open>The comparison of the first \<open>wholeBytes\<close> bytes; out of range both are \<open>undefined\<close>.\<close>

fun equal_upto :: "nat \<Rightarrow> bytes \<Rightarrow> bytes \<Rightarrow> bool" where
  "equal_upto 0 a n = True"
| "equal_upto (Suc k) (x # a) (y # n) = (x = y \<and> equal_upto k a n)"
| "equal_upto (Suc k) a n = (a = n)"

definition prefixMatches :: "bytes \<Rightarrow> bytes \<Rightarrow> nat \<Rightarrow> bool" where
  "prefixMatches address network prefixLength =
     (if length address \<noteq> length network then False
      else
        let wholeBytes = prefixLength div 8; partialBits = prefixLength mod 8 in
        if \<not> equal_upto wholeBytes address network then False
        else if partialBits = 0 then True
        else
          let mask' = partial_mask partialBits in
          js_and (byte_at address wholeBytes) mask' = js_and (byte_at network wholeBytes) mask')"

definition equalBytes :: "bytes \<Rightarrow> bytes \<Rightarrow> bool" where
  "equalBytes left right =
     (if length left \<noteq> length right then False
      else list_all (\<lambda>(a, b). a = b) (zip left right))"

subsection \<open>CIDR notation\<close>

fun last_index :: "'a \<Rightarrow> 'a list \<Rightarrow> nat option" where
  "last_index c [] = None"
| "last_index c (x # xs) =
     (case last_index c xs of Some i \<Rightarrow> Some (i + 1) | None \<Rightarrow> if x = c then Some 0 else None)"

definition cidr_error :: "string \<Rightarrow> jstring \<Rightarrow> 'a res" where
  "cidr_error msg cidr = Inl (Error (lit msg @ cidr))"

definition parseInterfaceCidr :: "jstring \<Rightarrow> parsed_cidr res" where
  "parseInterfaceCidr cidr =
     (case last_index 47 cidr of
        None \<Rightarrow> cidr_error ''invalid CIDR: '' cidr
      | Some slash \<Rightarrow>
          if slash = 0 \<or> slash = length cidr - 1 then cidr_error ''invalid CIDR: '' cidr
          else
            bnd (parseAddress (subarray 0 slash cidr)) (\<lambda>address.
            let rawPrefix = List.drop (slash + 1) cidr in
            if rawPrefix = [] \<or> \<not> list_all is_digit rawPrefix
            then cidr_error ''invalid CIDR prefix: '' cidr
            else
              let prefixLength = dec_value rawPrefix;
                  max' = length (pa_bytes address) * 8
              in
              if prefixLength > max' then cidr_error ''invalid CIDR prefix: '' cidr
              else
                let networkBytes = maskAddress (pa_bytes address) prefixLength in
                bnd (formatAddress (pa_family address) (pa_bytes address)) (\<lambda>text.
                bnd (formatAddress (pa_family address) networkBytes) (\<lambda>netText.
                  Inr \<lparr>pa_family = pa_family address, pa_bytes = pa_bytes address,
                       pc_prefixLength = prefixLength,
                       pc_canonical = text @ lit ''/'' @ num_str 10 prefixLength,
                       pc_networkBytes = networkBytes,
                       pc_network = netText @ lit ''/'' @ num_str 10 prefixLength\<rparr>))))"

definition parseCidr :: "jstring \<Rightarrow> parsed_cidr res" where
  "parseCidr cidr =
     bnd (parseInterfaceCidr cidr) (\<lambda>parsed.
       if \<not> equalBytes (pc_networkBytes parsed) (pa_bytes parsed)
       then cidr_error ''CIDR has non-zero host bits: '' cidr
       else Inr parsed)"

subsection \<open>Masks, bit by bit\<close>

lemma length_clear_loop [simp]: "length (clear_loop i m) = length m"
  by (induction i m rule: clear_loop.induct) (subst clear_loop.simps, simp)

lemma nth_clear_loop: "j < length m \<Longrightarrow> clear_loop i m ! j = (if i \<le> j then 0 else m ! j)"
proof (induction i m rule: clear_loop.induct)
  case (1 i m)
  then show ?case by (subst clear_loop.simps) (auto simp: nth_list_update)
qed

lemma partial_mask_push:
  assumes "0 < p" "p < 8"
  shows "partial_mask p = push_bit (8 - p) 255 AND 255"
proof -
  have k: "nat ((8 - int p) mod 32) = 8 - p" using assms by simp
  have "push_bit (8 - p) (255 :: int) = 255 * 2 ^ (8 - p)" by (simp add: push_bit_eq_mult)
  moreover have "(2 :: int) ^ (8 - p) \<le> 2 ^ 8" by (intro power_increasing) simp_all
  ultimately have "to_int32 (push_bit (8 - p) 255) = push_bit (8 - p) 255" by simp
  then show ?thesis by (simp add: partial_mask_def js_and_def js_shl_def k)
qed

lemma bit_partial_mask:
  assumes "0 < p" "p < 8"
  shows "bit (partial_mask p) j \<longleftrightarrow> 8 - p \<le> j \<and> j < 8"
proof -
  have m: "mask 8 = (255 :: int)" by (simp add: mask_eq_exp_minus_1)
  have low: "bit (255 :: int) i \<longleftrightarrow> i < 8" for i
    unfolding m [symmetric] by (simp only: bit_mask_iff possible_bit_int simp_thms)
  show ?thesis
    unfolding partial_mask_push [OF assms] bit_and_iff bit_push_bit_iff low
    using assms by (auto simp: possible_bit_def)
qed

lemma partial_mask_range: "0 < p \<Longrightarrow> p < 8 \<Longrightarrow> 0 \<le> partial_mask p \<and> partial_mask p < 256"
  using AND_upper2 [of 255 "push_bit (8 - p) 255"] by (simp add: partial_mask_push)

lemma bit_masked_byte:
  assumes "0 < p" "p < 8" "j < 8"
  shows "bit (js_and (uint (b :: byte)) (partial_mask p)) j \<longleftrightarrow> bit b j \<and> 8 - p \<le> j"
  using assms partial_mask_range [OF assms(1,2)] uint_byte_bounds [of b]
  by (simp add: js_and_def bit_and_iff bit_partial_mask bit_uint_iff)

lemma bit_masked_byte_word:
  assumes "0 < p" "p < 8" "j < 8"
  shows "bit (of_int (js_and (uint (b :: byte)) (partial_mask p)) :: byte) j \<longleftrightarrow> bit b j \<and> 8 - p \<le> j"
  using assms bit_masked_byte [OF assms] by (simp add: bit_of_int_iff)

lemma length_maskAddress [simp]: "length (maskAddress b n) = length b"
  by (simp add: maskAddress_def Let_def)

lemma net_bit_maskAddress:
  assumes "i < 8 * length b"
  shows "net_bit (maskAddress b n) i \<longleftrightarrow> i < n \<and> net_bit b i"
proof -
  define w p j r where "w = n div 8" and "p = n mod 8" and "j = i div 8" and "r = i mod 8"
  have n: "n = 8 * w + p" "p < 8" and i: "i = 8 * j + r" "r < 8"
    by (simp_all add: w_def p_def j_def r_def)
  have j: "j < length b" using assms i by simp
  define m where "m = (if p > 0 \<and> w < length b
      then b[w := of_int (js_and (uint (b ! w)) (partial_mask p))] else b)"
  have mask: "maskAddress b n = clear_loop (w + (if p > 0 then 1 else 0)) m"
    by (simp add: maskAddress_def Let_def m_def w_def p_def)
  have byte: "maskAddress b n ! j = (if w + (if p > 0 then 1 else 0) \<le> j then 0 else m ! j)"
    using j by (simp add: mask nth_clear_loop m_def)
  have net: "net_bit d i = bit (d ! j) (7 - r)" for d
    by (simp add: net_bit_def j_def r_def)
  consider "j < w" | "j = w" "p = 0" | "j = w" "0 < p" | "w < j" by linarith
  then show ?thesis
  proof cases
    case 1
    then have "maskAddress b n ! j = b ! j" using j by (simp add: byte m_def)
    moreover have "i < n" using 1 n i by linarith
    ultimately show ?thesis by (simp add: net)
  next
    case 2
    then have "\<not> i < n" using n i by linarith
    moreover have "maskAddress b n ! j = 0" using 2 byte by simp
    ultimately show ?thesis by (simp add: net)
  next
    case 3
    then have "maskAddress b n ! j = of_int (js_and (uint (b ! j)) (partial_mask p))"
      using j byte by (simp add: m_def)
    moreover have "8 - p \<le> 7 - r \<longleftrightarrow> i < n" using 3 n i by linarith
    ultimately show ?thesis using bit_masked_byte_word [of p "7 - r" "b ! j"] 3 n(2) by (auto simp: net)
  next
    case 4
    then have "\<not> i < n" using n i by linarith
    moreover have "maskAddress b n ! j = 0" using 4 byte by simp
    ultimately show ?thesis by (simp add: net)
  qed
qed

lemma net_bits_eq_listI:
  assumes "length a = length b" "\<And>i. i < 8 * length a \<Longrightarrow> net_bit a i = net_bit b i"
  shows "a = b"
proof (rule nth_equalityI [OF assms(1)])
  fix j assume j: "j < length a"
  show "a ! j = b ! j"
  proof (rule bit_word_eqI)
    fix k assume "k < LENGTH(8)"
    then have k: "k < 8" by simp
    have "net_bit a (8 * j + (7 - k)) = net_bit b (8 * j + (7 - k))"
      using j k by (intro assms(2)) linarith
    moreover have "(8 * j + (7 - k)) div 8 = j" "(8 * j + (7 - k)) mod 8 = 7 - k"
      using k by (simp_all only: mod_mult_self2 mod_mult_self3 mod_mult_self4) simp_all
    moreover have "7 - (7 - k) = k" using k by simp
    ultimately show "bit (a ! j) k = bit (b ! j) k" unfolding net_bit_def by simp
  qed
qed

subsection \<open>Prefix matching, bit by bit\<close>

lemma equal_upto_take: "length a = length n \<Longrightarrow> equal_upto k a n \<longleftrightarrow> List.take k a = List.take k n"
  by (induction k a n rule: equal_upto.induct) auto

lemma take_eq_bits:
  assumes "length a = length n"
  shows "List.take k a = List.take k n \<longleftrightarrow> (\<forall>i < 8 * min k (length a). net_bit a i = net_bit n i)"
proof
  assume t: "List.take k a = List.take k n"
  show "\<forall>i < 8 * min k (length a). net_bit a i = net_bit n i"
  proof (intro allI impI)
    fix i assume "i < 8 * min k (length a)"
    then have "i div 8 < k" by linarith
    then have "a ! (i div 8) = n ! (i div 8)" using t by (metis nth_take)
    then show "net_bit a i = net_bit n i" by (simp add: net_bit_def)
  qed
next
  assume bits: "\<forall>i < 8 * min k (length a). net_bit a i = net_bit n i"
  have taken: "net_bit (List.take k d) i = net_bit d i" if "i < 8 * min k (length d)" for d i
  proof -
    have "i div 8 < k" using that by linarith
    then show ?thesis by (simp add: net_bit_def)
  qed
  show "List.take k a = List.take k n"
    using bits taken assms by (intro net_bits_eq_listI) (auto simp: min.commute)
qed

lemma masked_byte_eq:
  fixes x y :: byte
  assumes "0 < p" "p < 8"
  shows "js_and (uint x) (partial_mask p) = js_and (uint y) (partial_mask p)
    \<longleftrightarrow> (\<forall>r<p. bit x (7 - r) = bit y (7 - r))"
proof
  assume eq: "js_and (uint x) (partial_mask p) = js_and (uint y) (partial_mask p)"
  show "\<forall>r<p. bit x (7 - r) = bit y (7 - r)"
  proof (intro allI impI)
    fix r assume r: "r < p"
    have "bit (js_and (uint x) (partial_mask p)) (7 - r) = bit (js_and (uint y) (partial_mask p)) (7 - r)"
      by (simp only: eq)
    moreover have "8 - p \<le> 7 - r" using r assms(2) by linarith
    ultimately show "bit x (7 - r) = bit y (7 - r)" using assms by (simp add: bit_masked_byte)
  qed
next
  assume bits: "\<forall>r<p. bit x (7 - r) = bit y (7 - r)"
  show "js_and (uint x) (partial_mask p) = js_and (uint y) (partial_mask p)"
  proof (rule bit_eqI)
    fix j
    show "bit (js_and (uint x) (partial_mask p)) j = bit (js_and (uint y) (partial_mask p)) j"
    proof (cases "j < 8")
      case True
      have "bit x j = bit y j" if "8 - p \<le> j"
        using bits [rule_format, of "7 - j"] True that assms by simp
      with True assms show ?thesis by (auto simp: bit_masked_byte)
    next
      case False
      have "\<not> bit (js_and (uint b) (partial_mask p)) j" for b :: byte
      proof -
        have "\<not> bit (uint b) j" using False by (simp add: bit_uint_iff)
        then show ?thesis
          using partial_mask_range [OF assms] uint_byte_bounds [of b]
          by (simp add: js_and_def bit_and_iff)
      qed
      then show ?thesis by simp
    qed
  qed
qed

lemma prefixMatches_bits:
  assumes "n \<le> 8 * length a"
  shows "prefixMatches a d n \<longleftrightarrow> length a = length d \<and> (\<forall>i<n. net_bit a i = net_bit d i)"
proof (cases "length a = length d")
  case False
  then show ?thesis by (simp add: prefixMatches_def)
next
  case True
  define w p where "w = n div 8" and "p = n mod 8"
  have n: "n = 8 * w + p" "p < 8" by (simp_all add: w_def p_def)
  have w: "w \<le> length a" using assms n by linarith
  have whole: "equal_upto w a d \<longleftrightarrow> (\<forall>i < 8 * w. net_bit a i = net_bit d i)"
    using w by (simp add: equal_upto_take [OF True] take_eq_bits [OF True] min_absorb1)
  show ?thesis
  proof (cases "p = 0")
    case True
    then show ?thesis
      using \<open>length a = length d\<close> whole n by (simp add: prefixMatches_def Let_def flip: w_def p_def)
  next
    case False
    then have wl: "w < length a" using assms n by linarith
    have split: "(\<forall>i<n. net_bit a i = net_bit d i)
      \<longleftrightarrow> (\<forall>i < 8 * w. net_bit a i = net_bit d i) \<and> (\<forall>r<p. net_bit a (8 * w + r) = net_bit d (8 * w + r))"
    proof
      assume "\<forall>i<n. net_bit a i = net_bit d i"
      then show "(\<forall>i < 8 * w. net_bit a i = net_bit d i)
          \<and> (\<forall>r<p. net_bit a (8 * w + r) = net_bit d (8 * w + r))"
        using n(1) by simp
    next
      assume bits: "(\<forall>i < 8 * w. net_bit a i = net_bit d i)
          \<and> (\<forall>r<p. net_bit a (8 * w + r) = net_bit d (8 * w + r))"
      show "\<forall>i<n. net_bit a i = net_bit d i"
      proof (intro allI impI)
        fix i assume i: "i < n"
        show "net_bit a i = net_bit d i"
        proof (cases "i < 8 * w")
          case False
          then have "i = 8 * w + (i - 8 * w)" "i - 8 * w < p" using i n(1) by linarith+
          with bits show ?thesis by metis
        qed (use bits in simp)
      qed
    qed
    have "net_bit e (8 * w + r) = bit (e ! w) (7 - r)" if "r < p" for e r
      using that n(2) by (simp add: net_bit_def)
    then have "(\<forall>r<p. net_bit a (8 * w + r) = net_bit d (8 * w + r))
      \<longleftrightarrow> js_and (byte_at a w) (partial_mask p) = js_and (byte_at d w) (partial_mask p)"
      using masked_byte_eq [of p "a ! w" "d ! w"] False n(2) wl \<open>length a = length d\<close>
      by (simp add: byte_at_def)
    then show ?thesis
      using \<open>length a = length d\<close> whole split False
      by (simp add: prefixMatches_def Let_def flip: w_def p_def)
  qed
qed

lemma equalBytes_eq: "equalBytes a b \<longleftrightarrow> a = b"
  by (auto simp: equalBytes_def list_all_iff list_eq_iff_zip_eq)

subsection \<open>Addresses and their texts\<close>

definition family_bytes :: "address_family \<Rightarrow> nat" where
  "family_bytes f = (case f of Family4 \<Rightarrow> 4 | Family6 \<Rightarrow> 16)"

lemma length_groups_loop: "groups_loop i ps = Inr bs \<Longrightarrow> length bs = 2 * length ps"
  by (induction i ps arbitrary: bs rule: groups_loop.induct)
    (auto simp: octet_error_def res_simps split: if_splits)

lemma serializeIPv6Address_length: "serializeIPv6Address ip = Inr bs \<Longrightarrow> length bs = 16"
  by (auto simp: serializeIPv6Address_def Let_def res_simps dest: length_groups_loop split: if_splits)

lemma serializeIPv4Address_length: "serializeIPv4Address ip = Inr bs \<Longrightarrow> length bs = 4"
  by (auto simp: serializeIPv4Address_def Let_def octets_loop_ok split: if_splits)

lemma parseAddress_length:
  "parseAddress s = Inr a \<Longrightarrow> length (pa_bytes a) = family_bytes (pa_family a)"
  by (auto simp: parseAddress_def family_bytes_def res_simps
      dest: serializeIPv6Address_length serializeIPv4Address_length split: sum.splits)

lemma formatAddress_ok:
  assumes "length bs = family_bytes f"
  shows "\<exists>t. formatAddress f bs = Inr t \<and> parseAddress t = Inr \<lparr>pa_family = f, pa_bytes = bs\<rparr>
    \<and> 47 \<notin> set t \<and> t \<noteq> []"
proof (cases f)
  case Family4
  with assms have bs: "length bs = 4" by (simp add: family_bytes_def)
  moreover have "47 \<notin> set (ipv4_text bs)" using ipv4_text_chars [of bs] addr_char_not_slash [of 46] by auto
  moreover have "ipv4_text bs \<noteq> []"
    using serialize_ipv4_text [OF bs] by (metis no_dot_not_ipv4 empty_iff empty_set sum.distinct(1))
  ultimately show ?thesis
    by (simp add: Family4 formatAddress_def parse_ipv4 parseAddress_def serialize_ipv4_text)
next
  case Family6
  with assms have bs: "length bs = 16" by (simp add: family_bytes_def)
  let ?t = "compressIPv6 (ipv6_text bs)"
  have "46 \<notin> set ?t" using compressed_chars [OF bs] addr_char_not_dot by auto
  then have "parseAddress ?t = Inr \<lparr>pa_family = Family6, pa_bytes = bs\<rparr>"
    using serialize_ipv6_texts(2) [OF bs] no_dot_not_ipv4 [of ?t] by (auto simp: parseAddress_def)
  moreover have "47 \<notin> set ?t" using compressed_chars [OF bs] addr_char_not_slash [of 58] by auto
  moreover have "?t \<noteq> []"
  proof
    assume "?t = []"
    with serialize_ipv6_texts(2) [OF bs] have "serializeIPv6Address [] = Inr bs" by simp
    then show False by (simp add: serializeIPv6Address_def expandIPv6_def)
  qed
  ultimately show ?thesis using bs by (simp add: Family6 formatAddress_def parse_ipv6)
qed

subsection \<open>Parsing what was printed\<close>

text \<open>The CIDR that a family, its bytes and a prefix length make.\<close>

definition cidr_of :: "address_family \<Rightarrow> bytes \<Rightarrow> nat \<Rightarrow> parsed_cidr res" where
  "cidr_of f bs n =
     bnd (formatAddress f bs) (\<lambda>t. bnd (formatAddress f (maskAddress bs n)) (\<lambda>net.
       Inr \<lparr>pa_family = f, pa_bytes = bs, pc_prefixLength = n,
            pc_canonical = t @ lit ''/'' @ num_str 10 n,
            pc_networkBytes = maskAddress bs n, pc_network = net @ lit ''/'' @ num_str 10 n\<rparr>))"

lemma last_index_notin: "c \<notin> set xs \<Longrightarrow> last_index c xs = None"
  by (induction xs) auto

lemma last_index_append: "c \<notin> set ys \<Longrightarrow> last_index c (xs @ c # ys) = Some (length xs)"
  by (induction xs) (simp_all add: last_index_notin)

lemma num_str_no_slash: "47 \<notin> set (num_str 10 n)"
  using num_str_range [of 10 47 n] by auto

lemma parseInterfaceCidr_text:
  assumes "length bs = family_bytes f" "n \<le> 8 * length bs" "formatAddress f bs = Inr t"
  shows "parseInterfaceCidr (t @ lit ''/'' @ num_str 10 n) = cidr_of f bs n"
proof -
  have t: "parseAddress t = Inr \<lparr>pa_family = f, pa_bytes = bs\<rparr>" "t \<noteq> []"
    using formatAddress_ok [OF assms(1)] assms(3) by auto
  let ?s = "t @ 47 # num_str 10 n"
  have "last_index 47 ?s = Some (length t)" by (rule last_index_append) (rule num_str_no_slash)
  moreover have "subarray 0 (length t) ?s = t" "List.drop (length t + 1) ?s = num_str 10 n"
    by (simp_all add: subarray_def)
  moreover have "length t \<noteq> 0" "length t \<noteq> length ?s - 1" using t(2) by simp_all
  moreover have "list_all is_digit (num_str 10 n)" by (rule num_str_10_digits)
  moreover have "\<not> length bs * 8 < n" using assms(2) by simp
  ultimately show ?thesis
    using assms(3) t(1) by (simp add: parseInterfaceCidr_def lit_sep cidr_of_def Let_def)
qed

lemma parseInterfaceCidr_cidr_of:
  assumes "parseInterfaceCidr cidr = Inr p"
  shows "cidr_of (pa_family p) (pa_bytes p) (pc_prefixLength p) = Inr p
    \<and> length (pa_bytes p) = family_bytes (pa_family p) \<and> pc_prefixLength p \<le> 8 * length (pa_bytes p)"
  using assms
  by (auto simp: parseInterfaceCidr_def cidr_error_def cidr_of_def Let_def res_simps not_less
      split: option.splits if_splits dest: parseAddress_length)

lemma cidr_of_fields:
  assumes "cidr_of f bs n = Inr p"
  shows "pa_family p = f" "pa_bytes p = bs" "pc_prefixLength p = n" "pc_networkBytes p = maskAddress bs n"
    "\<exists>t. formatAddress f bs = Inr t \<and> pc_canonical p = t @ lit ''/'' @ num_str 10 n"
    "\<exists>t. formatAddress f (maskAddress bs n) = Inr t \<and> pc_network p = t @ lit ''/'' @ num_str 10 n"
  using assms by (auto simp: cidr_of_def res_simps)

lemma parseInterfaceCidr_canonical:
  assumes "parseInterfaceCidr cidr = Inr p"
  shows "parseInterfaceCidr (pc_canonical p) = Inr p"
proof -
  note p = parseInterfaceCidr_cidr_of [OF assms]
  obtain t where "formatAddress (pa_family p) (pa_bytes p) = Inr t"
      "pc_canonical p = t @ lit ''/'' @ num_str 10 (pc_prefixLength p)"
    using cidr_of_fields(5) [OF p [THEN conjunct1]] by blast
  then show ?thesis using p parseInterfaceCidr_text [of "pa_bytes p" "pa_family p"] by metis
qed

lemma maskAddress_idem_bits:
  shows "maskAddress b n = b \<longleftrightarrow> (\<forall>i < 8 * length b. n \<le> i \<longrightarrow> \<not> net_bit b i)"
proof
  assume "maskAddress b n = b"
  then show "\<forall>i < 8 * length b. n \<le> i \<longrightarrow> \<not> net_bit b i" by (metis net_bit_maskAddress not_le)
next
  assume "\<forall>i < 8 * length b. n \<le> i \<longrightarrow> \<not> net_bit b i"
  then show "maskAddress b n = b"
    by (intro net_bits_eq_listI) (auto simp: net_bit_maskAddress not_le)
qed

lemma maskAddress_twice: "maskAddress (maskAddress b n) n = maskAddress b n"
  by (intro net_bits_eq_listI) (auto simp: net_bit_maskAddress)

lemma parseCidr_eq:
  assumes "parseInterfaceCidr cidr = Inr p"
  shows "parseCidr cidr = (if maskAddress (pa_bytes p) (pc_prefixLength p) = pa_bytes p then Inr p
    else cidr_error ''CIDR has non-zero host bits: '' cidr)"
  using assms cidr_of_fields(4) [OF parseInterfaceCidr_cidr_of [OF assms, THEN conjunct1]]
  by (simp add: parseCidr_def equalBytes_eq)

lemma parseCidr_network:
  assumes "parseInterfaceCidr cidr = Inr p"
  shows "\<exists>q. parseCidr (pc_network p) = Inr q \<and> pa_family q = pa_family p
    \<and> pa_bytes q = pc_networkBytes p \<and> pc_prefixLength q = pc_prefixLength p
    \<and> pc_canonical q = pc_network p"
proof -
  let ?f = "pa_family p" and ?n = "pc_prefixLength p" and ?m = "maskAddress (pa_bytes p) (pc_prefixLength p)"
  note p = parseInterfaceCidr_cidr_of [OF assms]
  note fields = cidr_of_fields [OF p [THEN conjunct1]]
  obtain t where t: "formatAddress ?f ?m = Inr t" "pc_network p = t @ lit ''/'' @ num_str 10 ?n"
    using fields(6) by blast
  have "parseInterfaceCidr (pc_network p) = cidr_of ?f ?m ?n"
    unfolding t(2) using p t(1) by (intro parseInterfaceCidr_text) auto
  moreover obtain q where q: "cidr_of ?f ?m ?n = Inr q"
    using t(1) by (simp add: cidr_of_def maskAddress_twice)
  ultimately have parsed: "parseInterfaceCidr (pc_network p) = Inr q" by simp
  note fq = cidr_of_fields [OF q]
  have "parseCidr (pc_network p) = Inr q"
    unfolding parseCidr_eq [OF parsed] fq(2,3) maskAddress_twice by simp
  moreover obtain u where "formatAddress ?f ?m = Inr u" "pc_canonical q = u @ lit ''/'' @ num_str 10 ?n"
    using fq(5) by blast
  then have "pc_canonical q = pc_network p" using t by simp
  ultimately show ?thesis using fq(1,2,3) fields(4) by metis
qed

subsection \<open>Properties\<close>

text \<open>C40: The canonical text of a parsed CIDR is read back as the same record; its network text is
  accepted by \<open>parseCidr\<close>, as the same family and prefix with the masked bytes; and \<open>parseCidr\<close>
  accepts the CIDR itself exactly when every bit after the prefix is zero.\<close>

theorem cidr_roundtrip:
  assumes "parseInterfaceCidr cidr = Inr p"
  shows "parseInterfaceCidr (pc_canonical p) = Inr p
    \<and> (\<exists>q. parseCidr (pc_network p) = Inr q \<and> pa_family q = pa_family p
        \<and> pa_bytes q = maskAddress (pa_bytes p) (pc_prefixLength p)
        \<and> pc_prefixLength q = pc_prefixLength p \<and> pc_canonical q = pc_network p)
    \<and> ((parseCidr cidr = Inr p) = (\<forall>i. \<not> (i < 8 * length (pa_bytes p) \<and> pc_prefixLength p \<le> i
        \<and> net_bit (pa_bytes p) i)))"
proof -
  have "parseCidr cidr = Inr p \<longleftrightarrow> maskAddress (pa_bytes p) (pc_prefixLength p) = pa_bytes p"
    by (simp add: parseCidr_eq [OF assms] cidr_error_def)
  then have "(parseCidr cidr = Inr p) = (\<forall>i. \<not> (i < 8 * length (pa_bytes p) \<and> pc_prefixLength p \<le> i
        \<and> net_bit (pa_bytes p) i))"
    unfolding maskAddress_idem_bits by blast
  with parseInterfaceCidr_canonical [OF assms] parseCidr_network [OF assms]
    parseInterfaceCidr_cidr_of [OF assms] show ?thesis
    using cidr_of_fields(4) by metis
qed

lemma parseInterfaceCidr_example:
  "parseInterfaceCidr (lit ''192.168.1.7/23'') = Inr
    \<lparr>pa_family = Family4, pa_bytes = [192, 168, 1, 7], pc_prefixLength = 23,
     pc_canonical = lit ''192.168.1.7/23'', pc_networkBytes = [192, 168, 0, 0],
     pc_network = lit ''192.168.0.0/23''\<rparr>"
  by code_simp

lemma mask_example: "maskAddress [192, 168, 1, 7] 23 = [192, 168, 0, 0]"
  by (simp add: maskAddress_def partial_mask_def js_shl_def js_and_def to_int32_def clear_loop.simps)

theorem cidr_roundtrip_witness:
  "parseCidr (lit ''192.168.1.7/23'') = cidr_error ''CIDR has non-zero host bits: '' (lit ''192.168.1.7/23'')
   \<and> (\<exists>q. parseCidr (lit ''192.168.0.0/23'') = Inr q \<and> pa_bytes q = [192, 168, 0, 0])"
  using cidr_roundtrip [OF parseInterfaceCidr_example] parseCidr_eq [OF parseInterfaceCidr_example]
  by (auto simp: mask_example)

text \<open>Matching a prefix is comparing masked addresses: two addresses of one length match in
  their first \<open>n\<close> bits, bit by bit, exactly when \<open>maskAddress\<close> makes them equal.\<close>

theorem prefix_is_mask:
  assumes "length a = length d" "n \<le> 8 * length a"
  shows "prefixMatches a d n = (maskAddress a n = maskAddress d n)
    \<and> prefixMatches a d n = (\<forall>i. \<not> (i < n \<and> net_bit a i \<noteq> net_bit d i))"
proof -
  have bits: "prefixMatches a d n \<longleftrightarrow> (\<forall>i<n. net_bit a i = net_bit d i)"
    using prefixMatches_bits [OF assms(2)] assms(1) by simp
  moreover have "maskAddress a n = maskAddress d n \<longleftrightarrow> (\<forall>i<n. net_bit a i = net_bit d i)"
  proof
    assume eq: "maskAddress a n = maskAddress d n"
    show "\<forall>i<n. net_bit a i = net_bit d i"
    proof (intro allI impI)
      fix i assume i: "i < n"
      then have "i < 8 * length a" "i < 8 * length d" using assms by simp_all
      then show "net_bit a i = net_bit d i"
        using i eq net_bit_maskAddress [of i a n] net_bit_maskAddress [of i d n] by simp
    qed
  next
    assume "\<forall>i<n. net_bit a i = net_bit d i"
    then show "maskAddress a n = maskAddress d n"
      using assms by (intro net_bits_eq_listI) (auto simp: net_bit_maskAddress)
  qed
  ultimately show ?thesis by auto
qed

theorem prefix_is_mask_witness:
  "prefixMatches [10, 1, 2, 3] [10, 1, 0, 0] 22 \<and> \<not> prefixMatches [10, 1, 4, 3] [10, 1, 0, 0] 22"
  using prefix_is_mask [of "[10, 1, 2, 3]" "[10, 1, 0, 0]" 22]
    prefix_is_mask [of "[10, 1, 4, 3]" "[10, 1, 0, 0]" 22]
  by (simp add: maskAddress_def partial_mask_def js_shl_def js_and_def to_int32_def clear_loop.simps)

end
