(* ===== verification/Ip_Routes.thy ===== *)
theory Ip_Routes
  imports Ip_Addr JS_Sort
begin

text \<open>
  \<open>packages/tcpip/src/routes.ts\<close>: the routing table. An interface is an object that the table
  only compares, a value of a type variable here; a route object is identified by its \<open>order\<close>,
  which no two routes of a table share (\<open>route_system_inv\<close>). The validation of the interface is
  the constructor's argument.
\<close>

text \<open>The number given as metric: an integral value, or anything else (fractions, NaN, infinities).\<close>

datatype metric_number = Whole int | NotWhole

definition isSafeInteger :: "metric_number \<Rightarrow> bool" where
  "isSafeInteger m = (case m of Whole n \<Rightarrow> \<bar>n\<bar> \<le> 9007199254740991 | NotWhole \<Rightarrow> False)"

definition metric_value :: "metric_number \<Rightarrow> int" where
  "metric_value m = (case m of Whole n \<Rightarrow> n | NotWhole \<Rightarrow> 0)"

datatype route_source = Connected | Static

record 'i route_spec =
  sp_destination :: jstring
  sp_via :: 'i
  sp_metric :: "metric_number option"
  sp_source :: "route_source option"

record 'i route_snapshot =
  rt_family :: address_family
  rt_destination :: jstring
  rt_prefixLength :: nat
  rt_via :: 'i
  rt_metric :: int
  rt_source :: route_source

record 'i installed_route = "'i route_snapshot" +
  rt_bytes :: bytes
  rt_order :: nat

record 'i route_table =
  tb_routes :: "'i installed_route list"
  tb_nextOrder :: nat

record 'i route_handle =
  rh_route :: "'i installed_route"
  rh_installed :: bool

definition table_init :: "'i route_table" where
  "table_init = \<lparr>tb_routes = [], tb_nextOrder = 1\<rparr>"

definition compareRoutes :: "'i installed_route \<Rightarrow> 'i installed_route \<Rightarrow> int" where
  "compareRoutes left right =
     (let byPrefix = int (rt_prefixLength right) - int (rt_prefixLength left);
          byMetric = rt_metric left - rt_metric right
      in if byPrefix \<noteq> 0 then byPrefix
         else if byMetric \<noteq> 0 then byMetric
         else int (rt_order left) - int (rt_order right))"

definition add_route ::
  "('i \<Rightarrow> unit res) \<Rightarrow> 'i route_spec \<Rightarrow> 'i route_table \<Rightarrow> ('i route_handle \<times> 'i route_table) res" where
  "add_route validateInterface spec t =
     bnd (validateInterface (sp_via spec)) (\<lambda>_.
     bnd (parseCidr (sp_destination spec)) (\<lambda>parsed.
     let metric = (case sp_metric spec of Some m \<Rightarrow> m | None \<Rightarrow> Whole 0) in
     if \<not> isSafeInteger metric \<or> metric_value metric < 0
     then throw ''route metric must be a non-negative safe integer''
     else if list_ex (\<lambda>route.
         rt_family route = pa_family parsed \<and> rt_destination route = pc_canonical parsed
         \<and> rt_metric route = metric_value metric \<and> rt_via route = sp_via spec) (tb_routes t)
     then Inl (Error (lit ''route already exists: '' @ pc_canonical parsed @ lit '' metric ''
       @ num_str 10 (nat (metric_value metric))))
     else
       let route = \<lparr>rt_family = pa_family parsed, rt_destination = pc_canonical parsed,
             rt_prefixLength = pc_prefixLength parsed, rt_via = sp_via spec,
             rt_metric = metric_value metric,
             rt_source = (case sp_source spec of Some s \<Rightarrow> s | None \<Rightarrow> Static),
             rt_bytes = pa_bytes parsed, rt_order = tb_nextOrder t\<rparr>
       in Inr (\<lparr>rh_route = route, rh_installed = True\<rparr>,
               t\<lparr>tb_routes := tb_routes t @ [route], tb_nextOrder := tb_nextOrder t + 1\<rparr>)))"

text \<open>The closure returned by \<open>add\<close>: its own flag, and the filter by identity.\<close>

definition dispose_route ::
  "'i route_handle \<Rightarrow> 'i route_table \<Rightarrow> 'i route_handle \<times> 'i route_table" where
  "dispose_route h t =
     (if \<not> rh_installed h then (h, t)
      else (h\<lparr>rh_installed := False\<rparr>,
            t\<lparr>tb_routes := List.filter (\<lambda>c. rt_order c \<noteq> rt_order (rh_route h)) (tb_routes t)\<rparr>))"

definition snapshot :: "'i installed_route \<Rightarrow> 'i route_snapshot" where
  "snapshot r = route_snapshot.truncate r"

definition list_routes :: "'i route_table \<Rightarrow> 'i route_snapshot list" where
  "list_routes t = List.map snapshot (js_sort compareRoutes (tb_routes t))"

definition lookupOnInterface ::
  "jstring \<Rightarrow> 'i option \<Rightarrow> 'i route_table \<Rightarrow> 'i route_snapshot option res" where
  "lookupOnInterface address netInterface t =
     bnd (parseAddress address) (\<lambda>parsed.
       case js_sort compareRoutes (List.filter (\<lambda>route.
              rt_family route = pa_family parsed
              \<and> (netInterface = None \<or> Some (rt_via route) = netInterface)
              \<and> prefixMatches (pa_bytes parsed) (rt_bytes route) (rt_prefixLength route))
            (tb_routes t)) of
         [] \<Rightarrow> Inr None
       | match # _ \<Rightarrow> Inr (Some (snapshot match)))"

definition lookup_route :: "jstring \<Rightarrow> 'i route_table \<Rightarrow> 'i route_snapshot option res" where
  "lookup_route address t = lookupOnInterface address None t"

definition lookupBytes :: "address_family \<Rightarrow> bytes \<Rightarrow> 'i route_table \<Rightarrow> 'i option" where
  "lookupBytes family address t =
     (case js_sort compareRoutes (List.filter (\<lambda>route.
            rt_family route = family
            \<and> prefixMatches address (rt_bytes route) (rt_prefixLength route)) (tb_routes t)) of
        [] \<Rightarrow> None
      | match # _ \<Rightarrow> Some (rt_via match))"

definition removeInterface :: "'i \<Rightarrow> 'i route_table \<Rightarrow> 'i route_table" where
  "removeInterface netInterface t =
     t\<lparr>tb_routes := List.filter (\<lambda>route. rt_via route \<noteq> netInterface) (tb_routes t)\<rparr>"

subsection \<open>The comparison\<close>

lemma compareRoutes_le:
  "compareRoutes a b \<le> 0 \<longleftrightarrow> rt_prefixLength b < rt_prefixLength a
    \<or> rt_prefixLength b = rt_prefixLength a
      \<and> (rt_metric a < rt_metric b \<or> rt_metric a = rt_metric b \<and> rt_order a \<le> rt_order b)"
  by (auto simp: compareRoutes_def Let_def)

interpretation routes: comparator compareRoutes
proof
  fix x y z :: "'a installed_route"
  show "0 < compareRoutes x y \<Longrightarrow> compareRoutes y x \<le> 0"
    by (auto simp: compareRoutes_def Let_def)
  show "compareRoutes x y \<le> 0 \<Longrightarrow> compareRoutes y z \<le> 0 \<Longrightarrow> compareRoutes x z \<le> 0"
    unfolding compareRoutes_le by auto
qed

text \<open>A route that no candidate beats.\<close>

definition best_route :: "'i installed_route \<Rightarrow> 'i installed_route set \<Rightarrow> bool" where
  "best_route r R \<longleftrightarrow> r \<in> R \<and> (\<forall>r'\<in>R. rt_prefixLength r' < rt_prefixLength r
     \<or> rt_prefixLength r' = rt_prefixLength r
       \<and> (rt_metric r < rt_metric r' \<or> rt_metric r = rt_metric r' \<and> rt_order r \<le> rt_order r'))"

lemma sorted_first:
  "js_sort compareRoutes (List.filter P rs) = r # rest \<Longrightarrow> best_route r {x \<in> set rs. P x}"
  using routes.first_is_best [of "List.filter P rs" r rest]
  by (auto simp: best_route_def compareRoutes_le)

lemma sorted_none: "js_sort compareRoutes (List.filter P rs) = [] \<longleftrightarrow> {x \<in> set rs. P x} = {}"
  by (auto simp: filter_empty_conv)

text \<open>The routes of a table that match an address.\<close>

definition matching :: "address_family \<Rightarrow> bytes \<Rightarrow> 'i route_table \<Rightarrow> 'i installed_route set" where
  "matching f a t = {r \<in> set (tb_routes t). rt_family r = f \<and> prefixMatches a (rt_bytes r) (rt_prefixLength r)}"

lemma lookupBytes_cases:
  "(lookupBytes f a t = None \<longleftrightarrow> matching f a t = {})
   \<and> (\<forall>i. lookupBytes f a t = Some i \<longrightarrow> (\<exists>r. best_route r (matching f a t) \<and> rt_via r = i))"
proof -
  let ?P = "\<lambda>r. rt_family r = f \<and> prefixMatches a (rt_bytes r) (rt_prefixLength r)"
  show ?thesis
  proof (cases "js_sort compareRoutes (List.filter ?P (tb_routes t))")
    case Nil
    then show ?thesis using sorted_none [of ?P "tb_routes t"] by (simp add: lookupBytes_def matching_def)
  next
    case (Cons r rs)
    have "best_route r (matching f a t)" using sorted_first [OF Cons] by (simp add: matching_def)
    moreover have "matching f a t \<noteq> {}" using calculation by (auto simp: best_route_def)
    moreover have "lookupBytes f a t = Some (rt_via r)" using Cons by (simp add: lookupBytes_def)
    ultimately show ?thesis by auto
  qed
qed

lemma lookup_route_bytes:
  assumes "parseAddress address = Inr p"
  shows "\<exists>s. lookup_route address t = Inr s
    \<and> lookupBytes (pa_family p) (pa_bytes p) t = map_option rt_via s"
  using assms
  by (auto simp: lookup_route_def lookupOnInterface_def lookupBytes_def snapshot_def
      route_snapshot.defs split: list.splits)

subsection \<open>A table, its handles and the calls on them\<close>

type_synonym 'i route_state = "'i route_table \<times> 'i route_handle list"

text \<open>One call; the interfaces that validation accepts may change from call to call.\<close>

inductive route_step :: "'i route_state \<Rightarrow> 'i route_state \<Rightarrow> bool" where
  step_add: "add_route v spec t = Inr (h, t') \<Longrightarrow> route_step (t, hs) (t', hs @ [h])"
| step_dispose: "k < length hs \<Longrightarrow> dispose_route (hs ! k) t = (h', t')
    \<Longrightarrow> route_step (t, hs) (t', hs[k := h'])"
| step_remove: "route_step (t, hs) (removeInterface i t, hs)"

inductive_cases route_stepE: "route_step s s'"

inductive route_reachable :: "'i route_state \<Rightarrow> bool" where
  reach_init: "route_reachable (table_init, [])"
| reach_step: "route_reachable s \<Longrightarrow> route_step s s' \<Longrightarrow> route_reachable s'"

text \<open>An installed route is what its destination, canonical already, says.\<close>

definition route_ok :: "'i installed_route \<Rightarrow> bool" where
  "route_ok r \<longleftrightarrow> parseCidr (rt_destination r) = cidr_of (rt_family r) (rt_bytes r) (rt_prefixLength r)
     \<and> (\<exists>p. cidr_of (rt_family r) (rt_bytes r) (rt_prefixLength r) = Inr p
          \<and> pc_canonical p = rt_destination r)
     \<and> length (rt_bytes r) = family_bytes (rt_family r)
     \<and> rt_prefixLength r \<le> 8 * length (rt_bytes r)
     \<and> 0 \<le> rt_metric r \<and> rt_metric r \<le> 9007199254740991"

definition route_key :: "'i installed_route \<Rightarrow> address_family \<times> jstring \<times> int \<times> 'i" where
  "route_key r = (rt_family r, rt_destination r, rt_metric r, rt_via r)"

definition handle_ok :: "'i route_table \<Rightarrow> 'i route_handle \<Rightarrow> bool" where
  "handle_ok t h \<longleftrightarrow> rt_order (rh_route h) < tb_nextOrder t
     \<and> (\<forall>r\<in>set (tb_routes t). rt_order r = rt_order (rh_route h) \<longrightarrow> rh_installed h \<and> r = rh_route h)"

definition route_inv :: "'i route_state \<Rightarrow> bool" where
  "route_inv s \<longleftrightarrow>
     (case s of (t, hs) \<Rightarrow>
       distinct (List.map rt_order (tb_routes t))
       \<and> distinct (List.map route_key (tb_routes t))
       \<and> (\<forall>r\<in>set (tb_routes t). rt_order r < tb_nextOrder t \<and> route_ok r)
       \<and> distinct (List.map (\<lambda>h. rt_order (rh_route h)) hs)
       \<and> (\<forall>h\<in>set hs. handle_ok t h))"

lemma parseCidr_canonical:
  assumes "parseCidr cidr = Inr p"
  shows "parseCidr (pc_canonical p) = Inr p
    \<and> cidr_of (pa_family p) (pa_bytes p) (pc_prefixLength p) = Inr p
    \<and> length (pa_bytes p) = family_bytes (pa_family p) \<and> pc_prefixLength p \<le> 8 * length (pa_bytes p)"
proof -
  from assms have p: "parseInterfaceCidr cidr = Inr p"
      and masked: "maskAddress (pa_bytes p) (pc_prefixLength p) = pa_bytes p"
    using parseCidr_eq [of cidr]
    by (auto simp: parseCidr_def res_simps cidr_error_def split: if_splits)
  show ?thesis
    using parseCidr_eq [OF parseInterfaceCidr_canonical [OF p]] parseInterfaceCidr_cidr_of [OF p] masked
    by simp
qed

text \<open>The route that \<open>add\<close> builds from a parsed destination.\<close>

definition new_route :: "parsed_cidr \<Rightarrow> 'i route_spec \<Rightarrow> int \<Rightarrow> nat \<Rightarrow> 'i installed_route" where
  "new_route parsed spec metric order =
     \<lparr>rt_family = pa_family parsed, rt_destination = pc_canonical parsed,
      rt_prefixLength = pc_prefixLength parsed, rt_via = sp_via spec, rt_metric = metric,
      rt_source = (case sp_source spec of Some s \<Rightarrow> s | None \<Rightarrow> Static),
      rt_bytes = pa_bytes parsed, rt_order = order\<rparr>"

definition spec_metric :: "'i route_spec \<Rightarrow> metric_number" where
  "spec_metric spec = (case sp_metric spec of Some m \<Rightarrow> m | None \<Rightarrow> Whole 0)"

lemma add_route_Inr:
  "add_route v spec t = Inr (h, t') \<longleftrightarrow>
     v (sp_via spec) = Inr () \<and> isSafeInteger (spec_metric spec) \<and> 0 \<le> metric_value (spec_metric spec)
     \<and> (\<exists>parsed. parseCidr (sp_destination spec) = Inr parsed
          \<and> (let r = new_route parsed spec (metric_value (spec_metric spec)) (tb_nextOrder t) in
              (\<forall>r'\<in>set (tb_routes t). route_key r' \<noteq> route_key r)
              \<and> h = \<lparr>rh_route = r, rh_installed = True\<rparr>
              \<and> t' = t\<lparr>tb_routes := tb_routes t @ [r], tb_nextOrder := tb_nextOrder t + 1\<rparr>))"
  unfolding add_route_def spec_metric_def [symmetric] new_route_def route_key_def Let_def
  by (cases "v (sp_via spec)"; cases "parseCidr (sp_destination spec)") (auto simp: list_ex_iff)

lemma new_route_ok:
  assumes "parseCidr c = Inr p" "isSafeInteger (Whole m)" "0 \<le> m"
  shows "route_ok (new_route p spec m k)"
  using assms(2,3) parseCidr_canonical [OF assms(1)]
  by (auto simp: route_ok_def new_route_def isSafeInteger_def)

lemma add_route_ok:
  assumes "add_route v spec t = Inr (h, t')"
  obtains r where "h = \<lparr>rh_route = r, rh_installed = True\<rparr>"
    "tb_routes t' = tb_routes t @ [r]" "tb_nextOrder t' = tb_nextOrder t + 1"
    "rt_order r = tb_nextOrder t" "route_ok r"
    "\<forall>r'\<in>set (tb_routes t). route_key r' \<noteq> route_key r"
proof -
  let ?m = "metric_value (spec_metric spec)"
  from assms [unfolded add_route_Inr] obtain p where p: "isSafeInteger (spec_metric spec)" "0 \<le> ?m"
      "parseCidr (sp_destination spec) = Inr p"
      "\<forall>r'\<in>set (tb_routes t). route_key r' \<noteq> route_key (new_route p spec ?m (tb_nextOrder t))"
      "h = \<lparr>rh_route = new_route p spec ?m (tb_nextOrder t), rh_installed = True\<rparr>"
      "t' = t\<lparr>tb_routes := tb_routes t @ [new_route p spec ?m (tb_nextOrder t)],
         tb_nextOrder := tb_nextOrder t + 1\<rparr>"
    unfolding Let_def by blast
  have "isSafeInteger (Whole ?m)"
    using p(1) by (cases "spec_metric spec") (simp_all add: isSafeInteger_def metric_value_def)
  with p show ?thesis
    by (intro that [of "new_route p spec ?m (tb_nextOrder t)"] new_route_ok)
      (simp_all add: new_route_def)
qed

subsection \<open>The invariant\<close>

lemma route_inv_init: "route_inv (table_init, [])"
  by (simp add: route_inv_def table_init_def)

lemma filter_inv:
  assumes "route_inv (t, hs)"
  shows "route_inv (t\<lparr>tb_routes := List.filter P (tb_routes t)\<rparr>, hs)"
  using assms by (auto simp: route_inv_def handle_ok_def distinct_map intro: inj_on_subset)

lemma add_inv:
  assumes inv: "route_inv (t, hs)" and add: "add_route v spec t = Inr (h, t')"
  shows "route_inv (t', hs @ [h])"
proof -
  obtain r where r: "h = \<lparr>rh_route = r, rh_installed = True\<rparr>"
    "tb_routes t' = tb_routes t @ [r]" "tb_nextOrder t' = tb_nextOrder t + 1"
    "rt_order r = tb_nextOrder t" "route_ok r"
    "\<forall>r'\<in>set (tb_routes t). route_key r' \<noteq> route_key r"
    using add_route_ok [OF add] by blast
  have old: "\<forall>r\<in>set (tb_routes t). rt_order r < tb_nextOrder t" "\<forall>h\<in>set hs. handle_ok t h"
    using inv by (auto simp: route_inv_def)
  have "handle_ok t' k" if "k \<in> set hs" for k
    using old(2) that r by (fastforce simp: handle_ok_def)
  moreover have "handle_ok t' h" using old(1) r by (auto simp: handle_ok_def)
  moreover have "\<forall>k\<in>set hs. rt_order (rh_route k) \<noteq> rt_order r"
    using old(2) r(4) by (auto simp: handle_ok_def)
  ultimately show ?thesis
    using inv r by (auto simp: route_inv_def)
qed

lemma dispose_inv:
  assumes inv: "route_inv (t, hs)" and k: "k < length hs" and "dispose_route (hs ! k) t = (h', t')"
  shows "route_inv (t', hs[k := h'])"
proof (cases "rh_installed (hs ! k)")
  case False
  with assms show ?thesis by (auto simp: dispose_route_def)
next
  case True
  let ?o = "rt_order (rh_route (hs ! k))"
  from True assms(3) have t': "t' = t\<lparr>tb_routes := List.filter (\<lambda>c. rt_order c \<noteq> ?o) (tb_routes t)\<rparr>"
      and h': "h' = (hs ! k)\<lparr>rh_installed := False\<rparr>"
    by (auto simp: dispose_route_def)
  have inv': "route_inv (t', hs)" unfolding t' by (rule filter_inv [OF inv])
  have "handle_ok t (hs ! k)" using inv k by (auto simp: route_inv_def)
  then have "handle_ok t' h'" by (auto simp: handle_ok_def t' h')
  moreover have "List.map (\<lambda>h. rt_order (rh_route h)) (hs[k := h']) = List.map (\<lambda>h. rt_order (rh_route h)) hs"
    using k by (simp add: map_update h' list_update_same_conv)
  ultimately show ?thesis
    using inv' by (auto simp: route_inv_def dest!: set_update_subset_insert [THEN subsetD])
qed

lemma route_reachable_inv: "route_reachable s \<Longrightarrow> route_inv s"
proof (induction rule: route_reachable.induct)
  case (reach_step s s')
  from reach_step(2,3) show ?case
  proof (cases rule: route_step.cases)
    case step_add
    with reach_step(3) show ?thesis using add_inv by blast
  next
    case step_dispose
    with reach_step(3) show ?thesis using dispose_inv by blast
  next
    case step_remove
    with reach_step(3) show ?thesis using filter_inv by (auto simp: removeInterface_def)
  qed
qed (rule route_inv_init)

lemma route_okD: "route_ok r \<Longrightarrow> length (rt_bytes r) = family_bytes (rt_family r)
    \<and> rt_prefixLength r \<le> 8 * length (rt_bytes r)"
  by (simp add: route_ok_def)

text \<open>The destination text and the bytes with the prefix length determine each other.\<close>

lemma route_ok_destination:
  assumes "route_ok a" "route_ok b" "rt_family a = rt_family b"
    "rt_bytes a = rt_bytes b" "rt_prefixLength a = rt_prefixLength b"
  shows "rt_destination a = rt_destination b"
  using assms by (auto simp: route_ok_def)

text \<open>A route covers an address of its family when it has the first bits of the address.\<close>

definition covers :: "address_family \<Rightarrow> bytes \<Rightarrow> 'i installed_route \<Rightarrow> bool" where
  "covers f a r \<longleftrightarrow> rt_family r = f \<and> (\<forall>j<rt_prefixLength r. net_bit a j = net_bit (rt_bytes r) j)"

lemma matching_covers:
  assumes "\<forall>r\<in>set (tb_routes t). route_ok r" "length a = family_bytes f"
  shows "matching f a t = {r \<in> set (tb_routes t). covers f a r}"
proof -
  have "prefixMatches a (rt_bytes r) (rt_prefixLength r) \<longleftrightarrow> (\<forall>j<rt_prefixLength r. net_bit a j = net_bit (rt_bytes r) j)"
    if "r \<in> set (tb_routes t)" "rt_family r = f" for r
    using prefixMatches_bits [of "rt_prefixLength r" a "rt_bytes r"] that assms route_okD [of r] by auto
  then show ?thesis by (auto simp: matching_def covers_def)
qed

subsection \<open>Properties\<close>

text \<open>C6: Longest prefix match. In every table that calls on it can build, \<open>lookupBytes\<close> finds
  nothing exactly when no route of the family shares its first bits with the address, and else
  returns the interface of a covering route that no other covering route beats: none has a longer
  prefix, and among those of its prefix length none has a lower metric or, at its metric, is
  older. \<open>lookup\<close> on the text of an address gives the route of that interface.\<close>

theorem lookup_longest_prefix:
  assumes "route_reachable (t, hs)" "length a = family_bytes f"
  shows "(case lookupBytes f a t of
        None \<Rightarrow> {r \<in> set (tb_routes t). covers f a r} = {}
      | Some i \<Rightarrow> \<exists>r. rt_via r = i \<and> best_route r {r \<in> set (tb_routes t). covers f a r})
    \<and> (\<exists>address s. formatAddress f a = Inr address \<and> lookup_route address t = Inr s
         \<and> lookupBytes f a t = map_option rt_via s)"
proof -
  have ok: "\<forall>r\<in>set (tb_routes t). route_ok r"
    using route_reachable_inv [OF assms(1)] by (auto simp: route_inv_def)
  obtain address where "formatAddress f a = Inr address"
      "parseAddress address = Inr \<lparr>pa_family = f, pa_bytes = a\<rparr>"
    using formatAddress_ok [OF assms(2)] by blast
  moreover from this(2) obtain s where "lookup_route address t = Inr s" "lookupBytes f a t = map_option rt_via s"
    using lookup_route_bytes [of address _ t] by auto
  moreover have "case lookupBytes f a t of
        None \<Rightarrow> {r \<in> set (tb_routes t). covers f a r} = {}
      | Some i \<Rightarrow> \<exists>r. rt_via r = i \<and> best_route r {r \<in> set (tb_routes t). covers f a r}"
    using lookupBytes_cases [of f a t] unfolding matching_covers [OF ok assms(2)]
    by (auto split: option.split)
  ultimately show ?thesis by blast
qed

text \<open>C7: In every reachable state the table is well formed: the installation orders are distinct
  and below the next one; no two routes have the same family, network, prefix length, metric and
  interface; and every route is what \<open>parseCidr\<close> reads from its destination, which is canonical,
  with a metric that is a safe non-negative integer.\<close>

theorem route_table_invariant:
  assumes "route_reachable (t, hs)"
  shows "distinct (List.map rt_order (tb_routes t))
    \<and> list_all (\<lambda>r. rt_order r < tb_nextOrder t) (tb_routes t)
    \<and> distinct (List.map (\<lambda>r. (rt_family r, rt_bytes r, rt_prefixLength r, rt_metric r, rt_via r)) (tb_routes t))
    \<and> list_all route_ok (tb_routes t)"
proof -
  have inv: "distinct (List.map rt_order (tb_routes t))" "distinct (List.map route_key (tb_routes t))"
      "\<forall>r\<in>set (tb_routes t). rt_order r < tb_nextOrder t \<and> route_ok r"
    using route_reachable_inv [OF assms] by (auto simp: route_inv_def)
  have "inj_on (\<lambda>r. (rt_family r, rt_bytes r, rt_prefixLength r, rt_metric r, rt_via r)) (set (tb_routes t))"
  proof (rule inj_onI)
    fix x y
    assume "x \<in> set (tb_routes t)" "y \<in> set (tb_routes t)"
      "(rt_family x, rt_bytes x, rt_prefixLength x, rt_metric x, rt_via x)
        = (rt_family y, rt_bytes y, rt_prefixLength y, rt_metric y, rt_via y)"
    moreover from this have "route_key x = route_key y"
      using inv(3) route_ok_destination [of x y] by (simp add: route_key_def)
    ultimately show "x = y" using inv(2) by (auto simp: distinct_map inj_on_def)
  qed
  with inv show ?thesis by (simp add: distinct_map list_all_iff)
qed

text \<open>In every reachable state, disposing of a handle takes out exactly the route that its
  \<open>add\<close> installed, and nothing when that route is gone already (disposed of before, or removed
  with its interface), even if an equal route has been added since.\<close>

theorem dispose_removes_own_route:
  assumes "route_reachable (t, hs)" "k < length hs"
  shows "set (tb_routes (snd (dispose_route (hs ! k) t))) = set (tb_routes t) - {rh_route (hs ! k)}
    \<and> rh_route (hs ! k) \<notin> set (tb_routes (snd (dispose_route (hs ! k) t)))
    \<and> dispose_route (fst (dispose_route (hs ! k) t)) t' = (fst (dispose_route (hs ! k) t), t')"
proof -
  have "handle_ok t (hs ! k)"
    using route_reachable_inv [OF assms(1)] assms(2) by (auto simp: route_inv_def)
  then show ?thesis by (auto simp: dispose_route_def handle_ok_def)
qed

text \<open>\<open>add\<close> installs a route once: after it, the same call throws; after the handle is
  disposed of, the table has the routes it had before and the call is accepted again.\<close>

theorem add_route_once:
  assumes "route_reachable (t, hs)" "add_route v spec t = Inr (h, t')"
  shows "(\<exists>msg. add_route v spec t' = Inl (Error msg))
    \<and> tb_routes (snd (dispose_route h t')) = tb_routes t
    \<and> (\<exists>h2 t2. add_route v spec (snd (dispose_route h t')) = Inr (h2, t2))"
proof -
  let ?m = "spec_metric spec"
  let ?r = "\<lambda>p. new_route p spec (metric_value ?m) (tb_nextOrder t)"
  obtain p where p: "v (sp_via spec) = Inr ()" "isSafeInteger ?m" "0 \<le> metric_value ?m"
      "parseCidr (sp_destination spec) = Inr p"
      "\<forall>r'\<in>set (tb_routes t). route_key r' \<noteq> route_key (?r p)"
      "h = \<lparr>rh_route = ?r p, rh_installed = True\<rparr>"
      "t' = t\<lparr>tb_routes := tb_routes t @ [?r p], tb_nextOrder := tb_nextOrder t + 1\<rparr>"
    using assms(2) unfolding add_route_Inr Let_def by blast
  have dup: "list_ex (\<lambda>route. rt_family route = pa_family p \<and> rt_destination route = pc_canonical p
         \<and> rt_metric route = metric_value ?m \<and> rt_via route = sp_via spec) (tb_routes t')"
    using p(7) by (simp add: new_route_def)
  have again: "\<exists>msg. add_route v spec t' = Inl (Error msg)"
    unfolding add_route_def spec_metric_def [symmetric] p(1,4) bnd_simps Let_def
    using p(2,3) dup by simp
  have "\<forall>r\<in>set (tb_routes t). rt_order r \<noteq> tb_nextOrder t"
    using route_reachable_inv [OF assms(1)] by (auto simp: route_inv_def)
  then have restored: "tb_routes (snd (dispose_route h t')) = tb_routes t"
    by (auto simp: dispose_route_def p(6,7) new_route_def intro: filter_True)
  have key: "route_key (new_route p spec m k) = route_key (new_route p spec m k')" for m k k'
    by (simp add: route_key_def new_route_def)
  have "\<exists>h2 t2. add_route v spec (snd (dispose_route h t')) = Inr (h2, t2)"
    unfolding add_route_Inr Let_def restored using p(1-5) key by metis
  with again restored show ?thesis by blast
qed

text \<open>\<open>list\<close> returns every route once, the longest prefixes first and lower metrics before
  higher ones.\<close>

theorem list_routes_sorted:
  "mset (list_routes t) = image_mset snapshot (mset (tb_routes t))
   \<and> sorted_wrt (\<lambda>a b. rt_prefixLength b < rt_prefixLength a
        \<or> rt_prefixLength b = rt_prefixLength a \<and> rt_metric a \<le> rt_metric b) (list_routes t)"
proof -
  have "sorted_wrt (\<lambda>a b. compareRoutes a b \<le> 0) (js_sort compareRoutes (tb_routes t))"
    by (rule routes.sorted_js_sort)
  then have "sorted_wrt (\<lambda>a b. rt_prefixLength b < rt_prefixLength a
        \<or> rt_prefixLength b = rt_prefixLength a \<and> rt_metric a \<le> rt_metric b) (list_routes t)"
    by (auto simp: list_routes_def sorted_wrt_map compareRoutes_le snapshot_def route_snapshot.defs
        elim!: sorted_wrt_mono_rel [rotated])
  then show ?thesis by (simp add: list_routes_def)
qed

text \<open>Removing an interface leaves no way to it, and does not change what a lookup on any
  other interface finds.\<close>

theorem removeInterface_lookups:
  assumes "i \<noteq> j"
  shows "lookupBytes f a (removeInterface i t) \<noteq> Some i
    \<and> lookupOnInterface address (Some i) (removeInterface i t) = bnd (parseAddress address) (\<lambda>_. Inr None)
    \<and> lookupOnInterface address (Some j) (removeInterface i t) = lookupOnInterface address (Some j) t"
proof -
  have "best_route r (matching f a (removeInterface i t)) \<Longrightarrow> rt_via r \<noteq> i" for r
    by (auto simp: best_route_def matching_def removeInterface_def)
  then have "lookupBytes f a (removeInterface i t) \<noteq> Some i"
    using lookupBytes_cases [of f a "removeInterface i t"] by blast
  moreover have "(rt_via x \<noteq> i \<and> P \<and> rt_via x = j \<and> Q) = (P \<and> rt_via x = j \<and> Q)"
    "(rt_via x \<noteq> i \<and> P \<and> rt_via x = i \<and> Q) = False" for P Q and x :: "'a installed_route"
    using assms by auto
  ultimately show ?thesis by (simp add: lookupOnInterface_def removeInterface_def)
qed

subsection \<open>Witnesses\<close>

text \<open>A table with 10.0.0.0/8 through interface 1 and 10.1.0.0/16 through interface 2.\<close>

definition example_spec :: "string \<Rightarrow> nat \<Rightarrow> nat route_spec" where
  "example_spec cidr i = \<lparr>sp_destination = lit cidr, sp_via = i, sp_metric = None, sp_source = None\<rparr>"

definition example_route :: "string \<Rightarrow> bytes \<Rightarrow> nat \<Rightarrow> nat \<Rightarrow> nat installed_route" where
  "example_route cidr bs n i =
     \<lparr>rt_family = Family4, rt_destination = lit cidr, rt_prefixLength = n, rt_via = i, rt_metric = 0,
      rt_source = Static, rt_bytes = bs, rt_order = i\<rparr>"

definition example_r1 :: "nat installed_route" where
  "example_r1 = example_route ''10.0.0.0/8'' [10, 0, 0, 0] 8 1"

definition example_r2 :: "nat installed_route" where
  "example_r2 = example_route ''10.1.0.0/16'' [10, 1, 0, 0] 16 2"

definition example_t1 :: "nat route_table" where
  "example_t1 = \<lparr>tb_routes = [example_r1], tb_nextOrder = 2\<rparr>"

definition example_table :: "nat route_table" where
  "example_table = \<lparr>tb_routes = [example_r1, example_r2], tb_nextOrder = 3\<rparr>"

definition example_handles :: "nat route_handle list" where
  "example_handles = [\<lparr>rh_route = example_r1, rh_installed = True\<rparr>, \<lparr>rh_route = example_r2, rh_installed = True\<rparr>]"

lemma example_add1:
  "add_route (\<lambda>_. Inr ()) (example_spec ''10.0.0.0/8'' 1) table_init = Inr (hd example_handles, example_t1)"
  by code_simp

lemma example_add2:
  "add_route (\<lambda>_. Inr ()) (example_spec ''10.1.0.0/16'' 2) example_t1
    = Inr (example_handles ! 1, example_table)"
  by code_simp

lemma example_reachable: "route_reachable (example_table, example_handles)"
  "route_reachable (example_t1, [hd example_handles])"
proof -
  have "route_step (table_init, []) (example_t1, [hd example_handles])"
    using step_add [OF example_add1, of "[]"] by simp
  then show r1: "route_reachable (example_t1, [hd example_handles])"
    by (rule reach_step [OF reach_init])
  have "route_step (example_t1, [hd example_handles]) (example_table, example_handles)"
    using step_add [OF example_add2, of "[hd example_handles]"] by (simp add: example_handles_def)
  with r1 show "route_reachable (example_table, example_handles)" by (rule reach_step)
qed

lemma example_lookup: "lookupBytes Family4 [10, 1, 2, 3] example_table = Some 2"
  by code_simp

theorem lookup_longest_prefix_witness:
  "\<exists>r. rt_via r = 2 \<and> best_route r {r \<in> set (tb_routes example_table). covers Family4 [10, 1, 2, 3] r}"
  using lookup_longest_prefix [OF example_reachable(1), of "[10, 1, 2, 3]" Family4] example_lookup
  by (simp add: family_bytes_def)

theorem route_table_invariant_witness:
  "list_all route_ok (tb_routes example_table) \<and> distinct (List.map rt_order (tb_routes example_table))"
  using route_table_invariant [OF example_reachable(1)] by simp

theorem dispose_removes_own_route_witness:
  "set (tb_routes (snd (dispose_route (example_handles ! 1) example_table))) = {example_r1}"
proof -
  have "1 < length example_handles" by (simp add: example_handles_def)
  from dispose_removes_own_route [OF example_reachable(1) this, THEN conjunct1]
  have "set (tb_routes (snd (dispose_route (example_handles ! 1) example_table)))
    = {example_r1, example_r2} - {example_r2}"
    by (simp only: example_handles_def example_table_def route_table.simps route_handle.simps list.simps
        nth_Cons_Suc nth_Cons_0 One_nat_def)
  moreover have "rt_via example_r1 \<noteq> rt_via example_r2"
    by (simp add: example_r1_def example_r2_def example_route_def)
  then have "example_r1 \<noteq> example_r2" by metis
  ultimately show ?thesis by (simp add: insert_Diff_if)
qed

theorem add_route_once_witness:
  "(\<exists>msg. add_route (\<lambda>_. Inr ()) (example_spec ''10.1.0.0/16'' 2) example_table = Inl (Error msg))
   \<and> tb_routes (snd (dispose_route (example_handles ! 1) example_table)) = [example_r1]"
  using add_route_once [OF example_reachable(2) example_add2] by (simp add: example_t1_def)

theorem removeInterface_lookups_witness:
  "lookupBytes Family4 [10, 1, 2, 3] (removeInterface 2 example_table) \<noteq> Some 2
   \<and> lookupOnInterface (lit ''10.1.2.3'') (Some 1) (removeInterface 2 example_table)
     = lookupOnInterface (lit ''10.1.2.3'') (Some 1) example_table"
  using removeInterface_lookups [of "2 :: nat" 1 Family4 "[10, 1, 2, 3]" example_table "lit ''10.1.2.3''"]
  by simp

end
