(* ===== verification/Http_Serialize.thy ===== *)
theory Http_Serialize
  imports JS_Text
begin

text \<open>
  \<open>packages/http/src/serialize.ts\<close>: HTTP/1.1 requests and responses as byte streams. \<open>Headers\<close>
  is the list of entries that its iterator yields (names in lower case); a parsed \<open>URL\<close> is given by
  its components; a readable stream is the list of its chunks and the way it ends. A serialized
  message is the sequence of enqueued chunks and the end of the stream.
\<close>

type_synonym headers = "(jstring \<times> jstring) list"

definition headers_has :: "headers \<Rightarrow> jstring \<Rightarrow> bool" where
  "headers_has hs name \<longleftrightarrow> name \<in> fst ` set hs"

text \<open>\<open>headers.get\<close> joins the values of one name.\<close>

definition headers_get :: "headers \<Rightarrow> jstring \<Rightarrow> jstring option" where
  "headers_get hs name =
     (case List.map snd (List.filter (\<lambda>h. fst h = name) hs) of
        [] \<Rightarrow> None
      | vs \<Rightarrow> Some (js_join (lit '', '') vs))"

definition js_trim :: "jstring \<Rightarrow> jstring" where
  "js_trim s = rev (dropWhile is_space (rev (dropWhile is_space s)))"

record body_stream =
  bs_chunks :: "bytes list"
  bs_error :: "js_error option"

datatype http_body = Stream body_stream | Measured body_stream "nat option"

record url =
  url_host :: jstring
  url_pathname :: jstring
  url_search :: jstring

record http_request =
  rq_method :: jstring
  rq_url :: url
  rq_headers :: headers

record http_response =
  rs_status :: nat
  rs_statusText :: jstring
  rs_headers :: headers
  rs_body :: "body_stream option"

datatype stream_end = Closed | Errored js_error

record http_output =
  out_chunks :: "bytes list"
  out_end :: stream_end

subsection \<open>Headers\<close>

definition statusTexts :: "(nat \<times> string) list" where
  "statusTexts =
     [(200, ''OK''), (201, ''Created''), (202, ''Accepted''), (203, ''Non-Authoritative Information''),
      (204, ''No Content''), (205, ''Reset Content''), (206, ''Partial Content''),
      (300, ''Multiple Choices''), (301, ''Moved Permanently''), (302, ''Found''), (303, ''See Other''),
      (304, ''Not Modified''), (307, ''Temporary Redirect''), (308, ''Permanent Redirect''),
      (400, ''Bad Request''), (401, ''Unauthorized''), (403, ''Forbidden''), (404, ''Not Found''),
      (405, ''Method Not Allowed''), (408, ''Request Timeout''), (409, ''Conflict''), (410, ''Gone''),
      (413, ''Content Too Large''), (414, ''URI Too Long''), (415, ''Unsupported Media Type''),
      (418, ''I'' @ [CHR 0x27] @ ''m a Teapot''), (422, ''Unprocessable Content''), (425, ''Too Early''),
      (429, ''Too Many Requests''), (500, ''Internal Server Error''), (501, ''Not Implemented''),
      (502, ''Bad Gateway''), (503, ''Service Unavailable''), (504, ''Gateway Timeout'')]"

definition headerIncludes :: "headers \<Rightarrow> jstring \<Rightarrow> jstring \<Rightarrow> bool" where
  "headerIncludes hs name value =
     (case headers_get hs name of
        None \<Rightarrow> False
      | Some v \<Rightarrow> list_ex (\<lambda>part. toLowerCase (js_trim part) = value) (js_split (lit '','') v))"

definition appendHeaderLines :: "jstring list \<Rightarrow> headers \<Rightarrow> jstring list" where
  "appendHeaderLines lines hs = lines @ List.map (\<lambda>(name, value). name @ lit '': '' @ value) hs"

fun bodyStream :: "http_body option \<Rightarrow> body_stream option" where
  "bodyStream None = None"
| "bodyStream (Some (Stream s)) = Some s"
| "bodyStream (Some (Measured s _)) = Some s"

fun bodyLength :: "http_body option \<Rightarrow> nat option" where
  "bodyLength None = None"
| "bodyLength (Some (Stream _)) = None"
| "bodyLength (Some (Measured _ len)) = len"

definition requestHeaders :: "http_request \<Rightarrow> bool \<Rightarrow> nat option \<Rightarrow> headers" where
  "requestHeaders request hasBody knownLength =
     (let headers = rq_headers request;
          l1 = (if headers_has headers (lit ''host'') then headers
                else headers @ [(lit ''host'', url_host (rq_url request))]);
          l2 = (if headers_has headers (lit ''connection'') then l1
                else l1 @ [(lit ''connection'', lit ''close'')])
      in if hasBody \<and> \<not> headers_has headers (lit ''content-length'')
           \<and> \<not> headers_has headers (lit ''transfer-encoding'')
         then (case knownLength of
             Some n \<Rightarrow> l2 @ [(lit ''content-length'', num_str 10 n)]
           | None \<Rightarrow> l2 @ [(lit ''transfer-encoding'', lit ''chunked'')])
         else l2)"

definition responseHeaders :: "http_response \<Rightarrow> bool \<Rightarrow> headers" where
  "responseHeaders response hasBody =
     (let headers = rs_headers response;
          l1 = (if headers_has headers (lit ''connection'') then headers
                else headers @ [(lit ''connection'', lit ''close'')])
      in if hasBody \<and> \<not> headers_has headers (lit ''content-length'')
           \<and> \<not> headers_has headers (lit ''transfer-encoding'')
         then l1 @ [(lit ''transfer-encoding'', lit ''chunked'')]
         else l1)"

definition statusText :: "http_response \<Rightarrow> jstring" where
  "statusText response =
     (if rs_statusText response \<noteq> [] then rs_statusText response
      else case map_of statusTexts (rs_status response) of
        Some s \<Rightarrow> lit s
      | None \<Rightarrow> lit ''unknown'')"

definition statusAllowsBody :: "nat \<Rightarrow> bool" where
  "statusAllowsBody status \<longleftrightarrow>
     status \<noteq> 204 \<and> status \<noteq> 205 \<and> status \<noteq> 304 \<and> (status < 100 \<or> status \<ge> 200)"

definition hasResponseBody :: "http_response \<Rightarrow> bool" where
  "hasResponseBody response \<longleftrightarrow> rs_body response \<noteq> None \<and> statusAllowsBody (rs_status response)"

definition shouldChunkBody :: "headers \<Rightarrow> bool \<Rightarrow> nat option \<Rightarrow> bool" where
  "shouldChunkBody headers hasBody knownLength \<longleftrightarrow>
     hasBody \<and> knownLength = None \<and> \<not> headers_has headers (lit ''content-length'')
     \<and> (\<not> headers_has headers (lit ''transfer-encoding'')
        \<or> headerIncludes headers (lit ''transfer-encoding'') (lit ''chunked''))"

subsection \<open>Bodies\<close>

definition crlf :: jstring where
  "crlf = [13, 10]"

definition chunk :: "bytes \<Rightarrow> bytes" where
  "chunk c = utf8_encode (num_str 16 (length c) @ crlf) @ c @ utf8_encode crlf"

text \<open>The reading loop: empty chunks are skipped.\<close>

fun pipe_loop :: "bool \<Rightarrow> bytes list \<Rightarrow> bytes list" where
  "pipe_loop chunked [] = []"
| "pipe_loop chunked (value # rest) =
     (if length value = 0 then pipe_loop chunked rest
      else (if chunked then chunk value else value) # pipe_loop chunked rest)"

definition pipeBody :: "body_stream option \<Rightarrow> bool \<Rightarrow> http_output" where
  "pipeBody body chunked =
     (case body of
        None \<Rightarrow> \<lparr>out_chunks = [], out_end = Closed\<rparr>
      | Some s \<Rightarrow>
          (case bs_error s of
             None \<Rightarrow> \<lparr>out_chunks = pipe_loop chunked (bs_chunks s)
                 @ (if chunked then [utf8_encode (lit ''0'' @ crlf @ crlf)] else []), out_end = Closed\<rparr>
           | Some e \<Rightarrow> \<lparr>out_chunks = pipe_loop chunked (bs_chunks s), out_end = Errored e\<rparr>))"

subsection \<open>Messages\<close>

definition requestTarget :: "url \<Rightarrow> jstring" where
  "requestTarget u = (if url_pathname u = [] then lit ''/'' else url_pathname u) @ url_search u"

text \<open>The first chunk: the lines and an empty line.\<close>

definition encode_head :: "jstring list \<Rightarrow> bytes" where
  "encode_head lines = utf8_encode (js_join crlf lines @ crlf @ crlf)"

definition serializeHttpRequest :: "http_request \<Rightarrow> http_body option \<Rightarrow> http_output" where
  "serializeHttpRequest request body =
     (let stream = bodyStream body;
          len = bodyLength body;
          headers = requestHeaders request (stream \<noteq> None) len;
          lines = appendHeaderLines
            [rq_method request @ lit '' '' @ requestTarget (rq_url request) @ lit '' HTTP/1.1''] headers;
          piped = pipeBody stream (shouldChunkBody (rq_headers request) (stream \<noteq> None) len)
      in piped\<lparr>out_chunks := encode_head lines # out_chunks piped\<rparr>)"

definition serializeHttpResponse :: "http_response \<Rightarrow> http_output" where
  "serializeHttpResponse response =
     (let hasBody = hasResponseBody response;
          headers = responseHeaders response hasBody;
          lines = appendHeaderLines
            [lit ''HTTP/1.1 '' @ num_str 10 (rs_status response) @ lit '' '' @ statusText response] headers;
          piped = pipeBody (if hasBody then rs_body response else None)
            (shouldChunkBody (rs_headers response) hasBody None)
      in piped\<lparr>out_chunks := encode_head lines # out_chunks piped\<rparr>)"

end
