(* ===== verification/Http_Framing.thy ===== *)
theory Http_Framing
  imports Http_Serialize
begin

text \<open>
  What a reader makes of the serialized messages: the chunked transfer coding and the body length
  rules of RFC 9112 as reference definitions, and the proofs that the streams of
  \<open>Http_Serialize\<close> carry their bodies through them.
\<close>

subsection \<open>The chunked transfer coding\<close>

definition size_digits :: "bytes \<Rightarrow> nat list" where
  "size_digits bs = digits_prefix 16 (List.map (\<lambda>b. of_nat (unat b)) bs)"

text \<open>A chunk size in hex, a line end, that many bytes, a line end; size 0 and an empty line end the
  body. The value is the body with what follows it.\<close>

function dechunk :: "bytes \<Rightarrow> (bytes \<times> bytes) option" where
  "dechunk bs =
     (let ds = size_digits bs;
          n = digits_value 16 ds;
          r1 = List.drop (length ds) bs;
          r2 = List.drop 2 r1
      in if ds = [] \<or> List.take 2 r1 \<noteq> [13, 10] then None
         else if n = 0 then (if List.take 2 r2 = [13, 10] then Some ([], List.drop 2 r2) else None)
         else if length r2 < n + 2 \<or> List.take 2 (List.drop n r2) \<noteq> [13, 10] then None
         else map_option (\<lambda>(b, rest). (List.take n r2 @ b, rest)) (dechunk (List.drop (n + 2) r2)))"
  by pat_completeness auto
termination
  by (relation "measure length") auto

declare dechunk.simps [simp del]

lemma digits_prefix_stop:
  assumes "r \<le> 36" "\<And>d. d \<in> set ds \<Longrightarrow> d < r" "char_digit c = None"
  shows "digits_prefix r (List.map digit_char ds @ c # s) = ds"
  using assms(2)
proof (induction ds)
  case Nil
  then show ?case using assms(3) by simp
next
  case (Cons d ds)
  have "d < r" using Cons.prems by simp
  moreover have "char_digit (digit_char d) = Some d" using \<open>d < r\<close> assms(1) by simp
  moreover have "digits_prefix r (List.map digit_char ds @ c # s) = ds" using Cons by simp
  ultimately show ?case by simp
qed

lemma ascii_num_str: "2 \<le> r \<Longrightarrow> r \<le> 36 \<Longrightarrow> ascii (num_str r n)"
  unfolding ascii_def using num_str_range [of r _ n] by fastforce

lemma byte_of_ascii: "unat (c :: jschar) < 0x80 \<Longrightarrow> of_nat (unat (of_nat (unat c) :: byte)) = c"
proof -
  assume "unat c < 0x80"
  then have "unat (of_nat (unat c) :: byte) = unat c"
    by (simp add: unsigned_ucast_eq take_bit_nat_eq_self)
  then show ?thesis by (subst \<open>unat (of_nat (unat c) :: byte) = unat c\<close>) simp
qed

lemma size_digits_num: "size_digits (utf8_encode (num_str 16 n) @ 13 # s) = nat_digits 16 n"
proof -
  have a: "ascii (num_str 16 n)" by (rule ascii_num_str) simp_all
  have "List.map (\<lambda>b. of_nat (unat b)) (utf8_encode (num_str 16 n)) = num_str 16 n"
    unfolding utf8_encode_ascii [OF a] map_map
    by (rule map_idI) (use a in \<open>simp add: ascii_def byte_of_ascii del: of_nat_unat\<close>)
  then have "size_digits (utf8_encode (num_str 16 n) @ 13 # s)
    = digits_prefix 16 (List.map digit_char (nat_digits 16 n) @ 13 # List.map (\<lambda>b. of_nat (unat b)) s)"
    by (simp add: size_digits_def num_str_digits)
  also have "\<dots> = nat_digits 16 n"
    using nat_digits_less [of 16 _ n] by (intro digits_prefix_stop) (auto simp: char_digit_def)
  finally show ?thesis .
qed

lemma utf8_crlf: "utf8_encode crlf = [13, 10]"
  by (simp add: crlf_def utf8_encode_ascii)

lemma utf8_num_crlf: "utf8_encode (num_str 16 n @ crlf) = utf8_encode (num_str 16 n) @ [13, 10]"
  using ascii_num_str [of 16 n] by (simp add: crlf_def utf8_encode_ascii)

lemma length_utf8_num: "length (utf8_encode (num_str 16 n)) = length (nat_digits 16 n)"
  using ascii_num_str [of 16 n] by (simp add: num_str_digits)

lemma dechunk_chunk:
  assumes "c \<noteq> []"
  shows "dechunk (chunk c @ s) = map_option (\<lambda>(b, rest). (c @ b, rest)) (dechunk s)"
proof -
  let ?h = "utf8_encode (num_str 16 (length c))"
  have bs: "chunk c @ s = ?h @ 13 # 10 # c @ 13 # 10 # s"
    by (simp add: chunk_def utf8_num_crlf utf8_crlf)
  have ds: "size_digits (?h @ 13 # 10 # c @ 13 # 10 # s) = nat_digits 16 (length c)"
    by (rule size_digits_num)
  have drop: "List.drop (length (nat_digits 16 (length c))) (?h @ 13 # 10 # c @ 13 # 10 # s) = 13 # 10 # c @ 13 # 10 # s"
    unfolding length_utf8_num [symmetric] by simp
  have "length c \<noteq> 0" using assms by simp
  then show ?thesis
    unfolding bs by (subst dechunk.simps, simp add: ds drop Let_def del: drop_append) simp
qed

lemma dechunk_last: "dechunk (utf8_encode (lit ''0'' @ crlf @ crlf) @ s) = Some ([], s)"
proof -
  have "utf8_encode (lit ''0'' @ crlf @ crlf) @ s = [48, 13, 10, 13, 10] @ s"
    by (simp add: crlf_def lit_simps utf8_encode_ascii)
  moreover have "size_digits ([48, 13, 10, 13, 10] @ s) = [0]"
    by (simp add: size_digits_def char_digit_def)
  ultimately show ?thesis by (subst dechunk.simps) (simp add: digits_value_def)
qed

lemma dechunk_pipe:
  "dechunk (concat (pipe_loop True cs) @ s) = map_option (\<lambda>(b, rest). (concat cs @ b, rest)) (dechunk s)"
proof (induction cs)
  case Nil
  then show ?case by (cases "dechunk s") auto
next
  case (Cons c cs)
  then show ?case using dechunk_chunk [of c]
    by (cases "dechunk s") auto
qed

lemma concat_pipe_raw: "concat (pipe_loop False cs) = concat cs"
  by (induction cs) auto

lemma dechunk_Nil: "dechunk [] = None"
  by (subst dechunk.simps) (simp add: size_digits_def)

subsection \<open>Body lengths\<close>

text \<open>The body that a reader takes from all the bytes after the head: chunked when the transfer
  encoding says so, else exactly \<open>content-length\<close> bytes, else everything up to the close.\<close>

definition read_body :: "headers \<Rightarrow> bytes \<Rightarrow> bytes option" where
  "read_body hs bs =
     (if headerIncludes hs (lit ''transfer-encoding'') (lit ''chunked'')
      then (case dechunk bs of Some (b, rest) \<Rightarrow> if rest = [] then Some b else None | None \<Rightarrow> None)
      else case headers_get hs (lit ''content-length'') of
        Some v \<Rightarrow> if parseInt 10 v = Some (int (length bs)) then Some bs else None
      | None \<Rightarrow> Some bs)"

lemma headers_filter_Nil: "List.filter (\<lambda>h. fst h = name) hs = [] \<longleftrightarrow> \<not> headers_has hs name"
  by (auto simp: headers_has_def filter_empty_conv image_iff)

lemma headers_get_None: "headers_get hs name = None \<longleftrightarrow> \<not> headers_has hs name"
  unfolding headers_filter_Nil [symmetric]
  by (cases "List.filter (\<lambda>h. fst h = name) hs") (simp_all add: headers_get_def)

lemma headers_get_append:
  "headers_get (hs @ [(n, v)]) name =
     (if n \<noteq> name then headers_get hs name else if headers_has hs name then headers_get (hs @ [(n, v)]) name else Some v)"
  using headers_filter_Nil [of name hs] by (auto simp: headers_get_def)

lemma headers_has_append: "headers_has (hs @ [(n, v)]) name \<longleftrightarrow> n = name \<or> headers_has hs name"
  by (auto simp: headers_has_def)

text \<open>The names that the framing goes by.\<close>

abbreviation TE :: jstring where "TE \<equiv> lit ''transfer-encoding''"
abbreviation CL :: jstring where "CL \<equiv> lit ''content-length''"
abbreviation chunked_value :: jstring where "chunked_value \<equiv> lit ''chunked''"

lemma chunked_included: "headers_get hs TE = Some chunked_value \<Longrightarrow> headerIncludes hs TE chunked_value"
  by (simp add: headerIncludes_def lit_simps js_trim_def is_space_def toLowerCase_def lower_char_def)

lemma no_TE_not_included: "\<not> headers_has hs TE \<Longrightarrow> \<not> headerIncludes hs TE chunked_value"
  using headers_get_None [of hs TE] by (simp add: headerIncludes_def)

lemma headerIncludes_append_other:
  "n \<noteq> name \<Longrightarrow> headerIncludes (hs @ [(n, v)]) name value = headerIncludes hs name value"
  by (simp add: headerIncludes_def headers_get_append)

lemma parseInt_num_str: "parseInt 10 (num_str 10 n) = Some (int n)"
proof -
  have digits: "digits_prefix 10 (num_str 10 n) = nat_digits 10 n"
    using nat_digits_less [of 10 _ n] by (simp add: num_str_digits digits_prefix_map)
  obtain d ds where d: "nat_digits 10 n = d # ds" "d < 10"
    using nat_digits_less [of 10 "hd (nat_digits 10 n)" n] by (cases "nat_digits 10 n") auto
  then have s: "num_str 10 n = digit_char d # List.map digit_char ds" by (simp add: num_str_digits)
  have u: "unat (digit_char d) = 48 + d" using d(2) by (simp add: unat_digit_char)
  then have "\<not> is_space (digit_char d)" using d(2) by (simp add: is_space_def)
  moreover have "digit_char d \<noteq> 45" "digit_char d \<noteq> 43" using u d(2) by auto
  ultimately show ?thesis using digits unfolding s parseInt_def by (simp add: Let_def d(1)) (simp flip: d(1))
qed

text \<open>Headers under which a body of \<open>n\<close> bytes is framed one way only.\<close>

definition framing_headers :: "headers \<Rightarrow> nat \<Rightarrow> bool" where
  "framing_headers hs n \<longleftrightarrow>
     (headers_has hs TE \<longrightarrow> headerIncludes hs TE chunked_value \<and> \<not> headers_has hs CL)
     \<and> (headers_has hs CL \<longrightarrow> headers_get hs CL = Some (num_str 10 n))"

lemma read_body_chunked:
  assumes "headerIncludes hs TE chunked_value" "bs_error s = None"
  shows "read_body hs (concat (out_chunks (pipeBody (Some s) True))) = Some (concat (bs_chunks s))"
proof -
  have "dechunk (concat (pipe_loop True (bs_chunks s)) @ utf8_encode (lit ''0'' @ crlf @ crlf) @ [])
    = Some (concat (bs_chunks s), [])"
    unfolding dechunk_pipe dechunk_last by simp
  with assms show ?thesis by (simp add: read_body_def pipeBody_def)
qed

lemma read_body_raw:
  assumes "\<not> headerIncludes hs TE chunked_value" "bs_error s = None"
    and "headers_get hs CL = Some (num_str 10 (length (concat (bs_chunks s))))"
  shows "read_body hs (concat (out_chunks (pipeBody (Some s) False))) = Some (concat (bs_chunks s))"
  using assms by (simp add: read_body_def pipeBody_def concat_pipe_raw parseInt_num_str)

text \<open>The three ways a body is framed, over the headers that were given (\<open>hs\<close>) and those that are
  sent (\<open>out\<close>).\<close>

lemma framed_body:
  fixes s :: body_stream
  defines "content \<equiv> concat (bs_chunks s)"
  assumes "bs_error s = None" and ok: "framing_headers hs (length content)"
    and len: "len = None \<or> len = Some (length content) \<and> \<not> headers_has hs TE"
    and out: "if headers_has hs CL \<or> headers_has hs TE
      then headers_get out TE = headers_get hs TE \<and> headers_get out CL = headers_get hs CL
      else case len of
        None \<Rightarrow> headers_get out TE = Some chunked_value
      | Some n \<Rightarrow> headers_get out TE = None \<and> headers_get out CL = Some (num_str 10 n)"
  shows "read_body out (concat (out_chunks (pipeBody (Some s) (shouldChunkBody hs True len)))) = Some content"
proof -
  have inc: "headerIncludes out TE v = headerIncludes hs TE v" if "headers_get out TE = headers_get hs TE" for v
    using that by (simp add: headerIncludes_def)
  consider (TE) "headers_has hs TE" | (CL) "\<not> headers_has hs TE" "headers_has hs CL"
    | (none) "\<not> headers_has hs TE" "\<not> headers_has hs CL" by blast
  then show ?thesis
  proof cases
    case TE
    then have "headerIncludes out TE chunked_value" "shouldChunkBody hs True len"
      using ok out len inc by (auto simp: framing_headers_def shouldChunkBody_def)
    then show ?thesis using read_body_chunked [OF _ assms(2)] by (simp add: content_def)
  next
    case CL
    then have "\<not> headerIncludes out TE chunked_value" "\<not> shouldChunkBody hs True len"
      using out inc no_TE_not_included [of hs] by (auto simp: shouldChunkBody_def)
    moreover have "headers_get out CL = Some (num_str 10 (length content))"
      using CL ok out by (auto simp: framing_headers_def)
    ultimately show ?thesis using read_body_raw [OF _ assms(2)] by (simp add: content_def)
  next
    case none
    show ?thesis
    proof (cases len)
      case None
      then have "headerIncludes out TE chunked_value" "shouldChunkBody hs True len"
        using none out chunked_included [of out] by (auto simp: shouldChunkBody_def)
      then show ?thesis using read_body_chunked [OF _ assms(2)] by (simp add: content_def)
    next
      case (Some n)
      then have "n = length content" "\<not> headerIncludes out TE chunked_value" "\<not> shouldChunkBody hs True len"
          "headers_get out CL = Some (num_str 10 n)"
        using none out len by (auto simp: shouldChunkBody_def headerIncludes_def)
      then show ?thesis using read_body_raw [OF _ assms(2)] by (simp add: content_def)
    qed
  qed
qed

lemma header_names: "lit ''host'' \<noteq> TE" "lit ''host'' \<noteq> CL" "lit ''connection'' \<noteq> TE" "lit ''connection'' \<noteq> CL" "TE \<noteq> CL"
  by simp_all

lemma headers_get_maybe: "n \<noteq> name \<Longrightarrow> headers_get (if c then hs else hs @ [(n, v)]) name = headers_get hs name"
  by (cases c) (simp_all add: headers_get_append)

lemma headers_get_new: "\<not> headers_has hs name \<Longrightarrow> headers_get (hs @ [(name, v)]) name = Some v"
  by (simp add: headers_get_append)

lemma headers_has_get: "headers_has hs name \<longleftrightarrow> headers_get hs name \<noteq> None"
  by (simp add: headers_get_None)

text \<open>The headers that were given, with host and connection added where they are missing.\<close>

definition with_host :: "http_request \<Rightarrow> headers" where
  "with_host r =
     (let l1 = (if headers_has (rq_headers r) (lit ''host'') then rq_headers r
                else rq_headers r @ [(lit ''host'', url_host (rq_url r))])
      in if headers_has (rq_headers r) (lit ''connection'') then l1
         else l1 @ [(lit ''connection'', lit ''close'')])"

lemma with_host_get: "headers_get (with_host r) TE = headers_get (rq_headers r) TE"
  "headers_get (with_host r) CL = headers_get (rq_headers r) CL"
  unfolding with_host_def Let_def
  by (simp_all only: headers_get_maybe [OF header_names(1)] headers_get_maybe [OF header_names(2)]
      headers_get_maybe [OF header_names(3)] headers_get_maybe [OF header_names(4)])

lemma requestHeaders_with_host:
  "requestHeaders r b len =
     (if b \<and> \<not> headers_has (rq_headers r) CL \<and> \<not> headers_has (rq_headers r) TE
      then (case len of Some n \<Rightarrow> with_host r @ [(CL, num_str 10 n)] | None \<Rightarrow> with_host r @ [(TE, chunked_value)])
      else with_host r)"
  unfolding requestHeaders_def with_host_def Let_def ..

lemma requestHeaders_framing:
  "if headers_has (rq_headers r) CL \<or> headers_has (rq_headers r) TE
   then headers_get (requestHeaders r True len) TE = headers_get (rq_headers r) TE
      \<and> headers_get (requestHeaders r True len) CL = headers_get (rq_headers r) CL
   else case len of
      None \<Rightarrow> headers_get (requestHeaders r True len) TE = Some chunked_value
    | Some n \<Rightarrow> headers_get (requestHeaders r True len) TE = None
        \<and> headers_get (requestHeaders r True len) CL = Some (num_str 10 n)"
proof (cases "headers_has (rq_headers r) CL \<or> headers_has (rq_headers r) TE")
  case True
  then have "requestHeaders r True len = with_host r" unfolding requestHeaders_with_host by auto
  with True with_host_get [of r] show ?thesis by (simp only: if_True simp_thms)
next
  case False
  then have no: "\<not> headers_has (with_host r) CL" "\<not> headers_has (with_host r) TE"
    unfolding headers_has_get with_host_get by simp_all
  have "TE \<noteq> CL" by (rule header_names)
  then show ?thesis
    using False headers_get_new [OF no(1)] headers_get_new [OF no(2)] with_host_get [of r] no
    by (cases len) (simp_all add: requestHeaders_with_host headers_get_append headers_get_None)
qed

lemma responseHeaders_framing:
  "if headers_has (rs_headers r) CL \<or> headers_has (rs_headers r) TE
   then headers_get (responseHeaders r True) TE = headers_get (rs_headers r) TE
      \<and> headers_get (responseHeaders r True) CL = headers_get (rs_headers r) CL
   else headers_get (responseHeaders r True) TE = Some chunked_value"
proof -
  let ?l = "if headers_has (rs_headers r) (lit ''connection'') then rs_headers r
    else rs_headers r @ [(lit ''connection'', lit ''close'')]"
  have get: "headers_get ?l TE = headers_get (rs_headers r) TE" "headers_get ?l CL = headers_get (rs_headers r) CL"
    by (rule headers_get_maybe [OF header_names(3)], rule headers_get_maybe [OF header_names(4)])
  show ?thesis
  proof (cases "headers_has (rs_headers r) CL \<or> headers_has (rs_headers r) TE")
    case True
    then have "responseHeaders r True = ?l" unfolding responseHeaders_def Let_def by - (rule if_not_P, blast)
    with True get show ?thesis by (simp only: if_True simp_thms)
  next
    case False
    then have "responseHeaders r True = ?l @ [(TE, chunked_value)]"
      unfolding responseHeaders_def Let_def by - (rule if_P, blast)
    moreover have "\<not> headers_has ?l TE" unfolding headers_has_get [of ?l] get using False unfolding headers_has_get by blast
    ultimately have "headers_get (responseHeaders r True) TE = Some chunked_value"
      using headers_get_new by metis
    with False show ?thesis by (simp only: if_False simp_thms)
  qed
qed

lemma serialize_chunks:
  "tl (out_chunks (serializeHttpRequest r body))
    = out_chunks (pipeBody (bodyStream body)
        (shouldChunkBody (rq_headers r) (bodyStream body \<noteq> None) (bodyLength body)))"
  "out_end (serializeHttpRequest r body) = out_end (pipeBody (bodyStream body)
        (shouldChunkBody (rq_headers r) (bodyStream body \<noteq> None) (bodyLength body)))"
  "tl (out_chunks (serializeHttpResponse p))
    = out_chunks (pipeBody (if hasResponseBody p then rs_body p else None)
        (shouldChunkBody (rs_headers p) (hasResponseBody p) None))"
  "out_end (serializeHttpResponse p) = out_end (pipeBody (if hasResponseBody p then rs_body p else None)
        (shouldChunkBody (rs_headers p) (hasResponseBody p) None))"
  by (simp_all add: serializeHttpRequest_def serializeHttpResponse_def Let_def)

subsection \<open>The head\<close>

text \<open>Text without a line end, and plain.\<close>

definition clean :: "jstring \<Rightarrow> bool" where
  "clean s \<longleftrightarrow> ascii s \<and> 13 \<notin> set s"

lemma clean_append [simp]: "clean (s @ t) \<longleftrightarrow> clean s \<and> clean t"
  by (auto simp: clean_def)

lemma js_split_crlf: "13 \<notin> set p \<Longrightarrow> js_split [13, 10] (p @ 13 # 10 # s) = p # js_split [13, 10] s"
  for p :: jstring
  by (induction p) (auto simp: prefix_Cons)

lemma split_lines:
  "lines \<noteq> [] \<Longrightarrow> list_all clean lines
   \<Longrightarrow> js_split crlf (js_join crlf lines @ crlf @ crlf) = lines @ [[], []]"
proof (induction lines)
  case (Cons l ls)
  have l: "13 \<notin> set l" using Cons.prems by (simp add: clean_def)
  show ?case
  proof (cases ls)
    case Nil
    then show ?thesis using js_split_crlf [OF l] by (simp add: crlf_def)
  next
    case (Cons l2 ls2)
    with Cons.IH Cons.prems js_split_crlf [OF l] show ?thesis by (simp add: crlf_def)
  qed
qed simp

lemma head_lines:
  assumes "lines \<noteq> []" "list_all clean lines"
  shows "js_split crlf (utf8_decode (encode_head lines)) = lines @ [[], []]"
proof -
  have "ascii (js_join crlf lines @ crlf @ crlf)"
    using set_js_join [of crlf lines] assms(2)
    by (fastforce simp: ascii_def clean_def list_all_iff crlf_def)
  with split_lines [OF assms] show ?thesis by (simp add: encode_head_def utf8_decode_encode_ascii)
qed

definition header_line :: "jstring \<times> jstring \<Rightarrow> jstring" where
  "header_line h = fst h @ lit '': '' @ snd h"

lemma appendHeaderLines_eq: "appendHeaderLines lines hs = lines @ List.map header_line hs"
  by (simp add: appendHeaderLines_def header_line_def case_prod_beta)

definition clean_headers :: "headers \<Rightarrow> bool" where
  "clean_headers hs \<longleftrightarrow> list_all (\<lambda>h. clean (fst h) \<and> clean (snd h)) hs"

lemma clean_lit: "clean (lit ''host'')" "clean (lit ''connection'')" "clean (lit ''close'')" "clean TE" "clean CL"
  "clean chunked_value" "clean (lit '': '')" "clean (lit '' '')" "clean (lit '' HTTP/1.1'')" "clean (lit ''HTTP/1.1 '')"
  by (simp_all add: clean_def lit_simps)

lemma clean_num: "clean (num_str 10 n)"
  using ascii_num_str [of 10 n] num_str_range [of 10 13 n] by (auto simp: clean_def)

lemma clean_header_lines: "clean_headers hs \<Longrightarrow> list_all clean (List.map header_line hs)"
  by (simp add: clean_headers_def header_line_def list_all_iff clean_lit)

lemma clean_requestHeaders:
  "clean_headers (rq_headers r) \<Longrightarrow> clean (url_host (rq_url r)) \<Longrightarrow> clean_headers (requestHeaders r b len)"
  by (simp add: requestHeaders_def Let_def clean_headers_def clean_lit clean_num split: option.split)

subsection \<open>Properties\<close>

text \<open>A serialized request carries its body: read by the rules for body lengths under the headers
  that are sent, the chunks after the head are exactly the content of the body stream, whether it is sent
  chunked (unknown length, or as the given headers ask for) or raw under its content length, and however
  the stream was cut into chunks, empty ones included.\<close>

theorem http_request_body_framed:
  assumes "bodyStream body = Some s" "bs_error s = None"
    and "framing_headers (rq_headers r) (length (concat (bs_chunks s)))"
    and "bodyLength body = None
      \<or> bodyLength body = Some (length (concat (bs_chunks s))) \<and> \<not> headers_has (rq_headers r) (lit ''transfer-encoding'')"
  shows "read_body (requestHeaders r True (bodyLength body)) (concat (tl (out_chunks (serializeHttpRequest r body))))
      = Some (concat (bs_chunks s))
    \<and> out_end (serializeHttpRequest r body) = Closed"
  using framed_body [OF assms(2-4) requestHeaders_framing] assms(1,2)
  by (simp add: serialize_chunks pipeBody_def)

definition example_http_request :: http_request where
  "example_http_request = \<lparr>rq_method = lit ''POST'',
     rq_url = \<lparr>url_host = lit ''h'', url_pathname = lit ''/a'', url_search = []\<rparr>, rq_headers = []\<rparr>"

definition example_stream :: body_stream where
  "example_stream = \<lparr>bs_chunks = [[1, 2], [], [3]], bs_error = None\<rparr>"

theorem http_request_body_framed_witness:
  "read_body (requestHeaders example_http_request True None)
      (concat (tl (out_chunks (serializeHttpRequest example_http_request (Some (Stream example_stream))))))
    = Some [1, 2, 3]"
  using http_request_body_framed [of "Some (Stream example_stream)" example_stream example_http_request]
  by (simp add: example_stream_def example_http_request_def framing_headers_def headers_has_def)

text \<open>A serialized response with a body is framed likewise; a response without one (no stream, or a
  status that allows none) sends nothing after its head, and the stream is closed.\<close>

theorem http_response_body_framed:
  assumes "rs_body p = Some s" "bs_error s = None"
    and "framing_headers (rs_headers p) (length (concat (bs_chunks s)))"
  shows "out_end (serializeHttpResponse p) = Closed
    \<and> (if statusAllowsBody (rs_status p)
       then read_body (responseHeaders p True) (concat (tl (out_chunks (serializeHttpResponse p))))
         = Some (concat (bs_chunks s))
       else tl (out_chunks (serializeHttpResponse p)) = [])"
proof -
  have "read_body (responseHeaders p True) (concat (out_chunks (pipeBody (Some s)
      (shouldChunkBody (rs_headers p) True None)))) = Some (concat (bs_chunks s))"
    using responseHeaders_framing [of p] by (intro framed_body [OF assms(2,3)]) simp_all
  with assms(1,2) show ?thesis by (simp add: serialize_chunks hasResponseBody_def pipeBody_def)
qed

definition example_http_response :: http_response where
  "example_http_response = \<lparr>rs_status = 200, rs_statusText = [], rs_headers = [(lit ''content-length'', lit ''3'')],
     rs_body = Some example_stream\<rparr>"

theorem http_response_body_framed_witness:
  "read_body (responseHeaders example_http_response True)
      (concat (tl (out_chunks (serializeHttpResponse example_http_response)))) = Some [1, 2, 3]"
proof -
  have "num_str 10 (Suc (Suc (Suc 0))) = lit ''3''" by (simp add: num_str.simps digit_char_def lit_simps)
  then have "framing_headers (rs_headers example_http_response) (length (concat (bs_chunks example_stream)))"
    by (simp add: framing_headers_def example_http_response_def example_stream_def headers_has_def headers_get_def)
  with http_response_body_framed [of example_http_response example_stream] show ?thesis
    by (simp add: example_http_response_def example_stream_def statusAllowsBody_def)
qed

text \<open>A body that fails part-way is not taken for a complete one: the stream ends with the error, and
  what was sent in chunks before it has no end for a reader of the chunked coding.\<close>

theorem http_failed_body_unterminated:
  assumes "bodyStream body = Some s" "bs_error s = Some e"
    and "shouldChunkBody (rq_headers r) True (bodyLength body)"
  shows "out_end (serializeHttpRequest r body) = Errored e
    \<and> dechunk (concat (tl (out_chunks (serializeHttpRequest r body)))) = None"
  using assms dechunk_pipe [of "bs_chunks s" "[]"] dechunk_Nil
  by (simp add: serialize_chunks pipeBody_def)

theorem http_failed_body_unterminated_witness:
  "dechunk (concat (tl (out_chunks (serializeHttpRequest example_http_request
     (Some (Stream (example_stream\<lparr>bs_error := Some TypeError\<rparr>))))))) = None"
  using http_failed_body_unterminated [of "Some (Stream (example_stream\<lparr>bs_error := Some TypeError\<rparr>))" _ TypeError
      example_http_request]
  by (simp add: example_http_request_def shouldChunkBody_def headers_has_def)

text \<open>The head of a request is read back line by line: its first chunk, decoded and split at line
  ends, is the request line, one line per header of \<open>requestHeaders\<close> and the empty line, so no
  header value adds a line or a body.\<close>

theorem http_request_head_lines:
  assumes "clean (rq_method r)" "clean (requestTarget (rq_url r))" "clean (url_host (rq_url r))"
    and "clean_headers (rq_headers r)"
  shows "js_split crlf (utf8_decode (hd (out_chunks (serializeHttpRequest r body))))
    = (rq_method r @ lit '' '' @ requestTarget (rq_url r) @ lit '' HTTP/1.1'')
      # List.map (\<lambda>h. fst h @ lit '': '' @ snd h) (requestHeaders r (bodyStream body \<noteq> None) (bodyLength body))
      @ [[], []]"
proof -
  let ?line = "rq_method r @ lit '' '' @ requestTarget (rq_url r) @ lit '' HTTP/1.1''"
  let ?lines = "?line # List.map header_line (requestHeaders r (bodyStream body \<noteq> None) (bodyLength body))"
  have "list_all clean ?lines"
    using assms clean_header_lines [OF clean_requestHeaders [OF assms(4,3)]] by (simp add: clean_lit)
  from head_lines [OF _ this] show ?thesis
    by (simp add: serializeHttpRequest_def Let_def appendHeaderLines_eq) (simp add: header_line_def)
qed

theorem http_request_head_lines_witness:
  "js_split crlf (utf8_decode (hd (out_chunks (serializeHttpRequest example_http_request None))))
    = [lit ''POST /a HTTP/1.1'', lit ''host: h'', lit ''connection: close'', [], []]"
  using http_request_head_lines [of example_http_request None]
  by (simp add: example_http_request_def requestHeaders_def requestTarget_def clean_headers_def headers_has_def
      clean_def lit_simps)

text \<open>When the caller sets \<open>transfer-encoding: chunked\<close> on a request whose body has a known
  length, the header is sent but the body is not chunked: a reader that follows the header cannot read a
  body that does not happen to start with a hex digit.\<close>

theorem http_known_length_contradicts_header:
  assumes "headers_get (rq_headers r) (lit ''transfer-encoding'') = Some (lit ''chunked'')"
    and "bodyStream body = Some s" "bodyLength body = Some n" "bs_error s = None"
    and "concat (bs_chunks s) = b # bs" "char_digit (of_nat (unat b)) = None"
  shows "headers_get (requestHeaders r True (bodyLength body)) (lit ''transfer-encoding'') = Some (lit ''chunked'')
    \<and> read_body (requestHeaders r True (bodyLength body)) (concat (tl (out_chunks (serializeHttpRequest r body)))) = None"
proof -
  have "headers_has (rq_headers r) TE" using assms(1) headers_get_None [of "rq_headers r" TE] by auto
  then have sent: "headers_get (requestHeaders r True (bodyLength body)) TE = Some chunked_value"
    using requestHeaders_framing [of r "bodyLength body"] assms(1) by simp
  have "\<not> shouldChunkBody (rq_headers r) True (bodyLength body)" using assms(3) by (simp add: shouldChunkBody_def)
  then have body: "concat (tl (out_chunks (serializeHttpRequest r body))) = b # bs"
    using assms(2,4,5) by (simp add: serialize_chunks pipeBody_def concat_pipe_raw)
  have "dechunk (b # bs) = None"
    using assms(6) by (subst dechunk.simps) (simp add: size_digits_def Let_def)
  with sent chunked_included [OF sent] show ?thesis unfolding body by (simp add: read_body_def)
qed

theorem http_known_length_contradicts_header_witness:
  "read_body (requestHeaders (example_http_request\<lparr>rq_headers := [(lit ''transfer-encoding'', lit ''chunked'')]\<rparr>) True (Some 3))
     (concat (tl (out_chunks (serializeHttpRequest
        (example_http_request\<lparr>rq_headers := [(lit ''transfer-encoding'', lit ''chunked'')]\<rparr>)
        (Some (Measured example_stream (Some 3))))))) = None"
  using http_known_length_contradicts_header [of "example_http_request\<lparr>rq_headers := [(lit ''transfer-encoding'', lit ''chunked'')]\<rparr>"
      "Some (Measured example_stream (Some 3))" example_stream 3 1 "[2, 3]"]
  by (simp add: example_stream_def headers_get_def char_digit_def)

end
