(* ===== verification/Net_Errors.thy ===== *)
theory Net_Errors
  imports JS_Map Ip_Addr
begin

text \<open>
  The errors of the network stack (\<open>packages/tcpip/src/network-error.ts\<close>), beside those of
  JavaScript, the text of the numbers that lwIP's functions return, and the step from a host name to
  an address that the bindings share.
\<close>

datatype network_error_code = ENETUNREACH | EMSGSIZE | ENETDOWN

datatype net_error = NetworkError network_error_code jstring | JsError js_error

definition net_throw :: "string \<Rightarrow> net_error" where
  "net_throw msg = JsError (Error (lit msg))"

definition number_text :: "int \<Rightarrow> jstring" where
  "number_text n = (if n < 0 then lit ''-'' @ num_str 10 (nat (- n)) else num_str 10 (nat n))"

text \<open>\<open>dns\<close> is the answer of the DNS client for the host name.\<close>

definition resolveHost :: "jstring res \<Rightarrow> jstring \<Rightarrow> parsed_address res" where
  "resolveHost dns host = (case parseAddress host of
     Inr a \<Rightarrow> Inr a
   | Inl _ \<Rightarrow> bnd dns parseAddress)"

end
