(* ===== verification/JS_Stream.thy ===== *)
theory JS_Stream
  imports JS_Base
begin

text \<open>
  Web streams, as far as the packages use them: a \<open>ReadableStream\<close> with a default controller and
  one reader. The state is that of the Streams standard: the queue, the read requests that wait for
  a chunk, the flags of the pull machinery, and the state of the stream. The answers given to the
  reader are kept in order, so that properties can speak of what a reader has seen. Functions here
  change the stream alone; where the standard calls the \<open>pull\<close> algorithm of the stream's owner
  is modelled with the owner. Of a \<open>WritableStream\<close> only the stored error is used.
\<close>

subsection \<open>Readable streams\<close>

datatype rs_state = Rs_readable | Rs_closed | Rs_errored js_error

datatype 'a read_answer = Chunk 'a | Done | Failed js_error

record 'a rstream =
  rs_queue :: "'a list"
  rs_requests :: nat
  rs_answers :: "'a read_answer list"
  rs_state :: rs_state
  rs_closeRequested :: bool
  rs_started :: bool
  rs_pulling :: bool
  rs_pullAgain :: bool
  rs_pullFailed :: "js_error option"

definition rs_init :: "'a rstream" where
  "rs_init = \<lparr>rs_queue = [], rs_requests = 0, rs_answers = [], rs_state = Rs_readable,
     rs_closeRequested = False, rs_started = False, rs_pulling = False, rs_pullAgain = False,
     rs_pullFailed = None\<rparr>"

definition can_enqueue :: "'a rstream \<Rightarrow> bool" where
  "can_enqueue s \<longleftrightarrow> \<not> rs_closeRequested s \<and> rs_state s = Rs_readable"

text \<open>
  \<open>desiredSize\<close> is \<open>null\<close> for an errored stream; a comparison of numbers reads \<open>null\<close> as 0.
\<close>

definition desiredSize :: "int \<Rightarrow> ('a \<Rightarrow> nat) \<Rightarrow> 'a rstream \<Rightarrow> int option" where
  "desiredSize hwm sz s = (case rs_state s of
     Rs_errored e \<Rightarrow> None
   | Rs_closed \<Rightarrow> Some 0
   | Rs_readable \<Rightarrow> Some (hwm - int (sum_list (map sz (rs_queue s)))))"

definition null_as_0 :: "int option \<Rightarrow> int" where
  "null_as_0 n = (case n of None \<Rightarrow> 0 | Some i \<Rightarrow> i)"

definition should_pull :: "int \<Rightarrow> ('a \<Rightarrow> nat) \<Rightarrow> 'a rstream \<Rightarrow> bool" where
  "should_pull hwm sz s \<longleftrightarrow> can_enqueue s \<and> rs_started s \<and>
     (0 < rs_requests s \<or> 0 < null_as_0 (desiredSize hwm sz s))"

text \<open>A chunk goes to the oldest waiting read, or into the queue when none waits.\<close>

definition rs_put :: "'a \<Rightarrow> 'a rstream \<Rightarrow> 'a rstream" where
  "rs_put x s = (if 0 < rs_requests s
     then s\<lparr>rs_requests := rs_requests s - 1, rs_answers := rs_answers s @ [Chunk x]\<rparr>
     else s\<lparr>rs_queue := rs_queue s @ [x]\<rparr>)"

text \<open>Closing answers the waiting reads with the end of the stream.\<close>

definition rs_finish :: "'a rstream \<Rightarrow> 'a rstream" where
  "rs_finish s = s\<lparr>rs_state := Rs_closed, rs_requests := 0,
     rs_answers := rs_answers s @ replicate (rs_requests s) Done\<rparr>"

definition controller_close :: "'a rstream \<Rightarrow> 'a rstream res" where
  "controller_close s = (if \<not> can_enqueue s then Inl TypeError
     else if rs_queue s = [] then Inr (rs_finish (s\<lparr>rs_closeRequested := True\<rparr>))
     else Inr (s\<lparr>rs_closeRequested := True\<rparr>))"

definition controller_error :: "js_error \<Rightarrow> 'a rstream \<Rightarrow> 'a rstream" where
  "controller_error e s = (if rs_state s \<noteq> Rs_readable then s
     else s\<lparr>rs_queue := [], rs_state := Rs_errored e, rs_requests := 0,
       rs_answers := rs_answers s @ replicate (rs_requests s) (Failed e)\<rparr>)"

definition rs_cancel :: "'a rstream \<Rightarrow> 'a rstream" where
  "rs_cancel s = (if rs_state s \<noteq> Rs_readable then s else rs_finish (s\<lparr>rs_queue := []\<rparr>))"

text \<open>
  \<open>reader.read()\<close>: the answer of a closed or errored stream, the oldest chunk of the queue (the
  last chunk of a stream that is to close closes it), or a request that waits. The flag says
  whether the standard asks next for a pull.
\<close>

definition rs_read :: "'a rstream \<Rightarrow> 'a rstream \<times> bool" where
  "rs_read s = (case rs_state s of
     Rs_closed \<Rightarrow> (s\<lparr>rs_answers := rs_answers s @ [Done]\<rparr>, False)
   | Rs_errored e \<Rightarrow> (s\<lparr>rs_answers := rs_answers s @ [Failed e]\<rparr>, False)
   | Rs_readable \<Rightarrow> (case rs_queue s of
       [] \<Rightarrow> (s\<lparr>rs_requests := rs_requests s + 1\<rparr>, True)
     | x # xs \<Rightarrow> let s' = s\<lparr>rs_queue := xs, rs_answers := rs_answers s @ [Chunk x]\<rparr> in
         if rs_closeRequested s \<and> xs = [] then (rs_finish s', False) else (s', True)))"

subsection \<open>What a reader has seen\<close>

fun answered_chunks :: "'a read_answer list \<Rightarrow> 'a list" where
  "answered_chunks [] = []"
| "answered_chunks (Chunk x # as) = x # answered_chunks as"
| "answered_chunks (Done # as) = answered_chunks as"
| "answered_chunks (Failed e # as) = answered_chunks as"

definition handed :: "'a rstream \<Rightarrow> 'a list" where
  "handed s = answered_chunks (rs_answers s)"

lemma answered_append [simp]: "answered_chunks (as @ bs) = answered_chunks as @ answered_chunks bs"
  by (induction as rule: answered_chunks.induct) auto

lemma answered_replicate [simp]:
  "answered_chunks (replicate n Done) = []" "answered_chunks (replicate n (Failed e)) = []"
  by (induction n) auto

lemma answered_map_Chunk [simp]: "answered_chunks (map Chunk xs) = xs"
  by (induction xs) auto

text \<open>
  The states that a stream has under its operations: reads wait only on an empty queue of a
  readable stream, a stream that is no longer readable has neither chunks nor waiting reads, and a
  stream that is to close closes with its last chunk. The answers are chunks, then the end or the
  error of the stream for ever.
\<close>

definition answers_ok :: "'a rstream \<Rightarrow> bool" where
  "answers_ok s \<longleftrightarrow> (case rs_state s of
     Rs_readable \<Rightarrow> rs_answers s = map Chunk (handed s)
   | Rs_closed \<Rightarrow> (\<exists>d. rs_answers s = map Chunk (handed s) @ replicate d Done)
   | Rs_errored e \<Rightarrow> (\<exists>d. rs_answers s = map Chunk (handed s) @ replicate d (Failed e)))"

definition rs_ok :: "'a rstream \<Rightarrow> bool" where
  "rs_ok s \<longleftrightarrow> (0 < rs_requests s \<longrightarrow> rs_queue s = [] \<and> \<not> rs_closeRequested s) \<and>
     (rs_state s \<noteq> Rs_readable \<longrightarrow> rs_queue s = [] \<and> rs_requests s = 0) \<and>
     (rs_closeRequested s \<longrightarrow> rs_state s = Rs_readable \<longrightarrow> rs_queue s \<noteq> []) \<and>
     (rs_pullAgain s \<longrightarrow> rs_pulling s) \<and> (rs_pulling s \<longrightarrow> rs_started s) \<and> answers_ok s"

definition asked :: "'a rstream \<Rightarrow> nat" where
  "asked s = length (rs_answers s) + rs_requests s"

lemma answers_init: "answers_ok rs_init"
  by (simp add: answers_ok_def rs_init_def handed_def)

lemma rs_ok_init [simp]: "rs_ok rs_init"
  using answers_init by (simp add: rs_ok_def rs_init_def)

lemma answers_ok_put: "answers_ok s \<Longrightarrow> rs_state s = Rs_readable \<Longrightarrow> answers_ok (rs_put x s)"
  by (simp add: answers_ok_def rs_put_def handed_def)

lemma answers_ok_flags [simp]:
  "answers_ok (s\<lparr>rs_queue := q\<rparr>) = answers_ok s"
  "answers_ok (s\<lparr>rs_requests := n\<rparr>) = answers_ok s"
  "answers_ok (s\<lparr>rs_closeRequested := b\<rparr>) = answers_ok s"
  "answers_ok (s\<lparr>rs_started := b\<rparr>) = answers_ok s"
  "answers_ok (s\<lparr>rs_pulling := b\<rparr>) = answers_ok s"
  "answers_ok (s\<lparr>rs_pullAgain := b\<rparr>) = answers_ok s"
  "answers_ok (s\<lparr>rs_pullFailed := e\<rparr>) = answers_ok s"
  by (simp_all add: answers_ok_def handed_def split: rs_state.split)

lemma answers_ok_finish: "answers_ok s \<Longrightarrow> rs_state s = Rs_readable \<Longrightarrow> answers_ok (rs_finish s)"
  by (auto simp: answers_ok_def rs_finish_def handed_def)

lemma answers_ok_error: "answers_ok s \<Longrightarrow> answers_ok (controller_error e s)"
  by (auto simp: answers_ok_def controller_error_def handed_def split: rs_state.splits)

lemma answers_ok_read: "answers_ok s \<Longrightarrow> answers_ok (fst (rs_read s))"
proof (cases "rs_state s")
  case Rs_readable
  then show "answers_ok s \<Longrightarrow> ?thesis"
    by (auto simp: answers_ok_def rs_read_def rs_finish_def handed_def Let_def split: list.splits
        intro: exI [of _ 0])
next
  case Rs_closed
  show "answers_ok s \<Longrightarrow> ?thesis"
  proof -
    assume "answers_ok s"
    with Rs_closed obtain d where "rs_answers s = map Chunk (handed s) @ replicate d Done"
      by (auto simp: answers_ok_def)
    then have "rs_answers s @ [Done] = map Chunk (handed s) @ replicate (Suc d) Done"
      by (simp add: replicate_append_same)
    then have "\<exists>d. rs_answers s @ [Done] = map Chunk (handed s) @ replicate d Done" by blast
    with Rs_closed show ?thesis by (simp add: answers_ok_def rs_read_def handed_def)
  qed
next
  case (Rs_errored e)
  show "answers_ok s \<Longrightarrow> ?thesis"
  proof -
    assume "answers_ok s"
    with Rs_errored obtain d where "rs_answers s = map Chunk (handed s) @ replicate d (Failed e)"
      by (auto simp: answers_ok_def)
    then have "rs_answers s @ [Failed e] = map Chunk (handed s) @ replicate (Suc d) (Failed e)"
      by (simp add: replicate_append_same)
    then have "\<exists>d. rs_answers s @ [Failed e] = map Chunk (handed s) @ replicate d (Failed e)"
      by blast
    with Rs_errored show ?thesis by (simp add: answers_ok_def rs_read_def handed_def)
  qed
qed

lemma rs_ok_answers: "rs_ok s \<Longrightarrow> answers_ok s"
  by (simp add: rs_ok_def)

lemma rs_ok_put: "rs_ok s \<Longrightarrow> can_enqueue s \<Longrightarrow> rs_ok (rs_put x s)"
  using answers_ok_put [of s x] by (auto simp: rs_ok_def rs_put_def can_enqueue_def)

lemma rs_ok_finish:
  "rs_ok s \<Longrightarrow> rs_queue s = [] \<Longrightarrow> rs_state s = Rs_readable \<Longrightarrow> rs_ok (rs_finish s)"
  using answers_ok_finish [of s] by (auto simp: rs_ok_def rs_finish_def)

lemma rs_ok_close: "rs_ok s \<Longrightarrow> controller_close s = Inr s' \<Longrightarrow> rs_ok s'"
  using answers_ok_finish [of "s\<lparr>rs_closeRequested := True\<rparr>"]
  by (auto simp: controller_close_def rs_ok_def rs_finish_def can_enqueue_def split: if_splits)

lemma rs_ok_error: "rs_ok s \<Longrightarrow> rs_ok (controller_error e s)"
  using answers_ok_error [of s e] by (auto simp: rs_ok_def controller_error_def)

lemma rs_ok_cancel: "rs_ok s \<Longrightarrow> rs_ok (rs_cancel s)"
  using answers_ok_finish [of "s\<lparr>rs_queue := []\<rparr>"]
  by (auto simp: rs_ok_def rs_cancel_def rs_finish_def)

lemma rs_ok_read: "rs_ok s \<Longrightarrow> rs_ok (fst (rs_read s))"
  using answers_ok_read [of s]
  by (auto simp: rs_ok_def rs_read_def rs_finish_def Let_def split: rs_state.splits list.splits)

lemma asked_put [simp]: "asked (rs_put x s) = asked s"
  by (simp add: asked_def rs_put_def)

lemma asked_finish [simp]: "asked (rs_finish s) = asked s"
  by (simp add: asked_def rs_finish_def)

lemma asked_read: "asked (fst (rs_read s)) = asked s + 1"
  by (simp add: asked_def rs_read_def rs_finish_def Let_def split: rs_state.split list.split)

lemma handed_put [simp]: "rs_queue s = [] \<or> rs_requests s = 0 \<Longrightarrow>
  handed (rs_put x s) @ rs_queue (rs_put x s) = (handed s @ rs_queue s) @ [x]"
  by (auto simp: handed_def rs_put_def)

lemma rs_put_flags [simp]:
  "rs_state (rs_put x s) = rs_state s" "rs_closeRequested (rs_put x s) = rs_closeRequested s"
  "rs_started (rs_put x s) = rs_started s" "rs_pulling (rs_put x s) = rs_pulling s"
  "rs_pullAgain (rs_put x s) = rs_pullAgain s" "rs_pullFailed (rs_put x s) = rs_pullFailed s"
  "can_enqueue (rs_put x s) = can_enqueue s"
  by (simp_all add: rs_put_def can_enqueue_def)

lemma should_pull_wants:
  "rs_ok s \<Longrightarrow> 0 < hwm \<Longrightarrow> should_pull hwm sz s \<Longrightarrow> 0 < null_as_0 (desiredSize hwm sz s)"
  by (auto simp: should_pull_def rs_ok_def desiredSize_def null_as_0_def can_enqueue_def)

lemma handed_read: "handed (fst (rs_read s)) @ rs_queue (fst (rs_read s)) = handed s @ rs_queue s"
  by (auto simp: rs_read_def handed_def rs_finish_def Let_def split: rs_state.splits list.splits)

subsection \<open>Writable streams\<close>

text \<open>The first error of a writable stream is the one its writers see.\<close>

definition writable_error :: "js_error \<Rightarrow> js_error option \<Rightarrow> js_error option" where
  "writable_error e w = (case w of None \<Rightarrow> Some e | Some e' \<Rightarrow> Some e')"

end
