(* ===== verification/Tcp_Stream.thy ===== *)
theory Tcp_Stream
  imports JS_Stream "HOL-Library.While_Combinator"
begin

text \<open>
  The JavaScript side of a TCP connection (class \<open>VirtualTcpConnection\<close> of
  \<open>packages/tcpip/src/bindings/tcp.ts\<close>): the receive buffer between lwIP and the readable stream,
  the window updates sent back to lwIP, and the ends of the connection. The state is a record with
  the private fields of the class; \<open>windowUpdates\<close> lists the calls of \<open>updateReceiveBuffer\<close>.
  An event is one call of a hook, of a method of the stream or of a microtask of the pull machinery.
\<close>

subsection \<open>State\<close>

definition MAX_SEGMENT_SIZE :: int where
  "MAX_SEGMENT_SIZE = 1448"

definition MAX_WINDOW_SIZE :: int where
  "MAX_WINDOW_SIZE = MAX_SEGMENT_SIZE * 4"

definition READABLE_HIGH_WATER_MARK :: int where
  "READABLE_HIGH_WATER_MARK = MAX_SEGMENT_SIZE"

record tcp_connection =
  receiveBuffer :: "bytes list"
  remoteClosed :: bool
  readableClosed :: bool
  tcp_disposed :: bool
  readable :: "bytes rstream"
  writableError :: "js_error option"
  windowUpdates :: "nat list"

definition tcp_connection_init :: tcp_connection where
  "tcp_connection_init = \<lparr>receiveBuffer = [], remoteClosed = False, readableClosed = False,
     tcp_disposed = False, readable = rs_init, writableError = None, windowUpdates = []\<rparr>"

definition connection_closed :: js_error where
  "connection_closed = Error (lit ''tcp connection closed'')"

definition desired :: "tcp_connection \<Rightarrow> int" where
  "desired c = null_as_0 (desiredSize READABLE_HIGH_WATER_MARK length (readable c))"

abbreviation wants_pull :: "tcp_connection \<Rightarrow> bool" where
  "wants_pull c \<equiv> should_pull READABLE_HIGH_WATER_MARK length (readable c)"

definition errorWritable :: "js_error \<Rightarrow> tcp_connection \<Rightarrow> tcp_connection" where
  "errorWritable e c = c\<lparr>writableError := writable_error e (writableError c)\<rparr>"

definition closeReadable :: "tcp_connection \<Rightarrow> tcp_connection" where
  "closeReadable c = (if readableClosed c then c
     else c\<lparr>readableClosed := True,
       readable := (case controller_close (readable c) of Inl e \<Rightarrow> readable c | Inr s \<Rightarrow> s)\<rparr>)"

definition errorReadable :: "js_error \<Rightarrow> tcp_connection \<Rightarrow> tcp_connection" where
  "errorReadable e c = (if readableClosed c then c
     else c\<lparr>readableClosed := True, readable := controller_error e (readable c)\<rparr>)"

subsection \<open>Enqueueing, and the pull it may run\<close>

text \<open>
  \<open>controller.enqueue\<close> may run the \<open>pull\<close> algorithm of the stream before it returns, and that
  algorithm is \<open>enqueueBuffer\<close> again; a pull that is requested while one runs is only noted. An
  exception of the nested call rejects the promise of the pull. The nested call is an argument
  here, and the knot is tied below.
\<close>

type_synonym pull_algorithm = "tcp_connection \<Rightarrow> tcp_connection \<times> js_error option"

definition callPullIfNeeded :: "pull_algorithm \<Rightarrow> tcp_connection \<Rightarrow> tcp_connection" where
  "callPullIfNeeded pull c =
     (if \<not> wants_pull c then c
      else if rs_pulling (readable c) then c\<lparr>readable := (readable c)\<lparr>rs_pullAgain := True\<rparr>\<rparr>
      else let (c', e) = pull (c\<lparr>readable := (readable c)\<lparr>rs_pulling := True\<rparr>\<rparr>) in
        c'\<lparr>readable := (readable c')\<lparr>rs_pullFailed := e\<rparr>\<rparr>)"

definition controller_enqueue :: "pull_algorithm \<Rightarrow> bytes \<Rightarrow> tcp_connection \<Rightarrow> tcp_connection res" where
  "controller_enqueue pull chunk c =
     (if \<not> can_enqueue (readable c) then Inl TypeError
      else Inr (callPullIfNeeded pull (c\<lparr>readable := rs_put chunk (readable c)\<rparr>)))"

text \<open>
  The loop over the receive buffer, on \<open>bytesEnqueued\<close>, the connection and the exception that ends
  it. The desired size is read again in every round, after what the round before has enqueued.
\<close>

type_synonym enqueue_state = "nat \<times> tcp_connection \<times> js_error option"

fun enqueue_more :: "enqueue_state \<Rightarrow> bool" where
  "enqueue_more (bytesEnqueued, c, e) = (case (receiveBuffer c, e) of
     (chunk # rest, None) \<Rightarrow>
       \<not> (0 < bytesEnqueued \<and> int (bytesEnqueued + length chunk) > desired c)
   | _ \<Rightarrow> False)"

fun enqueue_round :: "pull_algorithm \<Rightarrow> enqueue_state \<Rightarrow> enqueue_state" where
  "enqueue_round pull (bytesEnqueued, c, e) = (case receiveBuffer c of
     [] \<Rightarrow> (bytesEnqueued, c, e)
   | chunk # rest \<Rightarrow> let c1 = c\<lparr>receiveBuffer := rest\<rparr> in
       (case controller_enqueue pull chunk c1 of
          Inl e' \<Rightarrow> (bytesEnqueued, c1, Some e')
        | Inr c2 \<Rightarrow> (bytesEnqueued + length chunk, c2, None)))"

definition enqueue_loop :: "pull_algorithm \<Rightarrow> enqueue_state \<Rightarrow> enqueue_state" where
  "enqueue_loop pull = while enqueue_more (enqueue_round pull)"

definition close_if_drained :: "tcp_connection \<Rightarrow> tcp_connection" where
  "close_if_drained c = (if remoteClosed c \<and> receiveBuffer c = []
     then errorWritable connection_closed (closeReadable c) else c)"

definition enqueueBuffer_with :: "pull_algorithm \<Rightarrow> tcp_connection \<Rightarrow> tcp_connection \<times> js_error option" where
  "enqueueBuffer_with pull c =
     (if tcp_disposed c then (c, None)
      else if remoteClosed c \<and> receiveBuffer c = []
      then (errorWritable connection_closed (closeReadable c), None)
      else if \<not> 0 < desired c then (c, None)
      else case enqueue_loop pull (0, c, None) of
        (bytesEnqueued, c', Some e) \<Rightarrow> (c', Some e)
      | (bytesEnqueued, c', None) \<Rightarrow>
          (close_if_drained (if 0 < bytesEnqueued
             then c'\<lparr>windowUpdates := windowUpdates c' @ [bytesEnqueued]\<rparr> else c'), None))"

text \<open>
  A pull runs with the \<open>pulling\<close> flag set, so it starts no pull of its own: inside it the
  argument is never called.
\<close>

definition pull_enqueueBuffer :: pull_algorithm where
  "pull_enqueueBuffer = enqueueBuffer_with (\<lambda>c. (c, None))"

definition enqueueBuffer :: "tcp_connection \<Rightarrow> tcp_connection \<times> js_error option" where
  "enqueueBuffer = enqueueBuffer_with pull_enqueueBuffer"

subsection \<open>Events\<close>

datatype tcp_event = Started | Receive bytes | RemoteClose | Read | PullSettled | Cancel
  | Dispose js_error | LocalClose

text \<open>
  \<open>Receive\<close>, \<open>RemoteClose\<close> and \<open>Dispose\<close> are the inner hooks (an exception of the first two
  rejects a promise that the caller leaves alone); \<open>LocalClose\<close> is what \<open>close()\<close> does after
  lwIP has accepted the close; \<open>Read\<close> and \<open>Cancel\<close> are the reader's; \<open>Started\<close> and
  \<open>PullSettled\<close> are the microtasks in which the promises of \<open>start\<close> and \<open>pull\<close> settle.
\<close>

definition receive_data :: "bytes \<Rightarrow> tcp_connection \<Rightarrow> tcp_connection" where
  "receive_data data c = (if tcp_disposed c then c
     else fst (enqueueBuffer (c\<lparr>receiveBuffer := receiveBuffer c @ [data]\<rparr>)))"

definition remote_close :: "tcp_connection \<Rightarrow> tcp_connection" where
  "remote_close c = (if tcp_disposed c then c else fst (enqueueBuffer (c\<lparr>remoteClosed := True\<rparr>)))"

definition dispose_connection :: "js_error \<Rightarrow> tcp_connection \<Rightarrow> tcp_connection" where
  "dispose_connection e c = (if tcp_disposed c then c
     else errorWritable e (errorReadable e (c\<lparr>tcp_disposed := True, receiveBuffer := []\<rparr>)))"

definition local_close :: "tcp_connection \<Rightarrow> tcp_connection" where
  "local_close c = errorWritable connection_closed (errorReadable connection_closed c)"

definition read_chunk :: "tcp_connection \<Rightarrow> tcp_connection" where
  "read_chunk c = (let (s, pulls) = rs_read (readable c); c' = c\<lparr>readable := s\<rparr> in
     if pulls then callPullIfNeeded enqueueBuffer c' else c')"

definition stream_started :: "tcp_connection \<Rightarrow> tcp_connection" where
  "stream_started c = (if rs_started (readable c) then c
     else callPullIfNeeded enqueueBuffer (c\<lparr>readable := (readable c)\<lparr>rs_started := True\<rparr>\<rparr>))"

definition pull_settled :: "tcp_connection \<Rightarrow> tcp_connection" where
  "pull_settled c = (let s = readable c in
     if \<not> rs_pulling s then c
     else case rs_pullFailed s of
       Some e \<Rightarrow> c\<lparr>readable := controller_error e s\<rparr>
     | None \<Rightarrow> if rs_pullAgain s
         then callPullIfNeeded enqueueBuffer
           (c\<lparr>readable := s\<lparr>rs_pulling := False, rs_pullAgain := False\<rparr>\<rparr>)
         else c\<lparr>readable := s\<lparr>rs_pulling := False\<rparr>\<rparr>)"

fun tcp_step :: "tcp_event \<Rightarrow> tcp_connection \<Rightarrow> tcp_connection" where
  "tcp_step Started c = stream_started c"
| "tcp_step (Receive data) c = receive_data data c"
| "tcp_step RemoteClose c = remote_close c"
| "tcp_step Read c = read_chunk c"
| "tcp_step PullSettled c = pull_settled c"
| "tcp_step Cancel c = c\<lparr>readable := rs_cancel (readable c)\<rparr>"
| "tcp_step (Dispose e) c = dispose_connection e c"
| "tcp_step LocalClose c = local_close c"

definition tcp_run :: "tcp_event list \<Rightarrow> tcp_connection" where
  "tcp_run evs = fold tcp_step evs tcp_connection_init"

text \<open>What lwIP has delivered, and how often the reader has asked.\<close>

fun received :: "tcp_event list \<Rightarrow> bytes list" where
  "received [] = []"
| "received (Receive data # evs) = data # received evs"
| "received (ev # evs) = received evs"

definition reads :: "tcp_event list \<Rightarrow> nat" where
  "reads evs = length (filter (\<lambda>ev. ev = Read) evs)"

end
