(* ===== verification/Tcp_Reading.thy ===== *)
theory Tcp_Reading
  imports Tcp_Stream
begin

text \<open>
  What the reader of a TCP connection sees. \<open>conn_ok\<close> holds in every state of a connection;
  \<open>moved xs c c'\<close> says that a call has moved the chunks \<open>xs\<close> from the receive buffer to the
  stream and done nothing else to the data; \<open>settled\<close> rules out that a chunk is left waiting
  while the stream wants one. The theorems at the end follow the data from the receive hook to
  the answers of the reader, and the window updates back to lwIP.
\<close>

subsection \<open>Invariant and progress\<close>

definition conn_ok :: "tcp_connection \<Rightarrow> bool" where
  "conn_ok c \<longleftrightarrow> rs_ok (readable c) \<and> rs_pullFailed (readable c) = None \<and>
     (rs_closeRequested (readable c) \<longrightarrow> readableClosed c) \<and>
     (readableClosed c \<longrightarrow> \<not> can_enqueue (readable c)) \<and>
     (tcp_disposed c \<longrightarrow> receiveBuffer c = [] \<and> readableClosed c)"

definition in_stream :: "tcp_connection \<Rightarrow> bytes list" where
  "in_stream c = handed (readable c) @ rs_queue (readable c)"

definition size_of :: "bytes list \<Rightarrow> nat" where
  "size_of xs = sum_list (map length xs)"

definition credit :: "tcp_connection \<Rightarrow> nat" where
  "credit c = sum_list (windowUpdates c)"

definition drained :: "tcp_connection \<Rightarrow> bool" where
  "drained c \<longleftrightarrow> remoteClosed c \<and> receiveBuffer c = []"

definition moved :: "bytes list \<Rightarrow> tcp_connection \<Rightarrow> tcp_connection \<Rightarrow> bool" where
  "moved xs c c' \<longleftrightarrow> receiveBuffer c = xs @ receiveBuffer c' \<and> in_stream c' = in_stream c @ xs \<and>
     asked (readable c') = asked (readable c) \<and>
     remoteClosed c' = remoteClosed c \<and> tcp_disposed c' = tcp_disposed c \<and>
     rs_started (readable c') = rs_started (readable c) \<and>
     (rs_pulling (readable c) \<longrightarrow> rs_pulling (readable c')) \<and>
     (can_enqueue (readable c) \<longrightarrow> can_enqueue (readable c') \<or> drained c') \<and>
     (\<not> can_enqueue (readable c) \<longrightarrow> xs = [] \<and> \<not> can_enqueue (readable c')) \<and>
     (\<forall>e. rs_state (readable c') = Rs_errored e \<longrightarrow> rs_state (readable c) = Rs_errored e)"

definition settled :: "tcp_connection \<Rightarrow> bool" where
  "settled c \<longleftrightarrow> (wants_pull c \<and> receiveBuffer c \<noteq> [] \<longrightarrow> rs_pullAgain (readable c))"

lemma size_of_simps [simp]:
  "size_of [] = 0" "size_of (x # xs) = length x + size_of xs"
  "size_of (xs @ ys) = size_of xs + size_of ys"
  by (simp_all add: size_of_def)

lemma moved_refl [simp]: "moved [] c c"
  by (simp add: moved_def)

lemma moved_trans: "moved xs c c' \<Longrightarrow> moved ys c' c'' \<Longrightarrow> moved (xs @ ys) c c''"
  by (auto simp: moved_def drained_def)

lemma errorWritable_fields [simp]:
  "receiveBuffer (errorWritable e c) = receiveBuffer c"
  "remoteClosed (errorWritable e c) = remoteClosed c"
  "readableClosed (errorWritable e c) = readableClosed c"
  "tcp_disposed (errorWritable e c) = tcp_disposed c"
  "readable (errorWritable e c) = readable c"
  "windowUpdates (errorWritable e c) = windowUpdates c"
  by (simp_all add: errorWritable_def)

lemma closeReadable_fields [simp]:
  "receiveBuffer (closeReadable c) = receiveBuffer c"
  "remoteClosed (closeReadable c) = remoteClosed c"
  "tcp_disposed (closeReadable c) = tcp_disposed c"
  "windowUpdates (closeReadable c) = windowUpdates c"
  "readableClosed (closeReadable c)"
  by (simp_all add: closeReadable_def)

lemma errorReadable_fields [simp]:
  "receiveBuffer (errorReadable e c) = receiveBuffer c"
  "remoteClosed (errorReadable e c) = remoteClosed c"
  "tcp_disposed (errorReadable e c) = tcp_disposed c"
  "windowUpdates (errorReadable e c) = windowUpdates c"
  "readableClosed (errorReadable e c)"
  by (simp_all add: errorReadable_def)

lemma controller_close_fields:
  "controller_close s = Inr s' \<Longrightarrow> rs_queue s' = rs_queue s \<and> handed s' = handed s \<and>
     asked s' = asked s \<and> rs_started s' = rs_started s \<and> rs_pulling s' = rs_pulling s \<and>
     rs_pullAgain s' = rs_pullAgain s \<and> rs_pullFailed s' = rs_pullFailed s \<and>
     \<not> can_enqueue s' \<and> (\<forall>e. rs_state s' \<noteq> Rs_errored e)"
  by (auto simp: controller_close_def rs_finish_def handed_def asked_def can_enqueue_def
      split: if_splits)

lemma closeReadable_ok:
  assumes "conn_ok c"
  shows "conn_ok (closeReadable c)"
proof (cases "controller_close (readable c)")
  case (Inl e)
  with assms show ?thesis
    by (auto simp: conn_ok_def closeReadable_def controller_close_def split: if_splits)
next
  case (Inr s)
  with assms show ?thesis
    using controller_close_fields [OF Inr] rs_ok_close [OF _ Inr]
    by (auto simp: conn_ok_def closeReadable_def)
qed

lemma closeReadable_moved:
  assumes "drained c"
  shows "moved [] c (closeReadable c)"
proof (cases "controller_close (readable c)")
  case (Inl e)
  with assms show ?thesis by (auto simp: closeReadable_def moved_def in_stream_def)
next
  case (Inr s)
  with assms show ?thesis
    using controller_close_fields [OF Inr]
    by (auto simp: closeReadable_def moved_def in_stream_def drained_def)
qed

lemma errorWritable_ok [simp]: "conn_ok (errorWritable e c) = conn_ok c"
  by (simp add: conn_ok_def)

lemma errorWritable_moved [simp]: "moved xs c (errorWritable e c') = moved xs c c'"
  by (simp add: moved_def in_stream_def drained_def)

subsection \<open>The loop\<close>

text \<open>What a call of \<open>enqueueBuffer\<close> has done: it has not thrown, and the stream is served.\<close>

definition closes_when_drained :: "tcp_connection \<Rightarrow> bool" where
  "closes_when_drained c \<longleftrightarrow> (drained c \<longrightarrow> readableClosed c)"

definition transferred :: "tcp_connection \<Rightarrow> tcp_connection \<Rightarrow> bool" where
  "transferred c c' \<longleftrightarrow> (\<exists>xs. moved xs c c' \<and> credit c' = credit c + size_of xs) \<and>
     conn_ok c' \<and> settled c'"

definition steps_down :: "tcp_connection \<Rightarrow> tcp_connection \<Rightarrow> bool" where
  "steps_down c c' \<longleftrightarrow> (rs_pullAgain (readable c') \<longrightarrow> rs_pullAgain (readable c)) \<or>
     length (receiveBuffer c') < length (receiveBuffer c)"

definition serves :: "pull_algorithm \<Rightarrow> tcp_connection \<Rightarrow> bool" where
  "serves pull c \<longleftrightarrow> snd (pull c) = None \<and> transferred c (fst (pull c)) \<and>
     closes_when_drained (fst (pull c)) \<and> steps_down c (fst (pull c))"

definition good_pull :: "pull_algorithm \<Rightarrow> bool" where
  "good_pull pull \<longleftrightarrow> (\<forall>c. conn_ok c \<longrightarrow> rs_pulling (readable c) \<longrightarrow> can_enqueue (readable c) \<longrightarrow>
     serves pull c)"

lemma credit_readable [simp]: "credit (c\<lparr>readable := s\<rparr>) = credit c"
  by (simp add: credit_def)

lemma wants_pull_flags [simp]:
  "should_pull hwm sz (s\<lparr>rs_pulling := b\<rparr>) = should_pull hwm sz s"
  "should_pull hwm sz (s\<lparr>rs_pullAgain := b\<rparr>) = should_pull hwm sz s"
  "should_pull hwm sz (s\<lparr>rs_pullFailed := e\<rparr>) = should_pull hwm sz s"
  by (simp_all add: should_pull_def can_enqueue_def desiredSize_def split: rs_state.split)

lemma can_enqueue_flags [simp]:
  "can_enqueue (s\<lparr>rs_pulling := b\<rparr>) = can_enqueue s"
  "can_enqueue (s\<lparr>rs_pullAgain := b\<rparr>) = can_enqueue s"
  "can_enqueue (s\<lparr>rs_pullFailed := e\<rparr>) = can_enqueue s"
  "can_enqueue (s\<lparr>rs_started := b\<rparr>) = can_enqueue s"
  by (simp_all add: can_enqueue_def)

lemma conn_ok_pulling:
  "conn_ok c \<Longrightarrow> wants_pull c \<Longrightarrow> conn_ok (c\<lparr>readable := (readable c)\<lparr>rs_pulling := True\<rparr>\<rparr>)"
  by (auto simp: conn_ok_def rs_ok_def should_pull_def)

lemma transferred_trans:
  assumes "transferred c c'" "transferred c' c''"
  shows "transferred c c''"
proof -
  from assms(1) obtain xs where "moved xs c c'" "credit c' = credit c + size_of xs"
    by (auto simp: transferred_def)
  moreover from assms(2) obtain ys where "moved ys c' c''" "credit c'' = credit c' + size_of ys"
    by (auto simp: transferred_def)
  ultimately have "moved (xs @ ys) c c'' \<and> credit c'' = credit c + size_of (xs @ ys)"
    by (auto intro: moved_trans)
  with assms(2) show ?thesis by (auto simp: transferred_def)
qed

lemma moved_flag: "moved xs (c\<lparr>readable := (readable c)\<lparr>rs_pulling := True\<rparr>\<rparr>) c' \<Longrightarrow> moved xs c c'"
  by (auto simp: moved_def in_stream_def handed_def asked_def)

lemma callPull_transferred:
  assumes "conn_ok c" "rs_pulling (readable c) \<or> good_pull pull"
  shows "transferred c (callPullIfNeeded pull c) \<and>
    (closes_when_drained c \<longrightarrow> closes_when_drained (callPullIfNeeded pull c))"
proof (cases "wants_pull c \<and> \<not> rs_pulling (readable c)")
  case False
  with assms(1) show ?thesis
    by (auto simp: callPullIfNeeded_def transferred_def settled_def conn_ok_def rs_ok_def moved_def
        in_stream_def handed_def asked_def closes_when_drained_def drained_def)
next
  case True
  let ?c = "c\<lparr>readable := (readable c)\<lparr>rs_pulling := True\<rparr>\<rparr>"
  from True have can: "can_enqueue (readable ?c)" by (simp add: should_pull_def)
  have ok: "conn_ok ?c" using assms(1) True by (simp add: conn_ok_pulling)
  from assms(2) True have "good_pull pull" by simp
  then have s: "serves pull ?c" using ok can by (simp add: good_pull_def)
  obtain c' where c': "pull ?c = (c', None)" using s by (cases "pull ?c") (auto simp: serves_def)
  with s have t: "transferred ?c c'" "closes_when_drained c'" by (simp_all add: serves_def)
  then have "c'\<lparr>readable := (readable c')\<lparr>rs_pullFailed := None\<rparr>\<rparr> = c'"
    by (simp add: transferred_def conn_ok_def)
  with True c' have "callPullIfNeeded pull c = c'" by (simp add: callPullIfNeeded_def)
  with t show ?thesis by (auto simp: transferred_def dest: moved_flag)
qed

text \<open>One round moves one chunk, and what a pull in it moves besides.\<close>

lemma moved_put:
  assumes "conn_ok c" "can_enqueue (readable c)" "receiveBuffer c = chunk # rest"
  shows "moved [chunk] c (c\<lparr>receiveBuffer := rest, readable := rs_put chunk (readable c)\<rparr>) \<and>
    conn_ok (c\<lparr>receiveBuffer := rest, readable := rs_put chunk (readable c)\<rparr>)"
proof -
  have ok: "rs_ok (readable c)" using assms(1) by (simp add: conn_ok_def)
  then have "rs_queue (readable c) = [] \<or> rs_requests (readable c) = 0" by (auto simp: rs_ok_def)
  then show ?thesis
    using assms rs_ok_put [OF ok assms(2)]
    by (auto simp: moved_def conn_ok_def in_stream_def)
qed

lemma enqueue_round_ok:
  assumes "conn_ok c" "can_enqueue (readable c)" "receiveBuffer c = chunk # rest"
    "rs_pulling (readable c) \<or> good_pull pull"
  obtains c' xs where "enqueue_round pull (b, c, None) = (b + length chunk, c', None)"
    "moved (chunk # xs) c c'" "credit c' = credit c + size_of xs" "conn_ok c'" "settled c'"
proof -
  let ?c = "c\<lparr>receiveBuffer := rest, readable := rs_put chunk (readable c)\<rparr>"
  have m: "moved [chunk] c ?c" "conn_ok ?c" using moved_put [OF assms(1-3)] by simp_all
  have "transferred ?c (callPullIfNeeded pull ?c)"
    using callPull_transferred [OF m(2), of pull] assms(4) by auto
  then obtain xs where x: "moved xs ?c (callPullIfNeeded pull ?c)"
    "credit (callPullIfNeeded pull ?c) = credit ?c + size_of xs"
    "conn_ok (callPullIfNeeded pull ?c)" "settled (callPullIfNeeded pull ?c)"
    by (auto simp: transferred_def)
  show ?thesis
  proof (rule that)
    show "enqueue_round pull (b, c, None) = (b + length chunk, callPullIfNeeded pull ?c, None)"
      using assms(2,3) by (simp add: controller_enqueue_def)
    show "moved (chunk # xs) c (callPullIfNeeded pull ?c)"
      using moved_trans [OF m(1) x(1)] by simp
    show "credit (callPullIfNeeded pull ?c) = credit c + size_of xs"
      using x(2) by (simp add: credit_def)
  qed (use x in simp_all)
qed

text \<open>The loop ends, since every round takes a chunk from the buffer.\<close>

lemma enqueue_loop_ok:
  assumes "conn_ok c" "can_enqueue (readable c) \<or> receiveBuffer c = []"
    "rs_pulling (readable c) \<or> good_pull pull"
  shows "\<exists>b' c' xs. while_option enqueue_more (enqueue_round pull) (b, c, None) = Some (b', c', None) \<and>
    moved xs c c' \<and> credit c' + b' = credit c + b + size_of xs \<and> conn_ok c' \<and>
    (if enqueue_more (b, c, None) then xs \<noteq> [] \<and> settled c' else c' = c \<and> b' = b)"
  using assms
proof (induction "length (receiveBuffer c)" arbitrary: b c rule: less_induct)
  case less
  show ?case
  proof (cases "enqueue_more (b, c, None)")
    case False
    with less.prems show ?thesis
      by (intro exI [of _ b] exI [of _ c] exI [of _ "[]"])
         (simp add: while_option_unfold [of enqueue_more])
  next
    case True
    then obtain chunk rest where buf: "receiveBuffer c = chunk # rest"
      by (auto split: list.splits)
    with less.prems have can: "can_enqueue (readable c)" by simp
    obtain c1 xs where r: "enqueue_round pull (b, c, None) = (b + length chunk, c1, None)"
      "moved (chunk # xs) c c1" "credit c1 = credit c + size_of xs" "conn_ok c1" "settled c1"
      using enqueue_round_ok [OF less.prems(1) can buf less.prems(3)] by metis
    have len: "length (receiveBuffer c1) < length (receiveBuffer c)"
      using r(2) by (simp add: moved_def)
    have next1: "can_enqueue (readable c1) \<or> receiveBuffer c1 = []"
      "rs_pulling (readable c1) \<or> good_pull pull"
      using r(2) can less.prems(3) by (auto simp: moved_def drained_def)
    obtain b' c' ys where w:
      "while_option enqueue_more (enqueue_round pull) (b + length chunk, c1, None) = Some (b', c', None)"
      "moved ys c1 c'" "credit c' + b' = credit c1 + (b + length chunk) + size_of ys" "conn_ok c'"
      "if enqueue_more (b + length chunk, c1, None) then ys \<noteq> [] \<and> settled c'
       else c' = c1 \<and> b' = b + length chunk"
      using less.hyps [OF len r(4) next1, of "b + length chunk"] by blast
    have "settled c'" using w(5) r(5) by (simp split: if_splits)
    moreover have "while_option enqueue_more (enqueue_round pull) (b, c, None) = Some (b', c', None)"
      using True r(1) w(1) by (subst while_option_unfold) (simp del: enqueue_more.simps enqueue_round.simps)
    moreover have "moved (chunk # xs @ ys) c c'" using moved_trans [OF r(2) w(2)] by simp
    moreover have "credit c' + b' = credit c + b + size_of (chunk # xs @ ys)" using w(3) r(3) by simp
    ultimately show ?thesis using True w(4)
      by (intro exI [of _ b'] exI [of _ c'] exI [of _ "chunk # xs @ ys"])
         (simp del: enqueue_more.simps)
  qed
qed

lemma desired_positive:
  "0 < desired c \<Longrightarrow> rs_state (readable c) = Rs_readable"
  by (simp add: desired_def desiredSize_def null_as_0_def split: rs_state.splits)

lemma wants_pull_desired: "conn_ok c \<Longrightarrow> wants_pull c \<Longrightarrow> 0 < desired c"
  using should_pull_wants [of "readable c" READABLE_HIGH_WATER_MARK length]
  by (simp add: conn_ok_def desired_def READABLE_HIGH_WATER_MARK_def MAX_SEGMENT_SIZE_def)

lemma settled_drained: "drained c \<Longrightarrow> settled c"
  by (simp add: settled_def drained_def)

lemma close_if_drained_ok:
  assumes "moved xs c c'" "credit c' = credit c + size_of xs" "conn_ok c'"
  shows "transferred c (close_if_drained c') \<longleftrightarrow> settled (close_if_drained c')"
    and "closes_when_drained (close_if_drained c')"
proof -
  have "moved xs c (close_if_drained c') \<and> credit (close_if_drained c') = credit c + size_of xs \<and>
    conn_ok (close_if_drained c')"
    using assms moved_trans [OF assms(1) closeReadable_moved]
    by (auto simp: close_if_drained_def drained_def closeReadable_ok credit_def)
  then show "transferred c (close_if_drained c') \<longleftrightarrow> settled (close_if_drained c')"
    by (auto simp: transferred_def)
  show "closes_when_drained (close_if_drained c')"
    by (auto simp: closes_when_drained_def close_if_drained_def drained_def)
qed

lemma closeReadable_pullAgain [simp]:
  "rs_pullAgain (readable (closeReadable c)) = rs_pullAgain (readable c)"
  by (auto simp: closeReadable_def dest: controller_close_fields split: sum.split)

lemma close_if_drained_down: "steps_down c (close_if_drained c') \<longleftrightarrow> steps_down c c'"
  by (simp add: steps_down_def close_if_drained_def)

lemma settled_close_if_drained: "settled c \<Longrightarrow> settled (close_if_drained c)"
  by (simp add: settled_def close_if_drained_def)

lemma with_window_update:
  "moved xs c (c'\<lparr>windowUpdates := u\<rparr>) = moved xs c c'" "conn_ok (c'\<lparr>windowUpdates := u\<rparr>) = conn_ok c'"
  "settled (c'\<lparr>windowUpdates := u\<rparr>) = settled c'"
  by (simp_all add: moved_def conn_ok_def settled_def in_stream_def drained_def)

lemma enqueueBuffer_with_serves:
  assumes "conn_ok c" "can_enqueue (readable c) \<or> \<not> 0 < desired c \<or> receiveBuffer c = []"
    "rs_pulling (readable c) \<or> good_pull pull"
  shows "serves (enqueueBuffer_with pull) c"
proof -
  consider "tcp_disposed c" | "\<not> tcp_disposed c" "drained c"
    | "\<not> tcp_disposed c" "\<not> drained c" "\<not> 0 < desired c"
    | "\<not> tcp_disposed c" "\<not> drained c" "0 < desired c" by blast
  then show ?thesis
  proof cases
    case 1
    with assms(1) show ?thesis
      by (auto simp: serves_def enqueueBuffer_with_def transferred_def closes_when_drained_def
          settled_def conn_ok_def steps_down_def intro: exI [of _ "[]"])
  next
    case 2
    let ?c = "errorWritable connection_closed (closeReadable c)"
    have "moved [] c ?c" "conn_ok ?c" using 2 assms(1) by (simp_all add: closeReadable_moved closeReadable_ok)
    moreover have "settled ?c" using 2 by (intro settled_drained) (simp add: drained_def)
    ultimately have "transferred c ?c" by (auto simp: transferred_def credit_def intro: exI [of _ "[]"])
    with 2 show ?thesis
      by (simp add: serves_def enqueueBuffer_with_def drained_def closes_when_drained_def steps_down_def)
  next
    case 3
    then have "settled c" using assms(1) wants_pull_desired by (auto simp: settled_def)
    with 3 assms(1) show ?thesis
      by (auto simp: serves_def enqueueBuffer_with_def drained_def closes_when_drained_def
          transferred_def steps_down_def intro: exI [of _ "[]"])
  next
    case 4
    with assms(2) have can: "can_enqueue (readable c) \<or> receiveBuffer c = []" by simp
    obtain b c' xs where w:
      "while_option enqueue_more (enqueue_round pull) (0, c, None) = Some (b, c', None)"
      "moved xs c c'" "credit c' + b = credit c + 0 + size_of xs" "conn_ok c'"
      "if enqueue_more (0, c, None) then xs \<noteq> [] \<and> settled c' else c' = c \<and> b = 0"
      using enqueue_loop_ok [OF assms(1) can assms(3)] by blast
    define d where "d = (if 0 < b then c'\<lparr>windowUpdates := windowUpdates c' @ [b]\<rparr> else c')"
    have d: "moved xs c d" "conn_ok d" "credit d = credit c + size_of xs" "settled d = settled c'"
      using w by (auto simp: d_def with_window_update credit_def)
    have "enqueue_more (0, c, None) \<longleftrightarrow> receiveBuffer c \<noteq> []" by (simp split: list.split)
    with w(5) have "settled c'" by (auto simp: settled_def split: if_splits)
    with d have "transferred c (close_if_drained d)" "closes_when_drained (close_if_drained d)"
      using close_if_drained_ok [OF d(1) d(3) d(2)] settled_close_if_drained by blast+
    moreover have "enqueueBuffer_with pull c = (close_if_drained d, None)"
      using 4 w(1)
      by (auto simp: enqueueBuffer_with_def drained_def enqueue_loop_def while_def d_def)
    moreover have "xs \<noteq> [] \<or> c' = c" using w(5) by presburger
    with w(2) have "steps_down c c'" by (auto simp: steps_down_def moved_def)
    then have "steps_down c (close_if_drained d)"
      by (simp add: close_if_drained_down) (simp add: d_def steps_down_def)
    ultimately show ?thesis by (simp add: serves_def)
  qed
qed

subsection \<open>Tying the knot\<close>

lemma callPull_pulling:
  "rs_pulling (readable c) \<Longrightarrow> callPullIfNeeded f c = callPullIfNeeded g c \<and>
     rs_pulling (readable (callPullIfNeeded f c)) \<and> receiveBuffer (callPullIfNeeded f c) = receiveBuffer c"
  by (simp add: callPullIfNeeded_def)

lemma round_pulling:
  assumes "rs_pulling (readable c)"
  shows "enqueue_round f (b, c, e) = enqueue_round g (b, c, e) \<and>
    rs_pulling (readable (fst (snd (enqueue_round f (b, c, e))))) \<and>
    (enqueue_more (b, c, e) \<longrightarrow>
       length (receiveBuffer (fst (snd (enqueue_round f (b, c, e))))) < length (receiveBuffer c))"
  using assms callPull_pulling [of "c\<lparr>receiveBuffer := tl (receiveBuffer c),
    readable := rs_put (hd (receiveBuffer c)) (readable c)\<rparr>" f g]
  by (auto simp: controller_enqueue_def Let_def split: list.splits)

lemma loop_pulling:
  "rs_pulling (readable (fst (snd s))) \<Longrightarrow>
   while_option enqueue_more (enqueue_round f) s = while_option enqueue_more (enqueue_round g) s"
proof (induction "length (receiveBuffer (fst (snd s)))" arbitrary: s rule: less_induct)
  case less
  obtain b c e where s: "s = (b, c, e)" by (cases s)
  show ?case
  proof (cases "enqueue_more s")
    case True
    have r: "enqueue_round f s = enqueue_round g s" "rs_pulling (readable (fst (snd (enqueue_round f s))))"
      "length (receiveBuffer (fst (snd (enqueue_round f s)))) < length (receiveBuffer (fst (snd s)))"
      using round_pulling [of c f b e g] less.prems True s by auto
    show ?thesis
      using less.hyps [OF r(3) r(2)] True r(1)
      by (simp add: while_option_unfold [of enqueue_more _ s] del: enqueue_more.simps enqueue_round.simps)
  next
    case False
    then show ?thesis by (simp add: while_option_unfold [of enqueue_more _ s])
  qed
qed

lemma enqueueBuffer_with_pulling:
  "rs_pulling (readable c) \<Longrightarrow> enqueueBuffer_with f c = enqueueBuffer_with g c"
  using loop_pulling [of "(0, c, None)" f g] by (simp add: enqueueBuffer_with_def enqueue_loop_def while_def)

lemma callPull_knot: "callPullIfNeeded pull_enqueueBuffer = callPullIfNeeded enqueueBuffer"
proof
  fix c :: tcp_connection
  show "callPullIfNeeded pull_enqueueBuffer c = callPullIfNeeded enqueueBuffer c"
    using enqueueBuffer_with_pulling [of "c\<lparr>readable := (readable c)\<lparr>rs_pulling := True\<rparr>\<rparr>"
      "\<lambda>c. (c, None)" pull_enqueueBuffer]
    by (simp add: callPullIfNeeded_def pull_enqueueBuffer_def enqueueBuffer_def)
qed

lemma enqueueBuffer_knot: "enqueueBuffer = enqueueBuffer_with enqueueBuffer"
proof -
  have "controller_enqueue pull_enqueueBuffer = controller_enqueue enqueueBuffer"
    by (intro ext) (simp add: controller_enqueue_def callPull_knot)
  then have "enqueue_round pull_enqueueBuffer s = enqueue_round enqueueBuffer s" for s
    by (cases s) (simp only: enqueue_round.simps)
  then have "enqueue_round pull_enqueueBuffer = enqueue_round enqueueBuffer" ..
  then have "enqueueBuffer_with pull_enqueueBuffer c = enqueueBuffer_with enqueueBuffer c" for c
    by (simp only: enqueueBuffer_with_def enqueue_loop_def)
  then have "enqueueBuffer_with pull_enqueueBuffer = enqueueBuffer_with enqueueBuffer" ..
  then show ?thesis by (simp add: enqueueBuffer_def)
qed

lemma good_pull_enqueueBuffer: "good_pull pull_enqueueBuffer" "good_pull enqueueBuffer"
proof -
  show *: "good_pull pull_enqueueBuffer"
    by (simp add: good_pull_def pull_enqueueBuffer_def enqueueBuffer_with_serves)
  show "good_pull enqueueBuffer"
    using enqueueBuffer_with_serves * by (simp add: good_pull_def enqueueBuffer_def)
qed

lemma enqueueBuffer_serves:
  "conn_ok c \<Longrightarrow> can_enqueue (readable c) \<or> \<not> 0 < desired c \<or> receiveBuffer c = [] \<Longrightarrow>
   serves enqueueBuffer c"
  using enqueueBuffer_with_serves good_pull_enqueueBuffer(1) by (simp add: enqueueBuffer_def)

text \<open>
  The exception: data that arrives when the stream is to close is taken from the buffer and lost.
\<close>

lemma enqueueBuffer_throws:
  assumes "conn_ok c" "\<not> can_enqueue (readable c)" "0 < desired c" "receiveBuffer c = chunk # rest"
  shows "enqueueBuffer c = (c\<lparr>receiveBuffer := rest\<rparr>, Some TypeError)"
proof -
  have "\<not> tcp_disposed c" using assms(1,4) by (auto simp: conn_ok_def)
  moreover have "while_option enqueue_more (enqueue_round pull_enqueueBuffer) (0, c, None) =
    Some (0, c\<lparr>receiveBuffer := rest\<rparr>, Some TypeError)"
    using assms(2,4)
    by (subst while_option_unfold, subst while_option_unfold)
       (simp add: controller_enqueue_def split: list.split)
  ultimately show ?thesis
    using assms by (simp add: enqueueBuffer_def enqueueBuffer_with_def enqueue_loop_def while_def)
qed

subsection \<open>The data of a run\<close>

text \<open>
  \<open>flow ys c\<close> relates a connection to the chunks \<open>ys\<close> that lwIP has delivered to it:
  what has reached the stream is a beginning of them, the rest waits in the receive buffer while
  the stream takes chunks, and no byte is credited to the window before it has left that buffer.
\<close>

definition flow :: "bytes list \<Rightarrow> tcp_connection \<Rightarrow> bool" where
  "flow ys c \<longleftrightarrow> conn_ok c \<and> prefix (in_stream c) ys \<and>
     (can_enqueue (readable c) \<longrightarrow> ys = in_stream c @ receiveBuffer c) \<and>
     credit c + size_of (receiveBuffer c) \<le> size_of ys"

definition served :: "tcp_connection \<Rightarrow> bool" where
  "served c \<longleftrightarrow> settled c \<and> closes_when_drained c"

lemma flow_transferred:
  assumes "flow ys c" "transferred c c'"
  shows "flow ys c'"
proof -
  from assms(2) obtain xs where m: "moved xs c c'" "credit c' = credit c + size_of xs" "conn_ok c'"
    by (auto simp: transferred_def)
  have "prefix (in_stream c') ys \<and> (can_enqueue (readable c') \<longrightarrow> ys = in_stream c' @ receiveBuffer c')"
    using assms(1) m(1) by (cases "can_enqueue (readable c)") (auto simp: flow_def moved_def prefix_def)
  with assms(1) m show ?thesis by (auto simp: flow_def moved_def)
qed

lemma throws_served:
  assumes "conn_ok c" "\<not> can_enqueue (readable c)" "0 < desired c"
  shows "served (c\<lparr>receiveBuffer := xs\<rparr>)"
  using assms desired_positive [of c]
  by (auto simp: served_def settled_def should_pull_def closes_when_drained_def conn_ok_def
      can_enqueue_def)

text \<open>A call of \<open>enqueueBuffer\<close>, whatever it does, keeps the flow and leaves the stream served.\<close>

lemma enqueueBuffer_flow:
  assumes "flow ys c"
  shows "flow ys (fst (enqueueBuffer c)) \<and> served (fst (enqueueBuffer c))"
proof (cases "can_enqueue (readable c) \<or> \<not> 0 < desired c \<or> receiveBuffer c = []")
  case True
  then have "serves enqueueBuffer c" using assms by (intro enqueueBuffer_serves) (simp_all add: flow_def)
  then have "transferred c (fst (enqueueBuffer c))" "served (fst (enqueueBuffer c))"
    by (auto simp: serves_def served_def transferred_def)
  with flow_transferred [OF assms] show ?thesis by blast
next
  case False
  have ok: "conn_ok c" using assms by (simp add: flow_def)
  from False obtain chunk rest where buf: "receiveBuffer c = chunk # rest"
    by (cases "receiveBuffer c") auto
  have e: "enqueueBuffer c = (c\<lparr>receiveBuffer := rest\<rparr>, Some TypeError)"
    using enqueueBuffer_throws [OF ok _ _ buf] False by blast
  have "flow ys (c\<lparr>receiveBuffer := rest\<rparr>)"
    using assms False buf ok by (auto simp: flow_def conn_ok_def in_stream_def credit_def)
  moreover have "served (c\<lparr>receiveBuffer := rest\<rparr>)" using throws_served [OF ok] False by blast
  ultimately show ?thesis by (simp add: e)
qed

lemma callPull_flow:
  assumes "flow ys c" "closes_when_drained c"
  shows "flow ys (callPullIfNeeded enqueueBuffer c) \<and> served (callPullIfNeeded enqueueBuffer c)"
proof -
  have "transferred c (callPullIfNeeded enqueueBuffer c)"
    "closes_when_drained (callPullIfNeeded enqueueBuffer c)"
    using callPull_transferred [of c enqueueBuffer] assms good_pull_enqueueBuffer
    by (auto simp: flow_def)
  with flow_transferred [OF assms(1)] show ?thesis by (auto simp: served_def transferred_def)
qed

text \<open>Every event keeps both.\<close>

definition flowing :: "bytes list \<Rightarrow> tcp_connection \<Rightarrow> bool" where
  "flowing ys c \<longleftrightarrow> flow ys c \<and> served c"

lemma flowing_init: "flowing [] tcp_connection_init"
  by (simp add: flowing_def flow_def served_def settled_def closes_when_drained_def drained_def
      tcp_connection_init_def conn_ok_def in_stream_def credit_def)
     (simp add: rs_init_def handed_def)

lemma closed_flow:
  assumes "flow ys c" "\<not> can_enqueue (readable c)"
  shows "flow (ys @ zs) c"
  using assms by (auto simp: flow_def)

lemma flow_receive:
  "flow ys c \<Longrightarrow> \<not> tcp_disposed c \<Longrightarrow>
   flow (ys @ [d]) (c\<lparr>receiveBuffer := receiveBuffer c @ [d]\<rparr>)"
  by (auto simp: flow_def conn_ok_def in_stream_def credit_def)

lemma flowing_receive: "flowing ys c \<Longrightarrow> flowing (ys @ [d]) (receive_data d c)"
proof (cases "tcp_disposed c")
  case True
  then have "flowing ys c \<Longrightarrow> \<not> can_enqueue (readable c)"
    by (simp add: flowing_def flow_def conn_ok_def)
  then show "flowing ys c \<Longrightarrow> ?thesis"
    using True closed_flow [of ys c "[d]"] by (simp add: flowing_def receive_data_def)
next
  case False
  then show "flowing ys c \<Longrightarrow> ?thesis"
    using enqueueBuffer_flow [OF flow_receive [of ys c d]] by (simp add: flowing_def receive_data_def)
qed

lemma flowing_remote_close: "flowing ys c \<Longrightarrow> flowing ys (remote_close c)"
proof -
  assume f: "flowing ys c"
  then have "flow ys (c\<lparr>remoteClosed := True\<rparr>)"
    by (auto simp: flowing_def flow_def conn_ok_def in_stream_def credit_def)
  from enqueueBuffer_flow [OF this] f show ?thesis by (simp add: flowing_def remote_close_def)
qed

lemma controller_error_fields:
  "handed (controller_error e s) = handed s" "\<not> can_enqueue (controller_error e s)"
  "rs_queue (controller_error e s) = (if rs_state s = Rs_readable then [] else rs_queue s)"
  "rs_pullFailed (controller_error e s) = rs_pullFailed s"
  by (simp_all add: controller_error_def can_enqueue_def handed_def)

text \<open>A stream that ends early keeps what the reader has, and drops the rest.\<close>

lemma ended_flow:
  assumes "flow ys c" "rs_ok s" "handed s = handed (readable c)" "\<not> can_enqueue s"
    "rs_queue s = [] \<or> rs_queue s = rs_queue (readable c)" "rs_pullFailed s = None"
    "rs_closeRequested s \<longrightarrow> b" "tcp_disposed c \<longrightarrow> b"
  shows "flow ys (c\<lparr>readableClosed := b, readable := s\<rparr>)"
proof -
  have "prefix (handed (readable c) @ rs_queue (readable c)) ys"
    using assms(1) by (simp add: flow_def in_stream_def)
  moreover from this have "prefix (handed (readable c)) ys" by (rule append_prefixD)
  ultimately have "prefix (handed s @ rs_queue s) ys" using assms(3,5) by auto
  with assms show ?thesis by (simp add: flow_def conn_ok_def in_stream_def credit_def)
qed

lemma errored_flow:
  assumes "flow ys c"
  shows "flow ys (errorReadable e c)"
proof -
  have ok: "rs_ok (readable c)" "rs_pullFailed (readable c) = None"
    using assms by (simp_all add: flow_def conn_ok_def)
  have "flow ys (c\<lparr>readableClosed := True, readable := controller_error e (readable c)\<rparr>)"
    by (rule ended_flow [OF assms]) (simp_all add: controller_error_fields rs_ok_error ok)
  with assms show ?thesis by (simp add: errorReadable_def)
qed

lemma closed_served: "readableClosed c \<Longrightarrow> conn_ok c \<Longrightarrow> served c"
  by (simp add: served_def settled_def closes_when_drained_def conn_ok_def should_pull_def)

lemma flowing_local_close: "flowing ys c \<Longrightarrow> flowing ys (local_close c)"
proof -
  assume f: "flowing ys c"
  then have "flow ys (errorReadable connection_closed c)" by (simp add: flowing_def errored_flow)
  moreover from this have "served (errorReadable connection_closed c)"
    by (intro closed_served) (simp_all add: flow_def)
  ultimately show ?thesis
    by (simp add: flowing_def local_close_def flow_def served_def settled_def closes_when_drained_def
        drained_def in_stream_def credit_def)
qed

lemma flowing_dispose: "flowing ys c \<Longrightarrow> flowing ys (dispose_connection e c)"
proof -
  assume f: "flowing ys c"
  let ?d = "(errorReadable e c)\<lparr>tcp_disposed := True, receiveBuffer := []\<rparr>"
  have ef: "flow ys (errorReadable e c)" using f by (simp add: flowing_def errored_flow)
  then have d: "flow ys ?d" by (auto simp: flow_def conn_ok_def in_stream_def credit_def)
  then have "served ?d" by (intro closed_served) (simp_all add: flow_def)
  moreover have "errorReadable e (c\<lparr>tcp_disposed := True, receiveBuffer := []\<rparr>) = ?d"
    by (simp add: errorReadable_def)
  ultimately show ?thesis using f d
    by (simp add: flowing_def dispose_connection_def flow_def served_def settled_def
        closes_when_drained_def drained_def in_stream_def credit_def)
qed

lemma flowing_cancel: "flowing ys c \<Longrightarrow> flowing ys (c\<lparr>readable := rs_cancel (readable c)\<rparr>)"
proof -
  assume f: "flowing ys c"
  show ?thesis
  proof (cases "rs_state (readable c) = Rs_readable")
    case False
    with f show ?thesis by (simp add: rs_cancel_def)
  next
    case True
    let ?s = "rs_cancel (readable c)"
    have ok: "rs_ok (readable c)" "rs_pullFailed (readable c) = None" "flow ys c"
      "rs_closeRequested (readable c) \<longrightarrow> readableClosed c" "tcp_disposed c \<longrightarrow> readableClosed c"
      using f by (auto simp: flowing_def flow_def conn_ok_def)
    have s: "handed ?s = handed (readable c)" "\<not> can_enqueue ?s" "rs_queue ?s = []"
      "rs_pullFailed ?s = None" "rs_closeRequested ?s \<longrightarrow> readableClosed c"
      using True ok by (simp_all add: rs_cancel_def rs_finish_def handed_def can_enqueue_def)
    have "flow ys (c\<lparr>readableClosed := readableClosed c, readable := ?s\<rparr>)"
      by (rule ended_flow [OF ok(3) rs_ok_cancel [OF ok(1)] s(1,2) _ s(4,5)]) (simp_all add: s ok)
    with f s(2) show ?thesis
      by (simp add: flowing_def served_def settled_def closes_when_drained_def should_pull_def drained_def)
  qed
qed

lemma rs_read_fields:
  assumes "rs_ok s"
  shows "rs_pullFailed (fst (rs_read s)) = rs_pullFailed s"
    "rs_closeRequested (fst (rs_read s)) = rs_closeRequested s"
    "can_enqueue (fst (rs_read s)) = can_enqueue s"
    "\<not> snd (rs_read s) \<Longrightarrow> \<not> can_enqueue s"
  by (auto simp: rs_read_def rs_finish_def can_enqueue_def Let_def
      split: rs_state.splits list.splits if_splits)

lemma flowing_read: "flowing ys c \<Longrightarrow> flowing ys (read_chunk c)"
proof -
  assume f: "flowing ys c"
  obtain s b where r: "rs_read (readable c) = (s, b)" by (cases "rs_read (readable c)")
  let ?c = "c\<lparr>readable := s\<rparr>"
  have ok: "rs_ok (readable c)" using f by (simp add: flowing_def flow_def conn_ok_def)
  note s = rs_ok_read [OF ok] rs_read_fields [OF ok] handed_read [of "readable c"]
  have c: "flow ys ?c" "closes_when_drained ?c"
    using f s by (simp_all add: r flowing_def flow_def conn_ok_def in_stream_def credit_def
        served_def closes_when_drained_def drained_def)
  show ?thesis
  proof (cases b)
    case True
    with callPull_flow [OF c] show ?thesis by (simp add: flowing_def read_chunk_def r)
  next
    case False
    with s have "\<not> can_enqueue s" by (simp add: r)
    then have "settled ?c" by (simp add: settled_def should_pull_def)
    with False c show ?thesis by (simp add: flowing_def read_chunk_def r served_def)
  qed
qed

lemma flowing_started: "flowing ys c \<Longrightarrow> flowing ys (stream_started c)"
proof -
  assume f: "flowing ys c"
  let ?c = "c\<lparr>readable := (readable c)\<lparr>rs_started := True\<rparr>\<rparr>"
  have "flow ys ?c" "closes_when_drained ?c"
    using f by (simp_all add: flowing_def flow_def conn_ok_def in_stream_def credit_def
        served_def closes_when_drained_def drained_def rs_ok_def handed_def)
  from callPull_flow [OF this] f show ?thesis by (simp add: flowing_def stream_started_def)
qed

lemma flow_pull_flags:
  "flow ys c \<Longrightarrow> flow ys (c\<lparr>readable := (readable c)\<lparr>rs_pulling := False, rs_pullAgain := False\<rparr>\<rparr>)"
  by (simp add: flow_def conn_ok_def in_stream_def credit_def rs_ok_def handed_def)

lemma flowing_settled: "flowing ys c \<Longrightarrow> flowing ys (pull_settled c)"
proof -
  assume f: "flowing ys c"
  then have n: "rs_pullFailed (readable c) = None" by (simp add: flowing_def flow_def conn_ok_def)
  let ?c = "c\<lparr>readable := (readable c)\<lparr>rs_pulling := False, rs_pullAgain := False\<rparr>\<rparr>"
  have c: "flow ys ?c" "closes_when_drained ?c"
    using f flow_pull_flags [of ys c]
    by (simp_all add: flowing_def served_def closes_when_drained_def drained_def)
  show ?thesis
  proof (cases "rs_pullAgain (readable c)")
    case True
    with callPull_flow [OF c] f n show ?thesis
      by (simp add: flowing_def pull_settled_def Let_def)
  next
    case False
    then have "?c = c\<lparr>readable := (readable c)\<lparr>rs_pulling := False\<rparr>\<rparr>" by simp
    with n False have "pull_settled c = (if rs_pulling (readable c) then ?c else c)"
      by (simp add: pull_settled_def Let_def)
    moreover have "settled ?c" using f False by (auto simp: flowing_def served_def settled_def)
    ultimately show ?thesis using c f by (auto simp: flowing_def served_def)
  qed
qed

lemma received_append [simp]: "received (evs @ evs') = received evs @ received evs'"
  by (induction evs rule: received.induct) auto

lemma flowing_step: "flowing (received evs) c \<Longrightarrow> flowing (received (evs @ [ev])) (tcp_step ev c)"
  by (cases ev) (simp_all add: flowing_receive flowing_remote_close flowing_dispose flowing_cancel
      flowing_read flowing_started flowing_settled flowing_local_close)

lemma tcp_run_snoc [simp]: "tcp_run (evs @ [ev]) = tcp_step ev (tcp_run evs)"
  by (simp add: tcp_run_def)

lemma flowing_run: "flowing (received evs) (tcp_run evs)"
proof (induction evs rule: rev_induct)
  case Nil
  show ?case by (simp add: tcp_run_def flowing_init)
next
  case (snoc ev evs)
  then show ?case by (simp only: tcp_run_snoc flowing_step)
qed

end
