(* ===== verification/Tcp_Delivery.thy ===== *)
theory Tcp_Delivery
  imports Tcp_Reading
begin

text \<open>
  The properties of the JavaScript side of a TCP connection over whole runs: order, window
  credit, the memory held, the end of the data, and the answers a reader gets once the microtasks
  of the pull machinery have run.
\<close>

subsection \<open>Runs that nobody cuts short\<close>

text \<open>
  A run is undisturbed when the connection is neither disposed of, nor closed locally, nor its
  reader cancelled, and lwIP delivers no data after the close of the peer.
\<close>

fun undisturbed :: "bool \<Rightarrow> tcp_event list \<Rightarrow> bool" where
  "undisturbed closed [] \<longleftrightarrow> True"
| "undisturbed closed (Receive d # evs) \<longleftrightarrow> \<not> closed \<and> undisturbed closed evs"
| "undisturbed closed (RemoteClose # evs) \<longleftrightarrow> undisturbed True evs"
| "undisturbed closed (Cancel # evs) \<longleftrightarrow> False"
| "undisturbed closed (Dispose e # evs) \<longleftrightarrow> False"
| "undisturbed closed (LocalClose # evs) \<longleftrightarrow> False"
| "undisturbed closed (ev # evs) \<longleftrightarrow> undisturbed closed evs"

lemma undisturbed_append [simp]:
  "undisturbed b (evs @ evs') \<longleftrightarrow> undisturbed b evs \<and> undisturbed (b \<or> RemoteClose \<in> set evs) evs'"
  by (induction b evs rule: undisturbed.induct) auto

definition clean :: "bytes list \<Rightarrow> tcp_connection \<Rightarrow> bool" where
  "clean ys c \<longleftrightarrow> ys = in_stream c @ receiveBuffer c \<and>
     credit c + size_of (receiveBuffer c) = size_of ys \<and>
     (\<forall>e. rs_state (readable c) \<noteq> Rs_errored e) \<and> (can_enqueue (readable c) \<or> drained c) \<and>
     \<not> tcp_disposed c"

lemma clean_transferred: "clean ys c \<Longrightarrow> transferred c c' \<Longrightarrow> clean ys c'"
  by (auto simp: clean_def transferred_def moved_def drained_def)

text \<open>The counts that a run keeps: reads asked, close seen, stream started.\<close>

definition counts :: "tcp_event list \<Rightarrow> tcp_connection \<Rightarrow> bool" where
  "counts evs c \<longleftrightarrow> asked (readable c) = reads evs \<and> remoteClosed c = (RemoteClose \<in> set evs) \<and>
     rs_started (readable c) = (Started \<in> set evs)"

lemma counts_transferred: "counts evs c \<Longrightarrow> transferred c c' \<Longrightarrow> counts evs c'"
  by (auto simp: counts_def transferred_def moved_def)

lemma reads_snoc [simp]: "reads (evs @ evs') = reads evs + reads evs'"
  by (simp add: reads_def)

lemma enqueueBuffer_transferred:
  assumes "conn_ok c" "can_enqueue (readable c) \<or> receiveBuffer c = []"
  shows "transferred c (fst (enqueueBuffer c))"
  using enqueueBuffer_serves [OF assms(1)] assms(2) by (auto simp: serves_def)

lemma callPull_enqueue: "conn_ok c \<Longrightarrow> transferred c (callPullIfNeeded enqueueBuffer c)"
  using callPull_transferred [of c enqueueBuffer] good_pull_enqueueBuffer by blast

definition tracked :: "tcp_event list \<Rightarrow> tcp_connection \<Rightarrow> bool" where
  "tracked evs c \<longleftrightarrow> clean (received evs) c \<and> counts evs c"

lemma tracked_transferred: "tracked evs c \<Longrightarrow> transferred c c' \<Longrightarrow> tracked evs c'"
  using clean_transferred counts_transferred by (auto simp: tracked_def)

lemma tracked_step:
  assumes t: "tracked evs c" and ok: "conn_ok c"
    and u: "undisturbed (RemoteClose \<in> set evs) [ev]"
  shows "tracked (evs @ [ev]) (tcp_step ev c)"
proof (cases ev)
  case Started
  let ?c = "c\<lparr>readable := (readable c)\<lparr>rs_started := True\<rparr>\<rparr>"
  have "tracked (evs @ [ev]) ?c" "conn_ok ?c"
    using t ok Started by (auto simp: tracked_def clean_def counts_def in_stream_def handed_def
        asked_def reads_def drained_def conn_ok_def rs_ok_def)
  with tracked_transferred callPull_enqueue have "tracked (evs @ [ev]) (callPullIfNeeded enqueueBuffer ?c)"
    by blast
  moreover have "rs_started (readable c) \<Longrightarrow> tracked (evs @ [ev]) c"
    using t Started by (simp add: tracked_def counts_def reads_def)
  ultimately show ?thesis using Started by (simp add: stream_started_def)
next
  case (Receive d)
  let ?c = "c\<lparr>receiveBuffer := receiveBuffer c @ [d]\<rparr>"
  from u Receive have still_open: "RemoteClose \<notin> set evs" by simp
  with t have can: "can_enqueue (readable c)" "\<not> tcp_disposed c"
    by (auto simp: tracked_def clean_def counts_def drained_def)
  have "tracked (evs @ [ev]) ?c" "conn_ok ?c"
    using t ok Receive can by (auto simp: tracked_def clean_def counts_def in_stream_def
        reads_def conn_ok_def credit_def)
  with tracked_transferred enqueueBuffer_transferred [of ?c] can
  have "tracked (evs @ [ev]) (fst (enqueueBuffer ?c))" by auto
  with Receive can show ?thesis by (simp add: receive_data_def)
next
  case RemoteClose
  let ?c = "c\<lparr>remoteClosed := True\<rparr>"
  have c: "tracked (evs @ [ev]) ?c" "conn_ok ?c"
    using t ok RemoteClose by (auto simp: tracked_def clean_def counts_def in_stream_def
        reads_def conn_ok_def credit_def drained_def)
  have "can_enqueue (readable ?c) \<or> receiveBuffer ?c = []"
    using t by (auto simp: tracked_def clean_def drained_def)
  with tracked_transferred enqueueBuffer_transferred [of ?c] c
  have "tracked (evs @ [ev]) (fst (enqueueBuffer ?c))" by blast
  moreover have "\<not> tcp_disposed c" using t by (simp add: tracked_def clean_def)
  ultimately show ?thesis using RemoteClose by (simp add: remote_close_def)
next
  case Read
  obtain s b where r: "rs_read (readable c) = (s, b)" by (cases "rs_read (readable c)")
  let ?c = "c\<lparr>readable := s\<rparr>"
  have rs: "rs_ok (readable c)" using ok by (simp add: conn_ok_def)
  note s = rs_ok_read [OF rs] rs_read_fields [OF rs] handed_read [of "readable c"] asked_read [of "readable c"]
  have "conn_ok ?c" using ok s by (simp add: r conn_ok_def)
  moreover have "rs_started s = rs_started (readable c)" "\<forall>e. rs_state s = Rs_errored e \<longrightarrow> rs_state (readable c) = Rs_errored e"
    using r by (auto simp: rs_read_def rs_finish_def Let_def split: rs_state.splits list.splits if_splits)
  with t s Read have "tracked (evs @ [ev]) ?c"
    by (auto simp: tracked_def clean_def counts_def in_stream_def reads_def credit_def drained_def r)
  ultimately have "tracked (evs @ [ev]) (if b then callPullIfNeeded enqueueBuffer ?c else ?c)"
    using tracked_transferred callPull_enqueue by auto
  with Read show ?thesis by (simp add: read_chunk_def r Let_def)
next
  case PullSettled
  let ?c = "c\<lparr>readable := (readable c)\<lparr>rs_pulling := False, rs_pullAgain := False\<rparr>\<rparr>"
  have "tracked (evs @ [ev]) ?c" "conn_ok ?c" "tracked (evs @ [ev]) c"
    "tracked (evs @ [ev]) (c\<lparr>readable := (readable c)\<lparr>rs_pulling := False\<rparr>\<rparr>)"
    using t ok PullSettled by (auto simp: tracked_def clean_def counts_def in_stream_def handed_def
        asked_def reads_def drained_def conn_ok_def rs_ok_def can_enqueue_def)
  moreover from this tracked_transferred callPull_enqueue
  have "tracked (evs @ [ev]) (callPullIfNeeded enqueueBuffer ?c)" by blast
  moreover have "rs_pullFailed (readable c) = None" using ok by (simp add: conn_ok_def)
  ultimately show ?thesis using PullSettled by (simp add: pull_settled_def Let_def)
qed (use u in simp_all)

lemma conn_ok_run: "conn_ok (tcp_run evs)"
  using flowing_run [of evs] by (simp add: flowing_def flow_def)

lemma served_run: "served (tcp_run evs)"
  using flowing_run [of evs] by (simp add: flowing_def)

lemma tracked_run: "undisturbed False evs \<Longrightarrow> tracked evs (tcp_run evs)"
proof (induction evs rule: rev_induct)
  case Nil
  show ?case
    by (simp add: tracked_def clean_def counts_def tcp_run_def tcp_connection_init_def rs_init_def
        in_stream_def handed_def credit_def can_enqueue_def reads_def asked_def)
next
  case (snoc ev evs)
  then have "tracked evs (tcp_run evs)" "undisturbed (RemoteClose \<in> set evs) [ev]" by simp_all
  from tracked_step [OF this(1) conn_ok_run this(2)] show ?case by simp
qed

subsection \<open>The microtasks of the pull machinery come to rest\<close>

definition pull_measure :: "tcp_connection \<Rightarrow> nat" where
  "pull_measure c = (if \<not> rs_pulling (readable c) then 0
     else if rs_pullAgain (readable c) then 2 * length (receiveBuffer c) + 2 else 1)"

lemma pull_measure_0: "conn_ok c \<Longrightarrow> pull_measure c = 0 \<longleftrightarrow> \<not> rs_pulling (readable c)"
  by (simp add: pull_measure_def)

lemma pull_measure_settled:
  assumes "conn_ok c" "rs_pulling (readable c)"
  shows "pull_measure (pull_settled c) < pull_measure c"
proof (cases "rs_pullAgain (readable c)")
  case False
  with assms show ?thesis by (simp add: pull_settled_def pull_measure_def Let_def conn_ok_def)
next
  case True
  let ?c = "c\<lparr>readable := (readable c)\<lparr>rs_pulling := False, rs_pullAgain := False\<rparr>\<rparr>"
  let ?p = "c\<lparr>readable := (readable c)\<lparr>rs_pullAgain := False, rs_pulling := True\<rparr>\<rparr>"
  have s: "pull_settled c = callPullIfNeeded enqueueBuffer ?c"
    using assms True by (simp add: pull_settled_def Let_def conn_ok_def)
  show ?thesis
  proof (cases "wants_pull c")
    case False
    with s assms True show ?thesis by (simp add: callPullIfNeeded_def pull_measure_def)
  next
    case pull: True
    then have "conn_ok ?p" "can_enqueue (readable ?p)"
      using assms by (auto simp: conn_ok_def rs_ok_def should_pull_def can_enqueue_def handed_def)
    then have v: "serves enqueueBuffer ?p" by (simp add: enqueueBuffer_serves)
    obtain c' where c': "enqueueBuffer ?p = (c', None)" using v by (cases "enqueueBuffer ?p") (auto simp: serves_def)
    with v have d: "steps_down ?p c'" "transferred ?p c'" by (simp_all add: serves_def)
    then have "rs_pullFailed (readable c') = None" by (simp add: transferred_def conn_ok_def)
    then have "c'\<lparr>readable := (readable c')\<lparr>rs_pullFailed := None\<rparr>\<rparr> = c'" by simp
    with pull c' have e: "callPullIfNeeded enqueueBuffer ?c = c'" by (simp add: callPullIfNeeded_def)
    have "length (receiveBuffer c') \<le> length (receiveBuffer c)"
      using d(2) by (auto simp: transferred_def moved_def)
    with d(1) have "pull_measure c' < 2 * length (receiveBuffer c) + 2"
      by (auto simp: steps_down_def pull_measure_def)
    with s e assms True show ?thesis by (simp add: pull_measure_def)
  qed
qed

lemma pull_settled_quiet: "\<not> rs_pulling (readable c) \<Longrightarrow> pull_settled c = c"
  by (simp add: pull_settled_def Let_def)

lemma tcp_run_append: "tcp_run (evs @ evs') = fold tcp_step evs' (tcp_run evs)"
  by (simp add: tcp_run_def)

lemma settles:
  "pull_measure (tcp_run evs) \<le> n \<Longrightarrow>
   \<not> rs_pulling (readable (tcp_run (evs @ replicate n PullSettled)))"
proof (induction n arbitrary: evs)
  case 0
  then show ?case using pull_measure_0 [OF conn_ok_run] by simp
next
  case (Suc n)
  have "pull_measure (tcp_run (evs @ [PullSettled])) \<le> n"
  proof (cases "rs_pulling (readable (tcp_run evs))")
    case True
    with pull_measure_settled [OF conn_ok_run this] Suc.prems show ?thesis by simp
  next
    case False
    then show ?thesis by (simp add: pull_settled_quiet pull_measure_def)
  qed
  from Suc.IH [OF this] show ?case by simp
qed

lemma received_replicate [simp]: "received (replicate n PullSettled) = []"
  by (induction n) auto

lemma settle_run:
  "undisturbed b (replicate n PullSettled)" "reads (replicate n PullSettled) = 0"
  "RemoteClose \<notin> set (replicate n PullSettled)" "Started \<notin> set (replicate n PullSettled)"
  by (induction n) (auto simp: reads_def)

text \<open>A connection at rest has answered all it can.\<close>

lemma answers_at_rest:
  assumes t: "tracked evs c" and ok: "conn_ok c" "served c" and rest: "\<not> rs_pulling (readable c)"
    and st: "Started \<in> set evs"
  shows "rs_answers (readable c) = map Chunk (take (reads evs) (received evs)) @
    (if RemoteClose \<in> set evs then replicate (reads evs - length (received evs)) Done else [])"
proof -
  let ?s = "readable c"
  have ys: "received evs = handed ?s @ rs_queue ?s @ receiveBuffer c"
    and n: "asked ?s = reads evs" and rc: "remoteClosed c = (RemoteClose \<in> set evs)"
    and started: "rs_started ?s"
    using t st by (auto simp: tracked_def clean_def counts_def in_stream_def)
  have rs: "rs_ok ?s" using ok by (simp add: conn_ok_def)
  have state: "rs_state ?s = Rs_readable \<or> rs_state ?s = Rs_closed"
    using t by (cases "rs_state ?s") (auto simp: tracked_def clean_def)
  have none: "receiveBuffer c = []" if "0 < rs_requests ?s"
  proof -
    have "wants_pull c \<or> drained c"
      using that started t by (auto simp: should_pull_def tracked_def clean_def)
    then show ?thesis using ok(2) rest rs by (auto simp: served_def settled_def drained_def rs_ok_def)
  qed
  show ?thesis
  proof (cases "rs_state ?s")
    case Rs_readable
    then have a: "rs_answers ?s = map Chunk (handed ?s)" using rs by (simp add: rs_ok_def answers_ok_def)
    show ?thesis
    proof (cases "rs_requests ?s")
      case 0
      with a n ys show ?thesis by (simp add: asked_def)
    next
      case (Suc k)
      then have q: "rs_queue ?s = []" "receiveBuffer c = []" "can_enqueue ?s"
        using none rs Rs_readable by (auto simp: rs_ok_def can_enqueue_def)
      have "\<not> remoteClosed c"
        using ok q by (auto simp: served_def closes_when_drained_def drained_def conn_ok_def)
      with a n ys q rc show ?thesis by (simp add: asked_def)
    qed
  next
    case Rs_closed
    then obtain d where a: "rs_answers ?s = map Chunk (handed ?s) @ replicate d Done"
      using rs by (auto simp: rs_ok_def answers_ok_def)
    have "drained c" using t Rs_closed by (auto simp: tracked_def clean_def can_enqueue_def)
    moreover have "rs_queue ?s = []" "rs_requests ?s = 0" using rs Rs_closed by (auto simp: rs_ok_def)
    ultimately show ?thesis using a n ys rc by (auto simp: asked_def drained_def)
  qed (use state in simp)
qed

subsection \<open>What the stream holds\<close>

definition queued :: "tcp_connection \<Rightarrow> int" where
  "queued c = int (size_of (rs_queue (readable c)))"

text \<open>
  The queue is filled up to the high water mark and at most one chunk beyond it, if no chunk is
  empty.
\<close>

definition bounded :: "nat \<Rightarrow> tcp_connection \<Rightarrow> bool" where
  "bounded m c \<longleftrightarrow> queued c < READABLE_HIGH_WATER_MARK + int m \<and>
     list_all (\<lambda>x. x \<noteq> [] \<and> length x \<le> m) (receiveBuffer c)"

definition keeps_bound :: "nat \<Rightarrow> pull_algorithm \<Rightarrow> bool" where
  "keeps_bound m pull \<longleftrightarrow> (\<forall>c. conn_ok c \<longrightarrow> rs_pulling (readable c) \<longrightarrow>
     can_enqueue (readable c) \<longrightarrow> bounded m c \<longrightarrow> bounded m (fst (pull c)))"

lemma queued_desired: "rs_state (readable c) = Rs_readable \<Longrightarrow> desired c = READABLE_HIGH_WATER_MARK - queued c"
  by (simp add: desired_def desiredSize_def null_as_0_def queued_def size_of_def)

lemma bounded_readable:
  "bounded m c \<Longrightarrow> rs_queue s = rs_queue (readable c) \<Longrightarrow> bounded m (c\<lparr>readable := s\<rparr>)"
  by (simp add: bounded_def queued_def)

lemma bounded_cong:
  "rs_queue (readable c') = rs_queue (readable c) \<Longrightarrow> receiveBuffer c' = receiveBuffer c \<Longrightarrow>
   bounded m c' = bounded m c"
  by (simp add: bounded_def queued_def)

lemma callPull_bounded:
  assumes "conn_ok c" "bounded m c" "keeps_bound m pull"
  shows "bounded m (callPullIfNeeded pull c)"
proof (cases "wants_pull c \<and> \<not> rs_pulling (readable c)")
  case False
  with assms(2) show ?thesis by (auto simp: callPullIfNeeded_def intro: bounded_readable)
next
  case True
  let ?c = "c\<lparr>readable := (readable c)\<lparr>rs_pulling := True\<rparr>\<rparr>"
  have "conn_ok ?c" using assms(1) True by (simp add: conn_ok_pulling)
  moreover have "bounded m ?c" using assms(2) by (simp add: bounded_readable)
  moreover have "can_enqueue (readable ?c)" using True by (simp add: should_pull_def)
  ultimately have "bounded m (fst (pull ?c))" using assms(3) by (simp add: keeps_bound_def)
  with True show ?thesis
    by (auto simp: callPullIfNeeded_def intro: bounded_readable split: prod.split)
qed

lemma round_bounded:
  assumes "conn_ok c" "bounded m c" "keeps_bound m pull" "enqueue_more (b, c, None)"
    "0 < b \<or> 0 < desired c" "enqueue_round pull (b, c, None) = (b', c', None)"
  shows "bounded m c' \<and> 0 < b'"
proof -
  obtain chunk rest where buf: "receiveBuffer c = chunk # rest"
    using assms(4) by (auto split: list.splits)
  let ?c = "c\<lparr>receiveBuffer := rest, readable := rs_put chunk (readable c)\<rparr>"
  have can: "can_enqueue (readable c)" and eq: "c' = callPullIfNeeded pull ?c" "b' = b + length chunk"
    using assms(6) buf by (auto simp: controller_enqueue_def Let_def split: if_splits)
  have len: "0 < length chunk" "length chunk \<le> m" using assms(2) buf by (simp_all add: bounded_def)
  have d: "desired c = READABLE_HIGH_WATER_MARK - queued c"
    using can by (simp add: queued_desired can_enqueue_def)
  have "queued c + int (length chunk) < READABLE_HIGH_WATER_MARK + int m"
  proof (cases "0 < b")
    case True
    with assms(4) buf d len show ?thesis by simp
  next
    case False
    with assms(5) d len show ?thesis by simp
  qed
  moreover have "queued ?c \<le> queued c + int (length chunk)"
    by (simp add: queued_def rs_put_def)
  ultimately have "bounded m ?c" using assms(2) buf by (simp add: bounded_def)
  with callPull_bounded [OF _ this assms(3)] moved_put [OF assms(1) can buf] len eq show ?thesis by simp
qed

lemma loop_bounded:
  assumes "conn_ok c" "can_enqueue (readable c) \<or> receiveBuffer c = []"
    "rs_pulling (readable c) \<or> good_pull pull" "bounded m c" "keeps_bound m pull" "0 < b \<or> 0 < desired c"
    "while_option enqueue_more (enqueue_round pull) (b, c, None) = Some (b', c', e)"
  shows "bounded m c'"
  using assms
proof (induction "length (receiveBuffer c)" arbitrary: b c rule: less_induct)
  case less
  show ?case
  proof (cases "enqueue_more (b, c, None)")
    case False
    with less.prems(4,7) show ?thesis by (simp add: while_option_unfold [of enqueue_more])
  next
    case True
    then obtain chunk rest where buf: "receiveBuffer c = chunk # rest" by (auto split: list.splits)
    with less.prems have can: "can_enqueue (readable c)" by simp
    obtain c1 xs where r: "enqueue_round pull (b, c, None) = (b + length chunk, c1, None)"
      "moved (chunk # xs) c c1" "conn_ok c1"
      using enqueue_round_ok [OF less.prems(1) can buf less.prems(3)] by metis
    have n: "bounded m c1" "0 < b + length chunk"
      using round_bounded [OF less.prems(1,4,5) True less.prems(6) r(1)] by simp_all
    have "length (receiveBuffer c1) < length (receiveBuffer c)"
      "can_enqueue (readable c1) \<or> receiveBuffer c1 = []" "rs_pulling (readable c1) \<or> good_pull pull"
      using r(2) can less.prems(3) by (auto simp: moved_def drained_def)
    moreover have "while_option enqueue_more (enqueue_round pull) (b + length chunk, c1, None) = Some (b', c', e)"
      using less.prems(7) True r(1)
      by (subst (asm) while_option_unfold) (simp del: enqueue_more.simps enqueue_round.simps)
    ultimately show ?thesis
      using less.hyps [of c1 "b + length chunk"] r(3) n less.prems(5) by blast
  qed
qed

lemma closing_bounded [simp]:
  "bounded m (errorWritable e c) = bounded m c"
  "bounded m (closeReadable c) = bounded m c"
proof -
  show "bounded m (errorWritable e c) = bounded m c" by (rule bounded_cong) simp_all
  show "bounded m (closeReadable c) = bounded m c"
    by (rule bounded_cong)
       (auto simp: closeReadable_def dest: controller_close_fields split: sum.split)
qed

lemma enqueueBuffer_with_bounded:
  assumes "conn_ok c" "bounded m c" "keeps_bound m pull" "rs_pulling (readable c) \<or> good_pull pull"
    "can_enqueue (readable c) \<or> receiveBuffer c = []"
  shows "bounded m (fst (enqueueBuffer_with pull c))"
proof (cases "tcp_disposed c \<or> drained c \<or> \<not> 0 < desired c")
  case True
  with assms(2) show ?thesis by (auto simp: enqueueBuffer_with_def drained_def)
next
  case False
  obtain b c' where w: "while_option enqueue_more (enqueue_round pull) (0, c, None) = Some (b, c', None)"
    using enqueue_loop_ok [OF assms(1,5,4), of 0] by blast
  then have "bounded m c'" using loop_bounded [OF assms(1,5,4,2,3) _ w] False by simp
  then have "bounded m (if 0 < b then c'\<lparr>windowUpdates := windowUpdates c' @ [b]\<rparr> else c')"
    by (simp add: bounded_def queued_def)
  with False w show ?thesis
    by (auto simp: enqueueBuffer_with_def drained_def enqueue_loop_def while_def close_if_drained_def)
qed

lemma keeps_bound_pull: "keeps_bound m pull_enqueueBuffer" "keeps_bound m enqueueBuffer"
proof -
  have e: "enqueueBuffer_with (\<lambda>c. (c, None)) c = enqueueBuffer c" if "rs_pulling (readable c)" for c
    using enqueueBuffer_with_pulling [OF that] by (simp add: enqueueBuffer_def)
  have k: "keeps_bound m (\<lambda>c. (c, None))" by (simp add: keeps_bound_def)
  have "bounded m (fst (enqueueBuffer c))"
    if "conn_ok c" "rs_pulling (readable c)" "can_enqueue (readable c)" "bounded m c" for c
    using enqueueBuffer_with_bounded [OF that(1,4) k] that(2,3) e [OF that(2)] by simp
  then show "keeps_bound m pull_enqueueBuffer" "keeps_bound m enqueueBuffer"
    by (simp_all add: keeps_bound_def pull_enqueueBuffer_def e)
qed

lemma enqueueBuffer_bounded:
  assumes "conn_ok c" "bounded m c"
  shows "bounded m (fst (enqueueBuffer c))"
proof (cases "can_enqueue (readable c) \<or> receiveBuffer c = []")
  case True
  then show ?thesis
    using enqueueBuffer_with_bounded [OF assms keeps_bound_pull(1)] good_pull_enqueueBuffer(1)
    by (simp add: enqueueBuffer_def)
next
  case False
  then obtain chunk rest where buf: "receiveBuffer c = chunk # rest" by (cases "receiveBuffer c") auto
  show ?thesis
  proof (cases "0 < desired c")
    case True
    with enqueueBuffer_throws [OF assms(1) _ True buf] False assms(2) buf show ?thesis
      by (simp add: bounded_def queued_def)
  next
    case no: False
    with False assms(2) show ?thesis by (auto simp: enqueueBuffer_def enqueueBuffer_with_def)
  qed
qed

lemma controller_error_queue: "size_of (rs_queue (controller_error e s)) \<le> size_of (rs_queue s)"
  by (simp add: controller_error_def)

lemma errorReadable_bounded: "bounded m c \<Longrightarrow> bounded m (errorReadable e c)"
  using controller_error_queue [of e "readable c"]
  by (auto simp: bounded_def queued_def errorReadable_def)

lemma read_queue: "size_of (rs_queue (fst (rs_read s))) \<le> size_of (rs_queue s)"
  by (auto simp: rs_read_def rs_finish_def Let_def split: rs_state.split list.split)

lemma bounded_step:
  assumes ok: "conn_ok c" and b: "bounded m c"
    and ev: "\<forall>d. ev = Receive d \<longrightarrow> d \<noteq> [] \<and> length d \<le> m"
  shows "bounded m (tcp_step ev c)"
proof (cases ev)
  case Started
  let ?c = "c\<lparr>readable := (readable c)\<lparr>rs_started := True\<rparr>\<rparr>"
  have "conn_ok ?c" using ok by (simp add: conn_ok_def rs_ok_def handed_def)
  with b Started show ?thesis
    using callPull_bounded [OF _ _ keeps_bound_pull(2), of ?c] by (simp add: stream_started_def bounded_readable)
next
  case (Receive d)
  let ?c = "c\<lparr>receiveBuffer := receiveBuffer c @ [d]\<rparr>"
  have "\<not> tcp_disposed c \<Longrightarrow> conn_ok ?c" using ok by (simp add: conn_ok_def)
  moreover have "bounded m ?c" using b ev Receive by (simp add: bounded_def queued_def)
  ultimately show ?thesis using b enqueueBuffer_bounded [of ?c] Receive by (simp add: receive_data_def)
next
  case RemoteClose
  let ?c = "c\<lparr>remoteClosed := True\<rparr>"
  have "conn_ok ?c" "bounded m ?c" using ok b by (simp_all add: conn_ok_def bounded_def queued_def)
  with b enqueueBuffer_bounded [of ?c] RemoteClose show ?thesis by (simp add: remote_close_def)
next
  case Read
  obtain s q where r: "rs_read (readable c) = (s, q)" by (cases "rs_read (readable c)")
  have rs: "rs_ok (readable c)" using ok by (simp add: conn_ok_def)
  have "conn_ok (c\<lparr>readable := s\<rparr>)"
    using ok rs_ok_read [OF rs] rs_read_fields [OF rs] by (simp add: r conn_ok_def)
  moreover have "bounded m (c\<lparr>readable := s\<rparr>)"
    using b read_queue [of "readable c"] by (simp add: r bounded_def queued_def)
  ultimately show ?thesis
    using callPull_bounded [OF _ _ keeps_bound_pull(2)] Read by (simp add: read_chunk_def r Let_def)
next
  case PullSettled
  let ?c = "c\<lparr>readable := (readable c)\<lparr>rs_pulling := False, rs_pullAgain := False\<rparr>\<rparr>"
  have "conn_ok ?c" using ok by (simp add: conn_ok_def rs_ok_def handed_def)
  moreover have "bounded m ?c" "bounded m (c\<lparr>readable := (readable c)\<lparr>rs_pulling := False\<rparr>\<rparr>)"
    using b by (simp_all add: bounded_readable)
  moreover have "rs_pullFailed (readable c) = None" using ok by (simp add: conn_ok_def)
  ultimately show ?thesis
    using callPull_bounded [OF _ _ keeps_bound_pull(2), of ?c] PullSettled b
    by (simp add: pull_settled_def Let_def)
next
  case Cancel
  with b show ?thesis by (simp add: bounded_def queued_def rs_cancel_def rs_finish_def)
next
  case (Dispose e)
  have "bounded m (c\<lparr>tcp_disposed := True, receiveBuffer := []\<rparr>)" using b by (simp add: bounded_def queued_def)
  with Dispose b show ?thesis by (simp add: dispose_connection_def errorReadable_bounded)
next
  case LocalClose
  with b show ?thesis by (simp add: local_close_def errorReadable_bounded)
qed

lemma bounded_run: "\<forall>d\<in>set (received evs). d \<noteq> [] \<and> length d \<le> m \<Longrightarrow> bounded m (tcp_run evs)"
proof (induction evs rule: rev_induct)
  case Nil
  show ?case by (simp add: tcp_run_def tcp_connection_init_def bounded_def queued_def rs_init_def
      READABLE_HIGH_WATER_MARK_def MAX_SEGMENT_SIZE_def)
next
  case (snoc ev evs)
  have "\<forall>d. ev = Receive d \<longrightarrow> d \<noteq> [] \<and> length d \<le> m" using snoc.prems by auto
  with bounded_step [OF conn_ok_run, of m evs ev] snoc show ?case by simp
qed

subsection \<open>After a cancel\<close>

lemma enqueueBuffer_not_readable:
  assumes "rs_state (readable c) \<noteq> Rs_readable"
  shows "fst (enqueueBuffer c) =
    (if \<not> tcp_disposed c \<and> drained c then errorWritable connection_closed (closeReadable c) else c)"
proof -
  have "\<not> 0 < desired c" using assms desired_positive by blast
  then show ?thesis by (simp add: enqueueBuffer_def enqueueBuffer_with_def drained_def)
qed

lemma closeReadable_not_readable:
  "rs_state (readable c) \<noteq> Rs_readable \<Longrightarrow> readable (closeReadable c) = readable c"
  by (simp add: closeReadable_def controller_close_def can_enqueue_def)

lemma step_not_readable:
  assumes "rs_state (readable c) \<noteq> Rs_readable"
  shows "rs_state (readable (tcp_step ev c)) \<noteq> Rs_readable \<and>
    windowUpdates (tcp_step ev c) = windowUpdates c"
proof -
  have c: "callPullIfNeeded enqueueBuffer (c\<lparr>readable := s\<rparr>) = c\<lparr>readable := s\<rparr>"
    if "rs_state s \<noteq> Rs_readable" for s
    using that by (simp add: callPullIfNeeded_def should_pull_def can_enqueue_def)
  show ?thesis
  proof (cases ev)
    case Read
    with assms c show ?thesis
      by (auto simp: read_chunk_def rs_read_def split: rs_state.split)
  next
    case PullSettled
    with assms c show ?thesis
      by (simp add: pull_settled_def Let_def controller_error_def split: option.split)
  qed (use assms c in \<open>auto simp: receive_data_def remote_close_def enqueueBuffer_not_readable
      closeReadable_not_readable stream_started_def rs_cancel_def dispose_connection_def
      local_close_def errorReadable_def controller_error_def\<close>)
qed

lemma steps_not_readable:
  "rs_state (readable c) \<noteq> Rs_readable \<Longrightarrow> windowUpdates (fold tcp_step evs c) = windowUpdates c"
  by (induction evs arbitrary: c) (simp_all add: step_not_readable)

lemma cancelled_not_readable: "rs_state (rs_cancel s) \<noteq> Rs_readable"
  by (simp add: rs_cancel_def rs_finish_def)

subsection \<open>Properties\<close>

definition example_run :: "tcp_event list" where
  "example_run = [Started, Receive [1, 2], Read, Receive [3], RemoteClose, Read, Read]"

text \<open>C32: a reader never sees data out of order: in every state of every run, what it has been
  given, followed by what is queued in the stream, is a beginning of what lwIP has delivered, chunk
  by chunk; and the bytes credited to the receive window and those still held back are never more
  than the bytes delivered.\<close>

theorem tcp_data_in_order:
  fixes evs :: "tcp_event list"
  defines "c \<equiv> tcp_run evs"
  shows "prefix (answered_chunks (rs_answers (readable c)) @ rs_queue (readable c)) (received evs) \<and>
    sum_list (windowUpdates c) + size_of (receiveBuffer c) \<le> size_of (received evs)"
  using flowing_run [of evs]
  by (simp add: c_def flowing_def flow_def in_stream_def handed_def credit_def)

text \<open>C4: a reader is served: in a run that nobody cuts short, once the microtasks of the pull
  machinery have run (a bounded number of them), the reads so far have been answered with the
  chunks delivered, in order, and the reads beyond them with the end of the data when the peer has
  closed; they wait otherwise. Every byte delivered is credited to the window or in the receive
  buffer.\<close>

theorem tcp_reads_answered:
  assumes "undisturbed False evs" "Started \<in> set evs"
  defines "c \<equiv> tcp_run (evs @ replicate (2 * length (received evs) + 2) PullSettled)"
  shows "rs_answers (readable c) = map Chunk (take (reads evs) (received evs)) @
      (if RemoteClose \<in> set evs then replicate (reads evs - length (received evs)) Done else []) \<and>
    sum_list (windowUpdates c) + size_of (receiveBuffer c) = size_of (received evs)"
proof -
  define n where "n = 2 * length (received evs) + 2"
  define evs' where "evs' = evs @ replicate n PullSettled"
  have e: "received evs' = received evs" "reads evs' = reads evs" "Started \<in> set evs'"
    "RemoteClose \<in> set evs' \<longleftrightarrow> RemoteClose \<in> set evs" "c = tcp_run evs'"
    using settle_run assms(2) by (simp_all add: evs'_def)
       (simp add: c_def n_def)
  have t: "tracked evs' c"
    unfolding e(5) evs'_def using assms(1) settle_run by (intro tracked_run) simp
  have "length (receiveBuffer (tcp_run evs)) \<le> length (received evs)"
    using tracked_run [OF assms(1)] by (auto simp: tracked_def clean_def)
  then have "\<not> rs_pulling (readable c)"
    unfolding e(5) evs'_def by (intro settles) (simp add: pull_measure_def n_def)
  with answers_at_rest [OF t] conn_ok_run [of evs'] served_run [of evs'] t e show ?thesis
    by (simp add: tracked_def clean_def credit_def)
qed

lemma tcp_reads_answered_witness:
  "rs_answers (readable (tcp_run (example_run @ replicate 6 PullSettled))) =
     [Chunk [1, 2], Chunk [3], Done]"
proof -
  have e: "undisturbed False example_run" "Started \<in> set example_run" "RemoteClose \<in> set example_run"
    "received example_run = [[1, 2], [3]]" "reads example_run = 3"
    by (simp_all add: example_run_def reads_def)
  show ?thesis using tcp_reads_answered [OF e(1,2)] e(3-5) by simp
qed

text \<open>C37: the memory held for a connection is bounded: when lwIP delivers non-empty chunks of at
  most \<open>m\<close> bytes and the peer keeps to a receive window of \<open>w\<close> bytes, the queue of the stream
  holds fewer than \<open>m\<close> bytes beyond the high water mark and the receive buffer at most \<open>w\<close>.\<close>

theorem tcp_memory_bounded:
  assumes "\<forall>d\<in>set (received evs). d \<noteq> [] \<and> length d \<le> m"
    and "size_of (received evs) \<le> sum_list (windowUpdates (tcp_run evs)) + w"
  shows "int (size_of (rs_queue (readable (tcp_run evs)))) < READABLE_HIGH_WATER_MARK + int m \<and>
    size_of (receiveBuffer (tcp_run evs)) \<le> w"
  using bounded_run [OF assms(1)] flowing_run [of evs] assms(2)
  by (simp add: bounded_def queued_def flowing_def flow_def credit_def)

lemma tcp_memory_bounded_witness:
  "size_of (receiveBuffer (tcp_run example_run)) \<le> 3"
proof -
  have "received example_run = [[1, 2], [3]]" by (simp add: example_run_def)
  then show ?thesis using tcp_memory_bounded [of example_run 2 3] by simp
qed

text \<open>C38: the re-entrant call comes to an end: \<open>enqueue\<close> runs \<open>pull\<close>, which is
  \<open>enqueueBuffer\<close> again, and the function defined in two layers is a fixed point of that
  recursion; its loop terminates in every state that a run reaches.\<close>

theorem tcp_enqueue_terminates:
  "enqueueBuffer = enqueueBuffer_with enqueueBuffer \<and>
   (\<exists>r. while_option enqueue_more (enqueue_round enqueueBuffer) (0, tcp_run evs, None) = Some r)"
proof
  let ?c = "tcp_run evs"
  show "\<exists>r. while_option enqueue_more (enqueue_round enqueueBuffer) (0, ?c, None) = Some r"
  proof (cases "can_enqueue (readable ?c) \<or> receiveBuffer ?c = []")
    case True
    show ?thesis using enqueue_loop_ok [OF conn_ok_run True, of enqueueBuffer 0] good_pull_enqueueBuffer by blast
  next
    case False
    then obtain chunk rest where "receiveBuffer ?c = chunk # rest" by (cases "receiveBuffer ?c") auto
    with False show ?thesis
      by (subst while_option_unfold, subst while_option_unfold)
         (simp add: controller_enqueue_def split: list.split)
  qed
qed (rule enqueueBuffer_knot)

text \<open>A reader that cancels the stream (a \<open>for await\<close> loop that is left does so) stalls the
  connection: no byte is credited to the receive window any more, whatever happens after, and when
  the peer sends more and closes, the writable side is not told of the close.\<close>

theorem tcp_cancel_stalls:
  "windowUpdates (tcp_run (evs @ Cancel # evs')) = windowUpdates (tcp_run evs) \<and>
   writableError (tcp_run (evs @ [Cancel, Receive d, RemoteClose])) = writableError (tcp_run evs)"
proof
  let ?c = "(tcp_run evs)\<lparr>readable := rs_cancel (readable (tcp_run evs))\<rparr>"
  have nr: "rs_state (readable ?c) \<noteq> Rs_readable" by (simp add: cancelled_not_readable)
  then show "windowUpdates (tcp_run (evs @ Cancel # evs')) = windowUpdates (tcp_run evs)"
    using steps_not_readable [OF nr, of evs'] by (simp add: tcp_run_append)
  show "writableError (tcp_run (evs @ [Cancel, Receive d, RemoteClose])) = writableError (tcp_run evs)"
    using nr by (simp add: tcp_run_append receive_data_def remote_close_def
        enqueueBuffer_not_readable drained_def)
qed

end
