(* ===== verification/Tcp_Bindings.thy ===== *)
theory Tcp_Bindings
  imports JS_Map Net_Errors Tcp_Delivery "HOL-Library.Multiset"
begin

text \<open>
  The TCP bindings (class \<open>TcpBindings\<close> of \<open>packages/tcpip/src/bindings/tcp.ts\<close>): sending,
  closing and the waits for acknowledgements, and the hooks that lwIP calls. lwIP is a module that
  is not under \<open>src\<close>: its state is a type variable and its exported functions are arguments
  (\<open>tcp_exports\<close>). A call that waits is a job; the promise it waits for is its place in the map of
  waiters. What a hook does after \<open>await nextMicrotask()\<close> is a task; tasks run in the order in
  which they were started.
\<close>

subsection \<open>State\<close>

definition ERR_OK :: int where
  "ERR_OK = 0"

definition ERR_MEM :: int where
  "ERR_MEM = - 1"

type_synonym tcp_handle = nat

record 'l tcp_exports =
  send_tcp_chunk :: "tcp_handle \<Rightarrow> bytes \<Rightarrow> 'l \<Rightarrow> nat \<times> 'l"
  close_tcp_connection :: "tcp_handle \<Rightarrow> 'l \<Rightarrow> int \<times> 'l"
  shutdown_tcp_connection_write :: "tcp_handle \<Rightarrow> 'l \<Rightarrow> int \<times> 'l"

text \<open>A send knows its data and how much of it lwIP has queued.\<close>

datatype job_kind = SendJob bytes nat | CloseJob | CloseWriteJob

record tcp_job =
  job_id :: nat
  job_handle :: tcp_handle
  job_kind :: job_kind

text \<open>
  Objects are numbers, connections in the order of their creation; the map \<open>tcpConnections\<close>
  gives the connection of a handle. What has left the bindings is listed: \<open>bd_fed\<close> the events
  that have reached a connection, \<open>bd_accepted\<close> the connections given to a listener,
  \<open>bd_endedListeners\<close> the listeners disposed of,
  \<open>bd_connected\<close> the answered calls of \<open>connect\<close>, \<open>bd_settled\<close> the ended jobs, and
  \<open>bd_queued\<close> the pieces of a job that lwIP has taken. \<open>bd_calls\<close> has the calls that started
  the jobs; the position is the job's number.
\<close>

datatype tcp_task = Announce tcp_handle nat nat | Connected tcp_handle nat
  | Deliver tcp_handle nat bytes | FinishClose nat

record 'l tcp_bindings =
  bd_lwip :: 'l
  tcpListeners :: "(tcp_handle, nat) js_map"
  tcpConnections :: "(tcp_handle, nat) js_map"
  tcpConnectEvents :: "(tcp_handle, nat list) js_map"
  tcpAcks :: "(tcp_handle, tcp_job list) js_map"
  tcpCloseAcks :: "(tcp_handle, tcp_job list) js_map"
  bd_resumed :: "tcp_job list"
  bd_tasks :: "tcp_task list"
  bd_disposedError :: "js_error option"
  bd_created :: nat
  bd_calls :: "(tcp_handle \<times> job_kind) list"
  bd_settled :: "(nat \<times> js_error option) list"
  bd_queued :: "(nat \<times> bytes) list"
  bd_fed :: "(nat \<times> tcp_event) list"
  bd_accepted :: "(nat \<times> nat) list"
  bd_connected :: "(nat \<times> nat res) list"
  bd_endedListeners :: "nat list"

definition bindings_init :: "'l \<Rightarrow> 'l tcp_bindings" where
  "bindings_init l = \<lparr>bd_lwip = l, tcpListeners = [], tcpConnections = [],
     tcpConnectEvents = [], tcpAcks = [], tcpCloseAcks = [],
     bd_resumed = [], bd_tasks = [], bd_disposedError = None, bd_created = 0, bd_calls = [],
     bd_settled = [], bd_queued = [], bd_fed = [], bd_accepted = [], bd_connected = [],
     bd_endedListeners = []\<rparr>"

subsection \<open>Jobs\<close>

definition waiters_of :: "(tcp_handle, tcp_job list) js_map \<Rightarrow> tcp_handle \<Rightarrow> tcp_job list" where
  "waiters_of m h = (case map_get m h of None \<Rightarrow> [] | Some js \<Rightarrow> js)"

definition waitForAck :: "tcp_job \<Rightarrow> (tcp_handle, tcp_job list) js_map \<Rightarrow> (tcp_handle, tcp_job list) js_map" where
  "waitForAck j m = map_set (job_handle j) (waiters_of m (job_handle j) @ [j]) m"

definition settle :: "tcp_job \<Rightarrow> js_error option \<Rightarrow> 'l tcp_bindings \<Rightarrow> 'l tcp_bindings" where
  "settle j r s = s\<lparr>bd_settled := bd_settled s @ [(job_id j, r)]\<rparr>"

text \<open>
  One round of \<open>send\<close>, \<open>#closeConnection\<close> or \<open>#closeConnectionWrite\<close>: the call into lwIP, and
  what follows its result. The exports of a disposed stack throw the stack's error.
\<close>

definition send_round :: "'l tcp_exports \<Rightarrow> tcp_job \<Rightarrow> bytes \<Rightarrow> nat \<Rightarrow> 'l tcp_bindings \<Rightarrow> 'l tcp_bindings" where
  "send_round ex j data bytesQueued s =
     (let (n, l) = send_tcp_chunk ex (job_handle j) (drop bytesQueued data) (bd_lwip s);
          s' = s\<lparr>bd_lwip := l, bd_queued := bd_queued s @ [(job_id j, take n (drop bytesQueued data))]\<rparr>
      in if bytesQueued + n < length data
         then s'\<lparr>tcpAcks := waitForAck (j\<lparr>job_kind := SendJob data (bytesQueued + n)\<rparr>) (tcpAcks s')\<rparr>
         else settle j None s')"

definition close_round ::
  "string \<Rightarrow> (tcp_handle \<Rightarrow> 'l \<Rightarrow> int \<times> 'l) \<Rightarrow> tcp_job \<Rightarrow> 'l tcp_bindings \<Rightarrow> 'l tcp_bindings" where
  "close_round what call j s =
     (let (result, l) = call (job_handle j) (bd_lwip s); s' = s\<lparr>bd_lwip := l\<rparr>
      in if result = ERR_OK then settle j None s'
         else if result \<noteq> ERR_MEM then settle j (Some (Error (lit what @ number_text result))) s'
         else s'\<lparr>tcpCloseAcks := waitForAck j (tcpCloseAcks s')\<rparr>)"

definition run_job :: "'l tcp_exports \<Rightarrow> tcp_job \<Rightarrow> 'l tcp_bindings \<Rightarrow> 'l tcp_bindings" where
  "run_job ex j s = (case bd_disposedError s of
     Some e \<Rightarrow> settle j (Some e) s
   | None \<Rightarrow> (case job_kind j of
       SendJob data bytesQueued \<Rightarrow> send_round ex j data bytesQueued s
     | CloseJob \<Rightarrow> close_round ''failed to close tcp connection: '' (close_tcp_connection ex) j s
     | CloseWriteJob \<Rightarrow>
         close_round ''failed to shutdown tcp write side: '' (shutdown_tcp_connection_write ex) j s))"

subsection \<open>Hooks\<close>

definition sent_tcp_chunk :: "tcp_handle \<Rightarrow> 'l tcp_bindings \<Rightarrow> 'l tcp_bindings" where
  "sent_tcp_chunk h s =
     s\<lparr>bd_resumed := bd_resumed s @ waiters_of (tcpAcks s) h @ waiters_of (tcpCloseAcks s) h,
       tcpAcks := map_delete h (tcpAcks s), tcpCloseAcks := map_delete h (tcpCloseAcks s)\<rparr>"

text \<open>
  A new connection is registered under its handle at once, so that early data is not dropped, and
  announced in a task: to its listener, unless that has gone, or to the calls of \<open>connect\<close>
  that wait for the handle. Its endpoints are read from lwIP first, which throws on a disposed
  stack.
\<close>

definition register_connection :: "tcp_handle \<Rightarrow> (nat \<Rightarrow> tcp_task) \<Rightarrow> 'l tcp_bindings \<Rightarrow> 'l tcp_bindings" where
  "register_connection h announce s = (if bd_disposedError s \<noteq> None then s else
     s\<lparr>tcpConnections := map_set h (bd_created s) (tcpConnections s), bd_created := bd_created s + 1,
       bd_tasks := bd_tasks s @ [announce (bd_created s)]\<rparr>)"

definition accept_tcp_connection :: "tcp_handle \<Rightarrow> tcp_handle \<Rightarrow> 'l tcp_bindings \<Rightarrow> 'l tcp_bindings" where
  "accept_tcp_connection lh h s = (case map_get (tcpListeners s) lh of
     None \<Rightarrow> s
   | Some listener \<Rightarrow> register_connection h (Announce lh listener) s)"

definition connected_tcp_connection :: "tcp_handle \<Rightarrow> 'l tcp_bindings \<Rightarrow> 'l tcp_bindings" where
  "connected_tcp_connection h s = register_connection h (Connected h) s"

definition wait_connected :: "tcp_handle \<Rightarrow> nat \<Rightarrow> 'l tcp_bindings \<Rightarrow> 'l tcp_bindings" where
  "wait_connected h call s = (if bd_disposedError s \<noteq> None then s else s\<lparr>tcpConnectEvents := map_set h
     ((case map_get (tcpConnectEvents s) h of None \<Rightarrow> [] | Some ws \<Rightarrow> ws) @ [call]) (tcpConnectEvents s)\<rparr>)"

definition set_connected :: "tcp_handle \<Rightarrow> nat \<Rightarrow> 'l tcp_bindings \<Rightarrow> 'l tcp_bindings" where
  "set_connected h c s = (case map_get (tcpConnectEvents s) h of
     None \<Rightarrow> s
   | Some calls \<Rightarrow> s\<lparr>bd_connected := bd_connected s @ map (\<lambda>call. (call, Inr c)) calls,
       tcpConnectEvents := map_set h [] (tcpConnectEvents s)\<rparr>)"

definition receive_tcp_chunk :: "tcp_handle \<Rightarrow> bytes \<Rightarrow> 'l tcp_bindings \<Rightarrow> 'l tcp_bindings" where
  "receive_tcp_chunk h chunk s = (case map_get (tcpConnections s) h of
     None \<Rightarrow> s
   | Some c \<Rightarrow> s\<lparr>bd_tasks := bd_tasks s @ [Deliver h c chunk]\<rparr>)"

definition closed_tcp_connection :: "tcp_handle \<Rightarrow> 'l tcp_bindings \<Rightarrow> 'l tcp_bindings" where
  "closed_tcp_connection h s = (case map_get (tcpConnections s) h of
     None \<Rightarrow> s
   | Some c \<Rightarrow> s\<lparr>bd_tasks := bd_tasks s @ [FinishClose c]\<rparr>)"

definition feed :: "nat \<Rightarrow> tcp_event \<Rightarrow> 'l tcp_bindings \<Rightarrow> 'l tcp_bindings" where
  "feed c ev s = s\<lparr>bd_fed := bd_fed s @ [(c, ev)]\<rparr>"

fun run_task :: "tcp_task \<Rightarrow> 'l tcp_bindings \<Rightarrow> 'l tcp_bindings" where
  "run_task (Announce lh listener c) s =
     (if bd_disposedError s \<noteq> None \<or> map_get (tcpListeners s) lh \<noteq> Some listener then s
      else s\<lparr>bd_accepted := bd_accepted s @ [(listener, c)]\<rparr>)"
| "run_task (Connected h c) s = (if bd_disposedError s \<noteq> None then s else set_connected h c s)"
| "run_task (Deliver h c chunk) s =
     (if bd_disposedError s \<noteq> None \<or> map_get (tcpConnections s) h \<noteq> Some c then s
      else feed c (Receive chunk) s)"
| "run_task (FinishClose c) s = feed c RemoteClose s"

text \<open>The first error given to \<open>dispose\<close> stays; every waiter and every connection learns of it.\<close>

definition dispose_bindings :: "js_error \<Rightarrow> 'l tcp_bindings \<Rightarrow> 'l tcp_bindings" where
  "dispose_bindings e s =
     (let e' = (case bd_disposedError s of None \<Rightarrow> e | Some d \<Rightarrow> d) in
      s\<lparr>bd_disposedError := Some e',
        bd_settled := bd_settled s @ map (\<lambda>j. (job_id j, Some e'))
          (concat (map snd (tcpAcks s)) @ concat (map snd (tcpCloseAcks s))),
        bd_connected := bd_connected s @
          map (\<lambda>call. (call, Inl e')) (concat (map snd (tcpConnectEvents s))),
        bd_endedListeners := bd_endedListeners s @ map snd (tcpListeners s),
        bd_fed := bd_fed s @ map (\<lambda>c. (c, Dispose e')) (map snd (tcpConnections s)),
        tcpAcks := [], tcpCloseAcks := [], tcpConnectEvents := [], tcpListeners := [],
        tcpConnections := []\<rparr>)"

subsection \<open>Steps\<close>

text \<open>
  \<open>Write\<close>, \<open>Close_call\<close> and \<open>Close_write\<close> are calls of a connection's outer hooks, \<open>Listen\<close>
  and \<open>Connect\<close> what \<open>listen\<close> and \<open>connect\<close> do once lwIP has returned a handle; then the
  imports, in the order of the source; \<open>Resume\<close> is the continuation of the first resumed job,
  \<open>Task\<close> the first waiting task, \<open>Lwip\<close> any change inside lwIP, and \<open>User\<close> an event of a
  connection that does not come through the bindings.
\<close>

datatype 'l tcp_input = Write tcp_handle bytes | Close_call tcp_handle | Close_write tcp_handle
  | Listen tcp_handle nat | Connect tcp_handle nat
  | Accept_in tcp_handle tcp_handle | Connected_in tcp_handle | Closed_in tcp_handle
  | Chunk_in tcp_handle bytes | Sent_in tcp_handle
  | Resume | Task | Dispose_all js_error | Lwip 'l | User nat tcp_event

definition start_job :: "'l tcp_exports \<Rightarrow> tcp_handle \<Rightarrow> job_kind \<Rightarrow> 'l tcp_bindings \<Rightarrow> 'l tcp_bindings" where
  "start_job ex h k s = run_job ex \<lparr>job_id = length (bd_calls s), job_handle = h, job_kind = k\<rparr>
     (s\<lparr>bd_calls := bd_calls s @ [(h, k)]\<rparr>)"

fun from_lwip :: "tcp_event \<Rightarrow> bool" where
  "from_lwip (Receive d) \<longleftrightarrow> True"
| "from_lwip RemoteClose \<longleftrightarrow> True"
| "from_lwip ev \<longleftrightarrow> False"

fun bindings_step :: "'l tcp_exports \<Rightarrow> 'l tcp_input \<Rightarrow> 'l tcp_bindings \<Rightarrow> 'l tcp_bindings" where
  "bindings_step ex (Write h data) s = start_job ex h (SendJob data 0) s"
| "bindings_step ex (Close_call h) s = start_job ex h CloseJob s"
| "bindings_step ex (Close_write h) s = start_job ex h CloseWriteJob s"
| "bindings_step ex (Listen lh listener) s = (if bd_disposedError s \<noteq> None then s
     else s\<lparr>tcpListeners := map_set lh listener (tcpListeners s)\<rparr>)"
| "bindings_step ex (Connect h call) s = wait_connected h call s"
| "bindings_step ex (Accept_in lh h) s = accept_tcp_connection lh h s"
| "bindings_step ex (Connected_in h) s = connected_tcp_connection h s"
| "bindings_step ex (Closed_in h) s = closed_tcp_connection h s"
| "bindings_step ex (Chunk_in h chunk) s = receive_tcp_chunk h chunk s"
| "bindings_step ex (Sent_in h) s = sent_tcp_chunk h s"
| "bindings_step ex Resume s = (case bd_resumed s of
     [] \<Rightarrow> s | j # js \<Rightarrow> run_job ex j (s\<lparr>bd_resumed := js\<rparr>))"
| "bindings_step ex Task s = (case bd_tasks s of
     [] \<Rightarrow> s | t # ts \<Rightarrow> run_task t (s\<lparr>bd_tasks := ts\<rparr>))"
| "bindings_step ex (Dispose_all e) s = dispose_bindings e s"
| "bindings_step ex (Lwip l) s = s\<lparr>bd_lwip := l\<rparr>"
| "bindings_step ex (User c ev) s = (if from_lwip ev then s else feed c ev s)"

definition bindings_run :: "'l tcp_exports \<Rightarrow> 'l \<Rightarrow> 'l tcp_input list \<Rightarrow> 'l tcp_bindings" where
  "bindings_run ex l evs = fold (bindings_step ex) evs (bindings_init l)"

definition events_of :: "nat \<Rightarrow> 'l tcp_bindings \<Rightarrow> tcp_event list" where
  "events_of c s = map snd (filter (\<lambda>(c', ev). c' = c) (bd_fed s))"

definition pieces_of :: "nat \<Rightarrow> 'l tcp_bindings \<Rightarrow> bytes" where
  "pieces_of i s = concat (map snd (filter (\<lambda>(i', piece). i' = i) (bd_queued s)))"

subsection \<open>Every job is in one place\<close>

definition in_map :: "(tcp_handle, tcp_job list) js_map \<Rightarrow> tcp_job multiset" where
  "in_map m = mset (concat (map snd m))"

definition pending :: "'l tcp_bindings \<Rightarrow> tcp_job multiset" where
  "pending s = in_map (tcpAcks s) + in_map (tcpCloseAcks s) + mset (bd_resumed s)"

lemma in_map_set: "in_map (map_set h js m) + mset (waiters_of m h) = in_map m + mset js"
  by (induction h js m rule: map_set.induct) (auto simp: in_map_def waiters_of_def)

lemma in_map_wait [simp]: "in_map (waitForAck j m) = in_map m + {#j#}"
  using in_map_set [of "job_handle j" "waiters_of m (job_handle j) @ [j]" m]
  by (simp add: waitForAck_def)

lemma in_map_delete: "in_map (map_delete h m) + mset (waiters_of m h) = in_map m"
  by (induction h m rule: map_delete.induct) (auto simp: in_map_def waiters_of_def)

lemma in_map_Nil [simp]: "in_map [] = {#}"
  by (simp add: in_map_def)

lemma pending_sent [simp]: "pending (sent_tcp_chunk h s) = pending s"
  using in_map_delete [of h "tcpAcks s"] in_map_delete [of h "tcpCloseAcks s"]
  by (simp add: pending_def sent_tcp_chunk_def ac_simps)

lemma pieces_snoc [simp]:
  "pieces_of i (s\<lparr>bd_queued := bd_queued s @ [(i', p)]\<rparr>) = pieces_of i s @ (if i' = i then p else [])"
  by (simp add: pieces_of_def)

lemma pieces_cong: "bd_queued s = bd_queued s' \<Longrightarrow> pieces_of i s = pieces_of i s'"
  by (simp add: pieces_of_def)

text \<open>
  What a job has done agrees with the call that started it: a send has given lwIP the first
  \<open>bytesQueued\<close> bytes of its data, in order.
\<close>

fun kind_ok :: "job_kind \<Rightarrow> job_kind \<Rightarrow> bytes \<Rightarrow> bool" where
  "kind_ok (SendJob data q) (SendJob data' n) piece \<longleftrightarrow>
     data' = data \<and> n \<le> length data \<and> piece = take n data"
| "kind_ok CloseJob CloseJob piece \<longleftrightarrow> True"
| "kind_ok CloseWriteJob CloseWriteJob piece \<longleftrightarrow> True"
| "kind_ok _ _ _ \<longleftrightarrow> False"

definition job_ok :: "'l tcp_bindings \<Rightarrow> tcp_job \<Rightarrow> bool" where
  "job_ok s j \<longleftrightarrow> job_id j < length (bd_calls s) \<and>
     kind_ok (snd (bd_calls s ! job_id j)) (job_kind j) (pieces_of (job_id j) s) \<and>
     job_handle j = fst (bd_calls s ! job_id j)"

lemma kind_ok_send: "kind_ok k (SendJob data n) piece \<Longrightarrow> \<exists>q. k = SendJob data q"
  by (cases k) auto

lemma kind_ok_call: "kind_ok (SendJob data q) k piece \<Longrightarrow> \<exists>n. k = SendJob data n \<and> piece = take n data"
  by (cases k) auto

definition settled_ok :: "'l tcp_bindings \<Rightarrow> bool" where
  "settled_ok s \<longleftrightarrow> (\<forall>i r h data q. (i, r) \<in> set (bd_settled s) \<longrightarrow> bd_calls s ! i = (h, SendJob data q) \<longrightarrow>
     prefix (pieces_of i s) data \<and> (r = None \<longrightarrow> pieces_of i s = data))"

definition jobs_inv :: "'l tcp_bindings \<Rightarrow> bool" where
  "jobs_inv s \<longleftrightarrow> image_mset job_id (pending s) + mset (map fst (bd_settled s)) = mset [0..<length (bd_calls s)] \<and>
     (\<forall>j\<in>#pending s. job_ok s j) \<and> settled_ok s \<and>
     (\<forall>i\<ge>length (bd_calls s). pieces_of i s = [])"

text \<open>The contract of lwIP: it takes no more than it is given.\<close>

definition takes_at_most :: "'l tcp_exports \<Rightarrow> bool" where
  "takes_at_most ex \<longleftrightarrow> (\<forall>h data l. fst (send_tcp_chunk ex h data l) \<le> length data)"

lemma jobs_inv_ids:
  fixes rs :: "(nat \<times> js_error option) list"
  assumes "image_mset job_id M + {#i#} + mset (map fst rs) = mset [0..<n]"
  shows "i < n" "i \<notin> job_id ` set_mset M" "i \<notin> fst ` set rs"
proof -
  have d: "distinct [0..<n]" by simp
  have "count (mset [0..<n]) i \<le> 1" using d by (simp add: distinct_count_atmost_1)
  moreover have "count (mset [0..<n]) i = count (image_mset job_id M) i + 1 +
    count (mset (map fst rs)) i" unfolding assms [symmetric] by simp
  ultimately have "count (image_mset job_id M) i = 0" "count (mset (map fst rs)) i = 0"
    by linarith+
  then show "i \<notin> job_id ` set_mset M" "i \<notin> fst ` set rs"
    by (simp_all add: count_eq_zero_iff)
  have "i \<in># mset [0..<n]" unfolding assms [symmetric] by simp
  then show "i < n" by simp
qed


text \<open>The invariant while one job runs, and what the end of the job or its next wait makes of it.\<close>

definition running_inv :: "tcp_job \<Rightarrow> 'l tcp_bindings \<Rightarrow> bool" where
  "running_inv j s \<longleftrightarrow>
     image_mset job_id (pending s) + {#job_id j#} + mset (map fst (bd_settled s)) = mset [0..<length (bd_calls s)] \<and>
     (\<forall>j'\<in>#pending s. job_ok s j') \<and> job_ok s j \<and> settled_ok s \<and>
     (\<forall>i\<ge>length (bd_calls s). pieces_of i s = [])"

lemma job_ok_cong:
  "bd_calls s' = bd_calls s \<Longrightarrow> bd_queued s' = bd_queued s \<Longrightarrow> job_ok s' j = job_ok s j"
  using pieces_cong [of s' s] by (simp add: job_ok_def)

lemma settled_ok_cong:
  "bd_calls s' = bd_calls s \<Longrightarrow> bd_queued s' = bd_queued s \<Longrightarrow> bd_settled s' = bd_settled s \<Longrightarrow>
   settled_ok s' = settled_ok s"
  using pieces_cong [of s' s] by (simp add: settled_ok_def)

lemma jobs_inv_cong:
  assumes "pending s' = pending s" "bd_calls s' = bd_calls s" "bd_queued s' = bd_queued s"
    "bd_settled s' = bd_settled s"
  shows "jobs_inv s' = jobs_inv s"
  using assms job_ok_cong [of s' s] settled_ok_cong [of s' s] pieces_cong [of s' s]
  by (simp add: jobs_inv_def)

lemma job_okD:
  "job_ok s j \<Longrightarrow> bd_calls s ! job_id j = (h, SendJob data q) \<Longrightarrow> prefix (pieces_of (job_id j) s) data"
  by (auto simp: job_ok_def take_is_prefix dest!: kind_ok_call)

lemma settle_inv:
  assumes "running_inv j s"
    "\<And>h data q. r = None \<Longrightarrow> bd_calls s ! job_id j = (h, SendJob data q) \<Longrightarrow> pieces_of (job_id j) s = data"
  shows "jobs_inv (settle j r s)"
proof -
  have p: "pending (settle j r s) = pending s" by (simp add: pending_def settle_def)
  have "settled_ok (settle j r s)"
    using assms job_okD [of s j] pieces_cong [of "settle j r s" s]
    by (auto simp: settled_ok_def running_inv_def settle_def)
  with assms(1) p job_ok_cong [of "settle j r s" s] pieces_cong [of "settle j r s" s]
  show ?thesis by (simp add: jobs_inv_def running_inv_def settle_def)
qed

lemma wait_inv:
  assumes "running_inv j s" "pending s' = pending s + {#j#}" "bd_calls s' = bd_calls s"
    "bd_queued s' = bd_queued s" "bd_settled s' = bd_settled s"
  shows "jobs_inv s'"
  using assms job_ok_cong [of s' s] settled_ok_cong [of s' s] pieces_cong [of s' s]
  by (simp add: jobs_inv_def running_inv_def)

lemma running_lwip:
  "running_inv j s \<Longrightarrow> running_inv j (s\<lparr>bd_lwip := l\<rparr>)"
  using job_ok_cong [of "s\<lparr>bd_lwip := l\<rparr>" s] settled_ok_cong [of "s\<lparr>bd_lwip := l\<rparr>" s]
    pieces_cong [of "s\<lparr>bd_lwip := l\<rparr>" s]
  by (simp add: running_inv_def pending_def)

lemma close_round_inv:
  assumes "running_inv j s" "\<forall>data q. job_kind j \<noteq> SendJob data q"
  shows "jobs_inv (close_round what call j s)"
proof -
  obtain r l where c: "call (job_handle j) (bd_lwip s) = (r, l)" by fastforce
  have run: "running_inv j (s\<lparr>bd_lwip := l\<rparr>)" using assms(1) by (rule running_lwip)
  have ok: "job_ok s j" using assms(1) by (simp add: running_inv_def)
  have "bd_calls s ! job_id j \<noteq> (h, SendJob data q)" for h data q
    using ok assms(2) by (auto simp: job_ok_def dest!: kind_ok_call)
  then have "jobs_inv (settle j None (s\<lparr>bd_lwip := l\<rparr>))" by (intro settle_inv [OF run]) simp_all
  moreover have "jobs_inv (settle j (Some e) (s\<lparr>bd_lwip := l\<rparr>))" for e by (intro settle_inv [OF run]) simp_all
  moreover have "jobs_inv (s\<lparr>bd_lwip := l, tcpCloseAcks := waitForAck j (tcpCloseAcks s)\<rparr>)"
    by (rule wait_inv [OF run]) (simp_all add: pending_def)
  ultimately show ?thesis using c by (simp add: close_round_def Let_def)
qed

text \<open>Handing over a piece keeps the invariant, for the job that goes on after it.\<close>

lemma queue_piece:
  fixes s :: "'l tcp_bindings" and l :: 'l
  assumes "running_inv j s" "job_kind j = SendJob data b" "n \<le> length (drop b data)"
  defines "s' \<equiv> s\<lparr>bd_lwip := l, bd_queued := bd_queued s @ [(job_id j, take n (drop b data))]\<rparr>"
    and "j' \<equiv> j\<lparr>job_kind := SendJob data (b + n)\<rparr>"
  shows "running_inv j' s' \<and> pieces_of (job_id j) s' = take (b + n) data \<and>
    (\<exists>h q. bd_calls s ! job_id j = (h, SendJob data q))"
proof -
  have ids: "image_mset job_id (pending s) + {#job_id j#} + mset (map fst (bd_settled s)) =
      mset [0..<length (bd_calls s)]"
    and ok: "\<forall>k\<in>#pending s. job_ok s k" "job_ok s j" "settled_ok s" "\<forall>i\<ge>length (bd_calls s). pieces_of i s = []"
    using assms(1) by (simp_all add: running_inv_def)
  note fresh = jobs_inv_ids [OF ids]
  obtain q where call: "snd (bd_calls s ! job_id j) = SendJob data q"
    using ok(2) assms(2) by (auto simp: job_ok_def dest: kind_ok_send)
  with ok(2) assms(2) have b: "b \<le> length data" "pieces_of (job_id j) s = take b data"
    by (simp_all add: job_ok_def)
  have pieces: "pieces_of i s' = (if i = job_id j then take (b + n) data else pieces_of i s)" for i
    using b by (auto simp: pieces_of_def s'_def take_add)
  have calls: "bd_calls s' = bd_calls s" "bd_settled s' = bd_settled s" "pending s' = pending s"
    by (simp_all add: s'_def pending_def)
  have "job_ok s' k" if "k \<in># pending s" for k
  proof -
    have "job_id k \<noteq> job_id j" using fresh(2) that by (metis imageI)
    with ok(1) that show ?thesis by (simp add: job_ok_def pieces calls)
  qed
  moreover have "job_ok s' j'"
    using ok(2) call b assms(3) by (simp add: job_ok_def pieces calls j'_def)
  moreover have "settled_ok s'"
    using ok(3) fresh(3) by (force simp: settled_ok_def pieces calls)
  moreover have "\<forall>i\<ge>length (bd_calls s). pieces_of i s' = []"
    using ok(4) fresh(1) by (auto simp: pieces)
  ultimately show ?thesis using ids pieces call
    by (simp add: running_inv_def calls j'_def) (metis prod.collapse)
qed

lemma run_job_inv:
  assumes "takes_at_most ex" "running_inv j s"
  shows "jobs_inv (run_job ex j s)"
proof (cases "bd_disposedError s")
  case (Some e)
  have "jobs_inv (settle j (Some e) s)" by (intro settle_inv [OF assms(2)]) simp_all
  with Some show ?thesis by (simp add: run_job_def)
next
  case None
  show ?thesis
  proof (cases "job_kind j")
    case (SendJob data b)
    obtain n l where c: "send_tcp_chunk ex (job_handle j) (drop b data) (bd_lwip s) = (n, l)" by fastforce
    let ?s = "s\<lparr>bd_lwip := l, bd_queued := bd_queued s @ [(job_id j, take n (drop b data))]\<rparr>"
    let ?j = "j\<lparr>job_kind := SendJob data (b + n)\<rparr>"
    have n: "n \<le> length (drop b data)"
      using assms(1) c by (metis takes_at_most_def fst_conv)
    obtain h q where q: "running_inv ?j ?s" "pieces_of (job_id j) ?s = take (b + n) data"
      "bd_calls s ! job_id j = (h, SendJob data q)"
      using queue_piece [OF assms(2) SendJob n, of l] by blast
    show ?thesis
    proof (cases "b + n < length data")
      case True
      have "jobs_inv (?s\<lparr>tcpAcks := waitForAck ?j (tcpAcks s)\<rparr>)"
        by (rule wait_inv [OF q(1)]) (simp_all add: pending_def)
      with True None SendJob c show ?thesis by (simp add: run_job_def send_round_def Let_def)
    next
      case False
      have "jobs_inv (settle ?j None ?s)"
        using q False by (intro settle_inv [OF q(1)]) auto
      with False None SendJob c show ?thesis
        by (simp add: run_job_def send_round_def Let_def settle_def)
    qed
  qed (use None assms(2) close_round_inv [of j s] in \<open>simp_all add: run_job_def\<close>)
qed

lemma start_job_inv:
  assumes "takes_at_most ex" "jobs_inv s" "kind_ok k k []"
  shows "jobs_inv (start_job ex h k s)"
proof -
  let ?s = "s\<lparr>bd_calls := bd_calls s @ [(h, k)]\<rparr>"
  let ?j = "\<lparr>job_id = length (bd_calls s), job_handle = h, job_kind = k\<rparr>"
  have inv: "\<forall>j\<in>#pending s. job_ok s j" "settled_ok s" "\<forall>i\<ge>length (bd_calls s). pieces_of i s = []"
    "image_mset job_id (pending s) + mset (map fst (bd_settled s)) = mset [0..<length (bd_calls s)]"
    using assms(2) by (simp_all add: jobs_inv_def)
  have pieces: "pieces_of i ?s = pieces_of i s" for i by (rule pieces_cong) simp
  have old: "fst r < length (bd_calls s)" if "r \<in> set (bd_settled s)" for r
  proof -
    have "fst r \<in># mset [0..<length (bd_calls s)]" unfolding inv(4) [symmetric] using that by auto
    then show ?thesis by simp
  qed
  have "job_ok ?s j" if "j \<in># pending s" for j
    using inv(1) that by (auto simp: job_ok_def pieces nth_append)
  moreover have "job_ok ?s ?j" using assms(3) inv(3) by (simp add: job_ok_def pieces)
  moreover have "settled_ok ?s"
    using inv(2) old by (fastforce simp: settled_ok_def pieces nth_append)
  moreover have "\<forall>i\<ge>length (bd_calls ?s). pieces_of i ?s = []" using inv(3) by (simp add: pieces)
  ultimately have "running_inv ?j ?s"
    using inv(4) by (simp add: running_inv_def pending_def)
  then show ?thesis using run_job_inv [OF assms(1)] by (simp add: start_job_def)
qed

lemma dispose_jobs_inv:
  assumes "jobs_inv s"
  shows "jobs_inv (dispose_bindings e s)"
proof -
  let ?s = "dispose_bindings e s"
  let ?e = "case bd_disposedError s of None \<Rightarrow> e | Some d \<Rightarrow> d"
  define js where "js = concat (map snd (tcpAcks s)) @ concat (map snd (tcpCloseAcks s))"
  have f: "bd_calls ?s = bd_calls s" "bd_queued ?s = bd_queued s" "pending ?s = mset (bd_resumed s)"
    "bd_settled ?s = bd_settled s @ map (\<lambda>j. (job_id j, Some ?e)) js"
    by (simp_all add: dispose_bindings_def Let_def pending_def js_def)
  have p: "pending s = mset js + mset (bd_resumed s)" by (simp add: pending_def in_map_def js_def)
  have ids: "image_mset job_id (pending s) + mset (map fst (bd_settled s)) = mset [0..<length (bd_calls s)]"
    and ok: "\<forall>j\<in>#pending s. job_ok s j" "settled_ok s" "\<forall>i\<ge>length (bd_calls s). pieces_of i s = []"
    using assms by (simp_all add: jobs_inv_def)
  have "image_mset job_id (pending ?s) + mset (map fst (bd_settled ?s)) =
      image_mset job_id (pending s) + mset (map fst (bd_settled s))"
    unfolding f p by (simp add: o_def ac_simps)
  with ids have "image_mset job_id (pending ?s) + mset (map fst (bd_settled ?s)) =
      mset [0..<length (bd_calls ?s)]" by (simp only: f(1))
  moreover have "\<forall>j\<in>#pending ?s. job_ok ?s j"
    using ok(1) by (simp add: f(3) p job_ok_cong [OF f(1,2)])
  moreover have "settled_ok ?s"
  proof -
    have "prefix (pieces_of (job_id j) s) data" if "j \<in> set js" "bd_calls s ! job_id j = (h, SendJob data q)"
      for j h data q
      using ok(1) that by (intro job_okD [of s j h]) (auto simp: p)
    with ok(2) show ?thesis
      unfolding settled_ok_def f pieces_cong [OF f(2)] by (auto simp: settled_ok_def)
  qed
  moreover have "\<forall>i\<ge>length (bd_calls ?s). pieces_of i ?s = []"
    using ok(3) by (simp add: f pieces_cong [OF f(2)])
  ultimately show ?thesis by (simp add: jobs_inv_def)
qed

text \<open>The other hooks and the tasks leave the jobs alone.\<close>

lemma jobs_inv_lwip: "jobs_inv (s\<lparr>bd_lwip := l\<rparr>) = jobs_inv s"
  by (rule jobs_inv_cong) (simp_all add: pending_def)

lemma jobs_inv_listen: "jobs_inv (s\<lparr>tcpListeners := m\<rparr>) = jobs_inv s"
  by (rule jobs_inv_cong) (simp_all add: pending_def)

lemma jobs_inv_register: "jobs_inv (register_connection h a s) = jobs_inv s"
  by (rule jobs_inv_cong) (simp_all add: register_connection_def pending_def)

lemma jobs_inv_wait: "jobs_inv (wait_connected h c s) = jobs_inv s"
  by (rule jobs_inv_cong) (simp_all add: wait_connected_def pending_def)

lemma jobs_inv_feed: "jobs_inv (feed c ev s) = jobs_inv s"
  by (rule jobs_inv_cong) (simp_all add: feed_def pending_def)

lemma jobs_inv_tasks: "jobs_inv (s\<lparr>bd_tasks := ts\<rparr>) = jobs_inv s"
  by (rule jobs_inv_cong) (simp_all add: pending_def)

lemma jobs_inv_connected: "jobs_inv (set_connected h c s) = jobs_inv s"
  by (rule jobs_inv_cong) (simp_all add: set_connected_def pending_def split: option.split)

lemma jobs_inv_accepted: "jobs_inv (s\<lparr>bd_accepted := a\<rparr>) = jobs_inv s"
  by (rule jobs_inv_cong) (simp_all add: pending_def)

lemma jobs_inv_sent: "jobs_inv (sent_tcp_chunk h s) = jobs_inv s"
  by (rule jobs_inv_cong) (simp_all, simp_all add: sent_tcp_chunk_def)

lemma jobs_inv_run_task: "jobs_inv (run_task t s) = jobs_inv s"
  by (cases t) (simp_all add: jobs_inv_feed jobs_inv_connected jobs_inv_accepted)

lemmas jobs_inv_hooks = jobs_inv_lwip jobs_inv_listen jobs_inv_register jobs_inv_wait jobs_inv_feed
  jobs_inv_tasks jobs_inv_sent jobs_inv_run_task

lemma jobs_inv_step:
  assumes "takes_at_most ex" "jobs_inv s"
  shows "jobs_inv (bindings_step ex ev s)"
proof (cases ev)
  case Resume
  show ?thesis
  proof (cases "bd_resumed s")
    case (Cons j js)
    let ?s = "s\<lparr>bd_resumed := js\<rparr>"
    have "pending s = pending ?s + {#j#}" using Cons by (simp add: pending_def)
    with assms(2) have "running_inv j ?s"
      using job_ok_cong [of ?s s] settled_ok_cong [of ?s s] pieces_cong [of ?s s]
      by (simp add: jobs_inv_def running_inv_def ac_simps)
    with Cons Resume run_job_inv [OF assms(1)] show ?thesis by simp
  qed (use Resume assms in simp)
next
  case Task
  with assms show ?thesis by (simp add: jobs_inv_hooks split: list.split)
next
  case (Accept_in lh h)
  with assms show ?thesis by (simp add: accept_tcp_connection_def jobs_inv_hooks split: option.split)
next
  case (Closed_in h)
  with assms show ?thesis by (simp add: closed_tcp_connection_def jobs_inv_hooks split: option.split)
next
  case (Chunk_in h chunk)
  with assms show ?thesis by (simp add: receive_tcp_chunk_def jobs_inv_hooks split: option.split)
qed (use assms in \<open>simp_all add: start_job_inv dispose_jobs_inv connected_tcp_connection_def jobs_inv_hooks\<close>)

lemma bindings_run_snoc [simp]:
  "bindings_run ex l (evs @ [ev]) = bindings_step ex ev (bindings_run ex l evs)"
  by (simp add: bindings_run_def)

lemma jobs_inv_run: "takes_at_most ex \<Longrightarrow> jobs_inv (bindings_run ex l evs)"
proof (induction evs rule: rev_induct)
  case Nil
  show ?case
    by (simp add: bindings_run_def bindings_init_def jobs_inv_def pending_def settled_ok_def pieces_of_def)
next
  case (snoc ev evs)
  then show ?case by (simp add: jobs_inv_step)
qed

subsection \<open>A waiting send\<close>

text \<open>What a step does to the waiters of one handle, unless lwIP acknowledges or the stack goes.\<close>

lemma waiters_wait:
  "waiters_of (waitForAck j m) h = waiters_of m h @ (if job_handle j = h then [j] else [])"
  by (simp add: waiters_of_def waitForAck_def map_get_set)

lemma acks_run_job:
  "map_ok (tcpAcks s) \<Longrightarrow> map_ok (tcpAcks (run_job ex j s)) \<and>
   set (waiters_of (tcpAcks s) h) \<subseteq> set (waiters_of (tcpAcks (run_job ex j s)) h)"
  by (auto simp: run_job_def send_round_def close_round_def settle_def Let_def waiters_wait
      waitForAck_def map_ok_set split: option.split job_kind.split prod.split)
     (auto simp: waiters_of_def map_get_set)

lemma acks_start_job:
  "map_ok (tcpAcks s) \<Longrightarrow> map_ok (tcpAcks (start_job ex h' k s)) \<and>
   set (waiters_of (tcpAcks s) h) \<subseteq> set (waiters_of (tcpAcks (start_job ex h' k s)) h)"
  using acks_run_job [of "s\<lparr>bd_calls := bd_calls s @ [(h', k)]\<rparr>"] by (simp add: start_job_def)

lemma acks_hooks:
  "tcpAcks (register_connection h a s) = tcpAcks s" "tcpAcks (wait_connected h c s) = tcpAcks s"
  "tcpAcks (set_connected h c s) = tcpAcks s" "tcpAcks (feed c ev s) = tcpAcks s"
  by (simp_all add: register_connection_def wait_connected_def set_connected_def feed_def split: option.split)

lemma acks_run_task: "tcpAcks (run_task t s) = tcpAcks s"
  by (cases t) (simp_all add: acks_hooks)

lemma acks_step:
  assumes "map_ok (tcpAcks s)"
  shows "map_ok (tcpAcks (bindings_step ex ev s)) \<and>
    (ev \<noteq> Sent_in h \<and> (\<forall>e. ev \<noteq> Dispose_all e) \<longrightarrow>
      set (waiters_of (tcpAcks s) h) \<subseteq> set (waiters_of (tcpAcks (bindings_step ex ev s)) h))"
proof (cases ev)
  case (Sent_in h')
  with assms show ?thesis
    by (auto simp: sent_tcp_chunk_def map_ok_delete waiters_of_def map_get_delete)
next
  case (Dispose_all e)
  then show ?thesis by (simp add: dispose_bindings_def Let_def)
next
  case Resume
  then show ?thesis
    using assms acks_run_job [of "s\<lparr>bd_resumed := tl (bd_resumed s)\<rparr>" ex "hd (bd_resumed s)" h]
    by (cases "bd_resumed s") simp_all
next
  case Task
  with assms show ?thesis by (cases "bd_tasks s") (simp_all add: acks_run_task)
qed (use assms in \<open>simp_all add: acks_start_job acks_hooks accept_tcp_connection_def
    connected_tcp_connection_def closed_tcp_connection_def receive_tcp_chunk_def split: option.split\<close>)

lemma acks_run: "map_ok (tcpAcks (bindings_run ex l evs))"
  by (induction evs rule: rev_induct)
     (simp_all add: acks_step, simp add: bindings_run_def bindings_init_def)

lemma acks_steps:
  assumes "map_ok (tcpAcks s)" "\<forall>ev\<in>set evs. ev \<noteq> Sent_in h \<and> (\<forall>e. ev \<noteq> Dispose_all e)"
  shows "set (waiters_of (tcpAcks s) h) \<subseteq> set (waiters_of (tcpAcks (fold (bindings_step ex) evs s)) h)"
  using assms
proof (induction evs arbitrary: s)
  case (Cons ev evs)
  have "set (waiters_of (tcpAcks s) h) \<subseteq> set (waiters_of (tcpAcks (bindings_step ex ev s)) h)"
    using acks_step [OF Cons.prems(1), of ex ev h] Cons.prems(2) by simp
  also have "\<dots> \<subseteq> set (waiters_of (tcpAcks (fold (bindings_step ex) (ev # evs) s)) h)"
    using Cons.IH [of "bindings_step ex ev s"] acks_step [OF Cons.prems(1), of ex ev h] Cons.prems(2) by simp
  finally show ?case .
qed simp

lemma waiter_pending: "set (waiters_of (tcpAcks s) h) \<subseteq> set_mset (pending s)"
proof (cases "map_of (tcpAcks s) h")
  case (Some js)
  then have "(h, js) \<in> set (tcpAcks s)" by (rule map_of_SomeD)
  with Some show ?thesis by (force simp: waiters_of_def map_get_def pending_def in_map_def)
qed (simp add: waiters_of_def map_get_def)

subsection \<open>Data from lwIP to the connection\<close>

text \<open>
  The events that lwIP's calls for a handle stand for, and those that have reached a connection or
  wait in the tasks.
\<close>

fun lwip_events :: "tcp_handle \<Rightarrow> 'l tcp_input list \<Rightarrow> tcp_event list" where
  "lwip_events h [] = []"
| "lwip_events h (Chunk_in h' d # evs) = (if h' = h then [Receive d] else []) @ lwip_events h evs"
| "lwip_events h (Closed_in h' # evs) = (if h' = h then [RemoteClose] else []) @ lwip_events h evs"
| "lwip_events h (ev # evs) = lwip_events h evs"

fun task_events :: "nat \<Rightarrow> tcp_task list \<Rightarrow> tcp_event list" where
  "task_events c [] = []"
| "task_events c (Deliver h c' d # ts) = (if c' = c then [Receive d] else []) @ task_events c ts"
| "task_events c (FinishClose c' # ts) = (if c' = c then [RemoteClose] else []) @ task_events c ts"
| "task_events c (t # ts) = task_events c ts"

lemma task_events_append [simp]: "task_events c (ts @ ts') = task_events c ts @ task_events c ts'"
  by (induction c ts rule: task_events.induct) auto

lemma lwip_events_append [simp]: "lwip_events h (evs @ evs') = lwip_events h evs @ lwip_events h evs'"
  by (induction h evs rule: lwip_events.induct) auto

definition net_events :: "nat \<Rightarrow> 'l tcp_bindings \<Rightarrow> tcp_event list" where
  "net_events c s = filter from_lwip (events_of c s)"

lemma net_events_feed [simp]:
  "net_events c (feed c' ev s) = net_events c s @ (if c' = c \<and> from_lwip ev then [ev] else [])"
  by (simp add: net_events_def events_of_def feed_def)

lemma net_events_cong: "bd_fed s' = bd_fed s \<Longrightarrow> net_events c s' = net_events c s"
  by (simp add: net_events_def events_of_def)

text \<open>
  While the connection \<open>c\<close> is registered under \<open>h\<close>, every waiting delivery for \<open>c\<close> is one for
  \<open>h\<close>, and no other handle leads to \<open>c\<close>.
\<close>

definition linked :: "tcp_handle \<Rightarrow> nat \<Rightarrow> 'l tcp_bindings \<Rightarrow> bool" where
  "linked h c s \<longleftrightarrow> bd_disposedError s = None \<and> map_get (tcpConnections s) h = Some c \<and>
     c < bd_created s \<and> (\<forall>h'. h' \<noteq> h \<longrightarrow> map_get (tcpConnections s) h' \<noteq> Some c) \<and>
     (\<forall>h' d. Deliver h' c d \<in> set (bd_tasks s) \<longrightarrow> h' = h)"

fun keeps_link :: "tcp_handle \<Rightarrow> 'l tcp_input \<Rightarrow> bool" where
  "keeps_link h (Accept_in lh h') \<longleftrightarrow> h' \<noteq> h"
| "keeps_link h (Connected_in h') \<longleftrightarrow> h' \<noteq> h"
| "keeps_link h (Dispose_all e) \<longleftrightarrow> False"
| "keeps_link h ev \<longleftrightarrow> True"

definition on_its_way :: "nat \<Rightarrow> 'l tcp_bindings \<Rightarrow> tcp_event list" where
  "on_its_way c s = net_events c s @ task_events c (bd_tasks s)"

lemma run_job_fields:
  "tcpConnections (run_job ex j s) = tcpConnections s \<and> bd_created (run_job ex j s) = bd_created s \<and>
   bd_tasks (run_job ex j s) = bd_tasks s \<and> bd_fed (run_job ex j s) = bd_fed s \<and>
   bd_disposedError (run_job ex j s) = bd_disposedError s"
  by (simp add: run_job_def send_round_def close_round_def settle_def Let_def
      split: option.split job_kind.split prod.split)

lemma linked_cong:
  assumes "tcpConnections s' = tcpConnections s" "bd_created s' = bd_created s" "bd_tasks s' = bd_tasks s"
    "bd_fed s' = bd_fed s" "bd_disposedError s' = bd_disposedError s"
  shows "linked h c s' = linked h c s" "on_its_way c s' = on_its_way c s"
  using assms net_events_cong [of s' s] by (simp_all add: linked_def on_its_way_def)

lemma linked_register:
  assumes "linked h c s" "h' \<noteq> h" "\<And>c. task_events c [a (bd_created s)] = []"
    "\<And>h d. Deliver h c d \<noteq> a (bd_created s)"
  shows "linked h c (register_connection h' a s) \<and>
    on_its_way c (register_connection h' a s) = on_its_way c s"
  using assms(1,2) assms(3) [of c] assms(4)
  by (auto simp: linked_def register_connection_def map_get_set on_its_way_def net_events_def events_of_def)

lemma linked_task:
  assumes "linked h c s" "bd_tasks s = t # ts"
  shows "linked h c (run_task t (s\<lparr>bd_tasks := ts\<rparr>)) \<and>
    on_its_way c (run_task t (s\<lparr>bd_tasks := ts\<rparr>)) = on_its_way c s"
  using assms
  by (cases t) (auto simp: linked_def on_its_way_def feed_def net_events_def events_of_def
      set_connected_def split: option.split)

lemma linked_step:
  assumes "linked h c s" "keeps_link h ev"
  shows "linked h c (bindings_step ex ev s) \<and>
    on_its_way c (bindings_step ex ev s) = on_its_way c s @ lwip_events h [ev]"
proof (cases ev)
  case (Accept_in lh h')
  with assms show ?thesis
    by (auto simp: accept_tcp_connection_def linked_register split: option.split)
next
  case (Connected_in h')
  with assms show ?thesis by (simp add: connected_tcp_connection_def linked_register)
next
  case (Closed_in h')
  with assms show ?thesis
    by (cases "h' = h") (auto simp: closed_tcp_connection_def linked_def on_its_way_def net_events_def
        events_of_def split: option.split)
next
  case (Chunk_in h' d)
  with assms show ?thesis
    by (cases "h' = h") (auto simp: receive_tcp_chunk_def linked_def on_its_way_def net_events_def
        events_of_def split: option.split)
next
  case Resume
  show ?thesis
  proof (cases "bd_resumed s")
    case (Cons j js)
    have "linked h c (run_job ex j (s\<lparr>bd_resumed := js\<rparr>)) = linked h c s"
      "on_its_way c (run_job ex j (s\<lparr>bd_resumed := js\<rparr>)) = on_its_way c s"
      by (rule linked_cong; simp add: run_job_fields)+
    with Cons Resume assms show ?thesis by simp
  qed (use Resume assms in simp)
next
  case Task
  with assms linked_task [OF assms(1)] show ?thesis by (cases "bd_tasks s") simp_all
next
  case (User c' ev')
  have "linked h c (feed c' ev' s) = linked h c s" by (simp add: linked_def feed_def)
  moreover have "\<not> from_lwip ev' \<Longrightarrow> on_its_way c (feed c' ev' s) = on_its_way c s"
    by (simp add: on_its_way_def) (simp add: feed_def)
  ultimately show ?thesis using User assms(1) by simp
next
  case (Dispose_all e)
  with assms show ?thesis by simp
next
  case (Write h' data)
  have "linked h c (start_job ex h' k s) = linked h c s" "on_its_way c (start_job ex h' k s) = on_its_way c s" for k
    unfolding start_job_def by (rule linked_cong; simp add: run_job_fields)+
  with Write assms show ?thesis by simp
next
  case (Close_call h')
  have "linked h c (start_job ex h' k s) = linked h c s" "on_its_way c (start_job ex h' k s) = on_its_way c s" for k
    unfolding start_job_def by (rule linked_cong; simp add: run_job_fields)+
  with Close_call assms show ?thesis by simp
next
  case (Close_write h')
  have "linked h c (start_job ex h' k s) = linked h c s" "on_its_way c (start_job ex h' k s) = on_its_way c s" for k
    unfolding start_job_def by (rule linked_cong; simp add: run_job_fields)+
  with Close_write assms show ?thesis by simp
qed (use assms in \<open>auto simp: linked_def on_its_way_def net_events_def events_of_def sent_tcp_chunk_def
    wait_connected_def\<close>)

lemma linked_run:
  assumes "linked h c s" "\<forall>ev\<in>set evs. keeps_link h ev"
  shows "linked h c (fold (bindings_step ex) evs s) \<and>
    on_its_way c (fold (bindings_step ex) evs s) = on_its_way c s @ lwip_events h evs"
  using assms
proof (induction evs arbitrary: s)
  case (Cons ev evs)
  have "keeps_link h ev" using Cons.prems(2) by simp
  note l = linked_step [OF Cons.prems(1) this, of ex]
  have "\<forall>ev\<in>set evs. keeps_link h ev" using Cons.prems(2) by simp
  moreover have "lwip_events h (ev # evs) = lwip_events h [ev] @ lwip_events h evs"
    using lwip_events_append [of h "[ev]" evs] by simp
  ultimately show ?case using Cons.IH [of "bindings_step ex ev s"] l by simp
qed simp

text \<open>No connection has a number that is still to be given.\<close>

fun task_connection :: "tcp_task \<Rightarrow> nat" where
  "task_connection (Announce lh listener c) = c"
| "task_connection (Connected h c) = c"
| "task_connection (Deliver h c d) = c"
| "task_connection (FinishClose c) = c"

definition numbers_ok :: "'l tcp_bindings \<Rightarrow> bool" where
  "numbers_ok s \<longleftrightarrow> map_ok (tcpConnections s) \<and> (\<forall>e\<in>set (tcpConnections s). snd e < bd_created s) \<and>
     (\<forall>t\<in>set (bd_tasks s). task_connection t < bd_created s) \<and>
     (\<forall>e\<in>set (bd_fed s). from_lwip (snd e) \<longrightarrow> fst e < bd_created s)"

lemma numbers_cong:
  assumes "tcpConnections s' = tcpConnections s" "bd_created s' = bd_created s" "bd_tasks s' = bd_tasks s"
    "bd_fed s' = bd_fed s"
  shows "numbers_ok s' = numbers_ok s"
  using assms by (simp add: numbers_ok_def)

lemma numbers_run_job: "numbers_ok (run_job ex j s) = numbers_ok s"
  by (rule numbers_cong) (simp_all add: run_job_fields)

lemma numbers_found:
  "numbers_ok s \<Longrightarrow> map_get (tcpConnections s) h = Some c \<Longrightarrow> c < bd_created s"
  by (force simp: numbers_ok_def map_get_def dest: map_of_SomeD)

lemma numbers_register:
  assumes "numbers_ok s" "task_connection (a (bd_created s)) = bd_created s"
  shows "numbers_ok (register_connection h a s)"
  using assms
  by (simp add: numbers_ok_def register_connection_def map_ok_set set_map_set ball_Un less_Suc_eq)

lemma numbers_new_task:
  "numbers_ok s \<Longrightarrow> task_connection t < bd_created s \<Longrightarrow> numbers_ok (s\<lparr>bd_tasks := bd_tasks s @ [t]\<rparr>)"
  by (simp add: numbers_ok_def)

lemma numbers_task:
  assumes "numbers_ok s" "bd_tasks s = t # ts"
  shows "numbers_ok (run_task t (s\<lparr>bd_tasks := ts\<rparr>))"
  using assms by (cases t) (auto simp: numbers_ok_def feed_def set_connected_def split: option.split)

lemma numbers_step: "numbers_ok s \<Longrightarrow> numbers_ok (bindings_step ex ev s)"
proof (cases ev)
  case (Closed_in h)
  then show "numbers_ok s \<Longrightarrow> ?thesis"
    using numbers_found [of s h]
    by (simp add: closed_tcp_connection_def numbers_new_task split: option.split)
next
  case (Chunk_in h d)
  then show "numbers_ok s \<Longrightarrow> ?thesis"
    using numbers_found [of s h]
    by (simp add: receive_tcp_chunk_def numbers_new_task split: option.split)
next
  case (Dispose_all e)
  then show "numbers_ok s \<Longrightarrow> ?thesis" by (auto simp: dispose_bindings_def Let_def numbers_ok_def)
next
  case Resume
  then show "numbers_ok s \<Longrightarrow> ?thesis"
    by (cases "bd_resumed s") (simp_all add: numbers_run_job, simp add: numbers_ok_def)
next
  case Task
  then show "numbers_ok s \<Longrightarrow> ?thesis" by (cases "bd_tasks s") (simp_all add: numbers_task)
next
  case (User c ev')
  then show "numbers_ok s \<Longrightarrow> ?thesis" by (auto simp: numbers_ok_def feed_def)
next
  case (Accept_in lh h)
  then show "numbers_ok s \<Longrightarrow> ?thesis"
    by (auto simp: accept_tcp_connection_def numbers_register split: option.split)
next
  case (Connected_in h)
  then show "numbers_ok s \<Longrightarrow> ?thesis" by (simp add: connected_tcp_connection_def numbers_register)
next
  case (Write h data)
  then show "numbers_ok s \<Longrightarrow> ?thesis"
    by (simp add: start_job_def numbers_run_job) (simp add: numbers_ok_def)
next
  case (Close_call h)
  then show "numbers_ok s \<Longrightarrow> ?thesis"
    by (simp add: start_job_def numbers_run_job) (simp add: numbers_ok_def)
next
  case (Close_write h)
  then show "numbers_ok s \<Longrightarrow> ?thesis"
    by (simp add: start_job_def numbers_run_job) (simp add: numbers_ok_def)
qed (simp_all add: numbers_ok_def sent_tcp_chunk_def wait_connected_def)

lemma numbers_run: "numbers_ok (bindings_run ex l evs)"
  by (induction evs rule: rev_induct)
     (simp_all add: numbers_step, simp add: bindings_run_def bindings_init_def numbers_ok_def)

lemma new_connection_linked:
  assumes "numbers_ok s" "bd_disposedError s = None"
  shows "linked h (bd_created s) (connected_tcp_connection h s)"
    "on_its_way (bd_created s) (connected_tcp_connection h s) = []"
proof -
  have t: "task_events (bd_created s) ts = []" if "\<forall>t\<in>set ts. task_connection t < bd_created s" for ts
    using that by (induction "bd_created s" ts rule: task_events.induct) auto
  have "map_get (tcpConnections s) h' \<noteq> Some (bd_created s)" for h'
    using numbers_found [OF assms(1)] by blast
  moreover have "Deliver h' (bd_created s) d \<notin> set (bd_tasks s)" for h' d
    using assms(1) by (metis numbers_ok_def task_connection.simps(3) less_irrefl)
  ultimately show "linked h (bd_created s) (connected_tcp_connection h s)"
    using assms(2) by (auto simp: linked_def connected_tcp_connection_def register_connection_def map_get_set)
  have "filter from_lwip (map snd (filter (\<lambda>(c, ev). c = bd_created s) (bd_fed s))) = []"
    using assms(1) by (auto simp: numbers_ok_def filter_empty_conv)
  moreover have "task_events (bd_created s) (bd_tasks s) = []"
    using assms(1) by (intro t) (auto simp: numbers_ok_def)
  ultimately show "on_its_way (bd_created s) (connected_tcp_connection h s) = []"
    using assms(2) by (simp add: on_its_way_def connected_tcp_connection_def register_connection_def
        net_events_def events_of_def)
qed

lemma tasks_run_out:
  "length (bd_tasks s) \<le> n \<Longrightarrow> bd_tasks (fold (bindings_step ex) (replicate n Task) s) = []"
proof (induction n arbitrary: s)
  case (Suc n)
  have "bd_tasks (run_task t (s\<lparr>bd_tasks := ts\<rparr>)) = ts" for t ts
    by (cases t) (simp_all add: feed_def set_connected_def split: option.split)
  then have "length (bd_tasks (bindings_step ex Task s)) \<le> n"
    using Suc.prems by (cases "bd_tasks s") simp_all
  from Suc.IH [OF this] show ?case by simp
qed simp

lemma bindings_run_append:
  "bindings_run ex l (evs @ evs') = fold (bindings_step ex) evs' (bindings_run ex l evs)"
  by (simp add: bindings_run_def)

lemma lwip_events_tasks [simp]: "lwip_events h (replicate n Task) = []"
  by (induction n) auto

subsection \<open>Properties\<close>

text \<open>An lwIP with so many bytes of buffer space, for examples.\<close>

definition example_exports :: "nat tcp_exports" where
  "example_exports = \<lparr>
     send_tcp_chunk = (\<lambda>h data space. (min (length data) space, space - min (length data) space)),
     close_tcp_connection = (\<lambda>h space. (ERR_OK, space)),
     shutdown_tcp_connection_write = (\<lambda>h space. (ERR_OK, space))\<rparr>"

lemma example_takes_at_most: "takes_at_most example_exports"
  by (simp add: takes_at_most_def example_exports_def)





text \<open>C15: lwIP's calls for a connection reach it in the order in which lwIP makes them, none lost
  and none added, however they are interleaved with other handles, writes, closes and the user's
  own calls: as long as the handle is not given to another connection and the stack is not disposed
  of, once the waiting tasks have run, the data and close events of the connection are exactly
  lwIP's calls for its handle.\<close>

theorem tcp_bindings_in_order:
  fixes ex :: "'l tcp_exports" and l :: 'l and evs evs' :: "'l tcp_input list"
  assumes "bd_disposedError (bindings_run ex l evs) = None" "\<forall>ev\<in>set evs'. keeps_link h ev"
  defines "c \<equiv> bd_created (bindings_run ex l evs)"
    and "n \<equiv> length (bd_tasks (bindings_run ex l (evs @ Connected_in h # evs')))"
  shows "filter from_lwip (events_of c (bindings_run ex l (evs @ Connected_in h # evs' @ replicate n Task))) =
    lwip_events h evs'"
proof -
  let ?s0 = "bindings_run ex l evs"
  let ?s1 = "connected_tcp_connection h ?s0"
  let ?s2 = "fold (bindings_step ex) evs' ?s1"
  let ?s3 = "fold (bindings_step ex) (replicate n Task) ?s2"
  note new = new_connection_linked [OF numbers_run assms(1), of h]
  have r: "linked h c ?s2" "on_its_way c ?s2 = lwip_events h evs'"
    using linked_run [OF new(1) assms(2), of ex] new(2) by (simp_all add: c_def)
  have "\<forall>ev\<in>set (replicate n Task). keeps_link h ev" by simp
  from linked_run [OF r(1) this, of ex] r(2) have "on_its_way c ?s3 = lwip_events h evs'" by simp
  moreover have "bd_tasks ?s3 = []"
    by (rule tasks_run_out) (simp add: n_def bindings_run_append)
  ultimately show ?thesis by (simp add: on_its_way_def net_events_def bindings_run_append)
qed

lemma tcp_bindings_in_order_witness:
  "filter from_lwip (events_of 0 (bindings_run example_exports 2
     (Connected_in 7 # [Chunk_in 7 [1], Task, Chunk_in 8 [9], Chunk_in 7 [2], Closed_in 7] @ replicate 3 Task)))
   = [Receive [1], Receive [2], RemoteClose]"
proof -
  let ?evs = "[Chunk_in 7 [1], Task, Chunk_in 8 [9], Chunk_in 7 [2], Closed_in 7] :: nat tcp_input list"
  have n: "length (bd_tasks (bindings_run example_exports 2 (Connected_in 7 # ?evs))) = 3"
    by (simp add: bindings_run_def bindings_init_def connected_tcp_connection_def register_connection_def
        receive_tcp_chunk_def closed_tcp_connection_def set_connected_def)
  have z: "bd_disposedError (bindings_run example_exports 2 []) = None"
    "bd_created (bindings_run example_exports 2 []) = 0"
    by (simp_all add: bindings_run_def bindings_init_def)
  have "\<forall>ev\<in>set ?evs. keeps_link 7 ev" by simp
  from tcp_bindings_in_order [OF z(1) this] show ?thesis by (simp add: n z(2) del: replicate.simps)
qed

text \<open>A write that waits for an acknowledgement is not told that the peer has closed or that
  the connection has failed: lwIP's close hook leaves the waiters alone, so that unless lwIP still
  acknowledges data on that handle or the whole stack is disposed of, the promise of the write is
  never settled, whatever else happens.\<close>

theorem tcp_write_never_settles:
  fixes ex :: "'l tcp_exports"
  assumes "takes_at_most ex" "j \<in> set (waiters_of (tcpAcks (bindings_run ex l evs)) h)"
    "\<forall>ev\<in>set evs'. ev \<noteq> Sent_in h \<and> (\<forall>e. ev \<noteq> Dispose_all e)"
  shows "job_id j \<notin> fst ` set (bd_settled (bindings_run ex l (evs @ Closed_in h # evs')))"
proof -
  let ?s = "bindings_run ex l (evs @ Closed_in h # evs')"
  have "\<forall>ev\<in>set (Closed_in h # evs'). ev \<noteq> Sent_in h \<and> (\<forall>e. ev \<noteq> Dispose_all e)"
    using assms(3) by simp
  from acks_steps [OF acks_run this, of ex l evs ex]
  have "j \<in> set (waiters_of (tcpAcks ?s) h)" using assms(2) by (auto simp: bindings_run_append)
  then have "j \<in># pending ?s" using waiter_pending [of ?s h] by blast
  then have "pending ?s = (pending ?s - {#j#}) + {#j#}" by simp
  then have "image_mset job_id (pending ?s) = image_mset job_id (pending ?s - {#j#}) + {#job_id j#}"
    by (metis image_mset_union image_mset_single)
  then have "image_mset job_id (pending ?s - {#j#}) + {#job_id j#} + mset (map fst (bd_settled ?s)) =
      mset [0..<length (bd_calls ?s)]"
    using jobs_inv_run [OF assms(1), of l "evs @ Closed_in h # evs'"] by (simp add: jobs_inv_def)
  from jobs_inv_ids(3) [OF this] show ?thesis .
qed

lemma tcp_write_never_settles_witness:
  "0 \<notin> fst ` set (bd_settled (bindings_run example_exports 2
     ([Write 7 [1, 2, 3]] @ Closed_in 7 # [Task, Sent_in 8, Resume])))"
proof -
  let ?j = "\<lparr>job_id = 0, job_handle = 7, job_kind = SendJob [1, 2, 3] 2\<rparr>"
  have j: "?j \<in> set (waiters_of (tcpAcks (bindings_run example_exports 2 [Write 7 [1, 2, 3]])) 7)"
    by (simp add: bindings_run_def bindings_init_def start_job_def run_job_def send_round_def
        example_exports_def waitForAck_def waiters_of_def Let_def)
  have "\<forall>ev\<in>set [Task, Sent_in 8, Resume :: nat tcp_input]. ev \<noteq> Sent_in 7 \<and> (\<forall>e. ev \<noteq> Dispose_all e)"
    by simp
  from tcp_write_never_settles [OF example_takes_at_most j this] show ?thesis by simp
qed

text \<open>One write that waits alone, and an acknowledgement for it.\<close>

definition waits_alone :: "tcp_handle \<Rightarrow> nat \<Rightarrow> bytes \<Rightarrow> nat \<Rightarrow> 'l tcp_bindings \<Rightarrow> bool" where
  "waits_alone h i data b s \<longleftrightarrow> bd_disposedError s = None \<and> bd_resumed s = [] \<and> map_ok (tcpAcks s) \<and>
     waiters_of (tcpAcks s) h = [\<lparr>job_id = i, job_handle = h, job_kind = SendJob data b\<rparr>] \<and>
     tcpCloseAcks s = [] \<and> b < length data"

lemma acknowledged:
  assumes "waits_alone h i data b s"
    and ex: "takes_at_most ex" "\<forall>d. d \<noteq> [] \<longrightarrow> 0 < fst (send_tcp_chunk ex h d l)"
  shows "(i, None) \<in> set (bd_settled (fold (bindings_step ex) [Sent_in h, Lwip l, Resume] s)) \<or>
    (\<exists>b'>b. waits_alone h i data b' (fold (bindings_step ex) [Sent_in h, Lwip l, Resume] s))"
proof -
  obtain n l' where c: "send_tcp_chunk ex h (drop b data) l = (n, l')" by fastforce
  have "drop b data \<noteq> []" using assms(1) by (simp add: waits_alone_def)
  with ex(2) have "0 < fst (send_tcp_chunk ex h (drop b data) l)" by blast
  then have n: "0 < n" by (simp add: c)
  let ?s1 = "sent_tcp_chunk h s"
  let ?j = "\<lparr>job_id = i, job_handle = h, job_kind = SendJob data b\<rparr>"
  have s1: "bd_resumed ?s1 = [?j]" "bd_disposedError ?s1 = None" "tcpCloseAcks ?s1 = []"
    "map_ok (tcpAcks ?s1)" "waiters_of (tcpAcks ?s1) h = []"
    using assms(1) by (simp_all add: sent_tcp_chunk_def waits_alone_def waiters_of_def map_ok_delete map_get_delete)
  have step: "fold (bindings_step ex) [Sent_in h, Lwip l, Resume] s = run_job ex ?j (?s1\<lparr>bd_lwip := l, bd_resumed := []\<rparr>)"
    using s1(1) by simp
  show ?thesis
  proof (cases "b + n < length data")
    case True
    have "waits_alone h i data (b + n) (run_job ex ?j (?s1\<lparr>bd_lwip := l, bd_resumed := []\<rparr>))"
      using s1 c True by (simp add: waits_alone_def run_job_def send_round_def Let_def waiters_wait
          waitForAck_def map_ok_set)
         (simp add: waiters_of_def map_get_set)
    with n step show ?thesis by (metis less_add_same_cancel1)
  next
    case False
    then have "(i, None) \<in> set (bd_settled (run_job ex ?j (?s1\<lparr>bd_lwip := l, bd_resumed := []\<rparr>)))"
      using s1 c by (simp add: run_job_def send_round_def Let_def settle_def)
    with step show ?thesis by metis
  qed
qed

lemma settled_run_job: "set (bd_settled s) \<subseteq> set (bd_settled (run_job ex j s))"
  by (auto simp: run_job_def send_round_def close_round_def settle_def Let_def
      split: option.split job_kind.split prod.split)

lemma settled_grows: "set (bd_settled s) \<subseteq> set (bd_settled (fold (bindings_step ex) [Sent_in h, Lwip l, Resume] s))"
  using settled_run_job [of "_\<lparr>bd_resumed := _\<rparr>"]
  by (cases "bd_resumed (sent_tcp_chunk h s)") (fastforce simp: sent_tcp_chunk_def)+

definition acks :: "tcp_handle \<Rightarrow> 'l list \<Rightarrow> 'l tcp_input list" where
  "acks h ls = concat (map (\<lambda>l. [Sent_in h, Lwip l, Resume]) ls)"

lemma acks_complete:
  assumes "takes_at_most ex" "\<forall>l\<in>set ls. \<forall>d. d \<noteq> [] \<longrightarrow> 0 < fst (send_tcp_chunk ex h d l)"
    "waits_alone h i data b s \<and> length data \<le> b + length ls \<or> (i, None) \<in> set (bd_settled s)"
  shows "(i, None) \<in> set (bd_settled (fold (bindings_step ex) (acks h ls) s))"
  using assms
proof (induction ls arbitrary: b s)
  case Nil
  then show ?case by (auto simp: waits_alone_def acks_def)
next
  case (Cons l ls)
  let ?s = "fold (bindings_step ex) [Sent_in h, Lwip l, Resume] s"
  have e: "fold (bindings_step ex) (acks h (l # ls)) s = fold (bindings_step ex) (acks h ls) ?s"
    by (simp add: acks_def)
  have ls: "\<forall>l\<in>set ls. \<forall>d. d \<noteq> [] \<longrightarrow> 0 < fst (send_tcp_chunk ex h d l)" using Cons.prems(2) by simp
  from Cons.prems(3) consider "(i, None) \<in> set (bd_settled ?s)"
    | b' where "b' > b" "waits_alone h i data b' ?s" "length data \<le> b + length (l # ls)"
    using acknowledged [of h i data b s ex l] settled_grows [of s ex h l] Cons.prems(1,2) by auto
  then show ?case
  proof cases
    case 1
    then show ?thesis unfolding e using Cons.IH [OF Cons.prems(1) ls] by blast
  next
    case 2
    have "length data \<le> b' + length ls" using 2(1,3) by simp
    with 2(2) show ?thesis unfolding e using Cons.IH [OF Cons.prems(1) ls] by blast
  qed
qed

text \<open>C33: a write completes: when with every acknowledgement lwIP has room for at least one byte
  more, as many acknowledgements as the data has bytes are enough for the promise of a write to be
  fulfilled, even if lwIP could queue nothing at first.\<close>

theorem tcp_write_completes:
  assumes "takes_at_most ex" "\<forall>l\<in>set ls. \<forall>d. d \<noteq> [] \<longrightarrow> 0 < fst (send_tcp_chunk ex h d l)"
    and "length data \<le> length ls"
  shows "(0, None) \<in> set (bd_settled (bindings_run ex l0 (Write h data # acks h ls)))"
proof -
  obtain n l where c: "send_tcp_chunk ex h data l0 = (n, l)" by fastforce
  let ?s = "start_job ex h (SendJob data 0) (bindings_init l0)"
  have "waits_alone h 0 data n ?s \<or> (0, None) \<in> set (bd_settled ?s)"
    using c by (auto simp: start_job_def run_job_def send_round_def bindings_init_def settle_def
        waits_alone_def waitForAck_def waiters_of_def map_ok_def Let_def)
  moreover have "length data \<le> n + length ls" using assms(3) by simp
  ultimately have "(0, None) \<in> set (bd_settled (fold (bindings_step ex) (acks h ls) ?s))"
    using acks_complete [OF assms(1,2)] by blast
  then show ?thesis by (simp add: bindings_run_def)
qed

lemma tcp_write_completes_witness:
  "(0, None) \<in> set (bd_settled (bindings_run example_exports 0 (Write 7 [1, 2] # acks 7 [1, 1])))"
proof -
  have p: "\<forall>l\<in>set [1, 1 :: nat]. \<forall>d. d \<noteq> [] \<longrightarrow> 0 < fst (send_tcp_chunk example_exports 7 d l)"
    by (simp add: example_exports_def)
  show ?thesis by (rule tcp_write_completes [OF example_takes_at_most p]) simp
qed

end
