(* ===== verification/Tcp_Listener.thy ===== *)
theory Tcp_Listener
  imports JS_Base "HOL-Library.Multiset"
begin

text \<open>
  Listening for TCP connections (class \<open>VirtualTcpListener\<close> of
  \<open>packages/tcpip/src/bindings/tcp.ts\<close>). Accepted connections wait in a list; the async
  iterators of the listener take them, several at a time if there are several. An iterator whose
  \<open>next()\<close> finds no connection adds a callback to \<open>notifyConnections\<close> and goes on when it has
  been called. Connections and iterators are given by numbers.
\<close>

record tcp_listener =
  ls_connections :: "nat list"
  ls_notify :: "nat list"
  ls_woken :: "nat list"
  ls_disposed :: bool
  ls_answers :: "(nat \<times> nat option) list"

definition listener_init :: tcp_listener where
  "listener_init = \<lparr>ls_connections = [], ls_notify = [], ls_woken = [], ls_disposed = False,
     ls_answers = []\<rparr>"

text \<open>Calling the callbacks resolves the promises; their iterators go on in later microtasks.\<close>

definition notify_all :: "tcp_listener \<Rightarrow> tcp_listener" where
  "notify_all l = l\<lparr>ls_woken := ls_woken l @ ls_notify l, ls_notify := []\<rparr>"

definition listener_accept :: "nat \<Rightarrow> tcp_listener \<Rightarrow> tcp_listener" where
  "listener_accept c l = (if ls_disposed l then l
     else notify_all (l\<lparr>ls_connections := ls_connections l @ [c]\<rparr>))"

definition listener_dispose :: "tcp_listener \<Rightarrow> tcp_listener" where
  "listener_dispose l = notify_all (l\<lparr>ls_disposed := True, ls_connections := []\<rparr>)"

text \<open>
  The generator, resumed at its start, after a \<open>yield\<close> or after the \<open>await\<close>: all three lead
  to the test of \<open>#disposed\<close>, then to the next connection, then to the wait. An answer
  \<open>None\<close> is the end of the iteration.
\<close>

definition listener_resume :: "nat \<Rightarrow> tcp_listener \<Rightarrow> tcp_listener" where
  "listener_resume i l = (if ls_disposed l then l\<lparr>ls_answers := ls_answers l @ [(i, None)]\<rparr>
     else case ls_connections l of
       c # cs \<Rightarrow> l\<lparr>ls_connections := cs, ls_answers := ls_answers l @ [(i, Some c)]\<rparr>
     | [] \<Rightarrow> l\<lparr>ls_notify := ls_notify l @ [i]\<rparr>)"

datatype listener_event = Accept nat | Next nat | Wake | Close_listener

fun listener_step :: "listener_event \<Rightarrow> tcp_listener \<Rightarrow> tcp_listener" where
  "listener_step (Accept c) l = listener_accept c l"
| "listener_step (Next i) l = listener_resume i l"
| "listener_step Wake l = (case ls_woken l of
     [] \<Rightarrow> l
   | i # is \<Rightarrow> listener_resume i (l\<lparr>ls_woken := is\<rparr>))"
| "listener_step Close_listener l = listener_dispose l"

definition listener_run :: "listener_event list \<Rightarrow> tcp_listener" where
  "listener_run evs = fold listener_step evs listener_init"

fun accepted :: "listener_event list \<Rightarrow> nat list" where
  "accepted [] = []"
| "accepted (Accept c # evs) = c # accepted evs"
| "accepted (ev # evs) = accepted evs"

fun nexts :: "listener_event list \<Rightarrow> nat list" where
  "nexts [] = []"
| "nexts (Next i # evs) = i # nexts evs"
| "nexts (ev # evs) = nexts evs"

definition taken :: "(nat \<times> nat option) list \<Rightarrow> nat list" where
  "taken as = List.map_filter snd as"

abbreviation given :: "tcp_listener \<Rightarrow> nat list" where
  "given l \<equiv> taken (ls_answers l)"

subsection \<open>Invariant\<close>

text \<open>
  Until the listener is disposed of, the connections given out and those still waiting are the
  accepted ones in order; every iterator that has asked is answered, waiting or woken; an iterator
  waits only when there is no connection, or another iterator is on its way to it.
\<close>

definition listener_inv :: "listener_event list \<Rightarrow> tcp_listener \<Rightarrow> bool" where
  "listener_inv evs l \<longleftrightarrow>
     (if ls_disposed l then Close_listener \<in> set evs \<and> ls_connections l = [] \<and> ls_notify l = []
        \<and> prefix (given l) (accepted evs)
      else Close_listener \<notin> set evs \<and> accepted evs = given l @ ls_connections l
        \<and> length (given l) = length (ls_answers l)) \<and>
     mset (nexts evs) = mset (map fst (ls_answers l)) + mset (ls_notify l) + mset (ls_woken l) \<and>
     (ls_notify l \<noteq> [] \<longrightarrow> length (ls_connections l) \<le> length (ls_woken l))"

lemma taken_append [simp]:
  "taken [] = []" "taken (as @ [(i, Some c)]) = taken as @ [c]" "taken (as @ [(i, None)]) = taken as"
  by (simp_all add: taken_def List.map_filter_def)

lemma accepted_append [simp]: "accepted (evs @ evs') = accepted evs @ accepted evs'"
  by (induction evs rule: accepted.induct) auto

lemma nexts_append [simp]: "nexts (evs @ evs') = nexts evs @ nexts evs'"
  by (induction evs rule: nexts.induct) auto

lemma prefix_snoc: "prefix xs ys \<Longrightarrow> prefix xs (ys @ zs)"
  by (auto simp: prefix_def)

lemma inv_step: "listener_inv evs l \<Longrightarrow> listener_inv (evs @ [ev]) (listener_step ev l)"
proof (cases ev)
  case (Accept c)
  then show "listener_inv evs l \<Longrightarrow> ?thesis"
    by (auto simp: listener_inv_def listener_accept_def notify_all_def intro: prefix_snoc)
next
  case (Next i)
  then show "listener_inv evs l \<Longrightarrow> ?thesis"
    by (auto simp: listener_inv_def listener_resume_def split: list.splits)
next
  case Wake
  then show "listener_inv evs l \<Longrightarrow> ?thesis"
    by (auto simp: listener_inv_def listener_resume_def split: list.splits)
next
  case Close_listener
  then show "listener_inv evs l \<Longrightarrow> ?thesis"
    by (auto simp: listener_inv_def listener_dispose_def notify_all_def split: if_splits)
qed

lemma listener_run_snoc [simp]: "listener_run (evs @ [ev]) = listener_step ev (listener_run evs)"
  by (simp add: listener_run_def)

lemma inv_run: "listener_inv evs (listener_run evs)"
proof (induction evs rule: rev_induct)
  case Nil
  show ?case by (simp add: listener_run_def listener_init_def listener_inv_def)
next
  case (snoc ev evs)
  then show ?case by (simp add: inv_step)
qed

text \<open>Every woken iterator runs once, and wakes no other.\<close>

lemma wake_all:
  "length (ls_woken (listener_run evs)) \<le> n \<Longrightarrow> ls_woken (listener_run (evs @ replicate n Wake)) = []"
proof (induction n arbitrary: evs)
  case (Suc n)
  have "length (ls_woken (listener_run (evs @ [Wake]))) \<le> n"
    using Suc.prems by (auto simp: listener_resume_def split: list.split)
  from Suc.IH [OF this] show ?case by simp
qed simp

lemma replicate_Wake [simp]: "accepted (replicate n Wake) = []" "nexts (replicate n Wake) = []"
  "Close_listener \<notin> set (replicate n Wake)"
  by (induction n) auto

subsection \<open>Properties\<close>

text \<open>C39: a listener hands out the accepted connections in order, each once, and keeps no
  iterator waiting beside a connection: once the woken iterators have run, as many connections have
  been given out as were accepted or asked for, whichever is less. After the listener has been
  disposed of, nothing waits and no iterator is left hanging.\<close>

theorem tcp_listener_serves:
  fixes evs :: "listener_event list"
  defines "l \<equiv> listener_run (evs @ replicate (length (ls_woken (listener_run evs))) Wake)"
  shows "if Close_listener \<in> set evs
    then prefix (given l) (accepted evs) \<and> ls_connections l = [] \<and> length (ls_answers l) = length (nexts evs)
    else given l = take (length (nexts evs)) (accepted evs) \<and>
      ls_connections l = drop (length (nexts evs)) (accepted evs)"
proof -
  define evs' where "evs' = evs @ replicate (length (ls_woken (listener_run evs))) Wake"
  have w: "ls_woken l = []" unfolding l_def by (rule wake_all) simp
  have e: "accepted evs' = accepted evs" "nexts evs' = nexts evs"
    "Close_listener \<in> set evs' \<longleftrightarrow> Close_listener \<in> set evs"
    by (auto simp: evs'_def)
  have "listener_inv evs' l" unfolding l_def evs'_def by (rule inv_run)
  then have i: "if ls_disposed l then Close_listener \<in> set evs \<and> ls_connections l = [] \<and> ls_notify l = []
      \<and> prefix (given l) (accepted evs)
    else Close_listener \<notin> set evs \<and> accepted evs = given l @ ls_connections l
      \<and> length (given l) = length (ls_answers l)"
    "mset (nexts evs) = mset (map fst (ls_answers l)) + mset (ls_notify l)"
    "ls_notify l \<noteq> [] \<longrightarrow> ls_connections l = []"
    using w by (auto simp: listener_inv_def e split: if_splits)
  from arg_cong [OF i(2), of size]
  have n: "length (nexts evs) = length (ls_answers l) + length (ls_notify l)" by simp
  show ?thesis
  proof (cases "ls_disposed l")
    case True
    with i n show ?thesis by simp
  next
    case False
    with i n show ?thesis by (cases "ls_notify l") auto
  qed
qed

end
