(* ===== verification/Net_Interface.thy ===== *)
theory Net_Interface
  imports Ip_Routes Net_Errors
begin

text \<open>
  The addresses of network interfaces (\<open>packages/tcpip/src/bindings/network-interface.ts\<close>). An
  interface keeps its addresses and, for the networks they are in, the connected routes with the
  number of addresses each serves; lwIP has its own copy of the addresses. The state is that of all
  interfaces with the routing table and lwIP, whose exported functions are arguments. An operation
  returns its result, an error or nothing, with the state it leaves.
\<close>

subsection \<open>State\<close>

record address_state =
  as_cidr :: jstring
  as_family :: address_family
  as_bytes :: bytes
  connectedNetwork :: jstring

record 'i connected_route =
  cr_handle :: "'i route_handle"
  cr_references :: nat

record 'i interface_state =
  if_handle :: nat
  if_addresses :: "(jstring, address_state) js_map"
  connectedRoutes :: "(jstring, 'i connected_route) js_map"
  if_detached :: bool

text \<open>What \<open>setRouterAdvertisements\<close> hands to lwIP: four arrays and their length.\<close>

record advertisement_table =
  at_prefixes :: bytes
  at_validLifetimes :: bytes
  at_preferredLifetimes :: bytes
  at_initialOnly :: bytes
  at_count :: nat

record 'l netif_exports =
  get_interface_mtu :: "nat \<Rightarrow> 'l \<Rightarrow> int"
  set_interface_mtu :: "nat \<Rightarrow> int \<Rightarrow> 'l \<Rightarrow> int \<times> 'l"
  set_interface_ip4_address :: "nat \<Rightarrow> bytes \<Rightarrow> nat \<Rightarrow> 'l \<Rightarrow> int \<times> 'l"
  clear_interface_ip4_address :: "nat \<Rightarrow> 'l \<Rightarrow> 'l"
  add_interface_ip6_address :: "nat \<Rightarrow> bytes \<Rightarrow> 'l \<Rightarrow> int \<times> 'l"
  remove_interface_ip6_address :: "nat \<Rightarrow> bytes \<Rightarrow> 'l \<Rightarrow> int \<times> 'l"
  set_interface_router_advertisements :: "nat \<Rightarrow> advertisement_table option \<Rightarrow> 'l \<Rightarrow> int \<times> 'l"

record ('i, 'l) net_state =
  ns_states :: "('i, 'i interface_state) js_map"
  ns_routes :: "'i route_table"
  ns_lwip :: 'l

definition net_init :: "'l \<Rightarrow> ('i, 'l) net_state" where
  "net_init l = \<lparr>ns_states = [], ns_routes = table_init, ns_lwip = l\<rparr>"

definition getState :: "'i \<Rightarrow> ('i, 'l) net_state \<Rightarrow> 'i interface_state res" where
  "getState i s = (case map_get (ns_states s) i of
     None \<Rightarrow> throw ''network interface is not attached'' | Some st \<Rightarrow> Inr st)"

definition getAttachedState :: "'i \<Rightarrow> ('i, 'l) net_state \<Rightarrow> 'i interface_state res" where
  "getAttachedState i s = bnd (getState i s) (\<lambda>st.
     if if_detached st then throw ''network interface has been removed'' else Inr st)"

definition set_state :: "'i \<Rightarrow> 'i interface_state \<Rightarrow> ('i, 'l) net_state \<Rightarrow> ('i, 'l) net_state" where
  "set_state i st s = s\<lparr>ns_states := map_set i st (ns_states s)\<rparr>"

subsection \<open>Connected routes\<close>

text \<open>
  The argument \<open>v\<close> is the routing table's validation of interfaces. An error of \<open>add\<close> leaves
  everything as it was.
\<close>

definition acquireConnectedRoute :: "('i \<Rightarrow> unit res) \<Rightarrow> 'i \<Rightarrow> jstring \<Rightarrow>
    'i interface_state \<times> 'i route_table \<Rightarrow> ('i interface_state \<times> 'i route_table) res" where
  "acquireConnectedRoute v i network p = (case p of (st, t) \<Rightarrow>
     case map_get (connectedRoutes st) network of
       Some r \<Rightarrow> Inr (st\<lparr>connectedRoutes := map_set network
         (r\<lparr>cr_references := cr_references r + 1\<rparr>) (connectedRoutes st)\<rparr>, t)
     | None \<Rightarrow> bnd (add_route v \<lparr>sp_destination = network, sp_via = i, sp_metric = None,
           sp_source = Some Connected\<rparr> t) (\<lambda>(h, t').
         Inr (st\<lparr>connectedRoutes := map_set network \<lparr>cr_handle = h, cr_references = 1\<rparr>
           (connectedRoutes st)\<rparr>, t')))"

definition releaseConnectedRoute :: "jstring \<Rightarrow> 'i interface_state \<times> 'i route_table \<Rightarrow>
    'i interface_state \<times> 'i route_table" where
  "releaseConnectedRoute network p = (case p of (st, t) \<Rightarrow>
     case map_get (connectedRoutes st) network of
       None \<Rightarrow> (st, t)
     | Some r \<Rightarrow>
         if 0 < cr_references r - 1
         then (st\<lparr>connectedRoutes := map_set network
           (r\<lparr>cr_references := cr_references r - 1\<rparr>) (connectedRoutes st)\<rparr>, t)
         else (st\<lparr>connectedRoutes := map_delete network (connectedRoutes st)\<rparr>,
           snd (dispose_route (cr_handle r) t)))"

definition address_entry :: "parsed_cidr \<Rightarrow> address_state" where
  "address_entry p = \<lparr>as_cidr = pc_canonical p, as_family = pa_family p, as_bytes = pa_bytes p,
     connectedNetwork = pc_network p\<rparr>"

definition with_address :: "parsed_cidr \<Rightarrow> 'i interface_state \<Rightarrow> 'i interface_state" where
  "with_address p st =
     st\<lparr>if_addresses := map_set (pc_canonical p) (address_entry p) (if_addresses st)\<rparr>"

subsection \<open>Attaching and detaching\<close>

fun attach_loop :: "('i \<Rightarrow> unit res) \<Rightarrow> 'i \<Rightarrow> jstring list \<Rightarrow>
    'i interface_state \<times> 'i route_table \<Rightarrow> unit res \<times> 'i interface_state \<times> 'i route_table" where
  "attach_loop v i [] p = (Inr (), p)"
| "attach_loop v i (cidr # cidrs) (st, t) = (case parseInterfaceCidr cidr of
     Inl e \<Rightarrow> (Inl e, st, t)
   | Inr parsed \<Rightarrow> (case acquireConnectedRoute v i (pc_network parsed) (with_address parsed st, t) of
         Inl e \<Rightarrow> (Inl e, with_address parsed st, t)
       | Inr p \<Rightarrow> attach_loop v i cidrs p))"

definition attach :: "('i \<Rightarrow> unit res) \<Rightarrow> 'i \<Rightarrow> nat \<Rightarrow> jstring list \<Rightarrow> ('i, 'l) net_state \<Rightarrow>
    unit res \<times> ('i, 'l) net_state" where
  "attach v i h cidrs s =
     (if map_get (ns_states s) i \<noteq> None then (throw ''network interface is already attached'', s)
      else let (r, st, t) = attach_loop v i cidrs
          (\<lparr>if_handle = h, if_addresses = [], connectedRoutes = [], if_detached = False\<rparr>, ns_routes s)
        in (r, set_state i st (s\<lparr>ns_routes := t\<rparr>)))"

definition detach :: "'l netif_exports \<Rightarrow> 'i \<Rightarrow> bool \<Rightarrow> ('i, 'l) net_state \<Rightarrow>
    unit res \<times> ('i, 'l) net_state" where
  "detach ex i terminal s = (case map_get (ns_states s) i of
     None \<Rightarrow> (if terminal then Inr () else throw ''network interface is not attached'', s)
   | Some st \<Rightarrow>
       if if_detached st then (Inr (), s)
       else let l = (if terminal then ns_lwip s
           else snd (set_interface_router_advertisements ex (if_handle st) None (ns_lwip s)))
         in (Inr (), set_state i (st\<lparr>if_detached := True, connectedRoutes := [], if_addresses := []\<rparr>)
           (s\<lparr>ns_routes := fold (\<lambda>r t. snd (dispose_route (cr_handle r) t))
               (map snd (connectedRoutes st)) (ns_routes s), ns_lwip := l\<rparr>)))"

subsection \<open>Adding and removing addresses\<close>

definition removeAddressFromWasm :: "'l netif_exports \<Rightarrow> nat \<Rightarrow> address_family \<Rightarrow> bytes \<Rightarrow> 'l \<Rightarrow>
    unit res \<times> 'l" where
  "removeAddressFromWasm ex h family bytes l =
     (if family = Family4 then (Inr (), clear_interface_ip4_address ex h l)
      else let (result, l') = remove_interface_ip6_address ex h bytes l in
        (if result \<noteq> 0 then bnd (formatAddress family bytes) (\<lambda>text.
             Inl (Error (lit ''failed to remove interface address '' @ text @ lit '': '' @ number_text result)))
         else Inr (), l'))"

definition has_family :: "address_family \<Rightarrow> 'i interface_state \<Rightarrow> bool" where
  "has_family f st \<longleftrightarrow> list_ex (\<lambda>(c, a). as_family a = f) (if_addresses st)"

definition addAddress :: "'l netif_exports \<Rightarrow> ('i \<Rightarrow> unit res) \<Rightarrow> 'i \<Rightarrow> jstring \<Rightarrow> ('i, 'l) net_state \<Rightarrow>
    unit res \<times> ('i, 'l) net_state" where
  "addAddress ex v i cidr s =
     (case bnd (getAttachedState i s) (\<lambda>st. bnd (parseInterfaceCidr cidr) (\<lambda>parsed. Inr (st, parsed))) of
        Inl e \<Rightarrow> (Inl e, s)
      | Inr (st, parsed) \<Rightarrow>
          if map_get (if_addresses st) (pc_canonical parsed) \<noteq> None then (Inr (), s)
          else if pa_family parsed = Family4 \<and> has_family Family4 st
          then (throw ''an IPv4 address is already configured'', s)
          else if pa_family parsed = Family6 \<and> get_interface_mtu ex (if_handle st) (ns_lwip s) < 1280
          then (throw ''IPv6 interfaces require an MTU of at least 1280'', s)
          else let (result, l) = (if pa_family parsed = Family4
              then set_interface_ip4_address ex (if_handle st) (pa_bytes parsed) (pc_prefixLength parsed) (ns_lwip s)
              else add_interface_ip6_address ex (if_handle st) (pa_bytes parsed) (ns_lwip s)) in
            if result \<noteq> 0
            then (Inl (Error (lit ''failed to add interface address: '' @ number_text result)), s\<lparr>ns_lwip := l\<rparr>)
            else (case acquireConnectedRoute v i (pc_network parsed) (st, ns_routes s) of
                Inr (st', t) \<Rightarrow> (Inr (), set_state i (with_address parsed st') (s\<lparr>ns_routes := t, ns_lwip := l\<rparr>))
              | Inl e \<Rightarrow> let (r, l') = removeAddressFromWasm ex (if_handle st) (pa_family parsed) (pa_bytes parsed) l
                  in (case r of Inl e' \<Rightarrow> Inl e' | Inr _ \<Rightarrow> Inl e, s\<lparr>ns_lwip := l'\<rparr>)))"

definition removeAddress :: "'l netif_exports \<Rightarrow> 'i \<Rightarrow> jstring \<Rightarrow> ('i, 'l) net_state \<Rightarrow>
    unit res \<times> ('i, 'l) net_state" where
  "removeAddress ex i cidr s =
     (case bnd (getAttachedState i s) (\<lambda>st. bnd (parseInterfaceCidr cidr) (\<lambda>parsed. Inr (st, parsed))) of
        Inl e \<Rightarrow> (Inl e, s)
      | Inr (st, parsed) \<Rightarrow> (case map_get (if_addresses st) (pc_canonical parsed) of
          None \<Rightarrow> (Inr (), s)
        | Some address \<Rightarrow>
            let (r, l) = removeAddressFromWasm ex (if_handle st) (as_family address) (as_bytes address) (ns_lwip s) in
            (case r of
               Inl e \<Rightarrow> (Inl e, s\<lparr>ns_lwip := l\<rparr>)
             | Inr _ \<Rightarrow> let (st', t) = releaseConnectedRoute (connectedNetwork address) (st, ns_routes s) in
                 (Inr (), set_state i (st'\<lparr>if_addresses := map_delete (pc_canonical parsed) (if_addresses st')\<rparr>)
                    (s\<lparr>ns_routes := t, ns_lwip := l\<rparr>)))))"

text \<open>The MTU is a number as in the routing table's metric: whole, or anything else.\<close>

definition setMtu :: "'l netif_exports \<Rightarrow> 'i \<Rightarrow> metric_number \<Rightarrow> ('i, 'l) net_state \<Rightarrow>
    unit res \<times> ('i, 'l) net_state" where
  "setMtu ex i mtu s = (case getAttachedState i s of
     Inl e \<Rightarrow> (Inl e, s)
   | Inr st \<Rightarrow>
       if \<not> isSafeInteger mtu \<or> metric_value mtu < 68 \<or> metric_value mtu > 65535
       then (throw ''interface MTU must be an integer from 68 through 65535'', s)
       else if metric_value mtu < 1280 \<and> has_family Family6 st
       then (throw ''IPv6 interfaces require an MTU of at least 1280'', s)
       else let (result, l) = set_interface_mtu ex (if_handle st) (metric_value mtu) (ns_lwip s) in
         (if result \<noteq> 0 then Inl (Error (lit ''failed to set interface MTU: '' @ number_text result))
          else Inr (), s\<lparr>ns_lwip := l\<rparr>))"

subsection \<open>Router advertisements\<close>

record advertised_prefix =
  ap_prefix :: jstring
  ap_validLifetime :: "metric_number option"
  ap_preferredLifetime :: "metric_number option"
  ap_initialOnly :: "bool option"

datatype advertisement_options = Prefixes "advertised_prefix list" | Single_prefix jstring

definition configured_prefixes :: "advertisement_options \<Rightarrow> advertised_prefix list" where
  "configured_prefixes options = (case options of
     Prefixes ps \<Rightarrow> ps
   | Single_prefix p \<Rightarrow> [\<lparr>ap_prefix = p, ap_validLifetime = None, ap_preferredLifetime = None,
       ap_initialOnly = None\<rparr>])"

definition isUint32 :: "metric_number \<Rightarrow> bool" where
  "isUint32 value \<longleftrightarrow> isSafeInteger value \<and> 0 \<le> metric_value value \<and> metric_value value \<le> 4294967295"

text \<open>\<open>view.setUint32(index, value, true)\<close>\<close>

definition setUint32_le :: "nat \<Rightarrow> int \<Rightarrow> bytes \<Rightarrow> bytes res" where
  "setUint32_le i x buf = (if i + 4 \<le> length buf
     then Inr (buf[i := of_int x, i + 1 := of_int (x div 256), i + 2 := of_int (x div 65536),
       i + 3 := of_int (x div 16777216)])
     else Inl RangeError)"

fun encode_prefixes :: "nat \<Rightarrow> jstring list \<Rightarrow> advertised_prefix list \<Rightarrow> advertisement_table \<Rightarrow>
    advertisement_table res" where
  "encode_prefixes index seen [] tab = Inr tab"
| "encode_prefixes index seen (entry # entries) tab =
     bnd (parseCidr (ap_prefix entry)) (\<lambda>prefix.
     if pa_family prefix \<noteq> Family6 \<or> pc_prefixLength prefix \<noteq> 64
     then throw ''router advertisements require canonical IPv6 /64 prefixes''
     else if pc_canonical prefix \<in> set seen
     then Inl (Error (lit ''router advertisement prefix already exists: '' @ pc_canonical prefix))
     else
       let valid = (case ap_validLifetime entry of Some n \<Rightarrow> n | None \<Rightarrow> Whole 86400);
           preferred = (case ap_preferredLifetime entry of Some n \<Rightarrow> n | None \<Rightarrow> Whole 14400) in
       if \<not> isUint32 valid \<or> \<not> isUint32 preferred \<or> metric_value preferred > metric_value valid
       then throw ''router advertisement lifetimes must be uint32 seconds with preferred <= valid''
       else
         bnd (setBytes (index * 16) (Inr (pa_bytes prefix)) (at_prefixes tab)) (\<lambda>prefixes.
         bnd (setUint32_le (index * 4) (metric_value valid) (at_validLifetimes tab)) (\<lambda>valids.
         bnd (setUint32_le (index * 4) (metric_value preferred) (at_preferredLifetimes tab)) (\<lambda>preferreds.
           encode_prefixes (index + 1) (pc_canonical prefix # seen) entries
             (tab\<lparr>at_prefixes := prefixes, at_validLifetimes := valids, at_preferredLifetimes := preferreds,
               at_initialOnly := (at_initialOnly tab)[index := (if ap_initialOnly entry = Some True then 1 else 0)]\<rparr>)))))"

definition empty_table :: "nat \<Rightarrow> advertisement_table" where
  "empty_table n = \<lparr>at_prefixes = replicate (n * 16) 0, at_validLifetimes = replicate (n * 4) 0,
     at_preferredLifetimes = replicate (n * 4) 0, at_initialOnly = replicate n 0, at_count = n\<rparr>"

definition setRouterAdvertisements :: "'l netif_exports \<Rightarrow> 'i \<Rightarrow> advertisement_options option \<Rightarrow>
    ('i, 'l) net_state \<Rightarrow> unit res \<times> ('i, 'l) net_state" where
  "setRouterAdvertisements ex i options s = (case getAttachedState i s of
     Inl e \<Rightarrow> (Inl e, s)
   | Inr st \<Rightarrow> (case options of
       None \<Rightarrow> let (result, l) = set_interface_router_advertisements ex (if_handle st) None (ns_lwip s) in
         (if result \<noteq> 0
          then Inl (Error (lit ''failed to disable router advertisements: '' @ number_text result))
          else Inr (), s\<lparr>ns_lwip := l\<rparr>)
     | Some opts \<Rightarrow>
         if get_interface_mtu ex (if_handle st) (ns_lwip s) < 1280
         then (throw ''IPv6 interfaces require an MTU of at least 1280'', s)
         else let configured = configured_prefixes opts; n = length configured in
           if n = 0 \<or> n > 8
           then (throw ''router advertisements require from 1 through 8 prefixes'', s)
           else (case encode_prefixes 0 [] configured (empty_table n) of
               Inl e \<Rightarrow> (Inl e, s)
             | Inr tab \<Rightarrow>
                 let (result, l) = set_interface_router_advertisements ex (if_handle st) (Some tab) (ns_lwip s) in
                 (if result \<noteq> 0
                  then Inl (Error (lit ''failed to enable router advertisements: '' @ number_text result))
                  else Inr (), s\<lparr>ns_lwip := l\<rparr>))))"

subsection \<open>The invariant\<close>

text \<open>
  Each connected route of an attached interface is installed, and counts the addresses in its
  network. The table's own invariant (\<open>route_inv\<close>) is taken with the handles that users have from
  \<open>add\<close>; none of them is the handle of a connected route.
\<close>

definition served_by :: "jstring \<Rightarrow> 'i interface_state \<Rightarrow> nat" where
  "served_by n st = length (filter (\<lambda>(c, a). connectedNetwork a = n) (if_addresses st))"

definition references :: "jstring \<Rightarrow> 'i interface_state \<Rightarrow> nat" where
  "references n st = (case map_get (connectedRoutes st) n of None \<Rightarrow> 0 | Some r \<Rightarrow> cr_references r)"

definition link_ok :: "'i route_table \<Rightarrow> 'i \<Rightarrow> jstring \<times> 'i connected_route \<Rightarrow> bool" where
  "link_ok t i e \<longleftrightarrow> (case e of (n, r) \<Rightarrow> 0 < cr_references r \<and> rh_installed (cr_handle r) \<and>
     rh_route (cr_handle r) \<in> set (tb_routes t) \<and> rt_via (rh_route (cr_handle r)) = i \<and>
     rt_destination (rh_route (cr_handle r)) = n \<and> rt_source (rh_route (cr_handle r)) = Connected)"

definition entry_ok :: "jstring \<times> address_state \<Rightarrow> bool" where
  "entry_ok e \<longleftrightarrow> (\<exists>p. parseInterfaceCidr (fst e) = Inr p \<and> pc_canonical p = fst e \<and> snd e = address_entry p)"

definition routes_ok :: "'i route_table \<Rightarrow> 'i \<Rightarrow> 'i interface_state \<Rightarrow> bool" where
  "routes_ok t i st \<longleftrightarrow> map_ok (connectedRoutes st) \<and> (\<forall>e\<in>set (connectedRoutes st). link_ok t i e)"

definition state_ok :: "'i route_table \<Rightarrow> 'i \<Rightarrow> 'i interface_state \<Rightarrow> bool" where
  "state_ok t i st \<longleftrightarrow> map_ok (if_addresses st) \<and> (\<forall>e\<in>set (if_addresses st). entry_ok e) \<and> routes_ok t i st \<and>
     (\<forall>n. references n st = served_by n st) \<and> (if_detached st \<longrightarrow> if_addresses st = [] \<and> connectedRoutes st = [])"

definition order_of :: "'i route_handle \<Rightarrow> nat" where
  "order_of h = rt_order (rh_route h)"

definition foreign :: "'i route_handle list \<Rightarrow> 'i interface_state \<Rightarrow> bool" where
  "foreign hs st \<longleftrightarrow> (\<forall>e\<in>set (connectedRoutes st). \<forall>h\<in>set hs. order_of h \<noteq> order_of (cr_handle (snd e)))"

definition net_inv :: "('i, 'l) net_state \<times> 'i route_handle list \<Rightarrow> bool" where
  "net_inv w \<longleftrightarrow> (case w of (s, hs) \<Rightarrow> route_inv (ns_routes s, hs) \<and> map_ok (ns_states s) \<and>
     (\<forall>e\<in>set (ns_states s). state_ok (ns_routes s) (fst e) (snd e) \<and> foreign hs (snd e)))"

lemma route_inv_fewer:
  assumes "route_inv (t, hs @ hs')"
  shows "route_inv (t, hs)"
  using assms by (auto simp: route_inv_def)

lemma route_inv_order: "route_inv (t, hs) \<Longrightarrow> r \<in> set (tb_routes t) \<Longrightarrow> r' \<in> set (tb_routes t) \<Longrightarrow>
   rt_order r = rt_order r' \<Longrightarrow> r = r'"
  by (auto simp: route_inv_def distinct_map dest: inj_onD)

lemma link_ok_more: "link_ok t i e \<Longrightarrow> set (tb_routes t) \<subseteq> set (tb_routes t') \<Longrightarrow> link_ok t' i e"
  by (auto simp: link_ok_def split: prod.splits)

lemma routes_ok_more: "routes_ok t i st \<Longrightarrow> set (tb_routes t) \<subseteq> set (tb_routes t') \<Longrightarrow> routes_ok t' i st"
  using link_ok_more by (fastforce simp: routes_ok_def)

lemma references_set [simp]:
  "references n (st\<lparr>connectedRoutes := map_set m r (connectedRoutes st)\<rparr>) =
     (if n = m then cr_references r else references n st)"
  by (simp add: references_def map_get_set)

lemma references_delete:
  "map_ok (connectedRoutes st) \<Longrightarrow> references n (st\<lparr>connectedRoutes := map_delete m (connectedRoutes st)\<rparr>) =
     (if n = m then 0 else references n st)"
  by (simp add: references_def map_get_delete)

lemma served_by_routes [simp]: "served_by n (st\<lparr>connectedRoutes := m\<rparr>) = served_by n st"
  by (simp add: served_by_def)

lemma references_addresses [simp]: "references n (st\<lparr>if_addresses := m\<rparr>) = references n st"
  by (simp add: references_def)

subsection \<open>Acquiring and releasing a connected route\<close>

definition connected_spec :: "'i \<Rightarrow> jstring \<Rightarrow> 'i route_spec" where
  "connected_spec i n = \<lparr>sp_destination = n, sp_via = i, sp_metric = None, sp_source = Some Connected\<rparr>"

lemma add_connected:
  assumes "parseInterfaceCidr cidr = Inr p" "add_route v (connected_spec i (pc_network p)) t = Inr (h, t')"
  shows "rh_installed h \<and> rt_via (rh_route h) = i \<and> rt_destination (rh_route h) = pc_network p \<and>
    rt_source (rh_route h) = Connected \<and> rt_order (rh_route h) = tb_nextOrder t \<and>
    tb_routes t' = tb_routes t @ [rh_route h] \<and> tb_nextOrder t' = tb_nextOrder t + 1"
proof -
  obtain q where q: "parseCidr (pc_network p) = Inr q" "pc_canonical q = pc_network p"
    using parseCidr_network [OF assms(1)] by blast
  with assms(2) show ?thesis
    by (auto simp: add_route_Inr Let_def connected_spec_def new_route_def)
qed

lemma acquire_cases:
  assumes "acquireConnectedRoute v i n (st, t) = Inr (st', t')"
  obtains (old) r where "map_get (connectedRoutes st) n = Some r" "t' = t"
      "st' = st\<lparr>connectedRoutes := map_set n (r\<lparr>cr_references := cr_references r + 1\<rparr>) (connectedRoutes st)\<rparr>"
    | (new) h where "map_get (connectedRoutes st) n = None" "add_route v (connected_spec i n) t = Inr (h, t')"
      "st' = st\<lparr>connectedRoutes := map_set n \<lparr>cr_handle = h, cr_references = 1\<rparr> (connectedRoutes st)\<rparr>"
  using assms
  by (auto simp: acquireConnectedRoute_def connected_spec_def res_simps split: option.splits)

lemma acquire_ok:
  assumes inv: "route_inv (t, hs)" and ok: "routes_ok t i st" "foreign hs st"
    and p: "parseInterfaceCidr cidr = Inr p"
    and a: "acquireConnectedRoute v i (pc_network p) (st, t) = Inr (st', t')"
  shows "route_inv (t', hs) \<and> set (tb_routes t) \<subseteq> set (tb_routes t') \<and> routes_ok t' i st' \<and> foreign hs st' \<and>
    if_addresses st' = if_addresses st \<and> if_detached st' = if_detached st \<and>
    (\<forall>n. references n st' = references n st + (if n = pc_network p then 1 else 0))"
  using a
proof (cases rule: acquire_cases)
  case (old r)
  have r: "(pc_network p, r) \<in> set (connectedRoutes st)" "map_ok (connectedRoutes st)"
    using old(1) ok(1) by (simp_all add: routes_ok_def map_get_in_set)
  then have "link_ok t i (pc_network p, r)" using ok(1) by (simp add: routes_ok_def)
  then have "link_ok t i (pc_network p, r\<lparr>cr_references := cr_references r + 1\<rparr>)" by (simp add: link_ok_def)
  with ok(1) r(2) have "routes_ok t i st'" by (simp add: routes_ok_def old(3) set_map_set map_ok_set)
  moreover have "foreign hs st'"
    using ok(2) r by (auto simp: foreign_def old(3) set_map_set)
  moreover have "references n st' = references n st + (if n = pc_network p then 1 else 0)" for n
    using old(1) by (simp add: old(3)) (simp add: references_def)
  ultimately show ?thesis using inv by (simp add: old(2)) (simp add: old(3))
next
  case (new h)
  note h = add_connected [OF p new(2)]
  have mok: "map_ok (connectedRoutes st)" using ok(1) by (simp add: routes_ok_def)
  have "route_inv (t', hs)" using add_inv [OF inv new(2)] by (rule route_inv_fewer)
  moreover have sub: "set (tb_routes t) \<subseteq> set (tb_routes t')" using h by auto
  moreover have "link_ok t' i (pc_network p, \<lparr>cr_handle = h, cr_references = 1\<rparr>)"
    using h by (simp add: link_ok_def)
  with routes_ok_more [OF ok(1) sub] have "routes_ok t' i st'"
    using mok new(3) by (auto simp: routes_ok_def map_ok_set set_map_set)
  moreover have "foreign hs st'"
    using ok(2) inv h mok new(3)
    by (fastforce simp: foreign_def set_map_set route_inv_def handle_ok_def order_of_def)
  ultimately show ?thesis using new by (simp add: references_def map_get_set)
qed

text \<open>
  Removing the route of one handle leaves every other interface's routes, and the other routes of
  the same interface.
\<close>

definition drop_route :: "'i route_handle \<Rightarrow> 'i route_table \<Rightarrow> 'i route_table" where
  "drop_route h t = snd (dispose_route h t)"

lemma drop_route_inv: "route_inv (t, hs) \<Longrightarrow> route_inv (drop_route h t, hs)"
  using filter_inv [of t hs] by (simp add: drop_route_def dispose_route_def)

lemma drop_route_link:
  assumes "route_inv (t, hs)" "link_ok t i (n, r)" "link_ok t i' e" "(i', fst e) \<noteq> (i, n)"
  shows "link_ok (drop_route (cr_handle r) t) i' e"
proof -
  obtain m r' where e: "e = (m, r')" by (cases e)
  have "rh_route (cr_handle r') \<noteq> rh_route (cr_handle r)" using assms(2-4) by (auto simp: link_ok_def e)
  then have "rt_order (rh_route (cr_handle r')) \<noteq> rt_order (rh_route (cr_handle r))"
    using route_inv_order [OF assms(1)] assms(2,3) by (auto simp: link_ok_def e)
  with assms(3) show ?thesis by (simp add: link_ok_def e drop_route_def dispose_route_def)
qed

lemma release_cases:
  assumes "releaseConnectedRoute n (st, t) = (st', t')"
  obtains (none) "map_get (connectedRoutes st) n = None" "st' = st" "t' = t"
    | (kept) r where "map_get (connectedRoutes st) n = Some r" "1 < cr_references r" "t' = t"
      "st' = st\<lparr>connectedRoutes := map_set n (r\<lparr>cr_references := cr_references r - 1\<rparr>) (connectedRoutes st)\<rparr>"
    | (last) r where "map_get (connectedRoutes st) n = Some r" "cr_references r \<le> 1"
      "t' = drop_route (cr_handle r) t"
      "st' = st\<lparr>connectedRoutes := map_delete n (connectedRoutes st)\<rparr>"
  using assms by (force simp: releaseConnectedRoute_def drop_route_def split: option.splits if_splits)

lemma release_ok:
  assumes inv: "route_inv (t, hs)" and ok: "routes_ok t i st" "foreign hs st"
    and a: "releaseConnectedRoute n (st, t) = (st', t')"
  shows "route_inv (t', hs) \<and> routes_ok t' i st' \<and> foreign hs st' \<and>
    if_addresses st' = if_addresses st \<and> if_detached st' = if_detached st \<and>
    (\<forall>m. references m st' = references m st - (if m = n then 1 else 0)) \<and>
    (\<forall>i' e. i' \<noteq> i \<longrightarrow> link_ok t i' e \<longrightarrow> link_ok t' i' e)"
  using a
proof (cases rule: release_cases)
  case none
  then have "references n st = 0" by (simp add: references_def)
  with none assms show ?thesis by simp
next
  case (kept r)
  have r: "(n, r) \<in> set (connectedRoutes st)" "map_ok (connectedRoutes st)"
    using kept(1) ok(1) by (simp_all add: routes_ok_def map_get_in_set)
  then have "link_ok t i (n, r)" using ok(1) by (simp add: routes_ok_def)
  then have "link_ok t i (n, r\<lparr>cr_references := cr_references r - 1\<rparr>)" using kept(2) by (simp add: link_ok_def)
  with ok(1) r(2) have "routes_ok t i st'" by (simp add: routes_ok_def kept(4) set_map_set map_ok_set)
  moreover have "foreign hs st'"
    using ok(2) r by (auto simp: foreign_def kept(4) set_map_set)
  moreover have "references m st' = references m st - (if m = n then 1 else 0)" for m
    using kept(1) by (simp add: kept(4)) (simp add: references_def)
  ultimately show ?thesis using inv by (simp add: kept(3)) (simp add: kept(4))
next
  case (last r)
  have r: "(n, r) \<in> set (connectedRoutes st)" "map_ok (connectedRoutes st)"
    using last(1) ok(1) by (simp_all add: routes_ok_def map_get_in_set)
  then have l: "link_ok t i (n, r)" using ok(1) by (simp add: routes_ok_def)
  have "\<forall>e\<in>set (connectedRoutes st'). link_ok t' i e"
    using ok(1) r drop_route_link [OF inv l, of i]
    by (auto simp: routes_ok_def last(3,4) set_map_delete)
  then have "routes_ok t' i st'" using r(2) by (simp add: routes_ok_def last(4) map_ok_delete)
  moreover have "foreign hs st'" using ok(2) r(2) by (auto simp: foreign_def last(4) set_map_delete)
  moreover have "references m st' = references m st - (if m = n then 1 else 0)" for m
    using last(1,2) references_delete [OF r(2)] by (simp add: last(4)) (simp add: references_def)
  moreover have "link_ok t' i' e" if "i' \<noteq> i" "link_ok t i' e" for i' e
    using drop_route_link [OF inv l that(2)] that(1) by (simp add: last(3))
  ultimately show ?thesis using drop_route_inv [OF inv] by (simp add: last(3)) (simp add: last(4))
qed

subsection \<open>Operations keep the invariant\<close>

lemma net_inv_update:
  assumes inv: "net_inv (s, hs)"
    and t: "route_inv (t, hs)" "\<forall>i' e. i' \<noteq> i \<longrightarrow> link_ok (ns_routes s) i' e \<longrightarrow> link_ok t i' e"
    and st: "state_ok t i st" "foreign hs st"
  shows "net_inv (set_state i st (s\<lparr>ns_routes := t, ns_lwip := l\<rparr>), hs)"
proof -
  have mok: "map_ok (ns_states s)" using inv by (simp add: net_inv_def)
  have "state_ok t (fst e) (snd e) \<and> foreign hs (snd e)" if "e \<in> set (ns_states s)" "fst e \<noteq> i" for e
    using inv that t(2) by (auto simp: net_inv_def state_ok_def routes_ok_def)
  with t(1) st mok show ?thesis by (auto simp: net_inv_def set_state_def map_ok_set set_map_set)
qed

lemma net_inv_lwip: "net_inv (s\<lparr>ns_lwip := l\<rparr>, hs) = net_inv (s, hs)"
  by (simp add: net_inv_def)

lemma getAttachedState_Inr:
  assumes "net_inv (s, hs)" "getAttachedState i s = Inr st"
  shows "state_ok (ns_routes s) i st \<and> foreign hs st \<and> \<not> if_detached st \<and> map_get (ns_states s) i = Some st"
proof -
  have g: "map_get (ns_states s) i = Some st" "\<not> if_detached st"
    using assms(2) by (auto simp: getAttachedState_def getState_def res_simps split: option.splits if_splits)
  with assms(1) have "(i, st) \<in> set (ns_states s)" by (simp add: net_inv_def map_get_in_set)
  with assms(1) g show ?thesis by (auto simp: net_inv_def)
qed

lemma served_by_new:
  assumes "map_get (if_addresses st) (pc_canonical p) = None"
  shows "served_by n (with_address p st) = served_by n st + (if n = pc_network p then 1 else 0)"
  using assms by (simp add: served_by_def with_address_def map_set_new address_entry_def)

lemma state_ok_with_address:
  assumes "map_ok (if_addresses st)" "\<forall>e\<in>set (if_addresses st). entry_ok e" "routes_ok t i st"
    "\<not> if_detached st" "parseInterfaceCidr cidr = Inr p"
    "map_get (if_addresses st) (pc_canonical p) = None"
    "\<forall>n. references n st = served_by n st + (if n = pc_network p then 1 else 0)"
  shows "state_ok t i (with_address p st)"
proof -
  have "entry_ok (pc_canonical p, address_entry p)"
    using parseInterfaceCidr_canonical [OF assms(5)] by (auto simp: entry_ok_def)
  moreover have "references n (with_address p st) = references n st" for n by (simp add: with_address_def)
  ultimately show ?thesis
    using assms served_by_new [OF assms(6)]
    by (auto simp: state_ok_def routes_ok_def map_ok_set set_map_set) (auto simp: with_address_def map_ok_set set_map_set)
qed

lemma addAddress_inv:
  assumes inv: "net_inv (s, hs)" and a: "addAddress ex v i cidr s = (r, s')"
  shows "net_inv (s', hs)"
proof (cases "bnd (getAttachedState i s) (\<lambda>st. bnd (parseInterfaceCidr cidr) (\<lambda>parsed. Inr (st, parsed)))")
  case (Inl e)
  with inv a show ?thesis by (simp add: addAddress_def)
next
  case (Inr q)
  obtain st p where q: "q = (st, p)" by (cases q)
  with Inr have g: "getAttachedState i s = Inr st" and p: "parseInterfaceCidr cidr = Inr p"
    by (auto simp: res_simps)
  note st = getAttachedState_Inr [OF inv g]
  obtain result l where c: "(if pa_family p = Family4
      then set_interface_ip4_address ex (if_handle st) (pa_bytes p) (pc_prefixLength p) (ns_lwip s)
      else add_interface_ip6_address ex (if_handle st) (pa_bytes p) (ns_lwip s)) = (result, l)" by fastforce
  have a': "addAddress ex v i cidr s =
      (if map_get (if_addresses st) (pc_canonical p) \<noteq> None then (Inr (), s)
       else if pa_family p = Family4 \<and> has_family Family4 st
       then (throw ''an IPv4 address is already configured'', s)
       else if pa_family p = Family6 \<and> get_interface_mtu ex (if_handle st) (ns_lwip s) < 1280
       then (throw ''IPv6 interfaces require an MTU of at least 1280'', s)
       else if result \<noteq> 0
       then (Inl (Error (lit ''failed to add interface address: '' @ number_text result)), s\<lparr>ns_lwip := l\<rparr>)
       else (case acquireConnectedRoute v i (pc_network p) (st, ns_routes s) of
           Inr (st', t) \<Rightarrow> (Inr (), set_state i (with_address p st') (s\<lparr>ns_routes := t, ns_lwip := l\<rparr>))
         | Inl e \<Rightarrow> let (r, l') = removeAddressFromWasm ex (if_handle st) (pa_family p) (pa_bytes p) l
             in (case r of Inl e' \<Rightarrow> Inl e' | Inr _ \<Rightarrow> Inl e, s\<lparr>ns_lwip := l'\<rparr>)))"
    unfolding addAddress_def Inr q by (simp only: sum.case prod.case c Let_def)
  show ?thesis
  proof (cases "\<exists>st' t. acquireConnectedRoute v i (pc_network p) (st, ns_routes s) = Inr (st', t) \<and>
      map_get (if_addresses st) (pc_canonical p) = None \<and>
      s' = set_state i (with_address p st') (s\<lparr>ns_routes := t, ns_lwip := l\<rparr>)")
    case False
    with a a' have "\<exists>l'. s' = s \<or> s' = s\<lparr>ns_lwip := l'\<rparr>"
      by (auto simp: Let_def split: if_splits sum.splits prod.splits)
    with inv show ?thesis by (auto simp: net_inv_lwip)
  next
    case True
    then obtain st' t where t: "acquireConnectedRoute v i (pc_network p) (st, ns_routes s) = Inr (st', t)"
      "map_get (if_addresses st) (pc_canonical p) = None"
      "s' = set_state i (with_address p st') (s\<lparr>ns_routes := t, ns_lwip := l\<rparr>)" by blast
    have ok: "route_inv (ns_routes s, hs)" "routes_ok (ns_routes s) i st" "foreign hs st"
      using inv st by (auto simp: net_inv_def state_ok_def)
    note acq = acquire_ok [OF ok p t(1)]
    have "state_ok t i (with_address p st')"
      using st acq t(2) by (intro state_ok_with_address [OF _ _ _ _ p]) (auto simp: state_ok_def served_by_def)
    moreover have "foreign hs (with_address p st')" using acq by (simp add: foreign_def with_address_def)
    ultimately show ?thesis unfolding t(3)
      using acq by (intro net_inv_update [OF inv]) (auto intro: link_ok_more)
  qed
qed

lemma removeAddress_inv:
  assumes inv: "net_inv (s, hs)" and a: "removeAddress ex i cidr s = (r, s')"
  shows "net_inv (s', hs)"
proof (cases "bnd (getAttachedState i s) (\<lambda>st. bnd (parseInterfaceCidr cidr) (\<lambda>parsed. Inr (st, parsed)))")
  case (Inl e)
  with inv a show ?thesis by (simp add: removeAddress_def)
next
  case (Inr q)
  obtain st p where q: "q = (st, p)" by (cases q)
  with Inr have g: "getAttachedState i s = Inr st" by (auto simp: res_simps)
  note st = getAttachedState_Inr [OF inv g]
  show ?thesis
  proof (cases "map_get (if_addresses st) (pc_canonical p)")
    case None
    with a Inr q inv show ?thesis by (simp add: removeAddress_def)
  next
    case (Some ad)
    obtain w l where w: "removeAddressFromWasm ex (if_handle st) (as_family ad) (as_bytes ad) (ns_lwip s) = (w, l)"
      by fastforce
    obtain st' t where rel: "releaseConnectedRoute (connectedNetwork ad) (st, ns_routes s) = (st', t)" by fastforce
    show ?thesis
    proof (cases w)
      case (Inl e)
      with a Inr q Some w inv show ?thesis by (auto simp: removeAddress_def net_inv_lwip)
    next
      case (Inr u)
      let ?st = "st'\<lparr>if_addresses := map_delete (pc_canonical p) (if_addresses st')\<rparr>"
      have s': "s' = set_state i ?st (s\<lparr>ns_routes := t, ns_lwip := l\<rparr>)"
        using a \<open>bnd _ _ = Inr q\<close> q Some w rel Inr by (simp add: removeAddress_def)
      have ok: "route_inv (ns_routes s, hs)" "routes_ok (ns_routes s) i st" "foreign hs st"
        using inv st by (auto simp: net_inv_def state_ok_def)
      note rl = release_ok [OF ok rel]
      have adds: "map_ok (if_addresses st)" "\<forall>e\<in>set (if_addresses st). entry_ok e" "if_addresses st' = if_addresses st"
        using st rl by (simp_all add: state_ok_def)
      have "served_by n ?st = served_by n st - (if n = connectedNetwork ad then 1 else 0)" for n
        using filter_map_delete [OF Some, of "\<lambda>(c, a). connectedNetwork a = n"] adds(3)
        by (auto simp: served_by_def)
      moreover have "references n ?st = references n st - (if n = connectedNetwork ad then 1 else 0)" for n
        using rl by simp
      ultimately have "references n ?st = served_by n ?st" for n using st by (simp add: state_ok_def)
      moreover have "\<forall>e\<in>set (if_addresses ?st). entry_ok e" using adds by (simp add: set_map_delete)
      ultimately have "state_ok t i ?st"
        using rl adds st by (simp add: state_ok_def map_ok_delete routes_ok_def)
      moreover have "foreign hs ?st" using rl by (simp add: foreign_def)
      ultimately show ?thesis unfolding s' using rl by (intro net_inv_update [OF inv]) auto
    qed
  qed
qed

text \<open>An interface is attached right after its creation, when no route leads to it yet.\<close>

lemma acquire_fresh:
  assumes "v i = Inr ()" "\<forall>r\<in>set (tb_routes t). rt_via r \<noteq> i" "parseInterfaceCidr cidr = Inr p"
  shows "\<exists>st' t'. acquireConnectedRoute v i (pc_network p) (st, t) = Inr (st', t')"
proof (cases "map_get (connectedRoutes st) (pc_network p)")
  case None
  obtain q where q: "parseCidr (pc_network p) = Inr q" using parseCidr_network [OF assms(3)] by blast
  let ?r = "new_route q (connected_spec i (pc_network p)) 0 (tb_nextOrder t)"
  have "add_route v (connected_spec i (pc_network p)) t =
      Inr (\<lparr>rh_route = ?r, rh_installed = True\<rparr>, t\<lparr>tb_routes := tb_routes t @ [?r], tb_nextOrder := tb_nextOrder t + 1\<rparr>)"
    using assms(1,2) q
    by (auto simp: add_route_Inr Let_def connected_spec_def spec_metric_def isSafeInteger_def
        metric_value_def route_key_def new_route_def)
  with None show ?thesis by (simp add: acquireConnectedRoute_def connected_spec_def)
qed (simp add: acquireConnectedRoute_def)

lemma attach_inv:
  assumes inv: "net_inv (s, hs)" and a: "attach v i h cidrs s = (r, s')"
    and fresh: "v i = Inr ()" "\<forall>r\<in>set (tb_routes (ns_routes s)). rt_via r \<noteq> i" "length cidrs \<le> 1"
  shows "net_inv (s', hs)"
proof (cases "map_get (ns_states s) i = None")
  case False
  with a inv show ?thesis by (auto simp: attach_def)
next
  case True
  let ?st = "\<lparr>if_handle = h, if_addresses = [], connectedRoutes = [], if_detached = False\<rparr> :: 'a interface_state"
  have ok: "routes_ok (ns_routes s) i ?st" "foreign hs ?st" "state_ok (ns_routes s) i ?st"
    by (simp_all add: routes_ok_def foreign_def state_ok_def references_def served_by_def)
  have ri: "route_inv (ns_routes s, hs)" using inv by (simp add: net_inv_def)
  have none: "net_inv (set_state i ?st (s\<lparr>ns_routes := ns_routes s\<rparr>), hs)"
    using net_inv_update [OF inv ri _ ok(3,2), of "ns_lwip s"] by simp
  show ?thesis
  proof (cases cidrs)
    case Nil
    with a True none show ?thesis by (simp add: attach_def)
  next
    case (Cons c cs)
    with fresh(3) have cs: "cs = []" by simp
    show ?thesis
    proof (cases "parseInterfaceCidr c")
      case (Inl e)
      with a True Cons none show ?thesis by (simp add: attach_def)
    next
      case (Inr p)
      let ?st1 = "with_address p ?st"
      have ok1: "routes_ok (ns_routes s) i ?st1" "foreign hs ?st1"
        by (simp_all add: routes_ok_def foreign_def with_address_def)
      obtain st' t where acq: "acquireConnectedRoute v i (pc_network p) (?st1, ns_routes s) = Inr (st', t)"
        using acquire_fresh [of v i "ns_routes s" c p ?st1] fresh Inr by blast
      note q = acquire_ok [OF ri ok1 Inr acq]
      have s': "s' = set_state i st' (s\<lparr>ns_routes := t, ns_lwip := ns_lwip s\<rparr>)"
        using a True Cons cs Inr acq by (simp add: attach_def)
      have "references n st' = served_by n st'" for n
        using q by (simp add: references_def served_by_def with_address_def address_entry_def)
      moreover have "entry_ok (pc_canonical p, address_entry p)"
        using parseInterfaceCidr_canonical [OF Inr] by (auto simp: entry_ok_def)
      ultimately have "state_ok t i st'"
        using q by (simp add: state_ok_def) (simp add: with_address_def map_ok_def)
      with q show ?thesis unfolding s' by (intro net_inv_update [OF inv]) (auto intro: link_ok_more)
    qed
  qed
qed

lemma drop_routes:
  assumes "route_inv (t, hs)" "distinct (map fst es)" "\<forall>e\<in>set es. link_ok t i e"
  shows "route_inv (fold (\<lambda>r t. snd (dispose_route (cr_handle r) t)) (map snd es) t, hs) \<and>
    (\<forall>i' e. i' \<noteq> i \<longrightarrow> link_ok t i' e \<longrightarrow>
       link_ok (fold (\<lambda>r t. snd (dispose_route (cr_handle r) t)) (map snd es) t) i' e)"
  using assms
proof (induction es arbitrary: t)
  case (Cons e es)
  obtain n r where e: "e = (n, r)" by (cases e)
  let ?t = "drop_route (cr_handle r) t"
  have l: "link_ok t i (n, r)" using Cons.prems(3) e by simp
  have "link_ok ?t i e'" if "e' \<in> set es" for e'
  proof -
    have "fst e' \<noteq> n" using Cons.prems(2) e that by auto
    with drop_route_link [OF Cons.prems(1) l] Cons.prems(3) that show ?thesis by auto
  qed
  moreover have "route_inv (?t, hs)" using Cons.prems(1) by (rule drop_route_inv)
  moreover have "distinct (map fst es)" using Cons.prems(2) by simp
  ultimately have ih: "route_inv (fold (\<lambda>r t. snd (dispose_route (cr_handle r) t)) (map snd es) ?t, hs) \<and>
    (\<forall>i' e. i' \<noteq> i \<longrightarrow> link_ok ?t i' e \<longrightarrow>
       link_ok (fold (\<lambda>r t. snd (dispose_route (cr_handle r) t)) (map snd es) ?t) i' e)"
    using Cons.IH [of ?t] by blast
  have "link_ok ?t i' e'" if "i' \<noteq> i" "link_ok t i' e'" for i' e'
    using drop_route_link [OF Cons.prems(1) l that(2)] that(1) by simp
  with ih show ?case by (simp add: e drop_route_def)
qed simp

lemma detach_inv:
  assumes inv: "net_inv (s, hs)" and d: "detach ex i terminal s = (r, s')"
  shows "net_inv (s', hs) \<and> (\<forall>st. map_get (ns_states s') i = Some st \<longrightarrow> connectedRoutes st = [])"
proof (cases "map_get (ns_states s) i")
  case None
  with inv d show ?thesis by (auto simp: detach_def)
next
  case (Some st)
  then have mem: "(i, st) \<in> set (ns_states s)" using inv by (simp add: net_inv_def map_get_in_set)
  then have ok: "state_ok (ns_routes s) i st" "foreign hs st" using inv by (auto simp: net_inv_def)
  show ?thesis
  proof (cases "if_detached st")
    case True
    with d Some inv ok show ?thesis by (auto simp: detach_def state_ok_def)
  next
    case False
    let ?st = "st\<lparr>if_detached := True, connectedRoutes := [], if_addresses := []\<rparr>"
    let ?t = "fold (\<lambda>r t. snd (dispose_route (cr_handle r) t)) (map snd (connectedRoutes st)) (ns_routes s)"
    obtain l where s': "s' = set_state i ?st (s\<lparr>ns_routes := ?t, ns_lwip := l\<rparr>)"
      using d Some False by (auto simp: detach_def Let_def)
    have ri: "route_inv (ns_routes s, hs)" using inv by (simp add: net_inv_def)
    have "distinct (map fst (connectedRoutes st))" "\<forall>e\<in>set (connectedRoutes st). link_ok (ns_routes s) i e"
      using ok(1) by (simp_all add: state_ok_def routes_ok_def map_ok_def)
    note t = drop_routes [OF ri this, THEN conjunct1] drop_routes [OF ri this, THEN conjunct2]
    have "state_ok ?t i ?st" "foreign hs ?st"
      by (simp_all add: state_ok_def routes_ok_def references_def served_by_def foreign_def)
    then have "net_inv (s', hs)" unfolding s' by (rule net_inv_update [OF inv t])
    then show ?thesis by (simp add: s' set_state_def map_get_set)
  qed
qed

text \<open>\<open>interfaces.remove\<close> of the stack: detach, then drop every route over the interface.\<close>

definition remove_interface :: "'l netif_exports \<Rightarrow> 'i \<Rightarrow> bool \<Rightarrow> ('i, 'l) net_state \<Rightarrow> unit res \<times> ('i, 'l) net_state" where
  "remove_interface ex i terminal s = (case detach ex i terminal s of
     (Inl e, s') \<Rightarrow> (Inl e, s')
   | (Inr _, s') \<Rightarrow> (Inr (), s'\<lparr>ns_routes := removeInterface i (ns_routes s')\<rparr>))"

lemma remove_interface_inv:
  assumes "net_inv (s, hs)" "remove_interface ex i terminal s = (r, s')"
  shows "net_inv (s', hs)"
proof -
  obtain q s1 where d: "detach ex i terminal s = (q, s1)" by fastforce
  note i = detach_inv [OF assms(1) d]
  show ?thesis
  proof (cases q)
    case (Inl e)
    with assms(2) d i show ?thesis by (auto simp: remove_interface_def)
  next
    case (Inr u)
    let ?t = "removeInterface i (ns_routes s1)"
    have s': "s' = s1\<lparr>ns_routes := ?t\<rparr>" using assms(2) d Inr by (simp add: remove_interface_def)
    have "route_inv (?t, hs)"
      using i filter_inv [of "ns_routes s1" hs] by (simp add: net_inv_def removeInterface_def)
    moreover have "state_ok ?t (fst e) (snd e) \<and> foreign hs (snd e)" if e: "e \<in> set (ns_states s1)" for e
    proof (cases "fst e = i")
      case True
      with e i have "map_get (ns_states s1) i = Some (snd e)" by (auto simp: net_inv_def map_get_in_set)
      with i have "connectedRoutes (snd e) = []" by blast
      with e i True show ?thesis by (auto simp: net_inv_def state_ok_def routes_ok_def)
    next
      case False
      have "link_ok ?t (fst e) c" if "link_ok (ns_routes s1) (fst e) c" for c
        using that False by (auto simp: link_ok_def removeInterface_def)
      with e i show ?thesis by (auto simp: net_inv_def state_ok_def routes_ok_def)
    qed
    ultimately show ?thesis using i by (simp add: net_inv_def s')
  qed
qed

text \<open>Users add routes of their own and dispose of them by the handles they got.\<close>

lemma user_add_inv:
  assumes "net_inv (s, hs)" "add_route v spec (ns_routes s) = Inr (h, t)"
  shows "net_inv (s\<lparr>ns_routes := t\<rparr>, hs @ [h])"
proof -
  have ri: "route_inv (ns_routes s, hs)" using assms(1) by (simp add: net_inv_def)
  obtain r where r: "h = \<lparr>rh_route = r, rh_installed = True\<rparr>" "tb_routes t = tb_routes (ns_routes s) @ [r]"
    "rt_order r = tb_nextOrder (ns_routes s)"
    using add_route_ok [OF assms(2)] by metis
  have sub: "set (tb_routes (ns_routes s)) \<subseteq> set (tb_routes t)" using r by auto
  have "state_ok t (fst e) (snd e) \<and> foreign (hs @ [h]) (snd e)" if e: "e \<in> set (ns_states s)" for e
  proof -
    have ok: "state_ok (ns_routes s) (fst e) (snd e)" "foreign hs (snd e)"
      using assms(1) e by (auto simp: net_inv_def)
    have "order_of (cr_handle (snd c)) < tb_nextOrder (ns_routes s)" if "c \<in> set (connectedRoutes (snd e))" for c
      using ok(1) that ri
      by (auto simp: state_ok_def routes_ok_def link_ok_def order_of_def route_inv_def)
    moreover have "order_of h = tb_nextOrder (ns_routes s)" using r by (simp add: order_of_def)
    ultimately have "foreign (hs @ [h]) (snd e)"
      using ok(2) unfolding foreign_def by (metis Un_iff empty_iff empty_set less_irrefl set_ConsD set_append)
    moreover have "state_ok t (fst e) (snd e)"
      using ok(1) routes_ok_more [OF _ sub] by (auto simp: state_ok_def)
    ultimately show ?thesis by simp
  qed
  with assms(1) add_inv [OF ri assms(2)] show ?thesis by (simp add: net_inv_def)
qed

lemma user_dispose_inv:
  assumes "net_inv (s, hs)" "k < length hs" "dispose_route (hs ! k) (ns_routes s) = (h', t)"
  shows "net_inv (s\<lparr>ns_routes := t\<rparr>, hs[k := h'])"
proof -
  have ri: "route_inv (ns_routes s, hs)" using assms(1) by (simp add: net_inv_def)
  have same: "order_of h' = order_of (hs ! k)"
    using assms(3) by (auto simp: dispose_route_def order_of_def split: if_splits)
  have keep: "r \<in> set (tb_routes t)" if "r \<in> set (tb_routes (ns_routes s))" "rt_order r \<noteq> order_of (hs ! k)" for r
    using assms(3) that by (auto simp: dispose_route_def order_of_def split: if_splits)
  have "state_ok t (fst e) (snd e) \<and> foreign (hs[k := h']) (snd e)" if e: "e \<in> set (ns_states s)" for e
  proof -
    have ok: "state_ok (ns_routes s) (fst e) (snd e)" "foreign hs (snd e)"
      using assms(1) e by (auto simp: net_inv_def)
    have "link_ok t (fst e) c" if c: "c \<in> set (connectedRoutes (snd e))" for c
    proof -
      have "link_ok (ns_routes s) (fst e) c" using ok(1) c by (simp add: state_ok_def routes_ok_def)
      moreover have "order_of (hs ! k) \<noteq> order_of (cr_handle (snd c))"
        using ok(2) c nth_mem [OF assms(2)] unfolding foreign_def by blast
      ultimately show ?thesis using keep by (auto simp: link_ok_def order_of_def split: prod.splits)
    qed
    moreover have "\<exists>g\<in>set hs. order_of h = order_of g" if "h \<in> set (hs[k := h'])" for h
      using that same nth_mem [OF assms(2)] set_update_subset_insert [of hs k h'] by auto
    then have "foreign (hs[k := h']) (snd e)"
      using ok(2) unfolding foreign_def by metis
    ultimately show ?thesis using ok(1) by (simp add: state_ok_def routes_ok_def)
  qed
  with assms(1) dispose_inv [OF ri assms(2,3)] show ?thesis by (simp add: net_inv_def)
qed

subsection \<open>Reachable states\<close>

inductive net_step :: "('i, 'l) net_state \<times> 'i route_handle list \<Rightarrow> ('i, 'l) net_state \<times> 'i route_handle list \<Rightarrow> bool" where
  do_attach: "v i = Inr () \<Longrightarrow> \<forall>r\<in>set (tb_routes (ns_routes s)). rt_via r \<noteq> i \<Longrightarrow> length cidrs \<le> 1 \<Longrightarrow>
    attach v i h cidrs s = (r, s') \<Longrightarrow> net_step (s, hs) (s', hs)"
| do_remove: "remove_interface ex i terminal s = (r, s') \<Longrightarrow> net_step (s, hs) (s', hs)"
| do_addAddress: "addAddress ex v i cidr s = (r, s') \<Longrightarrow> net_step (s, hs) (s', hs)"
| do_removeAddress: "removeAddress ex i cidr s = (r, s') \<Longrightarrow> net_step (s, hs) (s', hs)"
| do_lwip: "net_step (s, hs) (s\<lparr>ns_lwip := l\<rparr>, hs)"
| do_add_route: "add_route v spec (ns_routes s) = Inr (h, t) \<Longrightarrow> net_step (s, hs) (s\<lparr>ns_routes := t\<rparr>, hs @ [h])"
| do_dispose_route: "k < length hs \<Longrightarrow> dispose_route (hs ! k) (ns_routes s) = (h', t) \<Longrightarrow>
    net_step (s, hs) (s\<lparr>ns_routes := t\<rparr>, hs[k := h'])"

inductive net_reachable :: "('i, 'l) net_state \<times> 'i route_handle list \<Rightarrow> bool" where
  net_start: "net_reachable (net_init l, [])"
| net_next: "net_reachable w \<Longrightarrow> net_step w w' \<Longrightarrow> net_reachable w'"

lemma net_inv_init: "net_inv (net_init l, [])"
  using route_inv_init by (simp add: net_inv_def net_init_def)

lemma net_inv_step: "net_step w w' \<Longrightarrow> net_inv w \<Longrightarrow> net_inv w'"
proof (induction rule: net_step.induct)
  case (do_attach v i s cidrs h r s' hs)
  show ?case by (rule attach_inv [OF do_attach(5,4,1,2,3)])
next
  case (do_lwip s hs l)
  then show ?case by (simp add: net_inv_lwip)
next
  case (do_remove ex i terminal s r s' hs)
  show ?case by (rule remove_interface_inv [OF do_remove(2,1)])
next
  case (do_addAddress ex v i cidr s r s' hs)
  show ?case by (rule addAddress_inv [OF do_addAddress(2,1)])
next
  case (do_removeAddress ex i cidr s r s' hs)
  show ?case by (rule removeAddress_inv [OF do_removeAddress(2,1)])
next
  case (do_add_route v spec s h t hs)
  show ?case by (rule user_add_inv [OF do_add_route(2,1)])
next
  case (do_dispose_route k hs s h' t)
  show ?case by (rule user_dispose_inv [OF do_dispose_route(3,1,2)])
qed

lemma net_reachable_inv: "net_reachable w \<Longrightarrow> net_inv w"
  by (induction rule: net_reachable.induct) (simp_all add: net_inv_init net_inv_step)

end
