(* ===== verification/Net_Addresses.thy ===== *)
theory Net_Addresses
  imports Net_Interface Wire_Netmask
begin

text \<open>
  What the bindings of network interfaces promise: the connected routes of every reachable state,
  that removing an address undoes adding it, and what an error leaves behind.
\<close>

subsection \<open>Addresses are covered by their connected route\<close>

lemma connected_route_covers:
  assumes inv: "route_inv (t, hs)" and l: "link_ok t i (connectedNetwork a, r)" and e: "entry_ok (c, a)"
  shows "lookupBytes (as_family a) (as_bytes a) t \<noteq> None"
proof -
  obtain p where p: "parseInterfaceCidr c = Inr p" "a = address_entry p"
    using e by (auto simp: entry_ok_def)
  obtain q where q: "parseCidr (pc_network p) = Inr q" "pa_family q = pa_family p"
    "pa_bytes q = pc_networkBytes p" "pc_prefixLength q = pc_prefixLength p"
    using parseCidr_network [OF p(1)] by blast
  let ?R = "rh_route (cr_handle r)"
  have R: "?R \<in> set (tb_routes t)" "rt_destination ?R = pc_network p"
    using l by (simp_all add: link_ok_def p(2) address_entry_def)
  then have "route_ok ?R" using inv by (auto simp: route_inv_def)
  then have "cidr_of (rt_family ?R) (rt_bytes ?R) (rt_prefixLength ?R) = Inr q"
    using q(1) R(2) by (simp add: route_ok_def)
  note f = cidr_of_fields [OF this]
  note pc = parseInterfaceCidr_cidr_of [OF p(1)]
  have m: "rt_bytes ?R = maskAddress (pa_bytes p) (pc_prefixLength p)"
    using f(2) q(3) cidr_of_fields(4) [OF pc [THEN conjunct1]] by simp
  have len: "pc_prefixLength p \<le> 8 * length (pa_bytes p)"
    using pc by auto
  have "prefixMatches (pa_bytes p) (rt_bytes ?R) (rt_prefixLength ?R)"
    using len f(3) q(4) by (simp add: prefixMatches_bits m net_bit_maskAddress)
  then have "?R \<in> matching (as_family a) (as_bytes a) t"
    using R(1) f(1) q(2) by (simp add: matching_def p(2) address_entry_def)
  then show ?thesis using lookupBytes_cases [of "as_family a" "as_bytes a" t] by blast
qed

subsection \<open>One IPv4 address\<close>

definition ipv4_count :: "'i interface_state \<Rightarrow> nat" where
  "ipv4_count st = length (filter (\<lambda>(c, a). as_family a = Family4) (if_addresses st))"

lemma ipv4_count_routes [simp]: "ipv4_count (st\<lparr>connectedRoutes := m\<rparr>) = ipv4_count st"
  by (simp add: ipv4_count_def)

lemma ipv4_count_with_address:
  assumes "map_get (if_addresses st) (pc_canonical p) = None"
  shows "ipv4_count (with_address p st) = ipv4_count st + (if pa_family p = Family4 then 1 else 0)"
  using assms by (simp add: ipv4_count_def with_address_def map_set_new address_entry_def)

lemma no_family: "\<not> has_family Family4 st \<Longrightarrow> ipv4_count st = 0"
  by (auto simp: has_family_def ipv4_count_def list_ex_iff filter_empty_conv)

lemma acquire_addresses:
  assumes "acquireConnectedRoute v i n (st, t) = Inr (st', t')"
  shows "if_addresses st' = if_addresses st"
  using assms by (cases rule: acquire_cases) auto

lemma release_addresses:
  assumes "releaseConnectedRoute n (st, t) = (st', t')"
  shows "if_addresses st' = if_addresses st"
  using assms by (cases rule: release_cases) auto

definition one_ipv4 :: "('i, 'l) net_state \<Rightarrow> bool" where
  "one_ipv4 s \<longleftrightarrow> (\<forall>i st. map_get (ns_states s) i = Some st \<longrightarrow> ipv4_count st \<le> 1)"

lemma one_ipv4D: "one_ipv4 s \<Longrightarrow> map_get (ns_states s) i = Some st \<Longrightarrow> ipv4_count st \<le> 1"
  by (simp add: one_ipv4_def)

lemma one_ipv4_set:
  "one_ipv4 s \<Longrightarrow> ipv4_count st \<le> 1 \<Longrightarrow> ns_states s' = ns_states s \<Longrightarrow> one_ipv4 (set_state i st s')"
  by (auto simp: one_ipv4_def set_state_def map_get_set)

lemma one_ipv4_states: "ns_states s' = ns_states s \<Longrightarrow> one_ipv4 s' = one_ipv4 s"
  by (simp add: one_ipv4_def)

lemma getAttachedState_get: "getAttachedState i s = Inr st \<Longrightarrow> map_get (ns_states s) i = Some st \<and> \<not> if_detached st"
  by (auto simp: getAttachedState_def getState_def res_simps split: option.splits if_splits)

lemma guarded:
  "A \<or> B \<or> C \<or> D \<Longrightarrow>
   snd (if A then (a, s) else if B then (b, s) else if C then (c, s) else if D then (d, s') else x) \<in> {s, s'}"
  by auto

lemma unguarded:
  "\<not> (A \<or> B \<or> C \<or> D) \<Longrightarrow> (if A then a else if B then b else if C then c else if D then d else x) = x"
  by simp

text \<open>Every way through \<open>addAddress\<close>.\<close>

lemma addAddress_cases:
  assumes "addAddress ex v i cidr s = (r, s')"
  obtains (same) "ns_states s' = ns_states s" "ns_routes s' = ns_routes s"
    | (added) st p st' t l where "r = Inr ()" "getAttachedState i s = Inr st" "parseInterfaceCidr cidr = Inr p"
      "map_get (if_addresses st) (pc_canonical p) = None"
      "pa_family p = Family4 \<Longrightarrow> \<not> has_family Family4 st"
      "acquireConnectedRoute v i (pc_network p) (st, ns_routes s) = Inr (st', t)"
      "s' = set_state i (with_address p st') (s\<lparr>ns_routes := t, ns_lwip := l\<rparr>)"
proof (cases "bnd (getAttachedState i s) (\<lambda>st. bnd (parseInterfaceCidr cidr) (\<lambda>parsed. Inr (st, parsed)))")
  case (Inl e)
  with assms same show ?thesis by (simp add: addAddress_def)
next
  case (Inr q)
  obtain st p where q: "q = (st, p)" by (cases q)
  with Inr have g: "getAttachedState i s = Inr st" "parseInterfaceCidr cidr = Inr p"
    by (auto simp: res_simps)
  obtain result l where c: "(if pa_family p = Family4
      then set_interface_ip4_address ex (if_handle st) (pa_bytes p) (pc_prefixLength p) (ns_lwip s)
      else add_interface_ip6_address ex (if_handle st) (pa_bytes p) (ns_lwip s)) = (result, l)" by fastforce
  have a: "addAddress ex v i cidr s =
      (if map_get (if_addresses st) (pc_canonical p) \<noteq> None then (Inr (), s)
       else if pa_family p = Family4 \<and> has_family Family4 st
       then (throw ''an IPv4 address is already configured'', s)
       else if pa_family p = Family6 \<and> get_interface_mtu ex (if_handle st) (ns_lwip s) < 1280
       then (throw ''IPv6 interfaces require an MTU of at least 1280'', s)
       else if result \<noteq> 0
       then (Inl (Error (lit ''failed to add interface address: '' @ number_text result)), s\<lparr>ns_lwip := l\<rparr>)
       else (case acquireConnectedRoute v i (pc_network p) (st, ns_routes s) of
           Inr (st', t) \<Rightarrow> (Inr (), set_state i (with_address p st') (s\<lparr>ns_routes := t, ns_lwip := l\<rparr>))
         | Inl e \<Rightarrow> let (r, l') = removeAddressFromWasm ex (if_handle st) (pa_family p) (pa_bytes p) l
             in (case r of Inl e' \<Rightarrow> Inl e' | Inr _ \<Rightarrow> Inl e, s\<lparr>ns_lwip := l'\<rparr>)))"
    unfolding addAddress_def Inr q by (simp only: sum.case prod.case c Let_def)
  show ?thesis
  proof (cases "map_get (if_addresses st) (pc_canonical p) \<noteq> None \<or> (pa_family p = Family4 \<and> has_family Family4 st) \<or>
      (pa_family p = Family6 \<and> get_interface_mtu ex (if_handle st) (ns_lwip s) < 1280) \<or> result \<noteq> 0")
    case True
    from guarded [OF this] have "snd (addAddress ex v i cidr s) \<in> {s, s\<lparr>ns_lwip := l\<rparr>}"
      unfolding a .
    then have "s' = s \<or> s' = s\<lparr>ns_lwip := l\<rparr>" using assms by simp
    then show ?thesis using same by auto
  next
    case False
    have a': "addAddress ex v i cidr s = (case acquireConnectedRoute v i (pc_network p) (st, ns_routes s) of
           Inr (st', t) \<Rightarrow> (Inr (), set_state i (with_address p st') (s\<lparr>ns_routes := t, ns_lwip := l\<rparr>))
         | Inl e \<Rightarrow> let (r, l') = removeAddressFromWasm ex (if_handle st) (pa_family p) (pa_bytes p) l
             in (case r of Inl e' \<Rightarrow> Inl e' | Inr _ \<Rightarrow> Inl e, s\<lparr>ns_lwip := l'\<rparr>))"
      unfolding a by (rule unguarded [OF False])
    show ?thesis
    proof (cases "acquireConnectedRoute v i (pc_network p) (st, ns_routes s)")
      case (Inl e)
      obtain w l' where "removeAddressFromWasm ex (if_handle st) (pa_family p) (pa_bytes p) l = (w, l')" by fastforce
      then have "s' = s\<lparr>ns_lwip := l'\<rparr>" using a' assms Inl by simp
      with same show ?thesis by simp
    next
      case (Inr w)
      obtain st' t where w: "w = (st', t)" by (cases w)
      have "r = Inr ()" "s' = set_state i (with_address p st') (s\<lparr>ns_routes := t, ns_lwip := l\<rparr>)"
        using a' assms Inr w by simp_all
      with added [OF _ g] False Inr w show ?thesis by blast
    qed
  qed
qed

lemma removeAddress_cases:
  assumes "removeAddress ex i cidr s = (r, s')"
  obtains (same) "ns_states s' = ns_states s" "ns_routes s' = ns_routes s"
      "\<And>st p. r = Inr () \<Longrightarrow> getAttachedState i s = Inr st \<Longrightarrow> parseInterfaceCidr cidr = Inr p \<Longrightarrow>
        map_get (if_addresses st) (pc_canonical p) = None"
    | (removed) st p ad st' t l where "r = Inr ()" "getAttachedState i s = Inr st" "parseInterfaceCidr cidr = Inr p"
      "map_get (if_addresses st) (pc_canonical p) = Some ad"
      "releaseConnectedRoute (connectedNetwork ad) (st, ns_routes s) = (st', t)"
      "s' = set_state i (st'\<lparr>if_addresses := map_delete (pc_canonical p) (if_addresses st')\<rparr>)
        (s\<lparr>ns_routes := t, ns_lwip := l\<rparr>)"
proof (cases "bnd (getAttachedState i s) (\<lambda>st. bnd (parseInterfaceCidr cidr) (\<lambda>parsed. Inr (st, parsed)))")
  case (Inl e)
  then have "s' = s" "r = Inl e" using assms by (simp_all add: removeAddress_def)
  with same show ?thesis by simp
next
  case (Inr q)
  obtain st p where q: "q = (st, p)" by (cases q)
  with Inr have g: "getAttachedState i s = Inr st" "parseInterfaceCidr cidr = Inr p"
    by (auto simp: res_simps)
  show ?thesis
  proof (cases "map_get (if_addresses st) (pc_canonical p)")
    case None
    then have "s' = s" using assms Inr q by (simp add: removeAddress_def)
    then show ?thesis using g None by (intro same) auto
  next
    case (Some ad)
    obtain w l where w: "removeAddressFromWasm ex (if_handle st) (as_family ad) (as_bytes ad) (ns_lwip s) = (w, l)"
      by fastforce
    obtain st' t where rel: "releaseConnectedRoute (connectedNetwork ad) (st, ns_routes s) = (st', t)" by fastforce
    show ?thesis
    proof (cases w)
      case (Inl e)
      have "s' = s\<lparr>ns_lwip := l\<rparr>" "r = Inl e" using assms \<open>bnd _ _ = Inr q\<close> q Some w Inl by (simp_all add: removeAddress_def)
      with same show ?thesis by simp
    next
      case (Inr u)
      with assms \<open>bnd _ _ = Inr q\<close> q Some w rel
      have "r = Inr ()" "s' = set_state i (st'\<lparr>if_addresses := map_delete (pc_canonical p) (if_addresses st')\<rparr>)
          (s\<lparr>ns_routes := t, ns_lwip := l\<rparr>)"
        by (simp_all add: removeAddress_def)
      with removed [OF _ g Some rel] show ?thesis by blast
    qed
  qed
qed

lemma attach_loop_single:
  assumes "length cidrs \<le> 1" "attach_loop v i cidrs (st, t) = (r, st', t')" "if_addresses st = []"
  shows "ipv4_count st' \<le> 1"
proof (cases cidrs)
  case Nil
  with assms show ?thesis by (simp add: ipv4_count_def)
next
  case (Cons c cs)
  with assms(1) have cs: "cs = []" by simp
  show ?thesis
  proof (cases "parseInterfaceCidr c")
    case (Inl e)
    with assms Cons cs show ?thesis by (simp add: ipv4_count_def)
  next
    case (Inr p)
    have one: "ipv4_count (with_address p st) \<le> 1"
      using assms(3) ipv4_count_with_address [of st p] by (simp add: ipv4_count_def)
    show ?thesis
    proof (cases "acquireConnectedRoute v i (pc_network p) (with_address p st, t)")
      case (Inl e)
      with assms Cons cs \<open>parseInterfaceCidr c = _\<close> one show ?thesis by simp
    next
      case (Inr w)
      with assms(2) Cons cs \<open>parseInterfaceCidr c = _\<close>
      have "acquireConnectedRoute v i (pc_network p) (with_address p st, t) = Inr (st', t')" by (cases w) simp
      from acquire_addresses [OF this] one show ?thesis by (simp add: ipv4_count_def)
    qed
  qed
qed

lemma length_filter_delete: "length (filter P (map_delete k m)) \<le> length (filter P m)"
  by (induction k m rule: map_delete.induct) auto

lemma one_ipv4_addAddress:
  assumes "one_ipv4 s" "addAddress ex v i cidr s = (r, s')"
  shows "one_ipv4 s'"
  using assms(2)
proof (cases rule: addAddress_cases)
  case same
  with assms(1) show ?thesis using one_ipv4_states by blast
next
  case (added st p st' t l)
  have a: "if_addresses st' = if_addresses st" using added(6) by (rule acquire_addresses)
  then have "map_get (if_addresses st') (pc_canonical p) = None" using added(4) by simp
  note n = ipv4_count_with_address [OF this]
  have "ipv4_count st \<le> 1"
    by (rule one_ipv4D [OF assms(1) getAttachedState_get [OF added(2), THEN conjunct1]])
  moreover have "ipv4_count st' = ipv4_count st" using a by (simp add: ipv4_count_def)
  moreover have "pa_family p = Family4 \<Longrightarrow> ipv4_count st = 0" using added(5) no_family by blast
  ultimately have "ipv4_count (with_address p st') \<le> 1" using n by (simp split: if_splits)
  then show ?thesis unfolding added(7) by (rule one_ipv4_set [OF assms(1)]) simp
qed

lemma one_ipv4_removeAddress:
  assumes "one_ipv4 s" "removeAddress ex i cidr s = (r, s')"
  shows "one_ipv4 s'"
  using assms(2)
proof (cases rule: removeAddress_cases)
  case same
  with assms(1) show ?thesis using one_ipv4_states by blast
next
  case (removed st p ad st' t l)
  have "if_addresses st' = if_addresses st" using removed(5) by (rule release_addresses)
  moreover have "ipv4_count st \<le> 1" 
    by (rule one_ipv4D [OF assms(1) getAttachedState_get [OF removed(2), THEN conjunct1]])
  ultimately have "ipv4_count (st'\<lparr>if_addresses := map_delete (pc_canonical p) (if_addresses st')\<rparr>) \<le> 1"
    using length_filter_delete [of "\<lambda>(c, a). as_family a = Family4" "pc_canonical p" "if_addresses st"]
    by (simp add: ipv4_count_def)
  then show ?thesis unfolding removed(6) by (rule one_ipv4_set [OF assms(1)]) simp
qed

lemma one_ipv4_attach:
  assumes "one_ipv4 s" "attach v i h cidrs s = (r, s')" "length cidrs \<le> 1"
  shows "one_ipv4 s'"
proof (cases "map_get (ns_states s) i = None")
  case False
  with assms show ?thesis by (auto simp: attach_def)
next
  case True
  let ?st = "\<lparr>if_handle = h, if_addresses = [], connectedRoutes = [], if_detached = False\<rparr> :: 'a interface_state"
  obtain q st t where l: "attach_loop v i cidrs (?st, ns_routes s) = (q, st, t)" by (metis prod_cases3)
  then have "s' = set_state i st (s\<lparr>ns_routes := t\<rparr>)" using assms(2) True by (simp add: attach_def)
  with attach_loop_single [OF assms(3) l] assms(1) show ?thesis by (simp add: one_ipv4_set)
qed

lemma one_ipv4_remove:
  assumes "one_ipv4 s" "remove_interface ex i terminal s = (r, s')"
  shows "one_ipv4 s'"
proof -
  obtain q s1 where d: "detach ex i terminal s = (q, s1)" by fastforce
  have "one_ipv4 s1"
  proof (cases "\<exists>st. map_get (ns_states s) i = Some st \<and> \<not> if_detached st")
    case True
    then obtain st where "map_get (ns_states s) i = Some st" "\<not> if_detached st" by blast
    with d have s1: "s1 = set_state i (st\<lparr>if_detached := True, connectedRoutes := [], if_addresses := []\<rparr>)
        (s\<lparr>ns_routes := ns_routes s1, ns_lwip := ns_lwip s1\<rparr>)"
      by (auto simp: detach_def Let_def set_state_def)
    have "ipv4_count (st\<lparr>if_detached := True, connectedRoutes := [], if_addresses := []\<rparr>) \<le> 1"
      by (simp add: ipv4_count_def)
    from one_ipv4_set [OF assms(1) this, of "s\<lparr>ns_routes := ns_routes s1, ns_lwip := ns_lwip s1\<rparr>" i] s1
    show ?thesis by simp
  next
    case False
    with d assms(1) show ?thesis by (auto simp: detach_def split: option.splits if_splits)
  qed
  moreover have "ns_states s' = ns_states s1"
    using assms(2) d by (auto simp: remove_interface_def split: sum.splits)
  ultimately show ?thesis using one_ipv4_states by blast
qed

lemma one_ipv4_step: "net_step w w' \<Longrightarrow> one_ipv4 (fst w) \<Longrightarrow> one_ipv4 (fst w')"
proof (induction rule: net_step.induct)
  case (do_attach v i s cidrs h r s' hs)
  then show ?case using one_ipv4_attach [OF _ do_attach(4,3)] by simp
next
  case (do_remove ex i terminal s r s' hs)
  then show ?case using one_ipv4_remove [OF _ do_remove(1)] by simp
next
  case (do_addAddress ex v i cidr s r s' hs)
  then show ?case using one_ipv4_addAddress [OF _ do_addAddress(1)] by simp
next
  case (do_removeAddress ex i cidr s r s' hs)
  then show ?case using one_ipv4_removeAddress [OF _ do_removeAddress(1)] by simp
qed (simp_all add: one_ipv4_def)

lemma one_ipv4_reachable: "net_reachable w \<Longrightarrow> one_ipv4 (fst w)"
proof (induction rule: net_reachable.induct)
  case (net_next w w')
  then show ?case using one_ipv4_step by blast
qed (simp add: one_ipv4_def net_init_def)

subsection \<open>Properties\<close>

text \<open>C10: In every reachable state of the interfaces, an address of an interface has its connected
  route in the routing table: through the interface, to the network of the address, counting
  exactly the addresses that the interface has in that network. So a packet to the address finds a
  route. An interface has at most one IPv4 address. Users' own routes, added and disposed of
  between the calls, and errors of lwIP, which may come from any call, change nothing in this.\<close>

theorem interface_connected_routes:
  assumes "net_reachable (s, hs)" "map_get (ns_states s) i = Some st" "(c, a) \<in> set (if_addresses st)"
  shows "(\<exists>r. map_get (connectedRoutes st) (connectedNetwork a) = Some r
      \<and> rh_route (cr_handle r) \<in> set (tb_routes (ns_routes s)) \<and> rt_via (rh_route (cr_handle r)) = i
      \<and> rt_destination (rh_route (cr_handle r)) = connectedNetwork a
      \<and> rt_source (rh_route (cr_handle r)) = Connected
      \<and> cr_references r = length (filter (\<lambda>(c, b). connectedNetwork b = connectedNetwork a) (if_addresses st)))
    \<and> lookupBytes (as_family a) (as_bytes a) (ns_routes s) \<noteq> None
    \<and> length (filter (\<lambda>(c, b). as_family b = Family4) (if_addresses st)) \<le> 1"
proof -
  have inv: "net_inv (s, hs)" using assms(1) by (rule net_reachable_inv)
  then have mem: "(i, st) \<in> set (ns_states s)" using assms(2) by (simp add: net_inv_def map_get_in_set)
  then have ok: "state_ok (ns_routes s) i st" using inv by (auto simp: net_inv_def)
  have ri: "route_inv (ns_routes s, hs)" using inv by (simp add: net_inv_def)
  have refs: "references (connectedNetwork a) st = served_by (connectedNetwork a) st" using ok by (simp add: state_ok_def)
  have "served_by (connectedNetwork a) st \<noteq> 0"
    using assms(3) by (auto simp: served_by_def filter_empty_conv)
  then obtain r where r: "map_get (connectedRoutes st) (connectedNetwork a) = Some r"
    using refs by (cases "map_get (connectedRoutes st) (connectedNetwork a)") (simp_all add: references_def)
  then have l: "link_ok (ns_routes s) i (connectedNetwork a, r)"
    using ok by (simp add: state_ok_def routes_ok_def map_get_in_set)
  have "entry_ok (c, a)" using ok assms(3) by (simp add: state_ok_def)
  note cov = connected_route_covers [OF ri l this]
  have "ipv4_count st \<le> 1" by (rule one_ipv4D [OF one_ipv4_reachable [OF assms(1), simplified] assms(2)])
  with r l cov refs show ?thesis
    by (simp add: link_ok_def references_def served_by_def ipv4_count_def)
qed

lemma acquire_release:
  assumes inv: "route_inv (t, hs)" and ok: "routes_ok t i st" and p: "parseInterfaceCidr cidr = Inr p"
    and a: "acquireConnectedRoute v i (pc_network p) (st, t) = Inr (st', t')"
  shows "\<exists>t''. releaseConnectedRoute (pc_network p) (st'\<lparr>if_addresses := m\<rparr>, t') =
    (st\<lparr>if_addresses := m\<rparr>, t'') \<and> tb_routes t'' = tb_routes t"
  using a
proof (cases rule: acquire_cases)
  case (old r)
  have "0 < cr_references r"
    using ok old(1) by (auto simp: routes_ok_def link_ok_def map_get_in_set)
  then show ?thesis
    using old by (simp add: releaseConnectedRoute_def map_get_set map_set_back)
next
  case (new h)
  note h = add_connected [OF p new(2)]
  have "filter (\<lambda>r. rt_order r \<noteq> rt_order (rh_route h)) (tb_routes t) = tb_routes t"
    using inv h by (intro filter_True) (fastforce simp: route_inv_def)
  then show ?thesis
    using new h by (simp add: releaseConnectedRoute_def map_get_set map_delete_set_new dispose_route_def)
qed

text \<open>Adding an address and removing it again gives back what was: the interface has the
  addresses and connected routes it had, with their counts, and the routing table the same routes
  in the same order, whether the address was the first of its network or not.\<close>

theorem addAddress_removeAddress:
  assumes "net_reachable (s, hs)" "map_get (ns_states s) i = Some st" "parseInterfaceCidr cidr = Inr p"
    and "map_get (if_addresses st) (pc_canonical p) = None"
    and "addAddress ex v i cidr s = (Inr (), s1)" "removeAddress ex i cidr s1 = (Inr (), s2)"
  shows "ns_states s2 = ns_states s \<and> tb_routes (ns_routes s2) = tb_routes (ns_routes s)"
proof -
  have inv: "net_inv (s, hs)" using assms(1) by (rule net_reachable_inv)
  from assms(5) show ?thesis
  proof (cases rule: addAddress_cases)
    case same
    have "map_get (ns_states s1) i = Some st" using same assms(2) by simp
    from assms(6) show ?thesis
    proof (cases rule: removeAddress_cases)
      case (removed st' p' ad)
      then have "st' = st" "p' = p"
        using getAttachedState_get [OF removed(2)] \<open>map_get (ns_states s1) i = Some st\<close> assms(3) by auto
      with removed(4) assms(4) show ?thesis by simp
    qed (use same in simp)
  next
    case (added st0 p0 st' t l)
    note st0 = getAttachedState_Inr [OF inv added(2)]
    then have [simp]: "st0 = st" "p0 = p" using added(3) assms(2,3) by auto
    have ri: "route_inv (ns_routes s, hs)" "routes_ok (ns_routes s) i st"
      using inv st0 by (auto simp: net_inv_def state_ok_def)
    note a = added(6) [simplified]
    have ad: "if_addresses st' = if_addresses st" using a by (rule acquire_addresses)
    have dt: "if_detached st' = if_detached st" using a by (cases rule: acquire_cases) auto
    have s1: "getAttachedState i s1 = Inr (with_address p st')"
      using st0 dt by (simp add: added(7) getAttachedState_def getState_def set_state_def map_get_set with_address_def)
    have wa: "with_address p st' = st'\<lparr>if_addresses := if_addresses st @ [(pc_canonical p, address_entry p)]\<rparr>"
      using assms(4) by (simp add: with_address_def ad map_set_new)
    have got: "map_get (if_addresses (with_address p st')) (pc_canonical p) = Some (address_entry p)"
      by (simp add: with_address_def map_get_set)
    from assms(6) show ?thesis
    proof (cases rule: removeAddress_cases)
      case same
      from same(3) [OF _ s1 assms(3)] got show ?thesis by simp
    next
      case (removed st1 p1 e st2 t2 l2)
      have [simp]: "st1 = with_address p st'" "p1 = p" using removed(2,3) s1 assms(3) by auto
      have [simp]: "e = address_entry p" using removed(4) got by simp
      obtain t'' where "releaseConnectedRoute (pc_network p) (with_address p st', t) =
          (st\<lparr>if_addresses := if_addresses st @ [(pc_canonical p, address_entry p)]\<rparr>, t'')"
        "tb_routes t'' = tb_routes (ns_routes s)"
        using acquire_release [OF ri assms(3) a] unfolding wa by blast
      then have st2: "st2 = st\<lparr>if_addresses := if_addresses st @ [(pc_canonical p, address_entry p)]\<rparr>"
        "tb_routes t2 = tb_routes (ns_routes s)"
        using removed(5) by (simp_all add: added(7) set_state_def address_entry_def)
      then have "st2\<lparr>if_addresses := map_delete (pc_canonical p) (if_addresses st2)\<rparr> = st"
        using assms(4) by (simp add: map_delete_new)
      with st2 show ?thesis using assms(2)
        by (simp add: removed(6) added(7) set_state_def map_set_back)
    qed
  qed
qed

subsection \<open>Witnesses\<close>

text \<open>An lwIP that says yes to everything, and interface 0 with 192.168.1.7/23.\<close>

definition example_exports :: "unit netif_exports" where
  "example_exports = \<lparr>get_interface_mtu = (\<lambda>_ _. 1500), set_interface_mtu = (\<lambda>_ _ l. (0, l)),
     set_interface_ip4_address = (\<lambda>_ _ _ l. (0, l)), clear_interface_ip4_address = (\<lambda>_ l. l),
     add_interface_ip6_address = (\<lambda>_ _ l. (0, l)), remove_interface_ip6_address = (\<lambda>_ _ l. (0, l)),
     set_interface_router_advertisements = (\<lambda>_ _ l. (0, l))\<rparr>"

definition example_net :: "(nat, unit) net_state" where
  "example_net = snd (attach (\<lambda>_. Inr ()) 0 1 [] (net_init ()))"

definition example_added :: "(nat, unit) net_state" where
  "example_added = snd (addAddress example_exports (\<lambda>_. Inr ()) 0 (lit ''192.168.1.7/23'') example_net)"

lemma example_net_reachable: "net_reachable (example_net, [])"
proof -
  have "net_step (net_init (), []) (example_net, [])"
    unfolding example_net_def
    by (rule do_attach [of _ 0 _ "[]" 1 "fst (attach (\<lambda>_. Inr ()) 0 1 [] (net_init ()))"])
      (simp_all add: net_init_def table_init_def attach_def)
  then show ?thesis by (rule net_next [OF net_start])
qed

lemma example_add: "addAddress example_exports (\<lambda>_. Inr ()) 0 (lit ''192.168.1.7/23'') example_net = (Inr (), example_added)"
proof -
  have "fst (addAddress example_exports (\<lambda>_. Inr ()) 0 (lit ''192.168.1.7/23'') example_net) = Inr ()"
    by code_simp
  then show ?thesis by (simp add: example_added_def prod_eq_iff)
qed

lemma example_added_reachable: "net_reachable (example_added, [])"
  by (rule net_next [OF example_net_reachable]) (rule do_addAddress [OF example_add])

theorem interface_connected_routes_witness:
  "lookupBytes Family4 [192, 168, 1, 7] (ns_routes example_added) \<noteq> None"
proof -
  obtain st c a where e: "map_get (ns_states example_added) 0 = Some st" "(c, a) \<in> set (if_addresses st)"
    "as_family a = Family4" "as_bytes a = [192, 168, 1, 7]"
  proof -
    have "map_get (ns_states example_added) 0 = Some (snd (hd (ns_states example_added)))"
      "if_addresses (snd (hd (ns_states example_added))) = [(lit ''192.168.1.7/23'', \<lparr>as_cidr = lit ''192.168.1.7/23'',
         as_family = Family4, as_bytes = [192, 168, 1, 7], connectedNetwork = lit ''192.168.0.0/23''\<rparr>)]"
      by code_simp+
    then show ?thesis by (intro that) auto
  qed
  from interface_connected_routes [OF example_added_reachable e(1,2)] e(3,4) show ?thesis by simp
qed

theorem addAddress_removeAddress_witness:
  "ns_states (snd (removeAddress example_exports 0 (lit ''192.168.1.7/23'') example_added)) = ns_states example_net"
proof -
  have g: "map_get (ns_states example_net) 0 =
      Some \<lparr>if_handle = 1, if_addresses = [], connectedRoutes = [], if_detached = False\<rparr>"
    by code_simp
  have "fst (removeAddress example_exports 0 (lit ''192.168.1.7/23'') example_added) = Inr ()" by code_simp
  then have r: "removeAddress example_exports 0 (lit ''192.168.1.7/23'') example_added =
      (Inr (), snd (removeAddress example_exports 0 (lit ''192.168.1.7/23'') example_added))"
    by (simp add: prod_eq_iff)
  from addAddress_removeAddress [OF example_net_reachable g parseInterfaceCidr_example _ example_add r]
  show ?thesis by simp
qed

end
