(* ===== verification/Net_Advertise.thy ===== *)
theory Net_Advertise
  imports Net_Addresses
begin

text \<open>
  The router advertisements that \<open>setRouterAdvertisements\<close> accepts and the arrays it makes of them.
\<close>

text \<open>Thirty-two bits, lowest byte first, as lwIP's side reads them.\<close>

definition le32 :: "int \<Rightarrow> bytes" where
  "le32 x = [of_int x, of_int (x div 256), of_int (x div 65536), of_int (x div 16777216)]"

definition valid_of :: "advertised_prefix \<Rightarrow> int" where
  "valid_of e = metric_value (case ap_validLifetime e of Some n \<Rightarrow> n | None \<Rightarrow> Whole 86400)"

definition preferred_of :: "advertised_prefix \<Rightarrow> int" where
  "preferred_of e = metric_value (case ap_preferredLifetime e of Some n \<Rightarrow> n | None \<Rightarrow> Whole 14400)"

definition initial_of :: "advertised_prefix \<Rightarrow> byte" where
  "initial_of e = (if ap_initialOnly e = Some True then 1 else 0)"

text \<open>A prefix that can be advertised, with what its text stands for.\<close>

definition lifetimes_ok :: "advertised_prefix \<Rightarrow> bool" where
  "lifetimes_ok e \<longleftrightarrow> isUint32 (case ap_validLifetime e of Some n \<Rightarrow> n | None \<Rightarrow> Whole 86400) \<and>
     isUint32 (case ap_preferredLifetime e of Some n \<Rightarrow> n | None \<Rightarrow> Whole 14400) \<and> preferred_of e \<le> valid_of e"

definition advertisable :: "advertised_prefix \<Rightarrow> parsed_cidr \<Rightarrow> bool" where
  "advertisable e p \<longleftrightarrow> parseCidr (ap_prefix e) = Inr p \<and> pa_family p = Family6 \<and> pc_prefixLength p = 64 \<and>
     lifetimes_ok e"

lemma setUint32_le_segment:
  assumes "length a = i"
  shows "setUint32_le i x (a @ replicate 4 0 @ b) = Inr (a @ le32 x @ b)"
  using assms by (auto simp: setUint32_le_def le32_def list_update_append numeral_eq_Suc)

lemma setBytes_zeros:
  assumes "length a = i" "length v = n"
  shows "setBytes i (Inr v) (a @ replicate n 0 @ b) = Inr (a @ v @ b)"
  using assms by (simp add: setBytes_def)

lemma replicate_block: "replicate (Suc n * k) x = replicate k x @ replicate (n * k) x"
  by (simp add: replicate_add)

lemma parseCidr_length6: "parseCidr c = Inr p \<Longrightarrow> pa_family p = Family6 \<Longrightarrow> length (pa_bytes p) = 16"
  using parseCidr_canonical [of c p] by (simp add: family_bytes_def)

definition partial_table :: "bytes \<Rightarrow> bytes \<Rightarrow> bytes \<Rightarrow> bytes \<Rightarrow> nat \<Rightarrow> nat \<Rightarrow> advertisement_table" where
  "partial_table ps vs rs os n c = \<lparr>at_prefixes = ps @ replicate (n * 16) 0, at_validLifetimes = vs @ replicate (n * 4) 0,
     at_preferredLifetimes = rs @ replicate (n * 4) 0, at_initialOnly = os @ replicate n 0, at_count = c\<rparr>"

lemma encode_prefixes_step:
  assumes e: "advertisable e p" and new: "pc_canonical p \<notin> set seen"
    and l: "length ps = k * 16" "length vs = k * 4" "length rs = k * 4" "length os = k"
  shows "encode_prefixes k seen (e # es) (partial_table ps vs rs os (Suc n) c) =
    encode_prefixes (k + 1) (pc_canonical p # seen) es
      (partial_table (ps @ pa_bytes p) (vs @ le32 (valid_of e)) (rs @ le32 (preferred_of e)) (os @ [initial_of e]) n c)"
proof -
  have b: "length (pa_bytes p) = 16" using e parseCidr_length6 by (auto simp: advertisable_def)
  have "setBytes (k * 16) (Inr (pa_bytes p)) (ps @ replicate (Suc n * 16) 0) = Inr ((ps @ pa_bytes p) @ replicate (n * 16) 0)"
    using setBytes_zeros [OF l(1) b] by (simp only: replicate_block append_assoc)
  moreover have "setUint32_le (k * 4) x (vs @ replicate (Suc n * 4) 0) = Inr ((vs @ le32 x) @ replicate (n * 4) 0)" for x
    using setUint32_le_segment [OF l(2)] by (simp only: replicate_block append_assoc)
  moreover have "setUint32_le (k * 4) x (rs @ replicate (Suc n * 4) 0) = Inr ((rs @ le32 x) @ replicate (n * 4) 0)" for x
    using setUint32_le_segment [OF l(3)] by (simp only: replicate_block append_assoc)
  moreover have "(os @ replicate (Suc n) 0)[k := initial_of e] = (os @ [initial_of e]) @ replicate n 0"
    using l(4) by (simp add: list_update_append)
  ultimately show ?thesis
    using e new
    by (simp add: advertisable_def lifetimes_ok_def partial_table_def Let_def not_less initial_of_def
        flip: valid_of_def preferred_of_def del: mult_Suc replicate.simps)
qed

lemma encode_prefixes_guard:
  assumes "encode_prefixes k seen (e # es) tab = Inr tab'"
  shows "\<exists>p. advertisable e p \<and> pc_canonical p \<notin> set seen"
proof (cases "parseCidr (ap_prefix e)")
  case (Inl err)
  with assms show ?thesis by simp
next
  case (Inr p)
  have "pa_family p = Family6" "pc_prefixLength p = 64" "pc_canonical p \<notin> set seen" "lifetimes_ok e"
    using assms Inr by (auto simp: lifetimes_ok_def preferred_of_def valid_of_def not_less Let_def split: if_splits)
  with Inr show ?thesis by (auto simp: advertisable_def)
qed

lemma encode_prefixes_iff:
  assumes "length ps = k * 16" "length vs = k * 4" "length rs = k * 4" "length os = k"
  shows "encode_prefixes k seen es (partial_table ps vs rs os (length es) c) = Inr tab \<longleftrightarrow>
    (\<exists>pcs. list_all2 advertisable es pcs \<and> distinct (map pc_canonical pcs) \<and>
      set (map pc_canonical pcs) \<inter> set seen = {} \<and>
      tab = partial_table (ps @ concat (map pa_bytes pcs)) (vs @ concat (map (le32 \<circ> valid_of) es))
        (rs @ concat (map (le32 \<circ> preferred_of) es)) (os @ map initial_of es) 0 c)"
  using assms
proof (induction es arbitrary: k seen ps vs rs os)
  case Nil
  then show ?case by auto
next
  case (Cons e es)
  show ?case
  proof (cases "\<exists>p. advertisable e p \<and> pc_canonical p \<notin> set seen")
    case False
    then show ?thesis using encode_prefixes_guard [of k seen e es] by (fastforce simp: list_all2_Cons1)
  next
    case True
    then obtain p where p: "advertisable e p" "pc_canonical p \<notin> set seen" by blast
    have u: "q = p" if "advertisable e q" for q using that p(1) by (simp add: advertisable_def)
    have b: "length (pa_bytes p) = 16" using p parseCidr_length6 by (auto simp: advertisable_def)
    have "encode_prefixes k seen (e # es) (partial_table ps vs rs os (length (e # es)) c) = Inr tab \<longleftrightarrow>
      (\<exists>pcs. list_all2 advertisable es pcs \<and> distinct (map pc_canonical pcs) \<and>
        set (map pc_canonical pcs) \<inter> set (pc_canonical p # seen) = {} \<and>
        tab = partial_table ((ps @ pa_bytes p) @ concat (map pa_bytes pcs))
          ((vs @ le32 (valid_of e)) @ concat (map (le32 \<circ> valid_of) es))
          ((rs @ le32 (preferred_of e)) @ concat (map (le32 \<circ> preferred_of) es))
          ((os @ [initial_of e]) @ map initial_of es) 0 c)"
      using Cons.prems b unfolding length_Cons
      by (subst encode_prefixes_step [OF p Cons.prems], subst Cons.IH) (simp_all add: le32_def)
    also have "\<dots> \<longleftrightarrow> (\<exists>pcs. list_all2 advertisable (e # es) pcs \<and> distinct (map pc_canonical pcs) \<and>
      set (map pc_canonical pcs) \<inter> set seen = {} \<and>
      tab = partial_table (ps @ concat (map pa_bytes pcs)) (vs @ concat (map (le32 \<circ> valid_of) (e # es)))
        (rs @ concat (map (le32 \<circ> preferred_of) (e # es))) (os @ map initial_of (e # es)) 0 c)"
      (is "?L \<longleftrightarrow> ?R")
    proof
      assume ?L
      then obtain pcs where q: "list_all2 advertisable es pcs" "distinct (map pc_canonical pcs)"
        "set (map pc_canonical pcs) \<inter> set (pc_canonical p # seen) = {}"
        "tab = partial_table ((ps @ pa_bytes p) @ concat (map pa_bytes pcs))
          ((vs @ le32 (valid_of e)) @ concat (map (le32 \<circ> valid_of) es))
          ((rs @ le32 (preferred_of e)) @ concat (map (le32 \<circ> preferred_of) es))
          ((os @ [initial_of e]) @ map initial_of es) 0 c" by blast
      with p show ?R by (intro exI [of _ "p # pcs"]) auto
    next
      assume ?R
      then obtain pcs where q: "list_all2 advertisable es pcs" "distinct (map pc_canonical (p # pcs))"
        "set (map pc_canonical (p # pcs)) \<inter> set seen = {}"
        "tab = partial_table (ps @ concat (map pa_bytes (p # pcs))) (vs @ concat (map (le32 \<circ> valid_of) (e # es)))
        (rs @ concat (map (le32 \<circ> preferred_of) (e # es))) (os @ map initial_of (e # es)) 0 c"
        using u by (auto simp: list_all2_Cons1)
      then show ?L by (intro exI [of _ pcs]) auto
    qed
    finally show ?thesis .
  qed
qed

subsection \<open>Properties\<close>

text \<open>The arrays for a list of prefixes, from the bytes of the prefixes and their lifetimes.\<close>

definition advertised :: "advertised_prefix list \<Rightarrow> parsed_cidr list \<Rightarrow> advertisement_table" where
  "advertised es pcs = \<lparr>at_prefixes = concat (map pa_bytes pcs), at_validLifetimes = concat (map (le32 \<circ> valid_of) es),
     at_preferredLifetimes = concat (map (le32 \<circ> preferred_of) es), at_initialOnly = map initial_of es,
     at_count = length es\<rparr>"

lemma encode_advertised:
  "encode_prefixes 0 [] es (empty_table (length es)) = Inr tab \<longleftrightarrow>
    (\<exists>pcs. list_all2 advertisable es pcs \<and> distinct (map pc_canonical pcs) \<and> tab = advertised es pcs)"
proof -
  have "empty_table (length es) = partial_table [] [] [] [] (length es) (length es)"
    by (simp add: empty_table_def partial_table_def)
  then show ?thesis
    using encode_prefixes_iff [of "[]" 0 "[]" "[]" "[]" "[]" es "length es" tab]
    by (simp add: partial_table_def advertised_def)
qed

lemma le32_value:
  assumes "0 \<le> x" "x \<le> 4294967295"
  shows "uint (le32 x ! 0) + 256 * uint (le32 x ! 1) + 65536 * uint (le32 x ! 2) + 16777216 * uint (le32 x ! 3) = x"
proof -
  have "uint (of_int y :: byte) = y mod 256" for y by (simp add: uint_word_of_int)
  then have "uint (le32 x ! 0) = x mod 256" "uint (le32 x ! 1) = (x div 256) mod 256"
    "uint (le32 x ! 2) = (x div 65536) mod 256" "uint (le32 x ! 3) = (x div 16777216) mod 256"
    by (simp_all add: le32_def numeral_eq_Suc)
  moreover have "x div 65536 = x div 256 div 256" "x div 16777216 = x div 256 div 256 div 256"
    by (simp_all add: zdiv_zmult2_eq [symmetric])
  moreover have "x div 16777216 < 256" "0 \<le> x div 16777216" using assms by simp_all
  moreover have "y = 256 * (y div 256) + y mod 256" for y :: int by simp
  ultimately show ?thesis by (smt (verit) mod_pos_pos_trivial)
qed

text \<open>C36: \<open>setRouterAdvertisements\<close> succeeds exactly when the interface is attached with an MTU of at
  least 1280, there are one to eight prefixes, each a canonical IPv6 /64 with lifetimes that are
  unsigned 32-bit numbers, the preferred no longer than the valid one, no prefix is given twice,
  and lwIP takes the table; the table then holds the bytes of the prefixes one after the other and
  the lifetimes as four bytes each, lowest first, which read back as the numbers given or the
  defaults. When it fails before asking lwIP, nothing has changed.\<close>

theorem router_advertisements_encoded:
  assumes "getAttachedState i s = Inr st" "es = configured_prefixes opts"
  shows "(setRouterAdvertisements ex i (Some opts) s = (Inr (), s') \<longleftrightarrow>
      1280 \<le> get_interface_mtu ex (if_handle st) (ns_lwip s) \<and> 1 \<le> length es \<and> length es \<le> 8 \<and>
      (\<exists>pcs l. list_all2 advertisable es pcs \<and> distinct (map pc_canonical pcs) \<and>
        set_interface_router_advertisements ex (if_handle st) (Some (advertised es pcs)) (ns_lwip s) = (0, l) \<and>
        s' = s\<lparr>ns_lwip := l\<rparr>))
    \<and> (\<forall>e\<in>set es. lifetimes_ok e \<longrightarrow> (\<forall>x\<in>{valid_of e, preferred_of e}.
        uint (le32 x ! 0) + 256 * uint (le32 x ! 1) + 65536 * uint (le32 x ! 2) + 16777216 * uint (le32 x ! 3) = x))
    \<and> (\<forall>e. encode_prefixes 0 [] es (empty_table (length es)) = Inl e \<longrightarrow>
        snd (setRouterAdvertisements ex i (Some opts) s) = s)"
proof (intro conjI ballI impI allI)
  show "setRouterAdvertisements ex i (Some opts) s = (Inr (), s') \<longleftrightarrow>
      1280 \<le> get_interface_mtu ex (if_handle st) (ns_lwip s) \<and> 1 \<le> length es \<and> length es \<le> 8 \<and>
      (\<exists>pcs l. list_all2 advertisable es pcs \<and> distinct (map pc_canonical pcs) \<and>
        set_interface_router_advertisements ex (if_handle st) (Some (advertised es pcs)) (ns_lwip s) = (0, l) \<and>
        s' = s\<lparr>ns_lwip := l\<rparr>)"
  proof (cases "get_interface_mtu ex (if_handle st) (ns_lwip s) < 1280 \<or> length es = 0 \<or> length es > 8")
    case True
    then show ?thesis using assms by (auto simp: setRouterAdvertisements_def Let_def)
  next
    case False
    then have a: "setRouterAdvertisements ex i (Some opts) s =
      (case encode_prefixes 0 [] es (empty_table (length es)) of Inl e \<Rightarrow> (Inl e, s)
       | Inr tab \<Rightarrow> let (result, l) = set_interface_router_advertisements ex (if_handle st) (Some tab) (ns_lwip s) in
           (if result \<noteq> 0 then Inl (Error (lit ''failed to enable router advertisements: '' @ number_text result))
            else Inr (), s\<lparr>ns_lwip := l\<rparr>))"
      using assms by (simp add: setRouterAdvertisements_def Let_def)
    show ?thesis
    proof (cases "encode_prefixes 0 [] es (empty_table (length es))")
      case (Inl e)
      then have "\<not> (\<exists>pcs. list_all2 advertisable es pcs \<and> distinct (map pc_canonical pcs))"
        using encode_advertised [of es] by auto
      with a Inl show ?thesis by auto
    next
      case (Inr tab)
      then obtain pcs where p: "list_all2 advertisable es pcs" "distinct (map pc_canonical pcs)" "tab = advertised es pcs"
        using encode_advertised by blast
      have u: "advertised es qcs = tab" if "list_all2 advertisable es qcs" "distinct (map pc_canonical qcs)" for qcs
        using encode_advertised [of es "advertised es qcs"] that Inr by auto
      obtain result l where r: "set_interface_router_advertisements ex (if_handle st) (Some tab) (ns_lwip s) = (result, l)"
        by fastforce
      have "setRouterAdvertisements ex i (Some opts) s = (Inr (), s') \<longleftrightarrow> result = 0 \<and> s' = s\<lparr>ns_lwip := l\<rparr>"
        using a Inr r by auto
      moreover have "(\<exists>pcs l. list_all2 advertisable es pcs \<and> distinct (map pc_canonical pcs) \<and>
        set_interface_router_advertisements ex (if_handle st) (Some (advertised es pcs)) (ns_lwip s) = (0, l) \<and>
        s' = s\<lparr>ns_lwip := l\<rparr>) \<longleftrightarrow> result = 0 \<and> s' = s\<lparr>ns_lwip := l\<rparr>"
      proof -
        have "(\<exists>pcs l. list_all2 advertisable es pcs \<and> distinct (map pc_canonical pcs) \<and>
            set_interface_router_advertisements ex (if_handle st) (Some (advertised es pcs)) (ns_lwip s) = (0, l) \<and>
            s' = s\<lparr>ns_lwip := l\<rparr>) \<longleftrightarrow> (\<exists>k. (result, l) = (0, k) \<and> s' = s\<lparr>ns_lwip := k\<rparr>)"
          using p u r by metis
        then show ?thesis by simp
      qed
      ultimately show ?thesis using False by (simp add: not_less Suc_le_eq)
    qed
  qed
next
  fix e x
  assume "lifetimes_ok e" "x \<in> {valid_of e, preferred_of e}"
  then have "0 \<le> x" "x \<le> 4294967295"
    by (auto simp: lifetimes_ok_def isUint32_def valid_of_def preferred_of_def)
  then show "uint (le32 x ! 0) + 256 * uint (le32 x ! 1) + 65536 * uint (le32 x ! 2) + 16777216 * uint (le32 x ! 3) = x"
    by (rule le32_value)
next
  fix e
  assume "encode_prefixes 0 [] es (empty_table (length es)) = Inl e"
  then show "snd (setRouterAdvertisements ex i (Some opts) s) = s"
    using assms by (simp add: setRouterAdvertisements_def Let_def)
qed

lemma example_prefix:
  obtains prefix p where "parseCidr prefix = Inr p" "pa_family p = Family6" "pc_prefixLength p = 64"
    "pa_bytes p = [32, 1, 13, 184, 0, 0, 0, 0, 0, 0, 0, 0, 0, 0, 0, 0]"
proof -
  let ?bs = "[32, 1, 13, 184, 0, 0, 0, 0, 0, 0, 0, 0, 0, 0, 0, 0] :: bytes"
  obtain t where t: "formatAddress Family6 ?bs = Inr t"
    using formatAddress_ok [of ?bs Family6] by (auto simp: family_bytes_def)
  have m: "maskAddress ?bs 64 = ?bs" by code_simp
  have "parseInterfaceCidr (t @ lit ''/'' @ num_str 10 64) = cidr_of Family6 ?bs 64"
    using t by (intro parseInterfaceCidr_text) (simp_all add: family_bytes_def)
  with t m have "\<exists>p. parseInterfaceCidr (t @ lit ''/'' @ num_str 10 64) = Inr p \<and> cidr_of Family6 ?bs 64 = Inr p"
    by (auto simp: cidr_of_def)
  then obtain p where p: "parseInterfaceCidr (t @ lit ''/'' @ num_str 10 64) = Inr p" "cidr_of Family6 ?bs 64 = Inr p"
    by blast
  note f = cidr_of_fields [OF p(2)]
  then have "parseCidr (t @ lit ''/'' @ num_str 10 64) = Inr p"
    using p(1) m by (simp add: parseCidr_def equalBytes_eq)
  with f(1-3) that show ?thesis by blast
qed

theorem router_advertisements_encoded_witness:
  "(\<exists>prefix. fst (setRouterAdvertisements example_exports 0 (Some (Single_prefix prefix)) example_net) = Inr ())
   \<and> le32 86400 = [128, 81, 1, 0]"
proof -
  have g: "getAttachedState 0 example_net =
      Inr \<lparr>if_handle = 1, if_addresses = [], connectedRoutes = [], if_detached = False\<rparr>"
    by code_simp
  obtain prefix p where p: "parseCidr prefix = Inr p" "pa_family p = Family6" "pc_prefixLength p = 64"
    "pa_bytes p = [32, 1, 13, 184, 0, 0, 0, 0, 0, 0, 0, 0, 0, 0, 0, 0]"
    by (rule example_prefix)
  let ?es = "configured_prefixes (Single_prefix prefix)"
  have "list_all2 advertisable ?es [p]"
    using p by (simp add: configured_prefixes_def advertisable_def lifetimes_ok_def isUint32_def isSafeInteger_def
        metric_value_def preferred_of_def valid_of_def)
  moreover have "distinct (map pc_canonical [p])" by simp
  moreover have "get_interface_mtu example_exports 1 () = 1500"
    "set_interface_router_advertisements example_exports 1 (Some (advertised ?es [p])) (ns_lwip example_net) = (0, ())"
    by (simp_all add: example_exports_def)
  moreover have "length ?es = 1" by (simp add: configured_prefixes_def)
  ultimately have "setRouterAdvertisements example_exports 0 (Some (Single_prefix prefix)) example_net =
      (Inr (), example_net\<lparr>ns_lwip := ()\<rparr>)"
    by (intro router_advertisements_encoded [OF g refl, THEN conjunct1, THEN iffD2]) auto
  then have "fst (setRouterAdvertisements example_exports 0 (Some (Single_prefix prefix)) example_net) = Inr ()"
    by simp
  moreover have "le32 86400 = [128, 81, 1, 0]" by (simp add: le32_def)
  ultimately show ?thesis by blast
qed

end
