(* ===== verification/Icmp_Sessions.thy ===== *)
theory Icmp_Sessions
  imports Ip_Routes Net_Errors
begin

text \<open>
  Ping sessions (\<open>packages/tcpip/src/bindings/icmp.ts\<close>). The pings of all sessions wait in one
  map, under a key made of host, identifier and sequence number. A ping is a promise; promises are
  numbered, and the timer of a ping has the number of its promise. lwIP is a state of any type with
  the exported functions; its callback, the timers and the microtasks are inputs in any order, and
  so are the calls of the user. Payloads are values: the array given with a ping is not changed
  while the ping waits.
\<close>

subsection \<open>State\<close>

record pending_ping =
  pp_host :: jstring
  pp_identifier :: "16 word"
  pp_sequenceNumber :: "16 word"
  pp_payload :: bytes
  pp_startedAt :: int
  pp_promise :: nat

record ping_reply =
  rp_host :: jstring
  rp_identifier :: "16 word"
  rp_sequenceNumber :: "16 word"
  rp_payload :: bytes
  rp_roundTripTime :: int

record ping_session =
  ps_resolved :: parsed_address
  ps_host :: jstring
  ps_identifier :: "16 word"
  ps_timeout :: int
  ps_closed :: bool
  ps_sequenceNumber :: "16 word"

record 'l icmp_exports =
  open_icmp_socket :: "address_family \<Rightarrow> 'l \<Rightarrow> nat \<times> 'l"
  send_icmp_echo_request :: "nat \<Rightarrow> address_family \<Rightarrow> bytes \<Rightarrow> 16 word \<Rightarrow> 16 word \<Rightarrow> bytes \<Rightarrow> 'l \<Rightarrow> int \<times> 'l"

text \<open>
  The fields of the class, then what is around it: the sessions, the timers that are armed (with
  the key that their callback deletes and their delay), the replies whose microtask has not run,
  the settled promises in order, the number of promises so far, lwIP, and the requests made, which
  only the statements read.
\<close>

record 'l icmp_bindings =
  ib_handles :: "(address_family, nat) js_map"
  pendingPings :: "(jstring, pending_ping) js_map"
  ib_disposedError :: "net_error option"
  ib_sessions :: "ping_session list"
  ib_timers :: "(nat, jstring \<times> jstring \<times> int) js_map"
  ib_tasks :: "(nat \<times> ping_reply) list"
  ib_settled :: "(nat \<times> (net_error + ping_reply)) list"
  ib_promises :: nat
  ib_lwip :: 'l
  ib_requests :: "(nat \<times> jstring \<times> 16 word \<times> 16 word \<times> bytes) list"

definition icmp_init :: "'l \<Rightarrow> 'l icmp_bindings" where
  "icmp_init l = \<lparr>ib_handles = [], pendingPings = [], ib_disposedError = None, ib_sessions = [],
     ib_timers = [], ib_tasks = [], ib_settled = [], ib_promises = 0, ib_lwip = l, ib_requests = []\<rparr>"

definition DEFAULT_TIMEOUT :: int where
  "DEFAULT_TIMEOUT = 1000"

definition DEFAULT_PAYLOAD :: bytes where
  "DEFAULT_PAYLOAD = map of_nat [0..<56]"

definition MAX_ICMP_ECHO_PAYLOAD_LENGTH :: int where
  "MAX_ICMP_ECHO_PAYLOAD_LENGTH = 65535 - 20 - 8"

subsection \<open>Helpers of the class\<close>

definition getPendingKey :: "jstring \<Rightarrow> 16 word \<Rightarrow> 16 word \<Rightarrow> jstring" where
  "getPendingKey host identifier sequenceNumber =
     host @ lit '':'' @ num_str 10 (unat identifier) @ lit '':'' @ num_str 10 (unat sequenceNumber)"

definition payloadEquals :: "bytes \<Rightarrow> bytes \<Rightarrow> bool" where
  "payloadEquals a b \<longleftrightarrow> length a = length b \<and> equal_upto (length a) a b"

definition getHandle :: "'l icmp_exports \<Rightarrow> address_family \<Rightarrow> 'l icmp_bindings \<Rightarrow>
    (net_error + nat) \<times> 'l icmp_bindings" where
  "getHandle ex family s = (case map_get (ib_handles s) family of
     Some h \<Rightarrow> (Inr h, s)
   | None \<Rightarrow> let (h, l) = open_icmp_socket ex family (ib_lwip s); s' = s\<lparr>ib_lwip := l\<rparr> in
       if h = 0 then (Inl (net_throw ''failed to open icmp socket''), s')
       else (Inr h, s'\<lparr>ib_handles := map_set family h (ib_handles s')\<rparr>))"

subsection \<open>Sessions\<close>

text \<open>
  \<open>createPingSession\<close> after its name lookup: the test for disposal before it is covered by the one
  after it. The identifier comes from \<open>crypto.getRandomValues\<close>.
\<close>

definition createPingSession :: "'l icmp_exports \<Rightarrow> jstring res \<Rightarrow> jstring \<Rightarrow> 'i route_table \<Rightarrow> 16 word \<Rightarrow>
    int option \<Rightarrow> 'l icmp_bindings \<Rightarrow> net_error option \<times> 'l icmp_bindings" where
  "createPingSession ex dns host routes identifier timeout s =
     (case resolveHost dns host of
        Inl e \<Rightarrow> (Some (JsError e), s)
      | Inr resolved \<Rightarrow> (case ib_disposedError s of
          Some e \<Rightarrow> (Some e, s)
        | None \<Rightarrow> (case bnd (formatAddress (pa_family resolved) (pa_bytes resolved)) (\<lambda>text.
              bnd (lookup_route text routes) (\<lambda>route. Inr (text, route))) of
            Inl e \<Rightarrow> (Some (JsError e), s)
          | Inr (text, None) \<Rightarrow> (Some (NetworkError ENETUNREACH (lit ''no route to '' @ text)), s)
          | Inr (text, Some _) \<Rightarrow> (case getHandle ex (pa_family resolved) s of
              (Inl e, s') \<Rightarrow> (Some e, s')
            | (Inr _, s') \<Rightarrow> (None, s'\<lparr>ib_sessions := ib_sessions s' @
                [\<lparr>ps_resolved = resolved, ps_host = text, ps_identifier = identifier,
                  ps_timeout = (case timeout of Some t \<Rightarrow> t | None \<Rightarrow> DEFAULT_TIMEOUT),
                  ps_closed = False, ps_sequenceNumber = 0\<rparr>]\<rparr>)))))"

text \<open>A call that rejects before or without waiting.\<close>

definition rejected :: "net_error \<Rightarrow> 'l icmp_bindings \<Rightarrow> 'l icmp_bindings" where
  "rejected e s = s\<lparr>ib_settled := ib_settled s @ [(ib_promises s, Inl e)], ib_promises := ib_promises s + 1\<rparr>"

text \<open>
  The hook \<open>send\<close>. Its promise is made, the timer armed and the ping stored before lwIP is asked; an
  error undoes all three.
\<close>

definition send_ping :: "'l icmp_exports \<Rightarrow> ping_session \<Rightarrow> 16 word \<Rightarrow> bytes option \<Rightarrow> int option \<Rightarrow> int \<Rightarrow>
    'l icmp_bindings \<Rightarrow> 'l icmp_bindings" where
  "send_ping ex ps sequenceNumber payload' timeout' now s =
     (case ib_disposedError s of
        Some e \<Rightarrow> rejected e s
      | None \<Rightarrow>
          let payload = (case payload' of Some p \<Rightarrow> p | None \<Rightarrow> DEFAULT_PAYLOAD);
              timeout = (case timeout' of Some t \<Rightarrow> t | None \<Rightarrow> ps_timeout ps);
              key = getPendingKey (ps_host ps) (ps_identifier ps) sequenceNumber;
              n = ib_promises s in
          if int (length payload) > MAX_ICMP_ECHO_PAYLOAD_LENGTH
          then rejected (net_throw ''icmp echo payload exceeds maximum IPv4 packet size'') s
          else if map_get (pendingPings s) key \<noteq> None
          then rejected (net_throw ''icmp ping identifier and sequence number are in use'') s
          else
            let waiting = s\<lparr>ib_promises := n + 1, ib_timers := map_set n (key, ps_host ps, timeout) (ib_timers s),
                  pendingPings := map_set key
                    \<lparr>pp_host = ps_host ps, pp_identifier = ps_identifier ps, pp_sequenceNumber = sequenceNumber,
                     pp_payload = payload, pp_startedAt = now, pp_promise = n\<rparr> (pendingPings s)\<rparr>;
                (sent, s') = (case getHandle ex (pa_family (ps_resolved ps)) waiting of
                    (Inl e, s') \<Rightarrow> (Some e, s')
                  | (Inr h, s') \<Rightarrow>
                      let (result, l) = send_icmp_echo_request ex h (pa_family (ps_resolved ps)) (pa_bytes (ps_resolved ps))
                            (ps_identifier ps) sequenceNumber payload (ib_lwip s') in
                      (if result \<noteq> 0 then Some (JsError (Error (lit ''failed to send icmp echo request: '' @ number_text result))) else None,
                       s'\<lparr>ib_lwip := l,
                          ib_requests := ib_requests s' @ [(n, ps_host ps, ps_identifier ps, sequenceNumber, payload)]\<rparr>))
            in (case sent of
                  None \<Rightarrow> s'
                | Some e \<Rightarrow> s'\<lparr>ib_timers := map_delete n (ib_timers s'), pendingPings := map_delete key (pendingPings s'),
                    ib_settled := ib_settled s' @ [(n, Inl e)]\<rparr>))"

text \<open>\<open>VirtualPingSession.ping\<close>: the sequence number moves on even when the ping then fails.\<close>

definition session_ping :: "'l icmp_exports \<Rightarrow> nat \<Rightarrow> bytes option \<Rightarrow> int option \<Rightarrow> int \<Rightarrow>
    'l icmp_bindings \<Rightarrow> 'l icmp_bindings" where
  "session_ping ex k payload timeout now s =
     (let ps = ib_sessions s ! k in
      if ps_closed ps then rejected (net_throw ''icmp ping session closed'') s
      else send_ping ex ps (ps_sequenceNumber ps) payload timeout now
        (s\<lparr>ib_sessions := (ib_sessions s)[k := ps\<lparr>ps_sequenceNumber := ps_sequenceNumber ps + 1\<rparr>]\<rparr>))"

text \<open>The hook \<open>close\<close>: a loop over the entries of the map, in their order.\<close>

fun close_pings :: "jstring \<Rightarrow> 16 word \<Rightarrow> (jstring \<times> pending_ping) list \<Rightarrow> 'l icmp_bindings \<Rightarrow> 'l icmp_bindings" where
  "close_pings host identifier [] s = s"
| "close_pings host identifier ((key, p) # entries) s =
     close_pings host identifier entries
       (if pp_host p = host \<and> pp_identifier p = identifier
        then s\<lparr>ib_timers := map_delete (pp_promise p) (ib_timers s),
               ib_settled := ib_settled s @ [(pp_promise p, Inl (net_throw ''icmp ping session closed''))],
               pendingPings := map_delete key (pendingPings s)\<rparr>
        else s)"

definition session_close :: "nat \<Rightarrow> 'l icmp_bindings \<Rightarrow> 'l icmp_bindings" where
  "session_close k s =
     (let ps = ib_sessions s ! k in
      if ps_closed ps then s
      else close_pings (ps_host ps) (ps_identifier ps) (pendingPings s)
        (s\<lparr>ib_sessions := (ib_sessions s)[k := ps\<lparr>ps_closed := True\<rparr>]\<rparr>))"

subsection \<open>Callbacks\<close>

text \<open>The memory that \<open>copyFromMemory\<close> reads belongs to the exports, which throw after disposal.\<close>

definition receive_icmp_echo_reply :: "address_family \<Rightarrow> bytes \<Rightarrow> 16 word \<Rightarrow> 16 word \<Rightarrow> bytes \<Rightarrow> int \<Rightarrow>
    'l icmp_bindings \<Rightarrow> (net_error + nat) \<times> 'l icmp_bindings" where
  "receive_icmp_echo_reply family hostBytes identifier sequenceNumber payload now s =
     (case ib_disposedError s of
        Some e \<Rightarrow> (Inl e, s)
      | None \<Rightarrow> (case formatAddress family hostBytes of
          Inl e \<Rightarrow> (Inl (JsError e), s)
        | Inr host \<Rightarrow>
            let key = getPendingKey host identifier sequenceNumber in
            (case map_get (pendingPings s) key of
               None \<Rightarrow> (Inr 0, s)
             | Some p \<Rightarrow>
                 if \<not> payloadEquals payload (pp_payload p) then (Inr 0, s)
                 else (Inr 1, s\<lparr>pendingPings := map_delete key (pendingPings s),
                   ib_timers := map_delete (pp_promise p) (ib_timers s),
                   ib_tasks := ib_tasks s @ [(pp_promise p, \<lparr>rp_host = host, rp_identifier = identifier,
                     rp_sequenceNumber = sequenceNumber, rp_payload = payload,
                     rp_roundTripTime = now - pp_startedAt p\<rparr>)]\<rparr>))))"

definition run_reply_task :: "'l icmp_bindings \<Rightarrow> 'l icmp_bindings" where
  "run_reply_task s = (case ib_tasks s of
     [] \<Rightarrow> s
   | (n, reply) # tasks \<Rightarrow> s\<lparr>ib_tasks := tasks, ib_settled := ib_settled s @
       [(n, case ib_disposedError s of Some e \<Rightarrow> Inl e | None \<Rightarrow> Inr reply)]\<rparr>)"

text \<open>The callback of a timer, which runs at most once and not after \<open>clearTimeout\<close>.\<close>

definition timer_fires :: "nat \<Rightarrow> 'l icmp_bindings \<Rightarrow> 'l icmp_bindings" where
  "timer_fires n s = (case map_get (ib_timers s) n of
     None \<Rightarrow> s
   | Some (key, host, timeout) \<Rightarrow> s\<lparr>ib_timers := map_delete n (ib_timers s),
       pendingPings := map_delete key (pendingPings s),
       ib_settled := ib_settled s @ [(n, Inl (JsError (Error (lit ''icmp ping timed out: '' @ host))))]\<rparr>)"

fun reject_all :: "net_error \<Rightarrow> (jstring \<times> pending_ping) list \<Rightarrow> 'l icmp_bindings \<Rightarrow> 'l icmp_bindings" where
  "reject_all e [] s = s"
| "reject_all e ((key, p) # entries) s = reject_all e entries
     (s\<lparr>ib_timers := map_delete (pp_promise p) (ib_timers s),
        ib_settled := ib_settled s @ [(pp_promise p, Inl e)]\<rparr>)"

definition dispose_icmp :: "net_error \<Rightarrow> 'l icmp_bindings \<Rightarrow> 'l icmp_bindings" where
  "dispose_icmp error s =
     (let e = (case ib_disposedError s of Some d \<Rightarrow> d | None \<Rightarrow> error);
          s' = reject_all e (pendingPings s) (s\<lparr>ib_disposedError := Some e\<rparr>) in
      s'\<lparr>pendingPings := [], ib_handles := []\<rparr>)"

subsection \<open>Runs\<close>

datatype 'i icmp_input =
    Create "jstring res" jstring "'i route_table" "16 word" "int option"
  | Ping nat "bytes option" "int option" int
  | Close_session nat
  | Echo_reply address_family bytes "16 word" "16 word" bytes int
  | Timer nat
  | Task
  | Dispose net_error

fun icmp_step :: "'l icmp_exports \<Rightarrow> 'i icmp_input \<Rightarrow> 'l icmp_bindings \<Rightarrow> 'l icmp_bindings" where
  "icmp_step ex (Create dns host routes identifier timeout) s = snd (createPingSession ex dns host routes identifier timeout s)"
| "icmp_step ex (Ping k payload timeout now) s =
     (if k < length (ib_sessions s) then session_ping ex k payload timeout now s else s)"
| "icmp_step ex (Close_session k) s = (if k < length (ib_sessions s) then session_close k s else s)"
| "icmp_step ex (Echo_reply family host identifier sequenceNumber payload now) s =
     snd (receive_icmp_echo_reply family host identifier sequenceNumber payload now s)"
| "icmp_step ex (Timer n) s = timer_fires n s"
| "icmp_step ex Task s = run_reply_task s"
| "icmp_step ex (Dispose e) s = dispose_icmp e s"

definition icmp_run :: "'l icmp_exports \<Rightarrow> 'i icmp_input list \<Rightarrow> 'l icmp_bindings \<Rightarrow> 'l icmp_bindings" where
  "icmp_run ex xs s = fold (icmp_step ex) xs s"

subsection \<open>Keys\<close>

text \<open>Hosts may contain colons; the two numbers at the end do not, so the key determines all three.\<close>

lemma num_str_no_colon: "58 \<notin> set (num_str 10 n)"
  using num_str_10_digits [of n] by (auto simp: list_all_iff is_digit_def)

lemma last_colon:
  assumes "xs @ 58 # num_str 10 m = ys @ 58 # num_str 10 n"
  shows "xs = ys \<and> m = n"
proof -
  have "last_index 58 (xs @ 58 # num_str 10 m) = Some (length xs)"
    "last_index 58 (ys @ 58 # num_str 10 n) = Some (length ys)"
    by (simp_all add: last_index_append num_str_no_colon)
  with assms have "length xs = length ys" by simp
  with assms have "xs = ys" "num_str 10 m = num_str 10 n" by simp_all
  with num_str_inject [of 10 m n] show ?thesis by simp
qed

lemma getPendingKey_inject:
  "getPendingKey h i q = getPendingKey h' i' q' \<longleftrightarrow> h = h' \<and> i = i' \<and> q = q'"
proof
  assume "getPendingKey h i q = getPendingKey h' i' q'"
  then have "(h @ 58 # num_str 10 (unat i)) @ 58 # num_str 10 (unat q) =
      (h' @ 58 # num_str 10 (unat i')) @ 58 # num_str 10 (unat q')"
    by (simp add: getPendingKey_def lit_sep)
  from last_colon [OF this] show "h = h' \<and> i = i' \<and> q = q'"
    using last_colon [of h "unat i" h' "unat i'"] by (simp add: word_unat_eq_iff)
qed simp

lemma payloadEquals_eq: "payloadEquals a b \<longleftrightarrow> a = b"
  by (auto simp: payloadEquals_def equal_upto_take)

subsection \<open>The invariant\<close>

text \<open>
  Every promise made is in one of three places, once: it waits in the map, its reply waits for its
  microtask, or it is settled. The pings that wait are those with an armed timer, whose callback
  knows their key.
\<close>

definition promise_ids :: "'l icmp_bindings \<Rightarrow> nat multiset" where
  "promise_ids s = image_mset (pp_promise \<circ> snd) (mset (pendingPings s)) + image_mset fst (mset (ib_tasks s)) +
     image_mset fst (mset (ib_settled s))"

definition entry_of :: "pending_ping \<Rightarrow> nat \<times> jstring \<times> 16 word \<times> 16 word \<times> bytes" where
  "entry_of p = (pp_promise p, pp_host p, pp_identifier p, pp_sequenceNumber p, pp_payload p)"

definition entry_of_reply :: "nat \<Rightarrow> ping_reply \<Rightarrow> nat \<times> jstring \<times> 16 word \<times> 16 word \<times> bytes" where
  "entry_of_reply n r = (n, rp_host r, rp_identifier r, rp_sequenceNumber r, rp_payload r)"

definition timed :: "'l icmp_bindings \<Rightarrow> (jstring \<times> pending_ping) \<Rightarrow> bool" where
  "timed s e \<longleftrightarrow> (case e of (key, p) \<Rightarrow> key = getPendingKey (pp_host p) (pp_identifier p) (pp_sequenceNumber p) \<and>
     (\<exists>d. map_get (ib_timers s) (pp_promise p) = Some (key, pp_host p, d)))"

definition icmp_inv :: "'l icmp_bindings \<Rightarrow> bool" where
  "icmp_inv s \<longleftrightarrow> promise_ids s = mset [0..<ib_promises s] \<and> map_ok (pendingPings s) \<and> map_ok (ib_timers s) \<and>
     (\<forall>e\<in>set (pendingPings s). timed s e) \<and>
     (\<forall>n key host d. map_get (ib_timers s) n = Some (key, host, d) \<longrightarrow>
        (\<exists>p. map_get (pendingPings s) key = Some p \<and> pp_promise p = n))"

definition requests_inv :: "'l icmp_bindings \<Rightarrow> bool" where
  "requests_inv s \<longleftrightarrow> (\<forall>e\<in>set (pendingPings s). entry_of (snd e) \<in> set (ib_requests s)) \<and>
     (\<forall>e\<in>set (ib_tasks s). entry_of_reply (fst e) (snd e) \<in> set (ib_requests s)) \<and>
     (\<forall>n r. (n, Inr r) \<in> set (ib_settled s) \<longrightarrow> entry_of_reply n r \<in> set (ib_requests s)) \<and>
     distinct (map fst (ib_requests s)) \<and> (\<forall>e\<in>set (ib_requests s). fst e < ib_promises s) \<and>
     (ib_disposedError s \<noteq> None \<longrightarrow> pendingPings s = [])"

text \<open>Taking one waiting ping out of the map, with its timer, for a settlement or a task.\<close>

definition take_out :: "jstring \<Rightarrow> pending_ping \<Rightarrow> 'l icmp_bindings \<Rightarrow> 'l icmp_bindings" where
  "take_out key p s = s\<lparr>ib_timers := map_delete (pp_promise p) (ib_timers s),
     pendingPings := map_delete key (pendingPings s)\<rparr>"

lemma icmp_invI:
  assumes "promise_ids s = mset [0..<ib_promises s]" "map_ok (pendingPings s)" "map_ok (ib_timers s)"
    "\<And>e. e \<in> set (pendingPings s) \<Longrightarrow> timed s e"
    "\<And>n key host d. map_get (ib_timers s) n = Some (key, host, d) \<Longrightarrow>
        \<exists>p. map_get (pendingPings s) key = Some p \<and> pp_promise p = n"
  shows "icmp_inv s"
  using assms unfolding icmp_inv_def by blast

lemma pending_promises_distinct:
  assumes "icmp_inv s" "(k, p) \<in> set (pendingPings s)" "(k', p') \<in> set (pendingPings s)" "pp_promise p = pp_promise p'"
  shows "k = k' \<and> p = p'"
proof -
  have "timed s (k, p)" "timed s (k', p')" using assms by (auto simp: icmp_inv_def)
  with assms(4) have "k = k'" by (auto simp: timed_def)
  with assms show ?thesis
    by (metis icmp_inv_def map_get_in_set option.inject)
qed

lemma take_out_inv:
  assumes inv: "icmp_inv s" and p: "map_get (pendingPings s) key = Some p"
    and pend: "pendingPings s' = map_delete key (pendingPings s)" "ib_timers s' = map_delete (pp_promise p) (ib_timers s)"
      "ib_promises s' = ib_promises s"
    and n: "image_mset fst (mset (ib_tasks s')) + image_mset fst (mset (ib_settled s')) =
      add_mset (pp_promise p) (image_mset fst (mset (ib_tasks s)) + image_mset fst (mset (ib_settled s)))"
  shows "icmp_inv s'"
proof -
  have mok: "map_ok (pendingPings s)" "map_ok (ib_timers s)" using inv by (simp_all add: icmp_inv_def)
  have mem: "(key, p) \<in> set (pendingPings s)" using mok p by (simp add: map_get_in_set)
  have "mset (pendingPings s) = add_mset (key, p) (mset (pendingPings s'))"
    using mset_map_delete [OF p] pend by simp
  then have "promise_ids s' = promise_ids s" using n by (simp add: promise_ids_def)
  moreover have "timed s' e" if e: "e \<in> set (pendingPings s')" for e
  proof -
    obtain k q where kq: "e = (k, q)" by (cases e)
    have q: "(k, q) \<in> set (pendingPings s)" "k \<noteq> key"
      using e mok by (auto simp: pend kq set_map_delete)
    then have "pp_promise q \<noteq> pp_promise p" using pending_promises_distinct [OF inv q(1) mem] by blast
    moreover have "timed s (k, q)" using inv q by (simp add: icmp_inv_def)
    ultimately show ?thesis using mok by (auto simp: timed_def kq pend map_get_delete)
  qed
  moreover have "\<exists>q. map_get (pendingPings s') k = Some q \<and> pp_promise q = m"
    if t: "map_get (ib_timers s') m = Some (k, host, t)" for m k host t
  proof -
    have t': "m \<noteq> pp_promise p" "map_get (ib_timers s) m = Some (k, host, t)"
      using t mok by (auto simp: pend map_get_delete split: if_splits)
    then obtain q where q: "map_get (pendingPings s) k = Some q" "pp_promise q = m"
      using inv unfolding icmp_inv_def by blast
    with t'(1) p have "k \<noteq> key" by auto
    with q mok show ?thesis by (simp add: pend map_get_delete)
  qed
  ultimately show ?thesis using inv mok by (simp add: icmp_inv_def pend map_ok_delete)
qed

subsection \<open>Every step keeps the invariant\<close>

lemma icmp_inv_init: "icmp_inv (icmp_init l)" "requests_inv (icmp_init l)"
  by (simp_all add: icmp_inv_def requests_inv_def icmp_init_def promise_ids_def)

text \<open>What the invariants do not read may change.\<close>

lemma icmp_inv_cong:
  assumes "icmp_inv s" "pendingPings s' = pendingPings s" "ib_timers s' = ib_timers s" "ib_tasks s' = ib_tasks s"
    "ib_settled s' = ib_settled s" "ib_promises s' = ib_promises s"
  shows "icmp_inv s'"
  using assms by (simp add: icmp_inv_def promise_ids_def timed_def)

lemma icmp_inv_rejected:
  assumes "icmp_inv s"
  shows "icmp_inv (rejected e s)"
  using assms by (simp add: icmp_inv_def rejected_def promise_ids_def timed_def)

definition waiting :: "jstring \<Rightarrow> pending_ping \<Rightarrow> int \<Rightarrow> 'l icmp_bindings \<Rightarrow> 'l icmp_bindings" where
  "waiting key p d s = s\<lparr>ib_promises := ib_promises s + 1,
     ib_timers := map_set (ib_promises s) (key, pp_host p, d) (ib_timers s),
     pendingPings := map_set key p (pendingPings s)\<rparr>"

lemma waiting_inv:
  assumes inv: "icmp_inv s" and new: "map_get (pendingPings s) key = None"
    and p: "pp_promise p = ib_promises s" "key = getPendingKey (pp_host p) (pp_identifier p) (pp_sequenceNumber p)"
  shows "icmp_inv (waiting key p d s)"
proof -
  let ?n = "ib_promises s"
  have mok: "map_ok (pendingPings s)" "map_ok (ib_timers s)" using inv by (simp_all add: icmp_inv_def)
  have old: "pp_promise (snd e) \<noteq> ?n" if "e \<in> set (pendingPings s)" for e
  proof -
    have "pp_promise (snd e) \<in># promise_ids s" using that by (auto simp: promise_ids_def)
    then have "pp_promise (snd e) \<in> set [0..<?n]" using inv by (metis icmp_inv_def set_mset_mset)
    then show ?thesis by simp
  qed
  have pend: "set (map_set key p (pendingPings s)) = insert (key, p) (set (pendingPings s))"
    using new by (simp add: map_set_new)
  let ?s = "waiting key p d s"
  note waiting_def [simp]
  show ?thesis
  proof (rule icmp_invI)
    have "promise_ids s = mset [0..<ib_promises s]" using inv by (simp add: icmp_inv_def)
    then show "promise_ids ?s = mset [0..<ib_promises ?s]"
      using new p(1) by (simp add: promise_ids_def map_set_new)
    show "map_ok (pendingPings ?s)" "map_ok (ib_timers ?s)" using mok by (simp_all add: map_ok_set)
  next
    fix e
    assume a: "e \<in> set (pendingPings ?s)"
    show "timed ?s e"
    proof (cases "e = (key, p)")
      case True
      with p show ?thesis by (simp add: timed_def map_get_set)
    next
      case False
      with a pend have e: "e \<in> set (pendingPings s)" by auto
      then have "timed s e" using inv by (simp add: icmp_inv_def)
      with old [OF e] show ?thesis by (auto simp: timed_def map_get_set)
    qed
  next
    fix m k host t
    assume a: "map_get (ib_timers ?s) m = Some (k, host, t)"
    show "\<exists>q. map_get (pendingPings ?s) k = Some q \<and> pp_promise q = m"
    proof (cases "m = ?n")
      case True
      with a p(1) show ?thesis by (simp add: map_get_set)
    next
      case False
      with a have "map_get (ib_timers s) m = Some (k, host, t)" by (simp add: map_get_set)
      then obtain q where q: "map_get (pendingPings s) k = Some q" "pp_promise q = m"
        using inv unfolding icmp_inv_def by blast
      with new have "k \<noteq> key" by auto
      with q show ?thesis by (simp add: map_get_set)
    qed
  qed
qed

lemma getHandle_state:
  assumes "getHandle ex f s = (r, s')"
  obtains hs l where "s' = s\<lparr>ib_handles := hs, ib_lwip := l\<rparr>"
proof -
  have "s' = s\<lparr>ib_handles := ib_handles s', ib_lwip := ib_lwip s'\<rparr>"
    using assms by (auto simp: getHandle_def Let_def split: option.splits prod.splits if_splits)
  with that show ?thesis by blast
qed

text \<open>The three ends of a call of \<open>send\<close>: rejected at once, waiting, or failed on the way to lwIP.\<close>

lemma send_ping_cases:
  fixes ex :: "'l icmp_exports" and ps q payload timeout now s
  defines "key \<equiv> getPendingKey (ps_host ps) (ps_identifier ps) q"
  obtains (rejected) e where "send_ping ex ps q payload timeout now s = rejected e s"
  | (sent) p d hs l where "ib_disposedError s = None" "map_get (pendingPings s) key = None"
      "pp_host p = ps_host ps" "pp_identifier p = ps_identifier ps" "pp_sequenceNumber p = q" "pp_promise p = ib_promises s"
      "pp_payload p = (case payload of Some b \<Rightarrow> b | None \<Rightarrow> DEFAULT_PAYLOAD)"
      "send_ping ex ps q payload timeout now s =
        (waiting key p d s)\<lparr>ib_handles := hs, ib_lwip := l, ib_requests := ib_requests s @ [entry_of p]\<rparr>"
  | (failed) p d hs l rq e where "ib_disposedError s = None" "map_get (pendingPings s) key = None"
      "pp_host p = ps_host ps" "pp_identifier p = ps_identifier ps" "pp_sequenceNumber p = q" "pp_promise p = ib_promises s"
      "rq = ib_requests s \<or> rq = ib_requests s @ [entry_of p]"
      "send_ping ex ps q payload timeout now s =
        (take_out key p ((waiting key p d s)\<lparr>ib_handles := hs, ib_lwip := l, ib_requests := rq\<rparr>))
          \<lparr>ib_settled := ib_settled s @ [(ib_promises s, Inl e)]\<rparr>"
proof (cases "ib_disposedError s = None \<and>
    int (length (case payload of Some b \<Rightarrow> b | None \<Rightarrow> DEFAULT_PAYLOAD)) \<le> MAX_ICMP_ECHO_PAYLOAD_LENGTH \<and>
    map_get (pendingPings s) key = None")
  case False
  then have "\<exists>e. send_ping ex ps q payload timeout now s = rejected e s"
    by (auto simp: send_ping_def Let_def key_def split: option.splits)
  then show ?thesis using rejected by blast
next
  case True
  let ?b = "case payload of Some b \<Rightarrow> b | None \<Rightarrow> DEFAULT_PAYLOAD"
  let ?d = "case timeout of Some t \<Rightarrow> t | None \<Rightarrow> ps_timeout ps"
  let ?p = "\<lparr>pp_host = ps_host ps, pp_identifier = ps_identifier ps, pp_sequenceNumber = q,
    pp_payload = ?b, pp_startedAt = now, pp_promise = ib_promises s\<rparr>"
  let ?w = "waiting key ?p ?d s"
  obtain r s1 where g: "getHandle ex (pa_family (ps_resolved ps)) ?w = (r, s1)" by fastforce
  then obtain hs l where s1: "s1 = ?w\<lparr>ib_handles := hs, ib_lwip := l\<rparr>" by (rule getHandle_state)
  have g': "getHandle ex (pa_family (ps_resolved ps))
      (s\<lparr>ib_promises := ib_promises s + 1, ib_timers := map_set (ib_promises s) (key, ps_host ps, ?d) (ib_timers s),
        pendingPings := map_set key ?p (pendingPings s)\<rparr>) = (r, s1)"
    using g by (simp add: waiting_def)
  have nd: "\<not> MAX_ICMP_ECHO_PAYLOAD_LENGTH < int (length ?b)" using True by simp
  show ?thesis
  proof (cases r)
    case (Inl e)
    have "send_ping ex ps q payload timeout now s =
        (take_out key ?p (?w\<lparr>ib_handles := hs, ib_lwip := l, ib_requests := ib_requests s\<rparr>))
          \<lparr>ib_settled := ib_settled s @ [(ib_promises s, Inl e)]\<rparr>"
      using True nd g' [unfolded Inl]
      by (simp add: send_ping_def Let_def key_def s1 take_out_def waiting_def)
    then show ?thesis using True by (intro failed [of ?p "ib_requests s"]) simp_all
  next
    case (Inr h)
    obtain result l2 where c: "send_icmp_echo_request ex h (pa_family (ps_resolved ps)) (pa_bytes (ps_resolved ps))
        (ps_identifier ps) q ?b l = (result, l2)" by fastforce
    show ?thesis
    proof (cases "result = 0")
      case True
      have "send_ping ex ps q payload timeout now s =
          ?w\<lparr>ib_handles := hs, ib_lwip := l2, ib_requests := ib_requests s @ [entry_of ?p]\<rparr>"
        using \<open>ib_disposedError s = None \<and> _\<close> True nd g' [unfolded Inr] c
      by (simp add: send_ping_def Let_def key_def s1 take_out_def waiting_def entry_of_def)
      then show ?thesis using \<open>ib_disposedError s = None \<and> _\<close> by (intro sent [of ?p]) simp_all
    next
      case False
      have "send_ping ex ps q payload timeout now s =
        (take_out key ?p (?w\<lparr>ib_handles := hs, ib_lwip := l2, ib_requests := ib_requests s @ [entry_of ?p]\<rparr>))
          \<lparr>ib_settled := ib_settled s @ [(ib_promises s, Inl (JsError (Error
             (lit ''failed to send icmp echo request: '' @ number_text result))))]\<rparr>"
        using \<open>ib_disposedError s = None \<and> _\<close> False nd g' [unfolded Inr] c
        by (simp add: send_ping_def Let_def key_def s1 take_out_def waiting_def entry_of_def)
      then show ?thesis using \<open>ib_disposedError s = None \<and> _\<close>
        by (intro failed [of ?p "ib_requests s @ [entry_of ?p]"]) simp_all
    qed
  qed
qed

lemma take_out_pending [simp]: "pendingPings (take_out key p s) = map_delete key (pendingPings s)"
  "ib_settled (take_out key p s) = ib_settled s" "ib_tasks (take_out key p s) = ib_tasks s"
  "ib_requests (take_out key p s) = ib_requests s" "ib_promises (take_out key p s) = ib_promises s"
  "ib_disposedError (take_out key p s) = ib_disposedError s" "ib_timers (take_out key p s) = map_delete (pp_promise p) (ib_timers s)"
  by (simp_all add: take_out_def)

text \<open>Settling a waiting ping with an error.\<close>

definition reject_ping :: "jstring \<Rightarrow> pending_ping \<Rightarrow> net_error \<Rightarrow> 'l icmp_bindings \<Rightarrow> 'l icmp_bindings" where
  "reject_ping key p e s = (take_out key p s)\<lparr>ib_settled := ib_settled s @ [(pp_promise p, Inl e)]\<rparr>"

definition good :: "'l icmp_bindings \<Rightarrow> bool" where
  "good s \<longleftrightarrow> icmp_inv s \<and> requests_inv s"

lemma map_deleteD: "e \<in> set (map_delete k m) \<Longrightarrow> e \<in> set m"
  by (induction k m rule: map_delete.induct) (auto split: if_splits)

lemma requests_inv_shrink:
  assumes "requests_inv s" "set (pendingPings s') \<subseteq> set (pendingPings s)" "ib_tasks s' = ib_tasks s"
    "\<And>n r. (n, Inr r) \<in> set (ib_settled s') \<Longrightarrow> (n, Inr r) \<in> set (ib_settled s)"
    "ib_requests s' = ib_requests s" "ib_promises s \<le> ib_promises s'"
    "ib_disposedError s' \<noteq> None \<Longrightarrow> pendingPings s' = []"
  shows "requests_inv s'"
proof -
  note r = assms(1) [unfolded requests_inv_def]
  have "fst e < ib_promises s'" if "e \<in> set (ib_requests s)" for e
    using r assms(6) that by fastforce
  moreover have "entry_of (snd e) \<in> set (ib_requests s)" if "e \<in> set (pendingPings s')" for e
    using r assms(2) that by blast
  moreover have "entry_of_reply n q \<in> set (ib_requests s)" if "(n, Inr q) \<in> set (ib_settled s')" for n q
    using r assms(4) that by blast
  ultimately show ?thesis
    using r assms(7) unfolding requests_inv_def assms(3,5) by blast
qed

lemma requests_inv_disposed: "requests_inv s \<Longrightarrow> ib_disposedError s \<noteq> None \<Longrightarrow> pendingPings s = []"
  by (simp add: requests_inv_def)

lemma good_reject_ping:
  assumes "good s" "map_get (pendingPings s) key = Some p"
  shows "good (reject_ping key p e s)"
proof -
  have "icmp_inv s" using assms(1) by (simp add: good_def)
  then have "icmp_inv (reject_ping key p e s)" by (rule take_out_inv [OF _ assms(2)]) (simp_all add: reject_ping_def)
  moreover have "requests_inv (reject_ping key p e s)"
  proof (rule requests_inv_shrink)
    show "requests_inv s" using assms(1) by (simp add: good_def)
    then show "pendingPings (reject_ping key p e s) = []" if "ib_disposedError (reject_ping key p e s) \<noteq> None"
      using requests_inv_disposed [of s] that by (simp add: reject_ping_def)
  qed (auto simp: reject_ping_def dest: map_deleteD)
  ultimately show ?thesis by (simp add: good_def)
qed

lemma close_pings_good:
  assumes "good s" "distinct (map fst es)" "\<forall>e\<in>set es. map_get (pendingPings s) (fst e) = Some (snd e)"
  shows "good (close_pings host identifier es s)"
  using assms
proof (induction es arbitrary: s)
  case (Cons e es)
  obtain k p where e: "e = (k, p)" by (cases e)
  show ?case
  proof (cases "pp_host p = host \<and> pp_identifier p = identifier")
    case False
    then have "close_pings host identifier (e # es) s = close_pings host identifier es s" using e by auto
    with Cons show ?thesis by simp
  next
    case True
    let ?s = "reject_ping k p (net_throw ''icmp ping session closed'') s"
    have "good ?s" using Cons.prems e by (intro good_reject_ping) simp_all
    moreover have "\<forall>e\<in>set es. map_get (pendingPings ?s) (fst e) = Some (snd e)"
    proof
      fix e' assume e': "e' \<in> set es"
      then have "fst e' \<noteq> k" using Cons.prems(2) e by force
      moreover have "map_ok (pendingPings s)" using Cons.prems(1) by (simp add: good_def icmp_inv_def)
      ultimately show "map_get (pendingPings ?s) (fst e') = Some (snd e')"
        using Cons.prems(3) e' by (simp add: reject_ping_def map_get_delete)
    qed
    ultimately have "good (close_pings host identifier es ?s)" using Cons by simp
    moreover have "s\<lparr>ib_timers := map_delete (pp_promise p) (ib_timers s),
        ib_settled := ib_settled s @ [(pp_promise p, Inl (net_throw ''icmp ping session closed''))],
        pendingPings := map_delete k (pendingPings s)\<rparr> = ?s"
      by (simp add: reject_ping_def take_out_def)
    then have "close_pings host identifier (e # es) s = close_pings host identifier es ?s"
      using True unfolding e close_pings.simps by (simp only: simp_thms if_True)
    ultimately show ?thesis by simp
  qed
qed simp

lemma entries_found: "map_ok m \<Longrightarrow> \<forall>e\<in>set m. map_get m (fst e) = Some (snd e)"
  by (simp add: map_get_in_set)

lemma good_close:
  assumes "good s"
  shows "good (session_close k s)"
proof (cases "ps_closed (ib_sessions s ! k)")
  case True
  with assms show ?thesis by (simp add: session_close_def)
next
  case False
  let ?s = "s\<lparr>ib_sessions := (ib_sessions s)[k := (ib_sessions s ! k)\<lparr>ps_closed := True\<rparr>]\<rparr>"
  have "good ?s" using assms by (simp add: good_def icmp_inv_def requests_inv_def promise_ids_def timed_def)
  moreover have "map_ok (pendingPings s)" using assms by (simp add: good_def icmp_inv_def)
  ultimately show ?thesis
    using False entries_found [of "pendingPings s"]
    by (simp add: session_close_def Let_def close_pings_good map_ok_def)
qed

lemma reject_all_fields [simp]:
  "pendingPings (reject_all e es s) = pendingPings s" "ib_disposedError (reject_all e es s) = ib_disposedError s"
  by (induction e es s rule: reject_all.induct) simp_all

lemma reject_all_update:
  "(reject_all e es s)\<lparr>pendingPings := m\<rparr> = reject_all e es (s\<lparr>pendingPings := m\<rparr>)"
proof (induction e es s rule: reject_all.induct)
  case (2 e key p entries s)
  let ?m = "s\<lparr>pendingPings := m\<rparr>"
  have "(s\<lparr>ib_timers := map_delete (pp_promise p) (ib_timers s),
        ib_settled := ib_settled s @ [(pp_promise p, Inl e)]\<rparr>)\<lparr>pendingPings := m\<rparr> =
      ?m\<lparr>ib_timers := map_delete (pp_promise p) (ib_timers ?m),
        ib_settled := ib_settled ?m @ [(pp_promise p, Inl e)]\<rparr>"
    by simp
  with 2 show ?case by (simp only: reject_all.simps)
qed simp

lemma good_reject_all:
  assumes "icmp_inv s" "pendingPings s = es"
  shows "icmp_inv ((reject_all e es s)\<lparr>pendingPings := []\<rparr>)"
  using assms
proof (induction es arbitrary: s)
  case Nil
  then show ?case by (simp add: icmp_inv_cong [of s])
next
  case (Cons x es)
  obtain k p where x: "x = (k, p)" by (cases x)
  let ?s = "reject_ping k p e s"
  have "icmp_inv ?s"
    using Cons.prems(2) x by - (rule take_out_inv [of s k p], simp_all add: reject_ping_def Cons.prems(1))
  moreover have p: "pendingPings ?s = es" using Cons.prems(2) x by (simp add: reject_ping_def)
  ultimately have "icmp_inv ((reject_all e es ?s)\<lparr>pendingPings := []\<rparr>)" by (rule Cons.IH)
  moreover have "(reject_all e (x # es) s)\<lparr>pendingPings := []\<rparr> = (reject_all e es ?s)\<lparr>pendingPings := []\<rparr>"
    by (simp add: x reject_all_update reject_ping_def take_out_def)
  ultimately show ?case by simp
qed

lemma good_dispose:
  assumes "good s"
  shows "good (dispose_icmp error s)"
proof -
  define e where "e = (case ib_disposedError s of Some d \<Rightarrow> d | None \<Rightarrow> error)"
  let ?s = "s\<lparr>ib_disposedError := Some e\<rparr>"
  let ?t = "(reject_all e (pendingPings s) ?s)\<lparr>pendingPings := []\<rparr>"
  have d: "dispose_icmp error s = ?t\<lparr>ib_handles := []\<rparr>"
    by (simp add: dispose_icmp_def Let_def e_def)
  have f: "ib_requests (reject_all e es q) = ib_requests q" "ib_tasks (reject_all e es q) = ib_tasks q"
    "ib_promises (reject_all e es q) = ib_promises q" for es and q :: "'a icmp_bindings"
    by (induction e es q rule: reject_all.induct) simp_all
  have set: "(n, Inr r) \<in> set (ib_settled (reject_all e es q)) \<longleftrightarrow> (n, Inr r) \<in> set (ib_settled q)"
    for n r es and q :: "'a icmp_bindings"
    by (induction e es q rule: reject_all.induct) simp_all
  have "icmp_inv s" using assms by (simp add: good_def)
  then have "icmp_inv ?s" by (rule icmp_inv_cong) simp_all
  then have "icmp_inv ?t" by (rule good_reject_all) simp
  then have "icmp_inv (dispose_icmp error s)" unfolding d by (rule icmp_inv_cong) simp_all
  moreover have "requests_inv (dispose_icmp error s)"
  proof (rule requests_inv_shrink)
    show "requests_inv s" using assms by (simp add: good_def)
  qed (simp_all add: d f set)
  ultimately show ?thesis by (simp add: good_def)
qed

lemma good_timer:
  assumes "good s"
  shows "good (timer_fires n s)"
proof (cases "map_get (ib_timers s) n")
  case None
  with assms show ?thesis by (simp add: timer_fires_def)
next
  case (Some t)
  obtain key host d where t: "t = (key, host, d)" by (metis prod_cases3)
  then obtain p where p: "map_get (pendingPings s) key = Some p" "pp_promise p = n"
    using assms Some unfolding good_def icmp_inv_def by blast
  have "timer_fires n s = reject_ping key p (JsError (Error (lit ''icmp ping timed out: '' @ host))) s"
    using Some t p(2) by (simp add: timer_fires_def reject_ping_def take_out_def)
  with good_reject_ping [OF assms p(1)] show ?thesis by simp
qed

lemma good_task:
  assumes "good s"
  shows "good (run_reply_task s)"
proof (cases "ib_tasks s")
  case Nil
  with assms show ?thesis by (simp add: run_reply_task_def)
next
  case (Cons x ts)
  obtain n r where x: "x = (n, r)" by (cases x)
  let ?o = "case ib_disposedError s of Some e \<Rightarrow> Inl e | None \<Rightarrow> Inr r"
  have s': "run_reply_task s = s\<lparr>ib_tasks := ts, ib_settled := ib_settled s @ [(n, ?o)]\<rparr>"
    using Cons x by (simp add: run_reply_task_def)
  have i: "icmp_inv s" and q: "requests_inv s" using assms by (simp_all add: good_def)
  have "promise_ids (run_reply_task s) = promise_ids s"
    using Cons x by (simp add: s' promise_ids_def)
  with i have "icmp_inv (run_reply_task s)" by (simp add: icmp_inv_def s' timed_def)
  moreover have "entry_of_reply n r \<in> set (ib_requests s)"
    using q Cons x by (simp add: requests_inv_def)
  with q Cons have "requests_inv (run_reply_task s)"
    unfolding requests_inv_def s' by (auto split: option.splits)
  ultimately show ?thesis by (simp add: good_def)
qed

lemma good_receive:
  assumes "good s"
  shows "good (snd (receive_icmp_echo_reply family hb identifier q payload now s))"
proof (cases "snd (receive_icmp_echo_reply family hb identifier q payload now s) = s")
  case True
  with assms show ?thesis by simp
next
  case False
  then obtain host p where h: "ib_disposedError s = None" "formatAddress family hb = Inr host"
    and p: "map_get (pendingPings s) (getPendingKey host identifier q) = Some p" "payloadEquals payload (pp_payload p)"
    by (auto simp: receive_icmp_echo_reply_def Let_def split: option.splits sum.splits if_splits)
  let ?key = "getPendingKey host identifier q"
  let ?r = "\<lparr>rp_host = host, rp_identifier = identifier, rp_sequenceNumber = q, rp_payload = payload,
    rp_roundTripTime = now - pp_startedAt p\<rparr>"
  let ?s = "(take_out ?key p s)\<lparr>ib_tasks := ib_tasks s @ [(pp_promise p, ?r)]\<rparr>"
  have s': "snd (receive_icmp_echo_reply family hb identifier q payload now s) = ?s"
    using h p by (simp add: receive_icmp_echo_reply_def Let_def take_out_def)
  have i: "icmp_inv s" and rq: "requests_inv s" using assms by (simp_all add: good_def)
  have mem: "(?key, p) \<in> set (pendingPings s)" using i p(1) by (simp add: icmp_inv_def map_get_in_set)
  then have "timed s (?key, p)" using i by (simp add: icmp_inv_def)
  then have "host = pp_host p" "identifier = pp_identifier p" "q = pp_sequenceNumber p"
    by (simp_all add: timed_def getPendingKey_inject)
  then have e: "entry_of_reply (pp_promise p) ?r = entry_of p"
    using p(2) by (simp add: entry_of_reply_def entry_of_def payloadEquals_eq)
  have "icmp_inv ?s" using i by - (rule take_out_inv [OF _ p(1)], simp_all)
  moreover have "entry_of p \<in> set (ib_requests s)" using rq mem by (force simp: requests_inv_def)
  then have "requests_inv ?s"
    using rq e h(1) unfolding requests_inv_def by (auto dest: map_deleteD)
  ultimately show ?thesis by (simp add: s' good_def)
qed

lemma good_rejected: "good s \<Longrightarrow> good (rejected e s)"
  using icmp_inv_rejected [of s e] requests_inv_shrink [of s "rejected e s"]
  by (auto simp: good_def rejected_def requests_inv_disposed)

lemma requests_inv_sent:
  assumes q: "requests_inv s" and p: "pp_promise p = ib_promises s"
    and rq: "ib_requests s' = ib_requests s \<or> ib_requests s' = ib_requests s @ [entry_of p]"
    and pend: "\<And>e. e \<in> set (pendingPings s') \<Longrightarrow> e \<in> set (pendingPings s) \<or>
      snd e = p \<and> ib_requests s' = ib_requests s @ [entry_of p]"
    and s': "ib_tasks s' = ib_tasks s" "ib_promises s' = ib_promises s + 1" "ib_disposedError s' = None"
      "\<And>n r. (n, Inr r) \<in> set (ib_settled s') \<Longrightarrow> (n, Inr r) \<in> set (ib_settled s)"
  shows "requests_inv s'"
proof -
  note r = q [unfolded requests_inv_def]
  have sub: "set (ib_requests s) \<subseteq> set (ib_requests s')" using rq by auto
  have less: "fst e < ib_promises s" if "e \<in> set (ib_requests s)" for e using r that by blast
  have "fst e < ib_promises s'" if e: "e \<in> set (ib_requests s')" for e
  proof -
    have "e \<in> set (ib_requests s) \<or> e = entry_of p" using rq e by auto
    then show ?thesis using less [of e] p s'(2) by (auto simp: entry_of_def)
  qed
  moreover have "ib_promises s \<notin> fst ` set (ib_requests s)" using less by force
  then have "distinct (map fst (ib_requests s'))"
    using rq r p by (auto simp: entry_of_def)
  moreover have "entry_of (snd e) \<in> set (ib_requests s')" if "e \<in> set (pendingPings s')" for e
    using pend [OF that] r sub by auto
  moreover have "entry_of_reply n t \<in> set (ib_requests s')" if "(n, Inr t) \<in> set (ib_settled s')" for n t
    using s'(4) [OF that] r sub by blast
  moreover have "entry_of_reply (fst e) (snd e) \<in> set (ib_requests s')" if "e \<in> set (ib_tasks s')" for e
    using that r sub s'(1) by auto
  ultimately show ?thesis using s'(3) unfolding requests_inv_def by blast
qed

lemma good_send:
  assumes "good s"
  shows "good (send_ping ex ps q payload timeout now s)"
proof (cases rule: send_ping_cases [of ex ps q payload timeout now s])
  case (rejected e)
  with assms show ?thesis by (simp add: good_rejected)
next
  case (sent p d hs l)
  let ?key = "getPendingKey (ps_host ps) (ps_identifier ps) q"
  let ?s = "(waiting ?key p d s)\<lparr>ib_handles := hs, ib_lwip := l, ib_requests := ib_requests s @ [entry_of p]\<rparr>"
  have "icmp_inv (waiting ?key p d s)"
    using assms sent by (intro waiting_inv) (simp_all add: good_def)
  then have "icmp_inv ?s" by (rule icmp_inv_cong) simp_all
  moreover have "requests_inv ?s"
  proof (rule requests_inv_sent)
    show "requests_inv s" using assms by (simp add: good_def)
  qed (use sent in \<open>auto simp: waiting_def map_set_new\<close>)
  ultimately show ?thesis unfolding sent(8) by (simp add: good_def)
next
  case (failed p d hs l rq e)
  let ?key = "getPendingKey (ps_host ps) (ps_identifier ps) q"
  let ?w = "(waiting ?key p d s)\<lparr>ib_handles := hs, ib_lwip := l, ib_requests := rq\<rparr>"
  let ?s = "(take_out ?key p ?w)\<lparr>ib_settled := ib_settled s @ [(ib_promises s, Inl e)]\<rparr>"
  have "icmp_inv (waiting ?key p d s)"
    using assms failed by (intro waiting_inv) (simp_all add: good_def)
  then have "icmp_inv ?w" by (rule icmp_inv_cong) simp_all
  moreover have "map_get (pendingPings ?w) ?key = Some p" by (simp add: waiting_def map_get_set)
  ultimately have "icmp_inv ?s"
    using failed(6) by - (rule take_out_inv [of ?w ?key p], simp_all add: waiting_def)
  moreover have "requests_inv ?s"
  proof (rule requests_inv_sent [of s p])
    show "requests_inv s" using assms by (simp add: good_def)
  qed (use failed in \<open>auto simp: waiting_def map_delete_set_new\<close>)
  ultimately show ?thesis unfolding failed(8) by (simp add: good_def)
qed

lemma good_cong:
  assumes "good s" "s' = s\<lparr>ib_sessions := ss, ib_handles := hs, ib_lwip := l\<rparr>"
  shows "good s'"
  using assms by (simp add: good_def icmp_inv_def requests_inv_def promise_ids_def timed_def)

lemma good_ping:
  assumes "good s"
  shows "good (session_ping ex k payload timeout now s)"
proof (cases "ps_closed (ib_sessions s ! k)")
  case True
  with assms show ?thesis by (simp add: session_ping_def Let_def good_rejected)
next
  case False
  let ?ps = "ib_sessions s ! k"
  have "good (s\<lparr>ib_sessions := (ib_sessions s)[k := ?ps\<lparr>ps_sequenceNumber := ps_sequenceNumber ?ps + 1\<rparr>]\<rparr>)"
    using assms by (rule good_cong [where hs = "ib_handles s" and l = "ib_lwip s"]) simp
  with False show ?thesis by (simp add: session_ping_def Let_def good_send)
qed

lemma createPingSession_state:
  fixes routes :: "'i route_table"
  shows "\<exists>ss hs l. snd (createPingSession ex dns host routes identifier timeout s) =
     s\<lparr>ib_sessions := ss, ib_handles := hs, ib_lwip := l\<rparr>"
proof -
  let ?s' = "snd (createPingSession ex dns host routes identifier timeout s)"
  have keep: "\<exists>ss hs l. ?s' = s\<lparr>ib_sessions := ss, ib_handles := hs, ib_lwip := l\<rparr>" if "?s' = s"
    using that
    by (intro exI [of _ "ib_sessions s"] exI [of _ "ib_handles s"] exI [of _ "ib_lwip s"]) simp
  show ?thesis
  proof (cases "resolveHost dns host")
    case (Inl e)
    then show ?thesis by (intro keep) (simp add: createPingSession_def)
  next
    case (Inr resolved)
    note resolved = this
    let ?found = "bnd (formatAddress (pa_family resolved) (pa_bytes resolved)) (\<lambda>text.
      bnd (lookup_route text routes) (\<lambda>route. Inr (text, route)))"
    show ?thesis
    proof (cases "ib_disposedError s = None \<and> (\<exists>text route. ?found = Inr (text, Some route))")
      case False
      then show ?thesis
        by (intro keep) (auto simp: createPingSession_def resolved split: option.splits sum.splits)
    next
      case True
      then obtain ht rt where found: "?found = Inr (ht, Some rt)" "ib_disposedError s = None" by blast
      obtain r s1 where g: "getHandle ex (pa_family resolved) s = (r, s1)" by fastforce
      then obtain hs l where s1: "s1 = s\<lparr>ib_handles := hs, ib_lwip := l\<rparr>" by (rule getHandle_state)
      show ?thesis
      proof (cases r)
        case (Inl e)
        then have "?s' = s\<lparr>ib_sessions := ib_sessions s, ib_handles := hs, ib_lwip := l\<rparr>"
          using found g s1 by (simp add: createPingSession_def resolved)
        then show ?thesis by blast
      next
        case (Inr h)
        have "?s' = s\<lparr>ib_sessions := ib_sessions ?s', ib_handles := hs, ib_lwip := l\<rparr>"
          using found g [unfolded Inr] s1 by (simp add: createPingSession_def resolved)
        then show ?thesis by blast
      qed
    qed
  qed
qed

lemma good_create:
  assumes "good s"
  shows "good (snd (createPingSession ex dns host routes identifier timeout s))"
  using createPingSession_state [of ex dns host routes "identifier" timeout s] good_cong [OF assms] by metis

lemma good_step: "good s \<Longrightarrow> good (icmp_step ex x s)"
  by (cases x) (auto intro: good_create good_ping good_close good_receive good_timer good_task good_dispose)

lemma good_run: "good s \<Longrightarrow> good (icmp_run ex xs s)"
  unfolding icmp_run_def by (induction xs arbitrary: s) (simp_all add: good_step)

lemma good_init: "good (icmp_init l)"
  by (simp add: good_def icmp_inv_init)

subsection \<open>Settling everything\<close>

lemma promises_timer [simp]: "ib_promises (timer_fires n s) = ib_promises s" "ib_tasks (timer_fires n s) = ib_tasks s"
  by (auto simp: timer_fires_def split: option.splits prod.splits)

lemma timer_removed:
  "map_ok (ib_timers s) \<Longrightarrow> fst ` set (ib_timers (timer_fires n s)) = fst ` set (ib_timers s) - {n}"
  by (auto simp: timer_fires_def set_map_delete map_get_None_iff image_iff split: option.splits)

lemma icmp_run_simps [simp]:
  "icmp_run ex [] s = s" "icmp_run ex (x # xs) s = icmp_run ex xs (icmp_step ex x s)"
  "icmp_run ex (xs @ ys) s = icmp_run ex ys (icmp_run ex xs s)"
  by (simp_all add: icmp_run_def)

lemma ping_timers_run_out:
  assumes "good s" "xs = map Timer ns"
  shows "good (icmp_run ex xs s) \<and> fst ` set (ib_timers (icmp_run ex xs s)) = fst ` set (ib_timers s) - set ns
    \<and> ib_promises (icmp_run ex xs s) = ib_promises s \<and> ib_tasks (icmp_run ex xs s) = ib_tasks s"
  using assms
proof (induction ns arbitrary: s xs)
  case (Cons n ns)
  have "map_ok (ib_timers s)" using Cons.prems by (simp add: good_def icmp_inv_def)
  with Cons.IH [of "timer_fires n s" "map Timer ns"] good_timer [OF Cons.prems(1), of n] timer_removed [of s n] Cons.prems(2)
  show ?case by auto
qed simp

lemma ping_tasks_run_out:
  assumes "good s" "k = length (ib_tasks s)" "xs = replicate k Task"
  shows "good (icmp_run ex xs s) \<and> ib_tasks (icmp_run ex xs s) = []
    \<and> ib_promises (icmp_run ex xs s) = ib_promises s \<and> pendingPings (icmp_run ex xs s) = pendingPings s"
  using assms
proof (induction k arbitrary: s xs)
  case (Suc k)
  have "ib_promises (run_reply_task s) = ib_promises s" "pendingPings (run_reply_task s) = pendingPings s"
    "length (ib_tasks (run_reply_task s)) = k"
    using Suc.prems(2) by (auto simp: run_reply_task_def split: list.splits)
  with Suc.IH [of "run_reply_task s" "replicate k Task"] good_task [OF Suc.prems(1)] Suc.prems(3) show ?case by simp
qed simp

subsection \<open>Properties\<close>

text \<open>C22: No ping is lost and none settles twice. After any calls of the user, answers of lwIP, timers,
  microtasks and disposals, in any order, every promise made is settled once, or its reply is
  about to settle it in a microtask, or it waits with an armed timer; so once the armed timers have
  fired and the microtasks have run, every promise is settled exactly once. After disposal none waits.\<close>

theorem pings_settle_once:
  fixes xs :: "'i icmp_input list"
  assumes "s = icmp_run ex xs (icmp_init l)"
  shows "distinct (map fst (ib_settled s))
    \<and> (\<forall>n < ib_promises s. n \<in> fst ` set (ib_settled s) \<or> n \<in> fst ` set (ib_tasks s) \<or>
        (\<exists>key p t. map_get (pendingPings s) key = Some p \<and> pp_promise p = n \<and>
          map_get (ib_timers s) n = Some (key, pp_host p, t)))
    \<and> (let s' = icmp_run ex (map Timer (map fst (ib_timers s)) @ replicate (length (ib_tasks s)) Task :: 'i icmp_input list) s
       in mset (map fst (ib_settled s')) = mset [0..<ib_promises s])
    \<and> (ib_disposedError s \<noteq> None \<longrightarrow> pendingPings s = [])"
proof (intro conjI)
  have g: "good s" unfolding assms by (intro good_run good_init)
  then have ids: "promise_ids s = mset [0..<ib_promises s]" and ok: "map_ok (pendingPings s)" by (simp_all add: good_def icmp_inv_def)
  show "distinct (map fst (ib_settled s))"
  proof -
    obtain zs where "mset zs = image_mset (pp_promise \<circ> snd) (mset (pendingPings s)) + image_mset fst (mset (ib_tasks s))"
      using ex_mset by blast
    then have "mset (zs @ map fst (ib_settled s)) = mset [0..<ib_promises s]"
      using ids by (simp add: promise_ids_def)
    then have "distinct (zs @ map fst (ib_settled s))" using mset_eq_imp_distinct_iff distinct_upt by blast
    then show ?thesis by simp
  qed
  show "\<forall>n < ib_promises s. n \<in> fst ` set (ib_settled s) \<or> n \<in> fst ` set (ib_tasks s) \<or>
        (\<exists>key p t. map_get (pendingPings s) key = Some p \<and> pp_promise p = n \<and>
          map_get (ib_timers s) n = Some (key, pp_host p, t))"
  proof (intro allI impI)
    fix n
    assume "n < ib_promises s"
    then have "n \<in># promise_ids s" by (simp add: ids)
    then consider "n \<in> fst ` set (ib_settled s)" | "n \<in> fst ` set (ib_tasks s)"
      | e where "e \<in> set (pendingPings s)" "pp_promise (snd e) = n"
      by (auto simp: promise_ids_def)
    then show "n \<in> fst ` set (ib_settled s) \<or> n \<in> fst ` set (ib_tasks s) \<or>
        (\<exists>key p t. map_get (pendingPings s) key = Some p \<and> pp_promise p = n \<and>
          map_get (ib_timers s) n = Some (key, pp_host p, t))"
    proof cases
      case (3 e)
      then have "timed s e" using g by (simp add: good_def icmp_inv_def)
      then obtain t where "map_get (ib_timers s) n = Some (fst e, pp_host (snd e), t)"
        using 3 by (auto simp: timed_def split: prod.splits)
      moreover have "map_get (pendingPings s) (fst e) = Some (snd e)" using ok 3 by (simp add: map_get_in_set)
      ultimately show ?thesis using 3 by blast
    qed simp_all
  qed
  show "let s' = icmp_run ex (map Timer (map fst (ib_timers s)) @ replicate (length (ib_tasks s)) Task :: 'i icmp_input list) s
       in mset (map fst (ib_settled s')) = mset [0..<ib_promises s]"
  proof -
    define ts :: "'i icmp_input list" where "ts = map Timer (map fst (ib_timers s))"
    define rs :: "'i icmp_input list" where "rs = replicate (length (ib_tasks s)) Task"
    let ?t = "icmp_run ex ts s"
    let ?s = "icmp_run ex rs ?t"
    have t: "good ?t" "ib_timers ?t = []" "ib_promises ?t = ib_promises s" "ib_tasks ?t = ib_tasks s"
      using ping_timers_run_out [OF g ts_def, of ex] by auto
    have "pendingPings ?t = []"
    proof (rule ccontr)
      assume "pendingPings ?t \<noteq> []"
      then obtain e where "e \<in> set (pendingPings ?t)" by (meson list.set_sel(1))
      then have "timed ?t e" using t(1) by (simp add: good_def icmp_inv_def)
      with t(2) show False by (simp add: timed_def split: prod.splits)
    qed
    then have "good ?s" "ib_tasks ?s = []" "ib_promises ?s = ib_promises s" "pendingPings ?s = []"
      using ping_tasks_run_out [OF t(1) _ rs_def, of ex] t by simp_all
    then have "image_mset fst (mset (ib_settled ?s)) = mset [0..<ib_promises s]"
      unfolding good_def icmp_inv_def promise_ids_def by simp
    then show ?thesis by (simp add: Let_def ts_def rs_def)
  qed
  show "ib_disposedError s \<noteq> None \<longrightarrow> pendingPings s = []" using g by (simp add: good_def requests_inv_def)
qed

text \<open>C23: A ping that is answered is answered with the reply to its own request: host, identifier,
  sequence number and payload are those that the one request of this ping was sent with, although
  the replies of all sessions arrive at one callback and are told apart by one text.\<close>

theorem ping_reply_matches:
  assumes "s = icmp_run ex xs (icmp_init l)" "(n, Inr r) \<in> set (ib_settled s)"
  shows "(n, rp_host r, rp_identifier r, rp_sequenceNumber r, rp_payload r) \<in> set (ib_requests s)
    \<and> (\<forall>q. (n, q) \<in> set (ib_requests s) \<longrightarrow> q = (rp_host r, rp_identifier r, rp_sequenceNumber r, rp_payload r))"
proof -
  have "good s" unfolding assms(1) by (intro good_run good_init)
  then have "requests_inv s" by (simp add: good_def)
  then have "entry_of_reply n r \<in> set (ib_requests s)" "distinct (map fst (ib_requests s))"
    using assms(2) unfolding requests_inv_def by blast+
  then show ?thesis using eq_key_imp_eq_value [of "ib_requests s" n] unfolding entry_of_reply_def by blast
qed

subsection \<open>Closing a session\<close>

definition of_session :: "jstring \<Rightarrow> 16 word \<Rightarrow> jstring \<times> pending_ping \<Rightarrow> bool" where
  "of_session host identifier e \<longleftrightarrow> pp_host (snd e) = host \<and> pp_identifier (snd e) = identifier"

lemma map_delete_middle: "key \<notin> fst ` set pre \<Longrightarrow> map_delete key (pre @ (key, p) # m) = pre @ m"
  by (induction pre) auto

lemma close_pings_result:
  assumes "pendingPings s = pre @ es" "map_ok (pre @ es)"
  shows "pendingPings (close_pings host i es s) = pre @ filter (\<lambda>e. \<not> of_session host i e) es \<and>
    ib_settled (close_pings host i es s) = ib_settled s @
      map (\<lambda>e. (pp_promise (snd e), Inl (net_throw ''icmp ping session closed''))) (filter (of_session host i) es)"
  using assms
proof (induction es arbitrary: s pre)
  case (Cons e es)
  obtain key p where e: "e = (key, p)" by (cases e)
  show ?case
  proof (cases "of_session host i e")
    case True
    let ?s = "s\<lparr>ib_timers := map_delete (pp_promise p) (ib_timers s),
        ib_settled := ib_settled s @ [(pp_promise p, Inl (net_throw ''icmp ping session closed''))],
        pendingPings := map_delete key (pendingPings s)\<rparr>"
    have "key \<notin> fst ` set pre" using Cons.prems(2) e by (auto simp: map_ok_def)
    then have "pendingPings ?s = pre @ es" using Cons.prems(1) e by (simp add: map_delete_middle)
    moreover have "map_ok (pre @ es)" using Cons.prems(2) by (simp add: map_ok_def)
    moreover have "close_pings host i (e # es) s = close_pings host i es ?s"
      using True by (auto simp: e of_session_def)
    ultimately show ?thesis using Cons.IH [of ?s pre] True by (simp add: e)
  next
    case False
    then have "close_pings host i (e # es) s = close_pings host i es s" by (auto simp: e of_session_def)
    with False Cons.IH [of s "pre @ [e]"] Cons.prems show ?thesis by simp
  qed
qed simp

lemma pending_of_key:
  assumes "good s" "map_get (pendingPings s) key = Some p"
  shows "key = getPendingKey (pp_host p) (pp_identifier p) (pp_sequenceNumber p)" "(key, p) \<in> set (pendingPings s)"
proof -
  show m: "(key, p) \<in> set (pendingPings s)" using assms by (simp add: good_def icmp_inv_def map_get_in_set)
  with assms(1) have "timed s (key, p)" by (simp add: good_def icmp_inv_def)
  then show "key = getPendingKey (pp_host p) (pp_identifier p) (pp_sequenceNumber p)" by (simp add: timed_def)
qed

text \<open>Closing a session rejects its waiting pings and leaves every ping to another host or with
  another identifier waiting. But the identifier of a session is a random number that is not
  compared with those in use, and pings belong to a session only by host and identifier: when two
  sessions to one host have the same identifier, closing one rejects the waiting pings of the other
  as closed, and while a ping of one waits, a ping of the other with its sequence number is refused.\<close>

theorem ping_sessions_share_identifier:
  assumes s: "s = icmp_run ex xs (icmp_init l)" and k: "k < length (ib_sessions s)" "\<not> ps_closed (ib_sessions s ! k)"
    and p: "map_get (pendingPings s) key = Some p"
  shows "(if pp_host p = ps_host (ib_sessions s ! k) \<and> pp_identifier p = ps_identifier (ib_sessions s ! k)
      then (pp_promise p, Inl (net_throw ''icmp ping session closed'')) \<in> set (ib_settled (session_close k s))
        \<and> map_get (pendingPings (session_close k s)) key = None
        \<and> (ps_sequenceNumber (ib_sessions s ! k) = pp_sequenceNumber p \<and> int (length payload) \<le> MAX_ICMP_ECHO_PAYLOAD_LENGTH \<longrightarrow>
            ib_settled (session_ping ex k (Some payload) timeout now s) = ib_settled s @
              [(ib_promises s, Inl (net_throw ''icmp ping identifier and sequence number are in use''))])
      else map_get (pendingPings (session_close k s)) key = Some p)"
proof -
  let ?ps = "ib_sessions s ! k"
  let ?s = "s\<lparr>ib_sessions := (ib_sessions s)[k := ?ps\<lparr>ps_closed := True\<rparr>]\<rparr>"
  have g: "good s" unfolding s by (intro good_run good_init)
  then have ok: "map_ok (pendingPings s)" by (simp add: good_def icmp_inv_def)
  note key = pending_of_key [OF g p]
  have c: "session_close k s = close_pings (ps_host ?ps) (ps_identifier ?ps) (pendingPings s) ?s"
    using k by (simp add: session_close_def Let_def)
  have r: "pendingPings (session_close k s) = filter (\<lambda>e. \<not> of_session (ps_host ?ps) (ps_identifier ?ps) e) (pendingPings s)"
    "ib_settled (session_close k s) = ib_settled s @
      map (\<lambda>e. (pp_promise (snd e), Inl (net_throw ''icmp ping session closed'')))
        (filter (of_session (ps_host ?ps) (ps_identifier ?ps)) (pendingPings s))"
    using close_pings_result [of ?s "[]" "pendingPings s" "ps_host ?ps" "ps_identifier ?ps"] ok by (simp_all add: c)
  have ok': "map_ok (pendingPings (session_close k s))"
    using ok unfolding r map_ok_def by (simp add: distinct_map_filter)
  show ?thesis
  proof (cases "pp_host p = ps_host ?ps \<and> pp_identifier p = ps_identifier ?ps")
    case True
    then have o: "of_session (ps_host ?ps) (ps_identifier ?ps) (key, p)" by (simp add: of_session_def)
    have "(pp_promise p, Inl (net_throw ''icmp ping session closed'')) \<in> set (ib_settled (session_close k s))"
      using key(2) o unfolding r by force
    moreover have "map_get (pendingPings (session_close k s)) key \<noteq> Some q" for q
    proof
      assume "map_get (pendingPings (session_close k s)) key = Some q"
      then have "(key, q) \<in> set (pendingPings s)" "\<not> of_session (ps_host ?ps) (ps_identifier ?ps) (key, q)"
        using ok' by (auto simp: map_get_in_set r)
      moreover have "q = p" using calculation(1) p ok by (simp flip: map_get_in_set)
      ultimately show False using o by simp
    qed
    moreover have "map_get (pendingPings s) (getPendingKey (ps_host ?ps) (ps_identifier ?ps) (ps_sequenceNumber ?ps)) = Some p"
      if "ps_sequenceNumber ?ps = pp_sequenceNumber p" using that True key(1) p by simp
    moreover have "ib_disposedError s = None" using g p by (auto simp: good_def requests_inv_def)
    ultimately show ?thesis using True k
      by (auto simp: session_ping_def Let_def send_ping_def rejected_def)
  next
    case False
    then have "\<not> of_session (ps_host ?ps) (ps_identifier ?ps) (key, p)" by (simp add: of_session_def)
    with key(2) have "(key, p) \<in> set (pendingPings (session_close k s))" by (simp add: r)
    with ok' show ?thesis by (subst if_not_P [OF False]) (simp add: map_get_in_set)
  qed
qed

subsection \<open>Witnesses\<close>

text \<open>Two sessions to 10.1.2.3 with identifier 7, and a ping of the first.\<close>

definition example_icmp :: "unit icmp_exports" where
  "example_icmp = \<lparr>open_icmp_socket = (\<lambda>_ l. (5, l)), send_icmp_echo_request = (\<lambda>_ _ _ _ _ _ l. (0, l))\<rparr>"

definition example_session :: "nat icmp_input" where
  "example_session = Create (Inl RangeError) (lit ''10.1.2.3'') example_table 7 None"

definition example_waiting :: "nat icmp_input list" where
  "example_waiting = [example_session, example_session, Ping 0 (Some [1, 2]) None 100]"

definition example_reply :: ping_reply where
  "example_reply = \<lparr>rp_host = lit ''10.1.2.3'', rp_identifier = 7, rp_sequenceNumber = 0, rp_payload = [1, 2],
     rp_roundTripTime = 30\<rparr>"

lemma example_waiting_state:
  "ib_timers (icmp_run example_icmp example_waiting (icmp_init ())) = [(0, lit ''10.1.2.3:7:0'', lit ''10.1.2.3'', 1000)]"
  "ib_tasks (icmp_run example_icmp example_waiting (icmp_init ())) = []"
  "ib_promises (icmp_run example_icmp example_waiting (icmp_init ())) = 1"
  "map_get (pendingPings (icmp_run example_icmp example_waiting (icmp_init ()))) (lit ''10.1.2.3:7:0'') =
     Some \<lparr>pp_host = lit ''10.1.2.3'', pp_identifier = 7, pp_sequenceNumber = 0, pp_payload = [1, 2],
       pp_startedAt = 100, pp_promise = 0\<rparr>"
  "map (\<lambda>ps. (ps_host ps, ps_identifier ps, ps_closed ps)) (ib_sessions (icmp_run example_icmp example_waiting (icmp_init ()))) =
     [(lit ''10.1.2.3'', 7, False), (lit ''10.1.2.3'', 7, False)]"
  by code_simp+

theorem pings_settle_once_witness:
  "mset (map fst (ib_settled (icmp_run example_icmp [Timer 0 :: nat icmp_input]
     (icmp_run example_icmp example_waiting (icmp_init ()))))) = {#0#}"
  using pings_settle_once [OF refl, of example_icmp example_waiting "()", THEN conjunct2, THEN conjunct2, THEN conjunct1]
  by (simp add: example_waiting_state Let_def)

theorem ping_reply_matches_witness:
  "(0, lit ''10.1.2.3'', 7, 0, [1, 2]) \<in> set (ib_requests (icmp_run example_icmp
     (example_waiting @ [Echo_reply Family4 [10, 1, 2, 3] 7 0 [1, 2] 130, Task]) (icmp_init ())))"
proof -
  have "ib_settled (icmp_run example_icmp (example_waiting @ [Echo_reply Family4 [10, 1, 2, 3] 7 0 [1, 2] 130, Task])
      (icmp_init ())) = [(0, Inr example_reply)]"
    by code_simp
  then have "(0, Inr example_reply) \<in> set (ib_settled (icmp_run example_icmp
      (example_waiting @ [Echo_reply Family4 [10, 1, 2, 3] 7 0 [1, 2] 130, Task]) (icmp_init ())))" by simp
  from ping_reply_matches [OF refl this] show ?thesis by (simp add: example_reply_def)
qed

theorem ping_sessions_share_identifier_witness:
  "(0, Inl (net_throw ''icmp ping session closed'')) \<in>
     set (ib_settled (session_close 1 (icmp_run example_icmp example_waiting (icmp_init ()))))"
proof -
  let ?s = "icmp_run example_icmp example_waiting (icmp_init ())"
  have l: "length (ib_sessions ?s) = 2" using example_waiting_state(5) by (auto dest: map_eq_imp_length_eq)
  have "map (\<lambda>ps. (ps_host ps, ps_identifier ps, ps_closed ps)) (ib_sessions ?s) ! 1 = (lit ''10.1.2.3'', 7, False)"
    by (simp add: example_waiting_state(5))
  then have "ps_host (ib_sessions ?s ! 1) = lit ''10.1.2.3''" "ps_identifier (ib_sessions ?s ! 1) = 7"
    "\<not> ps_closed (ib_sessions ?s ! 1)" using l by simp_all
  with ping_sessions_share_identifier [OF refl _ _ example_waiting_state(4), of 1] l show ?thesis by simp
qed

end
