(* ===== verification/Udp_Sockets.thy ===== *)
theory Udp_Sockets
  imports Ip_Routes Net_Errors JS_Stream "HOL-Library.Sublist"
begin

text \<open>
  UDP sockets (\<open>packages/tcpip/src/bindings/udp.ts\<close>): the bindings and their sockets together.
  Sockets are numbered in the order of their creation; the map \<open>udpSockets\<close> gives the socket of a
  handle. A call of \<open>send\<close> first waits for the name lookup, also when the host is an address; it is
  numbered, and goes on when its answer is there. lwIP is a state of any type with the exported
  functions, the MTU of an interface is a function. The queue of the writable stream, which makes
  one call of \<open>send\<close> at a time, is left out: calls come at any time.
\<close>

subsection \<open>State\<close>

record udp_message =
  um_host :: jstring
  um_port :: nat
  um_local :: "(jstring \<times> nat) option"
  um_data :: bytes

text \<open>\<open>us_handle\<close> is the handle that the hooks of the socket close over.\<close>

record udp_socket =
  us_handle :: nat
  us_local :: "jstring \<times> nat"
  us_closed :: bool
  us_readable :: "udp_message rstream"
  us_writableError :: "net_error option"

record 'l udp_exports =
  open_udp_socket :: "address_family option \<Rightarrow> bytes option \<Rightarrow> nat \<Rightarrow> 'l \<Rightarrow> nat \<times> 'l"
  close_udp_socket :: "nat \<Rightarrow> 'l \<Rightarrow> 'l"
  send_udp_datagram :: "nat \<Rightarrow> address_family \<Rightarrow> bytes \<Rightarrow> nat \<Rightarrow> bytes \<Rightarrow> 'l \<Rightarrow> int \<times> 'l"
  get_udp_local_address_family :: "nat \<Rightarrow> 'l \<Rightarrow> address_family"
  get_udp_local_address :: "nat \<Rightarrow> 'l \<Rightarrow> bytes"
  get_udp_local_port :: "nat \<Rightarrow> 'l \<Rightarrow> nat"

text \<open>A datagram as lwIP's callback gives it: addresses as families and bytes.\<close>

record raw_datagram =
  rd_family :: address_family
  rd_host :: bytes
  rd_port :: nat
  rd_localFamily :: address_family
  rd_localHost :: bytes
  rd_localPort :: nat
  rd_data :: bytes

datatype udp_task = Deliver nat nat raw_datagram | Finish_close nat

text \<open>The calls into lwIP on a handle, which only the statements read.\<close>

datatype udp_call = Sent nat bytes | Closed nat

text \<open>
  The fields of the class, then what is around it: the sockets, the tasks that wait for their
  microtask, the sends that wait for their lookup, the settled sends, the errors of rejected
  promises that nobody handles, lwIP, the calls into it and the messages it gave for each socket.
\<close>

record 'l udp_bindings =
  udpSockets :: "(nat, nat) js_map"
  ub_disposedError :: "net_error option"
  ub_sockets :: "udp_socket list"
  ub_tasks :: "udp_task list"
  ub_waiting :: "(nat, nat \<times> udp_message) js_map"
  ub_settled :: "(nat \<times> net_error option) list"
  ub_sends :: nat
  ub_unhandled :: "js_error list"
  ub_lwip :: 'l
  ub_calls :: "udp_call list"
  ub_received :: "(nat \<times> udp_message) list"

definition udp_init :: "'l \<Rightarrow> 'l udp_bindings" where
  "udp_init l = \<lparr>udpSockets = [], ub_disposedError = None, ub_sockets = [], ub_tasks = [], ub_waiting = [],
     ub_settled = [], ub_sends = 0, ub_unhandled = [], ub_lwip = l, ub_calls = [], ub_received = []\<rparr>"

definition ERR_RTE :: int where
  "ERR_RTE = - 4"

definition update_socket :: "nat \<Rightarrow> (udp_socket \<Rightarrow> udp_socket) \<Rightarrow> 'l udp_bindings \<Rightarrow> 'l udp_bindings" where
  "update_socket k f s = s\<lparr>ub_sockets := (ub_sockets s)[k := f (ub_sockets s ! k)]\<rparr>"

definition first_error :: "net_error \<Rightarrow> net_error option \<Rightarrow> net_error option" where
  "first_error e w = (case w of None \<Rightarrow> Some e | Some e' \<Rightarrow> Some e')"

subsection \<open>Opening\<close>

text \<open>\<open>open\<close> after its lookup, whose answer is \<open>dns\<close> when there is a host.\<close>

definition open_socket :: "'l udp_exports \<Rightarrow> (jstring \<times> jstring res) option \<Rightarrow> nat option \<Rightarrow> 'l udp_bindings \<Rightarrow>
    net_error option \<times> 'l udp_bindings" where
  "open_socket ex host port s =
     (case (case host of None \<Rightarrow> Inr None | Some (h, dns) \<Rightarrow> bnd (resolveHost dns h) (\<lambda>a. Inr (Some a))) of
        Inl e \<Rightarrow> (Some (JsError e), s)
      | Inr address \<Rightarrow> (case ub_disposedError s of
          Some e \<Rightarrow> (Some e, s)
        | None \<Rightarrow>
            let (handle, l) = open_udp_socket ex (map_option pa_family address) (map_option pa_bytes address)
                  (case port of Some n \<Rightarrow> n | None \<Rightarrow> 0) (ub_lwip s); s' = s\<lparr>ub_lwip := l\<rparr> in
            if handle = 0 then (Some (net_throw ''failed to open udp socket''), s')
            else (case formatAddress (get_udp_local_address_family ex handle l) (get_udp_local_address ex handle l) of
                Inl e \<Rightarrow> (Some (JsError e), s')
              | Inr address' \<Rightarrow> (None, s'\<lparr>udpSockets := map_set handle (length (ub_sockets s')) (udpSockets s'),
                  ub_sockets := ub_sockets s' @ [\<lparr>us_handle = handle, us_local = (address', get_udp_local_port ex handle l),
                    us_closed = False, us_readable = rs_init, us_writableError = None\<rparr>]\<rparr>))))"

subsection \<open>Sending\<close>

definition settle_send :: "nat \<Rightarrow> net_error option \<Rightarrow> 'l udp_bindings \<Rightarrow> 'l udp_bindings" where
  "settle_send n r s = s\<lparr>ub_settled := ub_settled s @ [(n, r)]\<rparr>"

text \<open>The hook \<open>send\<close> up to the lookup, and after it.\<close>

definition start_send :: "nat \<Rightarrow> udp_message \<Rightarrow> 'l udp_bindings \<Rightarrow> 'l udp_bindings" where
  "start_send k datagram s =
     (let n = ub_sends s; s' = s\<lparr>ub_sends := n + 1\<rparr> in
      case ub_disposedError s of
        Some e \<Rightarrow> settle_send n (Some e) s'
      | None \<Rightarrow> s'\<lparr>ub_waiting := map_set n (k, datagram) (ub_waiting s')\<rparr>)"

definition send_resolved :: "'l udp_exports \<Rightarrow> ('i \<Rightarrow> int) \<Rightarrow> 'i route_table \<Rightarrow> jstring res \<Rightarrow> nat \<Rightarrow> nat \<Rightarrow> udp_message \<Rightarrow>
    'l udp_bindings \<Rightarrow> 'l udp_bindings" where
  "send_resolved ex mtu routes dns n k datagram s =
     (case resolveHost dns (um_host datagram) of
        Inl e \<Rightarrow> settle_send n (Some (JsError e)) s
      | Inr host \<Rightarrow> (case ub_disposedError s of
          Some e \<Rightarrow> settle_send n (Some e) s
        | None \<Rightarrow> (case bnd (formatAddress (pa_family host) (pa_bytes host)) (\<lambda>address.
              bnd (lookup_route address routes) (\<lambda>route. Inr (address, route))) of
            Inl e \<Rightarrow> settle_send n (Some (JsError e)) s
          | Inr (address, route) \<Rightarrow>
              if route = None \<and> address \<noteq> lit ''255.255.255.255''
              then settle_send n (Some (NetworkError ENETUNREACH (lit ''no route to '' @ address))) s
              else if pa_family host = Family6 \<and> (case route of None \<Rightarrow> False
                  | Some r \<Rightarrow> int (length (um_data datagram)) + 48 > mtu (rt_via r))
              then settle_send n (Some (NetworkError EMSGSIZE (lit ''UDP datagram exceeds interface MTU '' @
                (case route of None \<Rightarrow> [] | Some r \<Rightarrow> number_text (mtu (rt_via r)))))) s
              else
                let h = us_handle (ub_sockets s ! k);
                    (result, l) = send_udp_datagram ex h (pa_family host) (pa_bytes host) (um_port datagram)
                      (um_data datagram) (ub_lwip s);
                    s' = s\<lparr>ub_lwip := l, ub_calls := ub_calls s @ [Sent h (um_data datagram)]\<rparr> in
                settle_send n (if result = 0 then None
                  else if result = ERR_RTE then Some (NetworkError ENETUNREACH (lit ''no route to '' @ address))
                  else Some (JsError (Error (lit ''failed to send udp datagram: '' @ number_text result)))) s')))"

subsection \<open>Closing and disposing\<close>

text \<open>
  \<open>VirtualUdpSocket.close\<close>: the streams are put in error after an \<open>await\<close>, whatever the hook did.
\<close>

definition socket_close :: "'l udp_exports \<Rightarrow> nat \<Rightarrow> 'l udp_bindings \<Rightarrow> 'l udp_bindings" where
  "socket_close ex k s =
     (let u = ub_sockets s ! k; h = us_handle u in
      if us_closed u then s
      else
        let s' = update_socket k (\<lambda>u. u\<lparr>us_closed := True\<rparr>) s;
            s'' = (if ub_disposedError s' \<noteq> None \<or> map_get (udpSockets s') h = None then s'
              else s'\<lparr>ub_lwip := close_udp_socket ex h (ub_lwip s'), ub_calls := ub_calls s' @ [Closed h],
                udpSockets := map_delete h (udpSockets s')\<rparr>)
        in s''\<lparr>ub_tasks := ub_tasks s'' @ [Finish_close k]\<rparr>)"

definition finish_close :: "nat \<Rightarrow> 'l udp_bindings \<Rightarrow> 'l udp_bindings" where
  "finish_close k = update_socket k (\<lambda>u. u\<lparr>us_readable := controller_error (Error (lit ''udp socket closed'')) (us_readable u),
     us_writableError := first_error (net_throw ''udp socket closed'') (us_writableError u)\<rparr>)"

definition dispose_socket :: "net_error \<Rightarrow> udp_socket \<Rightarrow> udp_socket" where
  "dispose_socket e u = (if us_closed u then u else u\<lparr>us_closed := True,
     us_readable := (case controller_close (us_readable u) of Inl _ \<Rightarrow> us_readable u | Inr r \<Rightarrow> r),
     us_writableError := first_error e (us_writableError u)\<rparr>)"

definition dispose_udp :: "net_error \<Rightarrow> 'l udp_bindings \<Rightarrow> 'l udp_bindings" where
  "dispose_udp error s =
     (let e = (case ub_disposedError s of Some d \<Rightarrow> d | None \<Rightarrow> error) in
      (fold (\<lambda>(h, k). update_socket k (dispose_socket e)) (udpSockets s) (s\<lparr>ub_disposedError := Some e\<rparr>))
        \<lparr>udpSockets := []\<rparr>)"

subsection \<open>Receiving\<close>

text \<open>
  The hook of lwIP copies the datagram; the socket gets it in a microtask, if it still is the socket
  of the handle. The promise of \<open>receive\<close> is not awaited: its error is not handled by anyone.
\<close>

definition message_of :: "raw_datagram \<Rightarrow> udp_message res" where
  "message_of d = bnd (formatAddress (rd_family d) (rd_host d)) (\<lambda>host.
     bnd (formatAddress (rd_localFamily d) (rd_localHost d)) (\<lambda>address.
     Inr \<lparr>um_host = host, um_port = rd_port d, um_local = Some (address, rd_localPort d), um_data = rd_data d\<rparr>))"

definition note_received :: "nat \<Rightarrow> raw_datagram \<Rightarrow> 'l udp_bindings \<Rightarrow> 'l udp_bindings" where
  "note_received k d s = (case message_of d of Inl _ \<Rightarrow> s | Inr m \<Rightarrow> s\<lparr>ub_received := ub_received s @ [(k, m)]\<rparr>)"

definition receive_udp_datagram :: "nat \<Rightarrow> raw_datagram \<Rightarrow> 'l udp_bindings \<Rightarrow> 'l udp_bindings" where
  "receive_udp_datagram handle d s =
     (if ub_disposedError s \<noteq> None then s
      else case map_get (udpSockets s) handle of
        None \<Rightarrow> s
      | Some k \<Rightarrow> note_received k d (s\<lparr>ub_tasks := ub_tasks s @ [Deliver handle k d]\<rparr>))"

definition socket_receive :: "nat \<Rightarrow> udp_message \<Rightarrow> 'l udp_bindings \<Rightarrow> 'l udp_bindings" where
  "socket_receive k m s =
     (let u = ub_sockets s ! k in
      if us_closed u then s
      else if can_enqueue (us_readable u) then update_socket k (\<lambda>u. u\<lparr>us_readable := rs_put m (us_readable u)\<rparr>) s
      else s\<lparr>ub_unhandled := ub_unhandled s @ [TypeError]\<rparr>)"

definition run_udp_task :: "'l udp_bindings \<Rightarrow> 'l udp_bindings" where
  "run_udp_task s = (case ub_tasks s of
     [] \<Rightarrow> s
   | Deliver h k d # tasks \<Rightarrow> let s' = s\<lparr>ub_tasks := tasks\<rparr> in
       if ub_disposedError s' \<noteq> None \<or> map_get (udpSockets s') h \<noteq> Some k then s'
       else (case message_of d of
           Inl e \<Rightarrow> s'\<lparr>ub_unhandled := ub_unhandled s' @ [e]\<rparr>
         | Inr m \<Rightarrow> socket_receive k m s')
   | Finish_close k # tasks \<Rightarrow> finish_close k (s\<lparr>ub_tasks := tasks\<rparr>))"

subsection \<open>Runs\<close>

datatype 'i udp_input =
    Open "(jstring \<times> jstring res) option" "nat option"
  | Send nat udp_message
  | Resolved nat "jstring res" "'i route_table"
  | Datagram nat raw_datagram
  | Task
  | Read_socket nat
  | Cancel_socket nat
  | Close_socket nat
  | Dispose net_error

fun udp_step :: "'l udp_exports \<Rightarrow> ('i \<Rightarrow> int) \<Rightarrow> 'i udp_input \<Rightarrow> 'l udp_bindings \<Rightarrow> 'l udp_bindings" where
  "udp_step ex mtu (Open host port) s = snd (open_socket ex host port s)"
| "udp_step ex mtu (Send k datagram) s = (if k < length (ub_sockets s) then start_send k datagram s else s)"
| "udp_step ex mtu (Resolved n dns routes) s = (case map_get (ub_waiting s) n of
     None \<Rightarrow> s
   | Some (k, datagram) \<Rightarrow> send_resolved ex mtu routes dns n k datagram (s\<lparr>ub_waiting := map_delete n (ub_waiting s)\<rparr>))"
| "udp_step ex mtu (Datagram handle d) s = receive_udp_datagram handle d s"
| "udp_step ex mtu Task s = run_udp_task s"
| "udp_step ex mtu (Read_socket k) s = (if k < length (ub_sockets s)
     then update_socket k (\<lambda>u. u\<lparr>us_readable := fst (rs_read (us_readable u))\<rparr>) s else s)"
| "udp_step ex mtu (Cancel_socket k) s = (if k < length (ub_sockets s)
     then update_socket k (\<lambda>u. u\<lparr>us_readable := rs_cancel (us_readable u)\<rparr>) s else s)"
| "udp_step ex mtu (Close_socket k) s = (if k < length (ub_sockets s) then socket_close ex k s else s)"
| "udp_step ex mtu (Dispose e) s = dispose_udp e s"

definition udp_run :: "'l udp_exports \<Rightarrow> ('i \<Rightarrow> int) \<Rightarrow> 'i udp_input list \<Rightarrow> 'l udp_bindings \<Rightarrow> 'l udp_bindings" where
  "udp_run ex mtu xs s = fold (udp_step ex mtu) xs s"

subsection \<open>What a socket has been given\<close>

definition received_for :: "nat \<Rightarrow> 'l udp_bindings \<Rightarrow> udp_message list" where
  "received_for k s = map snd (filter (\<lambda>e. fst e = k) (ub_received s))"

fun task_messages :: "nat \<Rightarrow> udp_task list \<Rightarrow> udp_message list" where
  "task_messages k [] = []"
| "task_messages k (Finish_close i # ts) = task_messages k ts"
| "task_messages k (Deliver h i d # ts) =
     (case message_of d of Inl _ \<Rightarrow> [] | Inr m \<Rightarrow> if i = k then [m] else []) @ task_messages k ts"

lemma task_messages_append [simp]: "task_messages k (ts @ us) = task_messages k ts @ task_messages k us"
  by (induction k ts rule: task_messages.induct) auto

definition got :: "udp_socket \<Rightarrow> udp_message list" where
  "got u = handed (us_readable u) @ rs_queue (us_readable u)"

text \<open>A socket that takes datagrams: registered, not closed, its stream neither cancelled nor in error.\<close>

definition live :: "nat \<Rightarrow> 'l udp_bindings \<Rightarrow> bool" where
  "live k s \<longleftrightarrow> ub_disposedError s = None \<and> map_get (udpSockets s) (us_handle (ub_sockets s ! k)) = Some k \<and>
     \<not> us_closed (ub_sockets s ! k) \<and> can_enqueue (us_readable (ub_sockets s ! k))"

definition socket_ok :: "nat \<Rightarrow> 'l udp_bindings \<Rightarrow> bool" where
  "socket_ok k s \<longleftrightarrow> rs_ok (us_readable (ub_sockets s ! k)) \<and> prefix (got (ub_sockets s ! k)) (received_for k s) \<and>
     (live k s \<longrightarrow> got (ub_sockets s ! k) @ task_messages k (ub_tasks s) = received_for k s)"

definition udp_inv :: "'l udp_bindings \<Rightarrow> bool" where
  "udp_inv s \<longleftrightarrow> (\<forall>k < length (ub_sockets s). socket_ok k s) \<and>
     (\<forall>h k d. Deliver h k d \<in> set (ub_tasks s) \<longrightarrow> k < length (ub_sockets s) \<and> us_handle (ub_sockets s ! k) = h) \<and>
     (\<forall>h k. map_get (udpSockets s) h = Some k \<longrightarrow> k < length (ub_sockets s) \<and> us_handle (ub_sockets s ! k) = h) \<and>
     (\<forall>k m. (k, m) \<in> set (ub_received s) \<longrightarrow> k < length (ub_sockets s)) \<and> map_ok (udpSockets s)"

lemma udp_invI:
  assumes "\<And>k. k < length (ub_sockets s) \<Longrightarrow> socket_ok k s"
    "\<And>h k d. Deliver h k d \<in> set (ub_tasks s) \<Longrightarrow> k < length (ub_sockets s) \<and> us_handle (ub_sockets s ! k) = h"
    "\<And>h k. map_get (udpSockets s) h = Some k \<Longrightarrow> k < length (ub_sockets s) \<and> us_handle (ub_sockets s ! k) = h"
    "\<And>k m. (k, m) \<in> set (ub_received s) \<Longrightarrow> k < length (ub_sockets s)" "map_ok (udpSockets s)"
  shows "udp_inv s"
  using assms unfolding udp_inv_def by blast

lemma udp_invD:
  assumes "udp_inv s"
  shows "k < length (ub_sockets s) \<Longrightarrow> socket_ok k s"
    "Deliver h k d \<in> set (ub_tasks s) \<Longrightarrow> k < length (ub_sockets s) \<and> us_handle (ub_sockets s ! k) = h"
    "map_get (udpSockets s) h = Some k \<Longrightarrow> k < length (ub_sockets s) \<and> us_handle (ub_sockets s ! k) = h"
    "(k, m) \<in> set (ub_received s) \<Longrightarrow> k < length (ub_sockets s)" "map_ok (udpSockets s)"
  using assms unfolding udp_inv_def by blast+

text \<open>A socket that changes alone, or only stops taking datagrams.\<close>

lemma socket_ok_dead:
  assumes "socket_ok k s" "rs_ok (us_readable (ub_sockets s' ! k))"
    "prefix (got (ub_sockets s' ! k)) (got (ub_sockets s ! k))" "prefix (received_for k s) (received_for k s')" "\<not> live k s'"
  shows "socket_ok k s'"
  using assms unfolding socket_ok_def by (meson prefix_order.trans)

lemma socket_ok_same:
  assumes "socket_ok k s" "ub_sockets s' ! k = ub_sockets s ! k" "received_for k s' = received_for k s"
    "live k s' \<Longrightarrow> live k s \<and> task_messages k (ub_tasks s') = task_messages k (ub_tasks s)"
  shows "socket_ok k s'"
  using assms unfolding socket_ok_def by auto

lemma update_socket_simps [simp]:
  "udpSockets (update_socket k f s) = udpSockets s" "ub_disposedError (update_socket k f s) = ub_disposedError s"
  "ub_tasks (update_socket k f s) = ub_tasks s" "ub_received (update_socket k f s) = ub_received s"
  "length (ub_sockets (update_socket k f s)) = length (ub_sockets s)"
  "received_for i (update_socket k f s) = received_for i s"
  by (simp_all add: update_socket_def received_for_def)

lemma nth_update_socket: "i < length (ub_sockets s) \<Longrightarrow>
  ub_sockets (update_socket k f s) ! i = (if i = k then f (ub_sockets s ! i) else ub_sockets s ! i)"
  by (simp add: update_socket_def nth_list_update)

text \<open>Changing one socket, keeping its handle.\<close>

lemma udp_inv_update:
  assumes inv: "udp_inv s" and k: "k < length (ub_sockets s)" and h: "us_handle (f (ub_sockets s ! k)) = us_handle (ub_sockets s ! k)"
    and ok: "socket_ok k (update_socket k f s)"
  shows "udp_inv (update_socket k f s)"
proof (rule udp_invI)
  fix i assume "i < length (ub_sockets (update_socket k f s))"
  then have i: "i < length (ub_sockets s)" by simp
  show "socket_ok i (update_socket k f s)"
  proof (cases "i = k")
    case False
    then show ?thesis
      by (intro socket_ok_same [OF udp_invD(1) [OF inv i]]) (simp_all add: nth_update_socket i live_def)
  qed (simp add: ok)
next
  fix h' i d assume "Deliver h' i d \<in> set (ub_tasks (update_socket k f s))"
  then show "i < length (ub_sockets (update_socket k f s)) \<and> us_handle (ub_sockets (update_socket k f s) ! i) = h'"
    using udp_invD(2) [OF inv, of h' i d] h by (auto simp: nth_update_socket)
next
  fix h' i assume "map_get (udpSockets (update_socket k f s)) h' = Some i"
  then show "i < length (ub_sockets (update_socket k f s)) \<and> us_handle (ub_sockets (update_socket k f s) ! i) = h'"
    using udp_invD(3) [OF inv, of h' i] h by (auto simp: nth_update_socket)
qed (use udp_invD(4,5) [OF inv] in auto)

lemma udp_inv_init: "udp_inv (udp_init l)"
  by (simp add: udp_inv_def udp_init_def)

subsection \<open>Every step keeps the invariant\<close>

lemma rs_ok_dead_error: "prefix (got (u\<lparr>us_readable := controller_error e (us_readable u), us_writableError := w\<rparr>)) (got u)"
  by (simp add: got_def controller_error_def handed_def)

lemma udp_inv_finish:
  assumes inv: "udp_inv s" and k: "k < length (ub_sockets s)"
  shows "udp_inv (finish_close k s)"
  unfolding finish_close_def
proof (rule udp_inv_update [OF inv k])
  let ?f = "\<lambda>u. u\<lparr>us_readable := controller_error (Error (lit ''udp socket closed'')) (us_readable u),
     us_writableError := first_error (net_throw ''udp socket closed'') (us_writableError u)\<rparr>"
  note ok = udp_invD(1) [OF inv k]
  show "us_handle (?f (ub_sockets s ! k)) = us_handle (ub_sockets s ! k)" by simp
  show "socket_ok k (update_socket k ?f s)"
  proof (rule socket_ok_dead [OF ok])
    show "rs_ok (us_readable (ub_sockets (update_socket k ?f s) ! k))"
      using ok k by (simp add: nth_update_socket socket_ok_def rs_ok_error)
    show "prefix (got (ub_sockets (update_socket k ?f s) ! k)) (got (ub_sockets s ! k))"
      using k rs_ok_dead_error by (simp add: nth_update_socket)
    show "\<not> live k (update_socket k ?f s)"
      using k by (auto simp: live_def nth_update_socket can_enqueue_def controller_error_def)
  qed simp
qed

lemma udp_inv_read:
  assumes inv: "udp_inv s" and k: "k < length (ub_sockets s)"
  shows "udp_inv (update_socket k (\<lambda>u. u\<lparr>us_readable := fst (rs_read (us_readable u))\<rparr>) s)"
proof (rule udp_inv_update [OF inv k])
  let ?f = "\<lambda>u. u\<lparr>us_readable := fst (rs_read (us_readable u))\<rparr>"
  let ?u = "ub_sockets s ! k"
  note ok = udp_invD(1) [OF inv k]
  have g: "got (?f ?u) = got ?u" using handed_read [of "us_readable ?u"] by (simp add: got_def)
  have "can_enqueue (us_readable ?u)" if "can_enqueue (fst (rs_read (us_readable ?u)))"
    using that by (auto simp: can_enqueue_def rs_read_def rs_finish_def Let_def split: rs_state.splits list.splits if_splits)
  then have "live k s" if "live k (update_socket k ?f s)"
    using that k by (auto simp: live_def nth_update_socket)
  with ok g k rs_ok_read [of "us_readable ?u"] show "socket_ok k (update_socket k ?f s)"
    by (simp add: socket_ok_def nth_update_socket)
qed simp

lemma udp_inv_cancel:
  assumes inv: "udp_inv s" and k: "k < length (ub_sockets s)"
  shows "udp_inv (update_socket k (\<lambda>u. u\<lparr>us_readable := rs_cancel (us_readable u)\<rparr>) s)"
proof (rule udp_inv_update [OF inv k])
  let ?f = "\<lambda>u. u\<lparr>us_readable := rs_cancel (us_readable u)\<rparr>"
  note ok = udp_invD(1) [OF inv k]
  show "socket_ok k (update_socket k ?f s)"
  proof (rule socket_ok_dead [OF ok])
    show "rs_ok (us_readable (ub_sockets (update_socket k ?f s) ! k))"
      using ok k by (simp add: nth_update_socket socket_ok_def rs_ok_cancel)
    show "prefix (got (ub_sockets (update_socket k ?f s) ! k)) (got (ub_sockets s ! k))"
      using k by (auto simp: nth_update_socket got_def rs_cancel_def rs_finish_def handed_def)
    show "\<not> live k (update_socket k ?f s)"
      using k by (auto simp: live_def nth_update_socket can_enqueue_def rs_cancel_def rs_finish_def)
  qed simp
qed simp

lemma udp_inv_socket_receive:
  assumes inv: "udp_inv s" and k: "k < length (ub_sockets s)" and m: "message_of d = Inr m"
    and reg: "ub_disposedError s = None" "map_get (udpSockets s) (us_handle (ub_sockets s ! k)) = Some k"
    and ts: "ub_tasks s = Deliver h k d # ts"
  shows "udp_inv (socket_receive k m (s\<lparr>ub_tasks := ts\<rparr>))"
proof -
  let ?t = "s\<lparr>ub_tasks := ts\<rparr>" and ?u = "ub_sockets s ! k"
  have other: "socket_ok i ?t" if i: "i < length (ub_sockets s)" "i \<noteq> k" for i
    using ts i
    by (intro socket_ok_same [OF udp_invD(1) [OF inv i(1)]])
      (simp_all add: received_for_def live_def split: sum.splits)
  have rest: "h' = us_handle (ub_sockets s ! i) \<and> i < length (ub_sockets s)" if "Deliver h' i d' \<in> set ts" for h' i d'
    using udp_invD(2) [OF inv, of h' i d'] that ts by auto
  note ok = udp_invD(1) [OF inv k]
  show ?thesis
  proof (cases "us_closed ?u \<or> \<not> can_enqueue (us_readable ?u)")
    case True
    have "socket_ok k ?t"
    proof (rule socket_ok_dead [OF ok])
      show "\<not> live k ?t" using True by (auto simp: live_def)
      show "rs_ok (us_readable (ub_sockets ?t ! k))" using ok by (simp add: socket_ok_def)
    qed (simp_all add: received_for_def)
    with other have ok': "socket_ok i ?t" if "i < length (ub_sockets s)" for i using that by (cases "i = k") simp_all
    have t: "udp_inv ?t"
      using udp_invD(3-5) [OF inv] ok' rest by (intro udp_invI) auto
    have "udp_inv (?t\<lparr>ub_unhandled := e\<rparr>)" for e
      using t by (simp add: udp_inv_def socket_ok_def live_def received_for_def)
    with t True show ?thesis by (auto simp: socket_receive_def Let_def)
  next
    case False
    let ?f = "\<lambda>u. u\<lparr>us_readable := rs_put m (us_readable u)\<rparr>"
    have l: "live k s" using False reg by (simp add: live_def)
    have w: "got ?u @ m # task_messages k ts = received_for k s"
      using ok l m ts by (simp add: socket_ok_def)
    have r: "rs_ok (us_readable ?u)" using ok by (simp add: socket_ok_def)
    then have "rs_queue (us_readable ?u) = [] \<or> rs_requests (us_readable ?u) = 0" by (auto simp: rs_ok_def)
    then have g: "got (?f ?u) = got ?u @ [m]" by (simp add: got_def)
    have "socket_ok k (update_socket k ?f ?t)"
      unfolding socket_ok_def
    proof (intro conjI impI)
      show "rs_ok (us_readable (ub_sockets (update_socket k ?f ?t) ! k))"
        using r k False by (simp add: nth_update_socket rs_ok_put)
      have e: "got (ub_sockets (update_socket k ?f ?t) ! k) @ task_messages k (ub_tasks (update_socket k ?f ?t)) =
          received_for k (update_socket k ?f ?t)"
        using w g k by (simp add: nth_update_socket received_for_def)
      then show "prefix (got (ub_sockets (update_socket k ?f ?t) ! k)) (received_for k (update_socket k ?f ?t))"
        unfolding prefix_def by (intro exI) (rule sym)
      show "got (ub_sockets (update_socket k ?f ?t) ! k) @ task_messages k (ub_tasks (update_socket k ?f ?t)) =
          received_for k (update_socket k ?f ?t)" by (rule e)
    qed
    moreover have "socket_ok i (update_socket k ?f ?t)" if i: "i < length (ub_sockets s)" "i \<noteq> k" for i
      using i by (intro socket_ok_same [OF other [OF i]]) (simp_all add: nth_update_socket live_def)
    ultimately have "udp_inv (update_socket k ?f ?t)"
      using udp_invD(3-5) [OF inv] rest
      by (intro udp_invI) (auto simp: nth_update_socket)
    with False show ?thesis by (simp add: socket_receive_def Let_def)
  qed
qed

lemma udp_inv_drop_task:
  assumes inv: "udp_inv s" and ts: "ub_tasks s = t # ts"
    and dead: "\<And>h k d. t = Deliver h k d \<Longrightarrow> message_of d \<noteq> Inl e \<Longrightarrow> \<not> live k s" and e: "\<forall>h k d. t = Deliver h k d \<longrightarrow> (\<forall>e'. message_of d = Inl e' \<longrightarrow> e' = e)"
  shows "udp_inv (s\<lparr>ub_tasks := ts\<rparr>)"
proof (rule udp_invI)
  fix i assume "i < length (ub_sockets (s\<lparr>ub_tasks := ts\<rparr>))"
  then have i: "i < length (ub_sockets s)" by simp
  show "socket_ok i (s\<lparr>ub_tasks := ts\<rparr>)"
  proof (rule socket_ok_same [OF udp_invD(1) [OF inv i]])
    assume l: "live i (s\<lparr>ub_tasks := ts\<rparr>)"
    then have l': "live i s" by (simp add: live_def)
    have "task_messages i [t] = []"
    proof (cases t)
      case (Deliver h k d)
      then show ?thesis using dead [OF Deliver] e l' by (cases "message_of d") auto
    qed simp
    then have "task_messages i (ub_tasks s) = task_messages i ts"
      using task_messages_append [of i "[t]" ts] ts by simp
    with l' show "live i s \<and> task_messages i (ub_tasks (s\<lparr>ub_tasks := ts\<rparr>)) = task_messages i (ub_tasks s)" by simp
  qed (simp_all add: received_for_def)
next
  fix h k d assume "Deliver h k d \<in> set (ub_tasks (s\<lparr>ub_tasks := ts\<rparr>))"
  then have "Deliver h k d \<in> set (ub_tasks s)" using ts by simp
  from udp_invD(2) [OF inv this]
  show "k < length (ub_sockets (s\<lparr>ub_tasks := ts\<rparr>)) \<and> us_handle (ub_sockets (s\<lparr>ub_tasks := ts\<rparr>) ! k) = h" by simp
qed (use udp_invD(3-5) [OF inv] in simp_all)

lemma udp_inv_cong:
  assumes "udp_inv s" "udpSockets s' = udpSockets s" "ub_disposedError s' = ub_disposedError s" "ub_sockets s' = ub_sockets s"
    "ub_tasks s' = ub_tasks s" "ub_received s' = ub_received s"
  shows "udp_inv s'"
  using assms by (simp add: udp_inv_def socket_ok_def live_def received_for_def)

lemma udp_inv_task:
  assumes inv: "udp_inv s"
  shows "udp_inv (run_udp_task s)"
proof (cases "ub_tasks s")
  case Nil
  with inv show ?thesis by (simp add: run_udp_task_def)
next
  case (Cons t ts)
  show ?thesis
  proof (cases t)
    case (Finish_close k)
    let ?t = "s\<lparr>ub_tasks := ts\<rparr>"
    have t: "udp_inv ?t" using Finish_close by (intro udp_inv_drop_task [OF inv Cons]) simp_all
    show ?thesis
    proof (cases "k < length (ub_sockets s)")
      case True
      with t have "udp_inv (finish_close k ?t)" by (intro udp_inv_finish) simp_all
      with Cons Finish_close show ?thesis by (simp add: run_udp_task_def)
    next
      case False
      then have "finish_close k ?t = ?t" by (simp add: finish_close_def update_socket_def not_less list_update_beyond)
      with t Cons Finish_close show ?thesis by (simp add: run_udp_task_def)
    qed
  next
    case (Deliver h k d)
    let ?t = "s\<lparr>ub_tasks := ts\<rparr>"
    have kh: "k < length (ub_sockets s)" "us_handle (ub_sockets s ! k) = h"
      using udp_invD(2) [OF inv, of h k d] Cons Deliver by simp_all
    show ?thesis
    proof (cases "ub_disposedError s \<noteq> None \<or> map_get (udpSockets s) h \<noteq> Some k")
      case True
      then have "\<not> live k s" using kh by (auto simp: live_def)
      then have "udp_inv ?t"
        using Deliver by (intro udp_inv_drop_task [OF inv Cons, where e = "case message_of d of Inl e \<Rightarrow> e | Inr _ \<Rightarrow> TypeError"]) auto
      with True Cons Deliver show ?thesis by (simp add: run_udp_task_def Let_def)
    next
      case False
      show ?thesis
      proof (cases "message_of d")
        case (Inl e)
        have "udp_inv ?t" using Deliver Inl by (intro udp_inv_drop_task [OF inv Cons, where e = e]) auto
        then have "udp_inv (?t\<lparr>ub_unhandled := ub_unhandled s @ [e]\<rparr>)" by (rule udp_inv_cong) simp_all
        with False Cons Deliver Inl show ?thesis by (simp add: run_udp_task_def Let_def)
      next
        case (Inr m)
        have "udp_inv (socket_receive k m ?t)"
          using False kh Cons Deliver by (intro udp_inv_socket_receive [OF inv kh(1) Inr, where h = h]) simp_all
        with False Cons Deliver Inr show ?thesis by (simp add: run_udp_task_def Let_def)
      qed
    qed
  qed
qed

lemma udp_inv_datagram:
  assumes inv: "udp_inv s"
  shows "udp_inv (receive_udp_datagram h d s)"
proof (cases "ub_disposedError s \<noteq> None \<or> map_get (udpSockets s) h = None")
  case True
  with inv show ?thesis by (auto simp: receive_udp_datagram_def)
next
  case False
  then obtain k where k: "map_get (udpSockets s) h = Some k" by auto
  note kh = udp_invD(3) [OF inv k]
  let ?t = "receive_udp_datagram h d s"
  have t: "?t = note_received k d (s\<lparr>ub_tasks := ub_tasks s @ [Deliver h k d]\<rparr>)"
    using False k by (simp add: receive_udp_datagram_def)
  have f: "ub_sockets ?t = ub_sockets s" "udpSockets ?t = udpSockets s" "ub_disposedError ?t = ub_disposedError s"
    "ub_tasks ?t = ub_tasks s @ [Deliver h k d]"
    "ub_received ?t = ub_received s @ (case message_of d of Inl _ \<Rightarrow> [] | Inr m \<Rightarrow> [(k, m)])"
    by (auto simp: t note_received_def split: sum.splits)
  have l: "live i ?t = live i s" for i by (simp add: live_def f)
  show ?thesis
  proof (rule udp_invI)
    fix i assume "i < length (ub_sockets ?t)"
    then have ok: "socket_ok i s" using udp_invD(1) [OF inv] by (simp add: f)
    have r: "received_for i ?t = received_for i s @ task_messages i [Deliver h k d]"
      by (auto simp: received_for_def f split: sum.splits)
    then show "socket_ok i ?t"
      using ok by (auto simp: socket_ok_def f l)
  qed (use kh udp_invD(2-5) [OF inv] in \<open>auto simp: f split: sum.splits\<close>)
qed

lemma udp_inv_unregister:
  assumes inv: "udp_inv s"
  shows "udp_inv (s\<lparr>udpSockets := map_delete h (udpSockets s)\<rparr>)"
proof (rule udp_invI)
  note mok = udp_invD(5) [OF inv]
  have g: "map_get (map_delete h (udpSockets s)) i = Some k \<longleftrightarrow> i \<noteq> h \<and> map_get (udpSockets s) i = Some k" for i k
    using mok by (simp add: map_get_delete)
  {
    fix k assume "k < length (ub_sockets (s\<lparr>udpSockets := map_delete h (udpSockets s)\<rparr>))"
    then have k: "k < length (ub_sockets s)" by simp
    show "socket_ok k (s\<lparr>udpSockets := map_delete h (udpSockets s)\<rparr>)"
      by (rule socket_ok_same [OF udp_invD(1) [OF inv k]]) (simp_all add: received_for_def live_def g)
  }
  fix i k assume "map_get (udpSockets (s\<lparr>udpSockets := map_delete h (udpSockets s)\<rparr>)) i = Some k"
  then have "map_get (udpSockets s) i = Some k" by (simp add: g)
  from udp_invD(3) [OF inv this]
  show "k < length (ub_sockets (s\<lparr>udpSockets := map_delete h (udpSockets s)\<rparr>)) \<and>
    us_handle (ub_sockets (s\<lparr>udpSockets := map_delete h (udpSockets s)\<rparr>) ! k) = i" by simp
qed (use udp_invD(2,4,5) [OF inv] in \<open>simp_all add: map_ok_delete\<close>)

lemma udp_inv_closed:
  assumes inv: "udp_inv s" and k: "k < length (ub_sockets s)"
  shows "udp_inv (update_socket k (\<lambda>u. u\<lparr>us_closed := True\<rparr>) s)"
proof (rule udp_inv_update [OF inv k])
  note ok = udp_invD(1) [OF inv k]
  show "socket_ok k (update_socket k (\<lambda>u. u\<lparr>us_closed := True\<rparr>) s)"
    by (rule socket_ok_dead [OF ok]) (use ok k in \<open>simp_all add: nth_update_socket socket_ok_def live_def got_def\<close>)
qed simp

lemma udp_inv_finish_task: "udp_inv s \<Longrightarrow> udp_inv (s\<lparr>ub_tasks := ub_tasks s @ [Finish_close k]\<rparr>)"
  by (simp add: udp_inv_def socket_ok_def live_def received_for_def)

lemma udp_inv_close:
  assumes inv: "udp_inv s" and k: "k < length (ub_sockets s)"
  shows "udp_inv (socket_close ex k s)"
proof (cases "us_closed (ub_sockets s ! k)")
  case True
  with inv show ?thesis by (simp add: socket_close_def Let_def)
next
  case False
  let ?h = "us_handle (ub_sockets s ! k)" and ?s = "update_socket k (\<lambda>u. u\<lparr>us_closed := True\<rparr>) s"
  have i: "udp_inv ?s" by (rule udp_inv_closed [OF inv k])
  show ?thesis
  proof (cases "ub_disposedError s \<noteq> None \<or> map_get (udpSockets s) ?h = None")
    case True
    with False udp_inv_finish_task [OF i] show ?thesis by (auto simp: socket_close_def Let_def)
  next
    case f: False
    let ?t = "?s\<lparr>ub_lwip := close_udp_socket ex ?h (ub_lwip ?s), ub_calls := ub_calls ?s @ [Closed ?h],
      udpSockets := map_delete ?h (udpSockets ?s)\<rparr>"
    have "udp_inv (?s\<lparr>udpSockets := map_delete ?h (udpSockets ?s)\<rparr>)" by (rule udp_inv_unregister [OF i])
    then have "udp_inv ?t" by (rule udp_inv_cong) simp_all
    from udp_inv_finish_task [OF this, of k] show ?thesis using False f by (auto simp: socket_close_def Let_def)
  qed
qed

lemma dispose_socket_stream:
  assumes "rs_ok (us_readable u)"
  shows "rs_ok (us_readable (dispose_socket e u)) \<and> got (dispose_socket e u) = got u \<and>
    us_handle (dispose_socket e u) = us_handle u"
proof (cases "controller_close (us_readable u)")
  case (Inl e)
  with assms show ?thesis by (simp add: dispose_socket_def got_def)
next
  case (Inr r)
  then have "handed r @ rs_queue r = handed (us_readable u) @ rs_queue (us_readable u)"
    by (auto simp: controller_close_def rs_finish_def handed_def split: if_splits)
  with Inr assms rs_ok_close [OF assms Inr] show ?thesis by (simp add: dispose_socket_def got_def)
qed

lemma udp_inv_disposing:
  assumes "udp_inv s" "ub_disposedError s \<noteq> None" "\<forall>h k. (h, k) \<in> set m \<longrightarrow> k < length (ub_sockets s)"
  shows "udp_inv (fold (\<lambda>(h, k). update_socket k (dispose_socket e)) m s)"
  using assms
proof (induction m arbitrary: s)
  case (Cons x m)
  obtain h k where x: "x = (h, k)" by (cases x)
  have k: "k < length (ub_sockets s)" using Cons.prems(3) x by simp
  note ok = udp_invD(1) [OF Cons.prems(1) k]
  then have r: "rs_ok (us_readable (ub_sockets s ! k))" by (simp add: socket_ok_def)
  note d = dispose_socket_stream [OF r, of e]
  have "udp_inv (update_socket k (dispose_socket e) s)"
  proof (rule udp_inv_update [OF Cons.prems(1) k])
    show "socket_ok k (update_socket k (dispose_socket e) s)"
      by (rule socket_ok_dead [OF ok]) (use d k Cons.prems(2) in \<open>simp_all add: nth_update_socket live_def\<close>)
  qed (use d in simp)
  with Cons.IH [of "update_socket k (dispose_socket e) s"] Cons.prems(2,3) show ?case by (simp add: x)
qed simp

lemma fold_dispose_error: "ub_disposedError (fold (\<lambda>(h, k). update_socket k (dispose_socket e)) m s) = ub_disposedError s"
  by (induction m arbitrary: s) auto

lemma udp_inv_dispose:
  assumes inv: "udp_inv s"
  shows "udp_inv (dispose_udp error s)"
proof -
  define e where "e = (case ub_disposedError s of Some d \<Rightarrow> d | None \<Rightarrow> error)"
  let ?s = "s\<lparr>ub_disposedError := Some e\<rparr>"
  let ?t = "fold (\<lambda>(h, k). update_socket k (dispose_socket e)) (udpSockets s) ?s"
  have "udp_inv ?s" using inv by (simp add: udp_inv_def socket_ok_def live_def received_for_def)
  moreover have "k < length (ub_sockets s)" if "(h, k) \<in> set (udpSockets s)" for h k
    using udp_invD(3,5) [OF inv] that by (metis map_get_in_set)
  ultimately have t: "udp_inv ?t" by (intro udp_inv_disposing) auto
  have "ub_disposedError ?t = Some e" by (simp add: fold_dispose_error)
  with t have "udp_inv (?t\<lparr>udpSockets := []\<rparr>)" by (simp add: udp_inv_def socket_ok_def live_def received_for_def)
  then show ?thesis by (simp add: dispose_udp_def Let_def e_def)
qed

lemma udp_inv_new:
  assumes inv: "udp_inv s" and u: "us_handle u = h" "us_readable u = rs_init"
  shows "udp_inv (s\<lparr>udpSockets := map_set h (length (ub_sockets s)) (udpSockets s), ub_sockets := ub_sockets s @ [u]\<rparr>)"
proof (rule udp_invI)
  let ?n = "length (ub_sockets s)"
  let ?t = "s\<lparr>udpSockets := map_set h (length (ub_sockets s)) (udpSockets s), ub_sockets := ub_sockets s @ [u]\<rparr>"
  {
    fix k assume "k < length (ub_sockets ?t)"
    then consider "k < ?n" | "k = ?n" by (auto simp: less_Suc_eq)
    then show "socket_ok k ?t"
    proof cases
      case 1
      then show ?thesis
        by (intro socket_ok_same [OF udp_invD(1) [OF inv]])
          (auto simp: nth_append received_for_def live_def map_get_set split: if_splits)
    next
      case 2
      have "received_for k s = []"
        using udp_invD(4) [OF inv] 2 by (fastforce simp: received_for_def filter_empty_conv)
      moreover have "task_messages k ts = []" if "\<forall>h k' d. Deliver h k' d \<in> set ts \<longrightarrow> k' \<noteq> k" for ts
        using that by (induction k ts rule: task_messages.induct) (auto split: sum.splits)
      then have "task_messages k (ub_tasks s) = []" using udp_invD(2) [OF inv] 2 by blast
      ultimately show ?thesis
        using 2 u rs_ok_init by (simp add: socket_ok_def got_def received_for_def) (simp add: rs_init_def handed_def)
    qed
  }
  {
    fix h' k d assume "Deliver h' k d \<in> set (ub_tasks ?t)"
    then show "k < length (ub_sockets ?t) \<and> us_handle (ub_sockets ?t ! k) = h'"
      using udp_invD(2) [OF inv, of h' k d] by (simp add: nth_append)
  }
  {
    fix h' k assume "map_get (udpSockets ?t) h' = Some k"
    then show "k < length (ub_sockets ?t) \<and> us_handle (ub_sockets ?t ! k) = h'"
      using udp_invD(3) [OF inv, of h' k] u by (auto simp: nth_append map_get_set split: if_splits)
  }
  {
    fix k m assume "(k, m) \<in> set (ub_received ?t)"
    then show "k < length (ub_sockets ?t)" using udp_invD(4) [OF inv, of k m] by simp
  }
  show "map_ok (udpSockets ?t)" using udp_invD(5) [OF inv] by (simp add: map_ok_set)
qed

lemma udp_inv_open:
  assumes inv: "udp_inv s"
  shows "udp_inv (snd (open_socket ex host port s))"
proof -
  have l: "udp_inv (s\<lparr>ub_lwip := l\<rparr>)" for l using inv by (rule udp_inv_cong) simp_all
  show ?thesis
    using inv l udp_inv_new [OF l]
    by (auto simp: open_socket_def Let_def split: sum.split option.split prod.split)
qed

lemma settle_send_fields [simp]:
  "udpSockets (settle_send n r s) = udpSockets s" "ub_disposedError (settle_send n r s) = ub_disposedError s"
  "ub_sockets (settle_send n r s) = ub_sockets s" "ub_tasks (settle_send n r s) = ub_tasks s"
  "ub_received (settle_send n r s) = ub_received s" "ub_calls (settle_send n r s) = ub_calls s"
  by (simp_all add: settle_send_def)

lemma send_resolved_fields:
  "udpSockets (send_resolved ex mtu routes dns n k d s) = udpSockets s \<and>
   ub_disposedError (send_resolved ex mtu routes dns n k d s) = ub_disposedError s \<and>
   ub_sockets (send_resolved ex mtu routes dns n k d s) = ub_sockets s \<and>
   ub_tasks (send_resolved ex mtu routes dns n k d s) = ub_tasks s \<and>
   ub_received (send_resolved ex mtu routes dns n k d s) = ub_received s"
proof (cases "resolveHost dns (um_host d)")
  case (Inl e)
  then show ?thesis by (simp add: send_resolved_def)
next
  case (Inr host)
  note r = this
  show ?thesis
  proof (cases "ub_disposedError s")
    case (Some e)
    with r show ?thesis by (simp add: send_resolved_def)
  next
    case None
    let ?x = "bnd (formatAddress (pa_family host) (pa_bytes host)) (\<lambda>address.
      bnd (lookup_route address routes) (\<lambda>route. Inr (address, route)))"
    show ?thesis
    proof (cases ?x)
      case (Inl e)
      with r None show ?thesis by (simp add: send_resolved_def)
    next
      case (Inr q)
      obtain a route where q: "q = (a, route)" by (cases q)
      obtain result l where "send_udp_datagram ex (us_handle (ub_sockets s ! k)) (pa_family host) (pa_bytes host) (um_port d)
          (um_data d) (ub_lwip s) = (result, l)" by fastforce
      with r None Inr q show ?thesis by (simp add: send_resolved_def Let_def)
    qed
  qed
qed

lemma udp_inv_step: "udp_inv s \<Longrightarrow> udp_inv (udp_step ex mtu x s)"
proof (cases x)
  case (Resolved n dns routes)
  assume inv: "udp_inv s"
  show ?thesis
  proof (cases "map_get (ub_waiting s) n")
    case None
    with inv Resolved show ?thesis by simp
  next
    case (Some j)
    obtain k d where j: "j = (k, d)" by (cases j)
    let ?s = "s\<lparr>ub_waiting := map_delete n (ub_waiting s)\<rparr>"
    have "udp_inv (send_resolved ex mtu routes dns n k d ?s)"
      using send_resolved_fields [of ex mtu routes dns n k d ?s] by (intro udp_inv_cong [OF inv]) simp_all
    with Some j Resolved show ?thesis by simp
  qed
next
  case (Send k d)
  assume inv: "udp_inv s"
  have "udp_inv (start_send k d s)"
    by (rule udp_inv_cong [OF inv]) (simp_all add: start_send_def Let_def split: option.split)
  with Send inv show ?thesis by simp
qed (auto intro: udp_inv_open udp_inv_datagram udp_inv_task udp_inv_read udp_inv_cancel udp_inv_close udp_inv_dispose)

lemma udp_inv_run: "udp_inv s \<Longrightarrow> udp_inv (udp_run ex mtu xs s)"
  unfolding udp_run_def by (induction xs arbitrary: s) (simp_all add: udp_inv_step)

subsection \<open>Properties\<close>

text \<open>C24: The datagrams of a socket reach its reader in order, each once: in every state, what the
  reader has been given and what is queued for it is a prefix of what lwIP has delivered for the
  socket, whatever other sockets, sends, closes and disposals do in between. While the socket is
  open, not cancelled and the stack not disposed of, nothing is missing: what has not reached the
  stream waits in a microtask. The reader's answers are datagrams, then the end or one error.\<close>

theorem udp_datagrams_in_order:
  assumes "s = udp_run ex mtu xs (udp_init l)" "k < length (ub_sockets s)"
  shows "prefix (handed (us_readable (ub_sockets s ! k)) @ rs_queue (us_readable (ub_sockets s ! k)))
      (map snd (filter (\<lambda>e. fst e = k) (ub_received s)))
    \<and> (ub_disposedError s = None \<and> map_get (udpSockets s) (us_handle (ub_sockets s ! k)) = Some k
        \<and> \<not> us_closed (ub_sockets s ! k) \<and> can_enqueue (us_readable (ub_sockets s ! k)) \<longrightarrow>
      handed (us_readable (ub_sockets s ! k)) @ rs_queue (us_readable (ub_sockets s ! k)) @ task_messages k (ub_tasks s)
        = map snd (filter (\<lambda>e. fst e = k) (ub_received s)))
    \<and> answers_ok (us_readable (ub_sockets s ! k))"
proof -
  have "udp_inv s" unfolding assms(1) by (rule udp_inv_run [OF udp_inv_init])
  from udp_invD(1) [OF this assms(2)] show ?thesis
    by (simp add: socket_ok_def live_def got_def received_for_def rs_ok_answers)
qed

lemma udp_run_simps [simp]:
  "udp_run ex mtu [] s = s" "udp_run ex mtu (x # xs) s = udp_run ex mtu xs (udp_step ex mtu x s)"
  by (simp_all add: udp_run_def)

lemma close_registered:
  assumes "ub_disposedError s = None" "map_get (udpSockets s) h \<noteq> None" "h = us_handle (ub_sockets s ! k)"
    "\<not> us_closed (ub_sockets s ! k)" "k < length (ub_sockets s)"
  shows "ub_calls (socket_close ex k s) = ub_calls s @ [Closed h] \<and> ub_waiting (socket_close ex k s) = ub_waiting s \<and>
    ub_disposedError (socket_close ex k s) = None \<and> us_handle (ub_sockets (socket_close ex k s) ! k) = h \<and>
    udpSockets (socket_close ex k s) = map_delete h (udpSockets s)"
  using assms by (simp add: socket_close_def Let_def update_socket_def)

lemma send_resolved_calls:
  assumes "resolveHost dns (um_host d) = Inr host" "ub_disposedError s = None"
    "formatAddress (pa_family host) (pa_bytes host) = Inr address" "lookup_route address routes = Inr (Some r)"
    "pa_family host = Family6 \<longrightarrow> int (length (um_data d)) + 48 \<le> mtu (rt_via r)"
  shows "ub_calls (send_resolved ex mtu routes dns n k d s) =
    ub_calls s @ [Sent (us_handle (ub_sockets s ! k)) (um_data d)]"
proof -
  obtain result l where c: "send_udp_datagram ex (us_handle (ub_sockets s ! k)) (pa_family host) (pa_bytes host) (um_port d)
      (um_data d) (ub_lwip s) = (result, l)" by fastforce
  have "\<not> (pa_family host = Family6 \<and> int (length (um_data d)) + 48 > mtu (rt_via r))" using assms(5) by auto
  with assms(1-4) c show ?thesis by (simp add: send_resolved_def Let_def)
qed

text \<open>A send that waits for its name lookup does not notice that its socket is closed meanwhile:
  the close frees the socket of the handle in lwIP, and when the answer comes the datagram is sent
  with the freed handle, which by then may belong to another socket.\<close>

theorem udp_send_after_close:
  assumes "s = udp_run ex mtu xs (udp_init l)" "k < length (ub_sockets s)" "h = us_handle (ub_sockets s ! k)"
    and "ub_disposedError s = None" "map_get (udpSockets s) h = Some k" "\<not> us_closed (ub_sockets s ! k)"
    and "map_get (ub_waiting s) n = Some (k, d)" "resolveHost dns (um_host d) = Inr host"
    and "formatAddress (pa_family host) (pa_bytes host) = Inr address" "lookup_route address routes = Inr (Some r)"
    and "pa_family host = Family6 \<longrightarrow> int (length (um_data d)) + 48 \<le> mtu (rt_via r)"
  shows "ub_calls (udp_run ex mtu [Close_socket k, Resolved n dns routes] s) = ub_calls s @ [Closed h, Sent h (um_data d)]
    \<and> map_get (udpSockets (udp_run ex mtu [Close_socket k] s)) h = None"
proof -
  have "udp_inv s" unfolding assms(1) by (rule udp_inv_run [OF udp_inv_init])
  then have ok: "map_ok (udpSockets s)" by (rule udp_invD(5))
  have c: "ub_calls (socket_close ex k s) = ub_calls s @ [Closed h]" "ub_waiting (socket_close ex k s) = ub_waiting s"
    "ub_disposedError (socket_close ex k s) = None" "us_handle (ub_sockets (socket_close ex k s) ! k) = h"
    "udpSockets (socket_close ex k s) = map_delete h (udpSockets s)"
    using close_registered [of s h k ex] assms(2-6) by simp_all
  let ?t = "(socket_close ex k s)\<lparr>ub_waiting := map_delete n (ub_waiting s)\<rparr>"
  have "ub_calls (send_resolved ex mtu routes dns n k d ?t) =
      ub_calls ?t @ [Sent (us_handle (ub_sockets ?t ! k)) (um_data d)]"
    using assms(8-11) c(3) by (intro send_resolved_calls) simp_all
  then show ?thesis using assms(2,7) c ok by (simp add: map_get_delete)
qed

text \<open>A reader that cancels its stream, as leaving a \<open>for await\<close> loop over a socket does, leaves
  the socket open and registered: every datagram that arrives afterwards is enqueued on a closed
  stream, which throws in a promise that nobody handles.\<close>

theorem udp_cancel_unhandled:
  assumes "s = udp_run ex mtu xs (udp_init l)" "k < length (ub_sockets s)" "h = us_handle (ub_sockets s ! k)"
    and "ub_disposedError s = None" "map_get (udpSockets s) h = Some k" "\<not> us_closed (ub_sockets s ! k)"
    and "ub_tasks s = []" "message_of d = Inr m"
  shows "ub_unhandled (udp_run ex mtu [Cancel_socket k, Datagram h d, Task] s) = ub_unhandled s @ [TypeError]
    \<and> map_get (udpSockets (udp_run ex mtu [Cancel_socket k, Datagram h d, Task] s)) h = Some k"
proof -
  let ?f = "\<lambda>u. u\<lparr>us_readable := rs_cancel (us_readable u)\<rparr>"
  let ?t = "update_socket k ?f s"
  have dead: "\<not> can_enqueue (us_readable (ub_sockets ?t ! k))" "\<not> us_closed (ub_sockets ?t ! k)"
    using assms(2,6) by (auto simp: nth_update_socket can_enqueue_def rs_cancel_def rs_finish_def)
  have u: "ub_unhandled ?t = ub_unhandled s" by (simp add: update_socket_def)
  have "udp_run ex mtu [Cancel_socket k, Datagram h d, Task] s =
      run_udp_task (note_received k d (?t\<lparr>ub_tasks := [Deliver h k d]\<rparr>))"
    using assms by (simp add: receive_udp_datagram_def)
  also have "\<dots> = (?t\<lparr>ub_tasks := [], ub_received := ub_received s @ [(k, m)],
      ub_unhandled := ub_unhandled s @ [TypeError]\<rparr>)"
    using assms(4,5,8) dead u
    by (simp add: note_received_def run_udp_task_def Let_def socket_receive_def)
  finally show ?thesis using assms(5) by simp
qed

subsection \<open>Witnesses\<close>

definition example_udp :: "unit udp_exports" where
  "example_udp = \<lparr>open_udp_socket = (\<lambda>_ _ _ l. (9, l)), close_udp_socket = (\<lambda>_ l. l),
     send_udp_datagram = (\<lambda>_ _ _ _ _ l. (0, l)), get_udp_local_address_family = (\<lambda>_ _. Family4),
     get_udp_local_address = (\<lambda>_ _. [10, 1, 0, 1]), get_udp_local_port = (\<lambda>_ _. 53)\<rparr>"

definition example_datagram :: "byte \<Rightarrow> raw_datagram" where
  "example_datagram b = \<lparr>rd_family = Family4, rd_host = [10, 1, 0, 2], rd_port = 68, rd_localFamily = Family4,
     rd_localHost = [10, 1, 0, 1], rd_localPort = 53, rd_data = [b]\<rparr>"

definition example_out :: udp_message where
  "example_out = \<lparr>um_host = lit ''10.1.2.3'', um_port = 53, um_local = None, um_data = [7]\<rparr>"

definition example_open :: "nat udp_input list" where
  "example_open = [Open None None]"

lemma example_message: "message_of (example_datagram b) = Inr \<lparr>um_host = lit ''10.1.0.2'', um_port = 68,
    um_local = Some (lit ''10.1.0.1'', 53), um_data = [b]\<rparr>"
proof -
  have "formatAddress Family4 [10, 1, 0, 2] = Inr (lit ''10.1.0.2'')" "formatAddress Family4 [10, 1, 0, 1] = Inr (lit ''10.1.0.1'')"
    by code_simp+
  then show ?thesis by (simp add: message_of_def example_datagram_def)
qed

theorem udp_datagrams_in_order_witness:
  "map um_data (handed (us_readable (ub_sockets (udp_run example_udp (\<lambda>_::nat. 1500)
     (example_open @ [Datagram 9 (example_datagram 1), Datagram 9 (example_datagram 2), Task, Task, Read_socket 0])
     (udp_init ())) ! 0))) = [[1]]
   \<and> prefix (handed (us_readable (ub_sockets (udp_run example_udp (\<lambda>_::nat. 1500)
     (example_open @ [Datagram 9 (example_datagram 1), Datagram 9 (example_datagram 2), Task, Task, Read_socket 0])
     (udp_init ())) ! 0)))
     (map snd (ub_received (udp_run example_udp (\<lambda>_::nat. 1500)
     (example_open @ [Datagram 9 (example_datagram 1), Datagram 9 (example_datagram 2), Task, Task, Read_socket 0])
     (udp_init ()))))"
proof -
  let ?s = "udp_run example_udp (\<lambda>_::nat. 1500)
     (example_open @ [Datagram 9 (example_datagram 1), Datagram 9 (example_datagram 2), Task, Task, Read_socket 0])
     (udp_init ())"
  have f: "0 < length (ub_sockets ?s)" "list_all (\<lambda>e. fst e = 0) (ub_received ?s)"
    "map um_data (handed (us_readable (ub_sockets ?s ! 0))) = [[1]]" by code_simp+
  then have "filter (\<lambda>e. fst e = 0) (ub_received ?s) = ub_received ?s"
    by (intro filter_True) (simp add: list_all_iff)
  with udp_datagrams_in_order [OF refl f(1), THEN conjunct1]
  have "prefix (handed (us_readable (ub_sockets ?s ! 0)) @ rs_queue (us_readable (ub_sockets ?s ! 0)))
      (map snd (ub_received ?s))" by simp
  with f(3) append_prefixD show ?thesis by blast
qed

definition example_sending :: "unit udp_bindings" where
  "example_sending = udp_run example_udp (\<lambda>_::nat. 1500) (example_open @ [Send 0 example_out]) (udp_init ())"

theorem udp_send_after_close_witness:
  "ub_calls (udp_run example_udp (\<lambda>_::nat. 1500) [Close_socket 0, Resolved 0 (Inl RangeError) example_table] example_sending)
     = [Closed 9, Sent 9 [7]]"
proof -
  have s: "0 < length (ub_sockets example_sending)" "us_handle (ub_sockets example_sending ! 0) = 9"
    "ub_disposedError example_sending = None" "map_get (udpSockets example_sending) 9 = Some 0"
    "\<not> us_closed (ub_sockets example_sending ! 0)" "map_get (ub_waiting example_sending) 0 = Some (0, example_out)"
    "ub_calls example_sending = []"
    by code_simp+
  have r: "resolveHost (Inl RangeError) (um_host example_out) = Inr \<lparr>pa_family = Family4, pa_bytes = [10, 1, 2, 3]\<rparr>"
    "formatAddress Family4 [10, 1, 2, 3] = Inr (lit ''10.1.2.3'')"
    "lookup_route (lit ''10.1.2.3'') example_table = Inr (Some (snapshot example_r2))"
    by code_simp+
  have "ub_calls (udp_run example_udp (\<lambda>_::nat. 1500) [Close_socket 0, Resolved 0 (Inl RangeError) example_table] example_sending)
      = ub_calls example_sending @ [Closed 9, Sent 9 (um_data example_out)]"
    by (rule udp_send_after_close [OF example_sending_def s(1) s(2) [symmetric] s(3-6) r(1), THEN conjunct1])
      (use r in simp_all)
  with s(7) show ?thesis by (simp add: example_out_def)
qed

theorem udp_cancel_unhandled_witness:
  "ub_unhandled (udp_run example_udp (\<lambda>_::nat. 1500) [Cancel_socket 0, Datagram 9 (example_datagram 1), Task]
     (udp_run example_udp (\<lambda>_::nat. 1500) example_open (udp_init ()))) = [TypeError]"
proof -
  let ?s = "udp_run example_udp (\<lambda>_::nat. 1500) example_open (udp_init ())"
  have s: "0 < length (ub_sockets ?s)" "9 = us_handle (ub_sockets ?s ! 0)"
    "ub_disposedError ?s = None" "map_get (udpSockets ?s) 9 = Some 0"
    "\<not> us_closed (ub_sockets ?s ! 0)" "ub_tasks ?s = []" "ub_unhandled ?s = []"
    by code_simp+
  from udp_cancel_unhandled [OF refl s(1-6) example_message [of 1]] s(7) show ?thesis by simp
qed

end
