(* ===== verification/Net_Ports.thy ===== *)
theory Net_Ports
  imports Net_Interface JS_Stream "HOL-Library.Sublist"
begin

text \<open>
  The objects of the network interfaces and the streams that the ones of type tun and tap have
  (\<open>tun-interface.ts\<close>, \<open>tap-interface.ts\<close>, \<open>loopback-interface.ts\<close> and \<open>bridge-interface.ts\<close> of
  \<open>packages/tcpip/src/bindings\<close>). The two classes with streams differ in the name of their unit, a
  packet or a frame, and in what \<open>write\<close> does when sending fails. The queue of the writable stream
  is left out: a write comes when the one before has been made.
\<close>

subsection \<open>State\<close>

datatype interface_kind = Loopback | Tun | Tap | Bridge

definition interface_kinds :: "interface_kind list" where
  "interface_kinds = [Loopback, Tun, Tap, Bridge]"

definition has_streams :: "interface_kind \<Rightarrow> bool" where
  "has_streams k \<longleftrightarrow> k = Tun \<or> k = Tap"

record packet_streams =
  ps_readable :: "bytes rstream"
  ps_isListening :: bool
  ps_disposed :: bool
  ps_writableError :: "net_error option"

text \<open>\<open>vi_handle\<close> is the handle that the outer hooks of the object close over.\<close>

record virtual_interface =
  vi_type :: interface_kind
  vi_handle :: nat
  vi_streams :: packet_streams

definition new_interface :: "interface_kind \<Rightarrow> nat \<Rightarrow> virtual_interface" where
  "new_interface k h = \<lparr>vi_type = k, vi_handle = h, vi_streams = \<lparr>ps_readable = rs_init,
     ps_isListening = False, ps_disposed = False, ps_writableError = None\<rparr>\<rparr>"

subsection \<open>The hooks and the streams\<close>

definition dispose_streams :: "net_error \<Rightarrow> packet_streams \<Rightarrow> packet_streams" where
  "dispose_streams e p = (if ps_disposed p then p else p\<lparr>
     ps_readable := (case controller_close (ps_readable p) of Inl _ \<Rightarrow> ps_readable p | Inr r \<Rightarrow> r),
     ps_disposed := True,
     ps_writableError := (case ps_writableError p of None \<Rightarrow> Some e | Some e' \<Rightarrow> Some e')\<rparr>)"

text \<open>
  \<open>receivePacket\<close> and \<open>receiveFrame\<close>: the error, if any, is that of a promise nobody awaits.
\<close>

definition receive_packet :: "bytes \<Rightarrow> packet_streams \<Rightarrow> unit res \<times> packet_streams" where
  "receive_packet packet p =
     (if ps_disposed p \<or> \<not> ps_isListening p then (Inr (), p)
      else if can_enqueue (ps_readable p) then (Inr (), p\<lparr>ps_readable := rs_put packet (ps_readable p)\<rparr>)
      else (Inl TypeError, p))"

text \<open>The \<open>lock\<close> callback of \<open>ExtendedReadableStream\<close>, whichever method locks the stream.\<close>

definition lock_streams :: "packet_streams \<Rightarrow> packet_streams" where
  "lock_streams p = p\<lparr>ps_isListening := True\<rparr>"

definition read_streams :: "packet_streams \<Rightarrow> packet_streams" where
  "read_streams p = p\<lparr>ps_readable := fst (rs_read (ps_readable p))\<rparr>"

definition cancel_streams :: "packet_streams \<Rightarrow> packet_streams" where
  "cancel_streams p = p\<lparr>ps_readable := rs_cancel (ps_readable p)\<rparr>"

text \<open>
  What \<open>write\<close> makes of the answer of the hook: a tun interface leaves the error to the stream, a tap
  interface logs it.
\<close>

definition write_answer :: "interface_kind \<Rightarrow> net_error option \<Rightarrow> packet_streams \<Rightarrow>
    net_error option \<times> packet_streams" where
  "write_answer k r p = (case r of
     None \<Rightarrow> (None, p)
   | Some e \<Rightarrow> if k = Tap then (None, p) else (Some e, p\<lparr>ps_writableError := Some e\<rparr>))"

subsection \<open>What the consumer has and will have\<close>

definition got_packets :: "packet_streams \<Rightarrow> bytes list" where
  "got_packets p = handed (ps_readable p) @ rs_queue (ps_readable p)"

definition takes_packets :: "packet_streams \<Rightarrow> bool" where
  "takes_packets p \<longleftrightarrow> \<not> ps_disposed p \<and> can_enqueue (ps_readable p)"

definition streams_ok :: "packet_streams \<Rightarrow> bool" where
  "streams_ok p \<longleftrightarrow> rs_ok (ps_readable p) \<and> (\<not> ps_isListening p \<longrightarrow> got_packets p = [])"

lemma streams_new [simp]:
  "streams_ok (vi_streams (new_interface k h))" "got_packets (vi_streams (new_interface k h)) = []"
  by (simp_all add: streams_ok_def new_interface_def got_packets_def rs_init_def handed_def flip: rs_init_def)
     (simp_all add: rs_init_def)

lemma got_close: "controller_close r = Inr r' \<Longrightarrow> handed r' @ rs_queue r' = handed r @ rs_queue r"
  by (auto simp: controller_close_def rs_finish_def handed_def split: if_splits)

lemma dispose_streams_ok:
  "streams_ok p \<Longrightarrow> streams_ok (dispose_streams e p) \<and> got_packets (dispose_streams e p) = got_packets p \<and>
     \<not> takes_packets (dispose_streams e p)"
  using got_close [of "ps_readable p"] rs_ok_close [of "ps_readable p"]
  by (auto simp: streams_ok_def dispose_streams_def got_packets_def takes_packets_def split: sum.splits)

lemma receive_packet_ok:
  assumes "streams_ok p" "receive_packet d p = (r, p')"
  shows "streams_ok p' \<and> takes_packets p' = takes_packets p \<and> ps_isListening p' = ps_isListening p \<and>
    got_packets p' = got_packets p @ (if takes_packets p \<and> ps_isListening p then [d] else [])"
proof (cases "takes_packets p \<and> ps_isListening p")
  case True
  then have p': "p' = p\<lparr>ps_readable := rs_put d (ps_readable p)\<rparr>" and c: "can_enqueue (ps_readable p)"
    using assms(2) by (auto simp: receive_packet_def takes_packets_def split: if_splits)
  have ok: "rs_ok (ps_readable p)" using assms(1) by (simp add: streams_ok_def)
  then have "rs_queue (ps_readable p) = [] \<or> rs_requests (ps_readable p) = 0" by (auto simp: rs_ok_def)
  with True c ok show ?thesis by (simp add: p' streams_ok_def rs_ok_put got_packets_def takes_packets_def)
next
  case False
  with assms show ?thesis by (auto simp: receive_packet_def takes_packets_def split: if_splits)
qed

lemma read_streams_ok: "streams_ok p \<Longrightarrow> streams_ok (read_streams p) \<and> got_packets (read_streams p) = got_packets p"
  by (auto simp: streams_ok_def read_streams_def got_packets_def handed_read rs_ok_read)

lemma lock_streams_ok: "streams_ok p \<Longrightarrow> streams_ok (lock_streams p) \<and> got_packets (lock_streams p) = got_packets p"
  by (simp add: streams_ok_def lock_streams_def got_packets_def)

end
