(* ===== verification/Net_Stack.thy ===== *)
theory Net_Stack
  imports Net_Ports Net_Addresses
begin

text \<open>
  The network stack (\<open>packages/tcpip/src/stack.ts\<close>) with its four kinds of interface bindings, the
  routing table, the addresses of the interfaces and the route bindings that lwIP calls. Interface
  objects are numbered in the order of their creation. A call of an interface operation goes on from
  where \<open>ready\<close> has been awaited; creating an interface and attaching it are two steps, because of the
  \<open>await\<close> between them. The wasm module is a state of any type with the exported functions.
\<close>

subsection \<open>State\<close>

text \<open>
  \<open>create_netif\<close> answers the handle, and the handles for which the module has called the
  \<open>register\<close> import on the way. \<open>send_netif\<close> is \<open>send_tun_interface\<close>, whose answer is nothing and read
  as 0 here, and \<open>send_tap_interface\<close>.
\<close>

record 'l wasm_exports =
  we_netif :: "'l netif_exports"
  create_netif :: "interface_kind \<Rightarrow> bytes option \<Rightarrow> (bytes \<times> bytes) option \<Rightarrow> nat list \<Rightarrow> 'l \<Rightarrow> nat \<times> nat list \<times> 'l"
  remove_netif :: "interface_kind \<Rightarrow> nat \<Rightarrow> 'l \<Rightarrow> 'l"
  send_netif :: "interface_kind \<Rightarrow> nat \<Rightarrow> bytes \<Rightarrow> 'l \<Rightarrow> int \<times> 'l"
  get_interface_ip4_address :: "nat \<Rightarrow> 'l \<Rightarrow> bytes option"
  get_interface_ip4_netmask :: "nat \<Rightarrow> 'l \<Rightarrow> bytes option"
  get_interface_mac_address :: "nat \<Rightarrow> 'l \<Rightarrow> bytes"

text \<open>
  The fields of the classes, then what is around them: the objects, the calls of \<open>create\<close> that wait to
  attach, the packets that wait for their microtask, the errors of promises nobody handles, and what
  only the statements read: the packets lwIP gave for each handle and the ones it was sent.
\<close>

record 'l stack =
  sk_disposedError :: "net_error option"
  sk_interfaces :: "interface_kind \<Rightarrow> (nat, nat) js_map"
  sk_net :: "(nat, 'l) net_state"
  sk_objects :: "virtual_interface list"
  sk_attaching :: "(nat \<times> jstring) list"
  sk_packets :: "(interface_kind \<times> nat \<times> bytes) list"
  sk_unhandled :: "js_error list"
  sk_output :: "(interface_kind \<times> nat \<times> bytes) list"
  sk_sent :: "(interface_kind \<times> nat \<times> bytes) list"

definition stack_init :: "'l \<Rightarrow> 'l stack" where
  "stack_init l = \<lparr>sk_disposedError = None, sk_interfaces = (\<lambda>k. []), sk_net = net_init l, sk_objects = [],
     sk_attaching = [], sk_packets = [], sk_unhandled = [], sk_output = [], sk_sent = []\<rparr>"

abbreviation wasm :: "'l stack \<Rightarrow> 'l" where
  "wasm s \<equiv> ns_lwip (sk_net s)"

definition set_wasm :: "'l \<Rightarrow> 'l stack \<Rightarrow> 'l stack" where
  "set_wasm l s = s\<lparr>sk_net := sk_net s\<lparr>ns_lwip := l\<rparr>\<rparr>"

definition set_interfaces :: "interface_kind \<Rightarrow> (nat, nat) js_map \<Rightarrow> 'l stack \<Rightarrow> 'l stack" where
  "set_interfaces k m s = s\<lparr>sk_interfaces := (sk_interfaces s)(k := m)\<rparr>"

definition update_streams :: "nat \<Rightarrow> (packet_streams \<Rightarrow> packet_streams) \<Rightarrow> 'l stack \<Rightarrow> 'l stack" where
  "update_streams i f s = s\<lparr>sk_objects := (sk_objects s)
     [i := (sk_objects s ! i)\<lparr>vi_streams := f (vi_streams (sk_objects s ! i))\<rparr>]\<rparr>"

subsection \<open>Finding interfaces\<close>

definition listInterfaces :: "'l stack \<Rightarrow> nat list" where
  "listInterfaces s = concat (map (\<lambda>k. map snd (sk_interfaces s k)) interface_kinds)"

definition key_of :: "nat \<Rightarrow> (nat, nat) js_map \<Rightarrow> nat option" where
  "key_of i m = map_option fst (List.find (\<lambda>(h, candidate). candidate = i) m)"

fun handle_in :: "interface_kind list \<Rightarrow> nat \<Rightarrow> 'l stack \<Rightarrow> nat option" where
  "handle_in [] i s = None"
| "handle_in (k # ks) i s = (case key_of i (sk_interfaces s k) of Some h \<Rightarrow> Some h | None \<Rightarrow> handle_in ks i s)"

definition interfaceHandle :: "nat \<Rightarrow> 'l stack \<Rightarrow> net_error + nat" where
  "interfaceHandle i s = (case sk_disposedError s of
     Some e \<Rightarrow> Inl e
   | None \<Rightarrow> (case handle_in interface_kinds i s of
       None \<Rightarrow> Inl (net_throw ''route interface does not belong to this network stack'')
     | Some h \<Rightarrow> Inr h))"

text \<open>
  The validation that the stack gives its routing table, whose errors are JavaScript's: of a
  \<open>NetworkError\<close>, which is an \<open>Error\<close>, the message is kept.
\<close>

definition js_view :: "net_error \<Rightarrow> js_error" where
  "js_view e = (case e of NetworkError c m \<Rightarrow> Error m | JsError e' \<Rightarrow> e')"

definition validate_interface :: "'l stack \<Rightarrow> nat \<Rightarrow> unit res" where
  "validate_interface s i = (case interfaceHandle i s of Inl e \<Rightarrow> Inl (js_view e) | Inr h \<Rightarrow> Inr ())"

subsection \<open>Creating and attaching\<close>

text \<open>Options with the empty string for an address or a MAC are read like options without.\<close>

record create_options =
  co_mac :: jstring
  co_ip :: jstring
  co_ports :: "nat list"

definition register_interface :: "interface_kind \<Rightarrow> nat \<Rightarrow> 'l stack \<Rightarrow> 'l stack" where
  "register_interface k h s = set_interfaces k (map_set h (length (sk_objects s)) (sk_interfaces s k))
     (s\<lparr>sk_objects := sk_objects s @ [new_interface k h]\<rparr>)"

definition kind_name :: "interface_kind \<Rightarrow> string" where
  "kind_name k = (case k of Loopback \<Rightarrow> ''loopback'' | Tun \<Rightarrow> ''tun'' | Tap \<Rightarrow> ''tap'' | Bridge \<Rightarrow> ''bridge'')"

definition mac_bytes :: "bytes \<Rightarrow> interface_kind \<Rightarrow> jstring \<Rightarrow> bytes option res" where
  "mac_bytes random k mac = (if k = Loopback \<or> k = Tun then Inr None
     else if mac = [] then Inr (Some (generateMacAddress random))
     else bnd (serializeMacAddress mac) (\<lambda>m. Inr (Some m)))"

definition cidr_bytes :: "jstring \<Rightarrow> (bytes \<times> bytes) option res" where
  "cidr_bytes ip = (if ip = [] then Inr None
     else bnd (serializeIPv4Cidr ip) (\<lambda>c. Inr (Some (cidr_ipAddress c, cidr_netmask c))))"

text \<open>The hooks of tap interfaces know only these.\<close>

definition port_handles :: "interface_kind \<Rightarrow> nat list \<Rightarrow> 'l stack \<Rightarrow> nat list res" where
  "port_handles k ports s = (if k \<noteq> Bridge then Inr [] else mapM (\<lambda>i.
     if i < length (sk_objects s) \<and> vi_type (sk_objects s ! i) = Tap then Inr (vi_handle (sk_objects s ! i))
     else throw ''outer hooks not set for [object Object]'') ports)"

text \<open>\<open>create\<close> of the four bindings; only the bridge's makes its object after the call.\<close>

definition create_interface :: "'l wasm_exports \<Rightarrow> bytes \<Rightarrow> interface_kind \<Rightarrow> create_options \<Rightarrow> 'l stack \<Rightarrow>
    nat res \<times> 'l stack" where
  "create_interface ex random k options s =
     (case bnd (mac_bytes random k (co_mac options)) (\<lambda>mac. bnd (cidr_bytes (co_ip options)) (\<lambda>cidr.
         bnd (port_handles k (co_ports options) s) (\<lambda>ports. Inr (mac, cidr, ports)))) of
        Inl e \<Rightarrow> (Inl e, s)
      | Inr (mac, cidr, ports) \<Rightarrow>
          let (handle, registered, l) = create_netif ex k mac cidr ports (wasm s);
              s' = fold (register_interface k) registered (set_wasm l s) in
          if k = Bridge then (Inr (length (sk_objects s')), register_interface k handle s')
          else (case map_get (sk_interfaces s' k) handle of
              None \<Rightarrow> (Inl (Error (lit (kind_name k) @ lit '' interface failed to register'')), s')
            | Some i \<Rightarrow> (Inr i, s')))"

definition attachInterface :: "nat \<Rightarrow> jstring \<Rightarrow> 'l stack \<Rightarrow> (net_error + unit) \<times> 'l stack" where
  "attachInterface i ip s = (case interfaceHandle i s of
     Inl e \<Rightarrow> (Inl e, s)
   | Inr h \<Rightarrow> let (r, n) = attach (validate_interface s) i h (if ip = [] then [] else [ip]) (sk_net s) in
       (case r of Inl e \<Rightarrow> Inl (JsError e) | Inr u \<Rightarrow> Inr u, s\<lparr>sk_net := n\<rparr>))"

text \<open>
  \<open>createLoopback\<close>, \<open>createTun\<close>, \<open>createTap\<close> and \<open>createBridge\<close> of the stack, up to the \<open>await\<close> of the
  bindings' \<open>create\<close> and after it.
\<close>

definition stack_create :: "'l wasm_exports \<Rightarrow> bytes \<Rightarrow> interface_kind \<Rightarrow> create_options \<Rightarrow> 'l stack \<Rightarrow>
    (net_error + nat) \<times> 'l stack" where
  "stack_create ex random k options s = (case sk_disposedError s of
     Some e \<Rightarrow> (Inl e, s)
   | None \<Rightarrow> (case create_interface ex random k options s of
       (Inl e, s') \<Rightarrow> (Inl (JsError e), s')
     | (Inr i, s') \<Rightarrow> (Inr i, s'\<lparr>sk_attaching := sk_attaching s' @ [(i, co_ip options)]\<rparr>)))"

definition stack_attach :: "'l stack \<Rightarrow> (net_error + unit) \<times> 'l stack" where
  "stack_attach s = (case sk_attaching s of
     [] \<Rightarrow> (Inr (), s)
   | (i, ip) # rest \<Rightarrow> attachInterface i ip (s\<lparr>sk_attaching := rest\<rparr>))"

subsection \<open>Removing and disposing\<close>

text \<open>\<open>remove\<close> of the bindings.\<close>

definition unregister_interface :: "'l wasm_exports \<Rightarrow> interface_kind \<Rightarrow> nat \<Rightarrow> 'l stack \<Rightarrow> 'l stack" where
  "unregister_interface ex k i s = (case key_of i (sk_interfaces s k) of
     None \<Rightarrow> s
   | Some h \<Rightarrow> set_interfaces k (map_delete h (sk_interfaces s k)) (set_wasm (remove_netif ex k h (wasm s)) s))"

definition stack_remove :: "'l wasm_exports \<Rightarrow> nat \<Rightarrow> 'l stack \<Rightarrow> (net_error + unit) \<times> 'l stack" where
  "stack_remove ex i s = (case sk_disposedError s of
     Some e \<Rightarrow> (Inl e, s)
   | None \<Rightarrow> (case remove_interface (we_netif ex) i False (sk_net s) of
       (Inl e, n) \<Rightarrow> (Inl (JsError e), s\<lparr>sk_net := n\<rparr>)
     | (Inr _, n) \<Rightarrow> (Inr (), unregister_interface ex (vi_type (sk_objects s ! i)) i (s\<lparr>sk_net := n\<rparr>))))"

definition disposed_error :: net_error where
  "disposed_error = NetworkError ENETDOWN (lit ''network stack disposed'')"

definition dispose_interfaces :: "interface_kind \<Rightarrow> 'l stack \<Rightarrow> 'l stack" where
  "dispose_interfaces k s = set_interfaces k [] (if has_streams k
     then fold (\<lambda>(h, i). update_streams i (dispose_streams disposed_error)) (sk_interfaces s k) s else s)"

text \<open>\<open>#terminate\<close>, but for the bindings of TCP, UDP and ICMP, which have theories of their own.\<close>

definition terminate :: "'l wasm_exports \<Rightarrow> 'l stack \<Rightarrow> 'l stack" where
  "terminate ex s = (if sk_disposedError s \<noteq> None then s
     else fold dispose_interfaces interface_kinds (s\<lparr>sk_disposedError := Some disposed_error,
       sk_net := fold (\<lambda>i n. snd (remove_interface (we_netif ex) i True n)) (listInterfaces s) (sk_net s)\<rparr>))"

subsection \<open>Packets\<close>

text \<open>
  \<open>receive_packet\<close> and \<open>receive_frame\<close> of the bindings: the import called by lwIP, and the rest after
  the microtask.
\<close>

definition packet_output :: "interface_kind \<Rightarrow> nat \<Rightarrow> bytes \<Rightarrow> 'l stack \<Rightarrow> 'l stack" where
  "packet_output k h packet s = (if sk_disposedError s \<noteq> None \<or> \<not> has_streams k then s
     else s\<lparr>sk_packets := sk_packets s @ [(k, h, packet)], sk_output := sk_output s @ [(k, h, packet)]\<rparr>)"

definition deliver_packet :: "'l stack \<Rightarrow> 'l stack" where
  "deliver_packet s = (case sk_packets s of
     [] \<Rightarrow> s
   | (k, h, packet) # rest \<Rightarrow> let s' = s\<lparr>sk_packets := rest\<rparr> in
       if sk_disposedError s' \<noteq> None then s'
       else (case map_get (sk_interfaces s' k) h of
           None \<Rightarrow> s'
         | Some i \<Rightarrow> let (r, p) = receive_packet packet (vi_streams (sk_objects s' ! i)) in
             (update_streams i (\<lambda>_. p) s')\<lparr>sk_unhandled := sk_unhandled s' @
               (case r of Inl e \<Rightarrow> [e] | Inr _ \<Rightarrow> [])\<rparr>))"

text \<open>
  A write to an interface: the stream's error, or the outer hook, which reads the exports of its
  bindings and calls the module with the handle it closes over.
\<close>

definition send_hook :: "'l wasm_exports \<Rightarrow> interface_kind \<Rightarrow> nat \<Rightarrow> bytes \<Rightarrow> 'l stack \<Rightarrow> net_error option \<times> 'l stack" where
  "send_hook ex k h packet s = (case sk_disposedError s of
     Some e \<Rightarrow> (Some e, s)
   | None \<Rightarrow> let (result, l) = send_netif ex k h packet (wasm s) in
       (if k = Tap \<and> result \<noteq> 0 then Some (JsError (Error (lit ''failed to send frame: '' @ number_text result)))
        else None, (set_wasm l s)\<lparr>sk_sent := sk_sent s @ [(k, h, packet)]\<rparr>))"

definition write_packet :: "'l wasm_exports \<Rightarrow> nat \<Rightarrow> bytes \<Rightarrow> 'l stack \<Rightarrow> net_error option \<times> 'l stack" where
  "write_packet ex i packet s =
     (let v = sk_objects s ! i in
      case ps_writableError (vi_streams v) of
        Some e \<Rightarrow> (Some e, s)
      | None \<Rightarrow> let (r, s') = send_hook ex (vi_type v) (vi_handle v) packet s;
            (r', p) = write_answer (vi_type v) r (vi_streams v) in (r', update_streams i (\<lambda>_. p) s'))"

subsection \<open>Addresses as lwIP has them\<close>

text \<open>The getters \<open>ip\<close>, \<open>netmask\<close> and \<open>mac\<close> of the interface objects.\<close>

definition exports_of :: "'l stack \<Rightarrow> net_error + 'l" where
  "exports_of s = (case sk_disposedError s of Some e \<Rightarrow> Inl e | None \<Rightarrow> Inr (wasm s))"

definition view_address :: "bytes option \<Rightarrow> net_error + jstring option" where
  "view_address view = (case view of
     None \<Rightarrow> Inr None
   | Some bytes \<Rightarrow> (case parseIPv4Address bytes of Inl e \<Rightarrow> Inl (JsError e) | Inr shown \<Rightarrow> Inr (Some shown)))"

definition interface_ip :: "'l wasm_exports \<Rightarrow> nat \<Rightarrow> 'l stack \<Rightarrow> net_error + jstring option" where
  "interface_ip ex i s = (case exports_of s of
     Inl e \<Rightarrow> Inl e | Inr l \<Rightarrow> view_address (get_interface_ip4_address ex (vi_handle (sk_objects s ! i)) l))"

definition interface_netmask :: "'l wasm_exports \<Rightarrow> nat \<Rightarrow> 'l stack \<Rightarrow> net_error + jstring option" where
  "interface_netmask ex i s = (case exports_of s of
     Inl e \<Rightarrow> Inl e | Inr l \<Rightarrow> view_address (get_interface_ip4_netmask ex (vi_handle (sk_objects s ! i)) l))"

definition interface_mac :: "'l wasm_exports \<Rightarrow> nat \<Rightarrow> 'l stack \<Rightarrow> net_error + jstring" where
  "interface_mac ex i s = (case exports_of s of
     Inl e \<Rightarrow> Inl e
   | Inr l \<Rightarrow> (case parseMacAddress (get_interface_mac_address ex (vi_handle (sk_objects s ! i)) l) of
       Inl e \<Rightarrow> Inl (JsError e) | Inr shown \<Rightarrow> Inr shown))"

subsection \<open>Routes for lwIP\<close>

text \<open>\<open>route_ip4\<close> and \<open>route_ip6\<close>, which share \<open>#lookup\<close>; 0 is the null pointer.\<close>

definition route_lookup :: "address_family \<Rightarrow> bytes \<Rightarrow> 'l stack \<Rightarrow> net_error + nat" where
  "route_lookup family destination s = (case sk_disposedError s of
     Some e \<Rightarrow> Inl e
   | None \<Rightarrow> (case lookupBytes family destination (ns_routes (sk_net s)) of
       None \<Rightarrow> Inr 0
     | Some i \<Rightarrow> interfaceHandle i s))"

end
