(* ===== verification/Net_Lifecycle.thy ===== *)
theory Net_Lifecycle
  imports Net_Stack
begin

text \<open>
  The life of network interfaces in the stack: the steps of the program, what they keep of the
  interface maps, the attached states, the routes and the memory of the wasm module, and what
  creating, removing and disposing amount to.
\<close>

subsection \<open>The memory of the wasm module\<close>

text \<open>
  What the stack relies on: creating an interface allocates it at a new address, which is not null,
  and registers it, unless it is a bridge; or it fails with null and registers nothing. Removing an
  interface frees it. No other function allocates or frees interfaces. \<open>alive\<close> gives the interfaces
  that are allocated.
\<close>

definition netif_keeps :: "('l \<Rightarrow> nat set) \<Rightarrow> 'l netif_exports \<Rightarrow> bool" where
  "netif_keeps alive ex \<longleftrightarrow>
     (\<forall>h x l. alive (snd (set_interface_mtu ex h x l)) = alive l) \<and>
     (\<forall>h x n l. alive (snd (set_interface_ip4_address ex h x n l)) = alive l) \<and>
     (\<forall>h l. alive (clear_interface_ip4_address ex h l) = alive l) \<and>
     (\<forall>h x l. alive (snd (add_interface_ip6_address ex h x l)) = alive l) \<and>
     (\<forall>h x l. alive (snd (remove_interface_ip6_address ex h x l)) = alive l) \<and>
     (\<forall>h x l. alive (snd (set_interface_router_advertisements ex h x l)) = alive l)"

definition created_ok :: "('l \<Rightarrow> nat set) \<Rightarrow> interface_kind \<Rightarrow> 'l \<Rightarrow> nat \<times> nat list \<times> 'l \<Rightarrow> bool" where
  "created_ok alive k l r \<longleftrightarrow> (case r of (h, registered, l') \<Rightarrow>
     if h = 0 then registered = [] \<and> alive l' = alive l
     else h \<notin> alive l \<and> alive l' = insert h (alive l) \<and> registered = (if k = Bridge then [] else [h]))"

definition wasm_ok :: "('l \<Rightarrow> nat set) \<Rightarrow> 'l wasm_exports \<Rightarrow> bool" where
  "wasm_ok alive ex \<longleftrightarrow> netif_keeps alive (we_netif ex) \<and>
     (\<forall>k mac cidr ports l. created_ok alive k l (create_netif ex k mac cidr ports l)) \<and>
     (\<forall>k h l. alive (remove_netif ex k h l) = alive l - {h}) \<and>
     (\<forall>k h packet l. alive (snd (send_netif ex k h packet l)) = alive l)"

subsection \<open>Steps\<close>

inductive stack_step :: "('l \<Rightarrow> nat set) \<Rightarrow> 'l wasm_exports \<Rightarrow> 'l stack \<Rightarrow> 'l stack \<Rightarrow> bool"
  for alive ex where
  do_create: "stack_create ex random k options s = (r, s') \<Longrightarrow> stack_step alive ex s s'"
| do_attach: "stack_attach s = (r, s') \<Longrightarrow> stack_step alive ex s s'"
| do_remove: "stack_remove ex i s = (r, s') \<Longrightarrow> stack_step alive ex s s'"
| do_terminate: "stack_step alive ex s (terminate ex s)"
| do_addAddress: "addAddress (we_netif ex) (validate_interface s) i cidr (sk_net s) = (r, n) \<Longrightarrow>
    stack_step alive ex s (s\<lparr>sk_net := n\<rparr>)"
| do_removeAddress: "removeAddress (we_netif ex) i cidr (sk_net s) = (r, n) \<Longrightarrow>
    stack_step alive ex s (s\<lparr>sk_net := n\<rparr>)"
| do_setMtu: "setMtu (we_netif ex) i mtu (sk_net s) = (r, n) \<Longrightarrow> stack_step alive ex s (s\<lparr>sk_net := n\<rparr>)"
| do_advertise: "setRouterAdvertisements (we_netif ex) i advertised (sk_net s) = (r, n) \<Longrightarrow>
    stack_step alive ex s (s\<lparr>sk_net := n\<rparr>)"
| do_add_route: "add_route (validate_interface s) spec (ns_routes (sk_net s)) = Inr (h, t) \<Longrightarrow>
    stack_step alive ex s (s\<lparr>sk_net := sk_net s\<lparr>ns_routes := t\<rparr>\<rparr>)"
| do_dispose_route: "dispose_route h (ns_routes (sk_net s)) = (h', t) \<Longrightarrow>
    stack_step alive ex s (s\<lparr>sk_net := sk_net s\<lparr>ns_routes := t\<rparr>\<rparr>)"
| do_lwip: "alive l = alive (wasm s) \<Longrightarrow> stack_step alive ex s (set_wasm l s)"
| do_output: "stack_step alive ex s (packet_output k h packet s)"
| do_deliver: "stack_step alive ex s (deliver_packet s)"
| do_lock: "stack_step alive ex s (update_streams i lock_streams s)"
| do_read: "stack_step alive ex s (update_streams i read_streams s)"
| do_cancel: "stack_step alive ex s (update_streams i cancel_streams s)"
| do_write: "write_packet ex i packet s = (r, s') \<Longrightarrow> stack_step alive ex s s'"

inductive stack_reachable :: "('l \<Rightarrow> nat set) \<Rightarrow> 'l wasm_exports \<Rightarrow> 'l stack \<Rightarrow> bool"
  for alive ex where
  stack_start: "stack_reachable alive ex (stack_init l)"
| stack_next: "stack_reachable alive ex s \<Longrightarrow> stack_step alive ex s s' \<Longrightarrow> stack_reachable alive ex s'"

subsection \<open>The invariant\<close>

definition registered_at :: "interface_kind \<Rightarrow> nat \<Rightarrow> nat \<Rightarrow> 'l stack \<Rightarrow> bool" where
  "registered_at k h i s \<longleftrightarrow> map_get (sk_interfaces s k) h = Some i"

text \<open>An object that is where its own type and handle say.\<close>

definition present :: "nat \<Rightarrow> 'l stack \<Rightarrow> bool" where
  "present i s \<longleftrightarrow> i < length (sk_objects s) \<and>
     registered_at (vi_type (sk_objects s ! i)) (vi_handle (sk_objects s ! i)) i s"

text \<open>A bridge whose creation failed in the module has the null handle; it may lose its place to the next.\<close>

definition accounted :: "nat \<Rightarrow> 'l stack \<Rightarrow> bool" where
  "accounted i s \<longleftrightarrow> i < length (sk_objects s) \<and> (vi_handle (sk_objects s ! i) = 0 \<or> present i s)"

definition types_ok :: "'l stack \<Rightarrow> bool" where
  "types_ok s \<longleftrightarrow> (\<forall>k. map_ok (sk_interfaces s k)) \<and>
     (\<forall>k h i. registered_at k h i s \<longrightarrow> i < length (sk_objects s) \<and> vi_type (sk_objects s ! i) = k \<and>
        vi_handle (sk_objects s ! i) = h \<and> (h = 0 \<longrightarrow> k = Bridge))"

definition memory_ok :: "('l \<Rightarrow> nat set) \<Rightarrow> 'l stack \<Rightarrow> bool" where
  "memory_ok alive s \<longleftrightarrow>
     (\<forall>k h i. registered_at k h i s \<longrightarrow> h \<noteq> 0 \<longrightarrow> h \<in> alive (wasm s)) \<and>
     (\<forall>k k' h i i'. registered_at k h i s \<longrightarrow> registered_at k' h i' s \<longrightarrow> h \<noteq> 0 \<longrightarrow> k = k')"

definition attached_ok :: "'l stack \<Rightarrow> bool" where
  "attached_ok s \<longleftrightarrow> (\<forall>i st. map_get (ns_states (sk_net s)) i = Some st \<longrightarrow> i < length (sk_objects s) \<and>
     if_handle st = vi_handle (sk_objects s ! i) \<and> (\<not> if_detached st \<longrightarrow> accounted i s))"

text \<open>The table's counter is above the order of every route.\<close>

definition orders_ok :: "'i route_table \<Rightarrow> bool" where
  "orders_ok t \<longleftrightarrow> (\<forall>r\<in>set (tb_routes t). rt_order r < tb_nextOrder t)"

definition vias_ok :: "'l stack \<Rightarrow> bool" where
  "vias_ok s \<longleftrightarrow> (\<forall>r\<in>set (tb_routes (ns_routes (sk_net s))). accounted (rt_via r) s) \<and> orders_ok (ns_routes (sk_net s))"

text \<open>A table with routes taken out, or with validated routes added.\<close>

definition fewer_routes :: "'i route_table \<Rightarrow> 'i route_table \<Rightarrow> bool" where
  "fewer_routes t t' \<longleftrightarrow> set (tb_routes t') \<subseteq> set (tb_routes t) \<and> tb_nextOrder t' = tb_nextOrder t"

definition valid_routes :: "('i \<Rightarrow> unit res) \<Rightarrow> 'i route_table \<Rightarrow> 'i route_table \<Rightarrow> bool" where
  "valid_routes v t t' \<longleftrightarrow> (\<forall>r\<in>set (tb_routes t'). r \<in> set (tb_routes t) \<or> v (rt_via r) = Inr ()) \<and>
     (orders_ok t \<longrightarrow> orders_ok t')"

lemma fewer_valid: "fewer_routes t t' \<Longrightarrow> valid_routes v t t'"
  by (auto simp: fewer_routes_def valid_routes_def orders_ok_def)

lemma fewer_refl [simp]: "fewer_routes t t"
  by (simp add: fewer_routes_def)

lemma valid_refl [simp]: "valid_routes v t t"
  by (simp add: fewer_valid)

lemma fewer_trans: "fewer_routes t u \<Longrightarrow> fewer_routes u w \<Longrightarrow> fewer_routes t w"
  by (auto simp: fewer_routes_def)

lemma fewer_dispose: "fewer_routes t (snd (dispose_route h t))"
  by (auto simp: fewer_routes_def dispose_route_def split: if_splits)

lemma valid_trans: "valid_routes v t u \<Longrightarrow> valid_routes v u w \<Longrightarrow> valid_routes v t w"
  by (auto simp: valid_routes_def)

lemma valid_add: "add_route v spec t = Inr (h, t') \<Longrightarrow> valid_routes v t t'"
  by (auto simp: add_route_Inr Let_def new_route_def valid_routes_def orders_ok_def less_SucI)

definition stack_inv :: "('l \<Rightarrow> nat set) \<Rightarrow> 'l stack \<Rightarrow> bool" where
  "stack_inv alive s \<longleftrightarrow> types_ok s \<and> memory_ok alive s \<and> attached_ok s \<and> vias_ok s"

lemma stack_inv_init: "stack_inv alive (stack_init l)"
  by (simp add: stack_inv_def types_ok_def memory_ok_def attached_ok_def vias_ok_def stack_init_def net_init_def
      registered_at_def table_init_def orders_ok_def)

text \<open>Steps that leave the maps, and types and handles of the objects.\<close>

definition shapes :: "'l stack \<Rightarrow> (interface_kind \<times> nat) list" where
  "shapes s = map (\<lambda>v. (vi_type v, vi_handle v)) (sk_objects s)"

lemma shapes_nth:
  assumes "shapes s' = shapes s"
  shows "length (sk_objects s') = length (sk_objects s)"
    "i < length (sk_objects s) \<Longrightarrow> vi_type (sk_objects s' ! i) = vi_type (sk_objects s ! i) \<and>
       vi_handle (sk_objects s' ! i) = vi_handle (sk_objects s ! i)"
proof -
  show l: "length (sk_objects s') = length (sk_objects s)"
    using assms by (metis shapes_def length_map)
  assume i: "i < length (sk_objects s)"
  have "shapes s' ! i = shapes s ! i" using assms by simp
  with l i show "vi_type (sk_objects s' ! i) = vi_type (sk_objects s ! i) \<and>
       vi_handle (sk_objects s' ! i) = vi_handle (sk_objects s ! i)"
    by (simp add: shapes_def)
qed

lemma shapes_update [simp]: "shapes (update_streams i f s) = shapes s"
proof (cases "i < length (sk_objects s)")
  case True
  let ?g = "\<lambda>v. (vi_type v, vi_handle v)"
  have "(map ?g (sk_objects s))[i := ?g (sk_objects s ! i)] = map ?g (sk_objects s)"
    using list_update_id [of "map ?g (sk_objects s)" i] True by simp
  then show ?thesis by (simp add: shapes_def update_streams_def map_update)
qed (simp add: shapes_def update_streams_def list_update_beyond)

lemma update_streams_simps [simp]:
  "sk_disposedError (update_streams i f s) = sk_disposedError s" "sk_interfaces (update_streams i f s) = sk_interfaces s"
  "sk_net (update_streams i f s) = sk_net s" "sk_packets (update_streams i f s) = sk_packets s"
  "sk_output (update_streams i f s) = sk_output s" "sk_attaching (update_streams i f s) = sk_attaching s"
  "sk_sent (update_streams i f s) = sk_sent s" "length (sk_objects (update_streams i f s)) = length (sk_objects s)"
  by (simp_all add: update_streams_def)

lemma types_ok_same:
  assumes "types_ok s" "sk_interfaces s' = sk_interfaces s" "shapes s' = shapes s"
  shows "types_ok s'"
  using assms(1) shapes_nth [OF assms(3)] by (auto simp: types_ok_def registered_at_def assms(2))

lemma accounted_same:
  assumes "sk_interfaces s' = sk_interfaces s" "shapes s' = shapes s"
  shows "accounted i s' = accounted i s"
  using shapes_nth [OF assms(2)] by (auto simp: accounted_def present_def registered_at_def assms(1))

text \<open>
  Steps of the addresses and routes: only a listed interface comes to be attached, and new routes were
  validated.
\<close>

definition net_change :: "'l stack \<Rightarrow> (nat, 'l) net_state \<Rightarrow> bool" where
  "net_change s n \<longleftrightarrow>
     (\<forall>i st'. map_get (ns_states n) i = Some st' \<longrightarrow> (\<exists>st. map_get (ns_states (sk_net s)) i = Some st \<and>
        if_handle st' = if_handle st \<and> (\<not> if_detached st' \<longrightarrow> \<not> if_detached st)) \<or>
        interfaceHandle i s = Inr (if_handle st')) \<and>
     valid_routes (validate_interface s) (ns_routes (sk_net s)) (ns_routes n)"

lemma key_of_Some: "key_of i m = Some h \<Longrightarrow> (h, i) \<in> set m"
  by (induction m) (auto simp: key_of_def split: if_splits)

lemma key_of_None: "key_of i m = None \<longleftrightarrow> i \<notin> snd ` set m"
  by (induction m) (auto simp: key_of_def)

lemma handle_in_Some: "handle_in ks i s = Some h \<Longrightarrow> \<exists>k\<in>set ks. key_of i (sk_interfaces s k) = Some h"
  by (induction ks i s rule: handle_in.induct) (auto split: option.splits)

lemma handle_in_None: "handle_in ks i s = None \<longleftrightarrow> (\<forall>k\<in>set ks. key_of i (sk_interfaces s k) = None)"
  by (induction ks i s rule: handle_in.induct) (auto split: option.splits)

lemma all_kinds [simp]: "k \<in> set interface_kinds"
  by (cases k) (simp_all add: interface_kinds_def)

lemma types_okD:
  assumes "types_ok s" "registered_at k h i s"
  shows "i < length (sk_objects s)" "vi_type (sk_objects s ! i) = k" "vi_handle (sk_objects s ! i) = h"
    "h = 0 \<Longrightarrow> k = Bridge"
  using assms unfolding types_ok_def by blast+

lemma key_of_registered:
  assumes "types_ok s"
  shows "key_of i (sk_interfaces s k) = Some h \<longleftrightarrow> registered_at k h i s"
proof
  assume "key_of i (sk_interfaces s k) = Some h"
  with assms show "registered_at k h i s"
    using key_of_Some by (fastforce simp: types_ok_def registered_at_def map_get_in_set)
next
  assume r: "registered_at k h i s"
  with assms have "(h, i) \<in> set (sk_interfaces s k)" by (simp add: types_ok_def registered_at_def map_get_in_set)
  then have "i \<in> snd ` set (sk_interfaces s k)" by force
  then have "key_of i (sk_interfaces s k) \<noteq> None" by (simp only: key_of_None) simp
  then obtain h' where h': "key_of i (sk_interfaces s k) = Some h'" by blast
  with assms have "registered_at k h' i s"
    using key_of_Some by (fastforce simp: types_ok_def registered_at_def map_get_in_set)
  then have "h' = h" using types_okD(3) [OF assms r] types_okD(3) [OF assms] by metis
  with h' show "key_of i (sk_interfaces s k) = Some h" by simp
qed

lemma registered_present: "types_ok s \<Longrightarrow> registered_at k h i s \<Longrightarrow> present i s"
  by (auto simp: types_ok_def present_def)

lemma interfaceHandle_Inr:
  assumes "types_ok s" "interfaceHandle i s = Inr h"
  shows "present i s \<and> vi_handle (sk_objects s ! i) = h"
proof -
  obtain k where "key_of i (sk_interfaces s k) = Some h"
    using assms(2) handle_in_Some by (fastforce simp: interfaceHandle_def split: option.splits)
  then have "registered_at k h i s" using assms(1) by (simp add: key_of_registered)
  with assms(1) show ?thesis using registered_present by (auto simp: types_ok_def)
qed

lemma interfaceHandle_present:
  assumes "types_ok s" "sk_disposedError s = None" "present i s"
  shows "interfaceHandle i s = Inr (vi_handle (sk_objects s ! i))"
proof -
  have "key_of i (sk_interfaces s (vi_type (sk_objects s ! i))) \<noteq> None"
    using assms by (auto simp: key_of_registered present_def)
  then have "handle_in interface_kinds i s \<noteq> None" by (auto simp: handle_in_None)
  then obtain h where "handle_in interface_kinds i s = Some h" by blast
  with assms(2) have "interfaceHandle i s = Inr h" by (simp add: interfaceHandle_def)
  with interfaceHandle_Inr [OF assms(1) this] show ?thesis by simp
qed

lemma validated_accounted: "types_ok s \<Longrightarrow> validate_interface s i = Inr () \<Longrightarrow> accounted i s"
  using interfaceHandle_Inr
  by (fastforce simp: validate_interface_def accounted_def present_def split: sum.splits)

lemma stack_inv_net:
  assumes "stack_inv alive s" "net_change s (sk_net s')" "alive (wasm s') = alive (wasm s)"
    "sk_interfaces s' = sk_interfaces s" "shapes s' = shapes s"
  shows "stack_inv alive s'"
proof -
  note sh = shapes_nth [OF assms(5)] and acc = accounted_same [OF assms(4,5)]
  have "memory_ok alive s'" using assms(1,3,4) by (simp add: stack_inv_def memory_ok_def registered_at_def)
  moreover have "types_ok s'" using types_ok_same [OF _ assms(4,5)] assms(1) by (simp add: stack_inv_def)
  moreover have "attached_ok s'" unfolding attached_ok_def
  proof (intro allI impI)
    fix i st'
    assume "map_get (ns_states (sk_net s')) i = Some st'"
    with assms(2) consider st where "map_get (ns_states (sk_net s)) i = Some st" "if_handle st' = if_handle st"
      "\<not> if_detached st' \<longrightarrow> \<not> if_detached st" | "interfaceHandle i s = Inr (if_handle st')"
      unfolding net_change_def by blast
    then have "i < length (sk_objects s) \<and> if_handle st' = vi_handle (sk_objects s ! i) \<and>
      (\<not> if_detached st' \<longrightarrow> accounted i s)"
    proof cases
      case (1 st)
      then show ?thesis using assms(1) by (auto simp: stack_inv_def attached_ok_def)
    next
      case 2
      with assms(1) have "present i s \<and> vi_handle (sk_objects s ! i) = if_handle st'"
        using interfaceHandle_Inr [OF _ 2] by (simp add: stack_inv_def)
      then show ?thesis by (auto simp: accounted_def present_def)
    qed
    with sh acc show "i < length (sk_objects s') \<and> if_handle st' = vi_handle (sk_objects s' ! i) \<and>
      (\<not> if_detached st' \<longrightarrow> accounted i s')" by auto
  qed
  moreover have "vias_ok s'"
    using assms(1,2) acc validated_accounted [of s] by (auto simp: stack_inv_def vias_ok_def net_change_def valid_routes_def)
  ultimately show ?thesis by (simp add: stack_inv_def)
qed

subsection \<open>Operations of the addresses\<close>

lemma acquire_net:
  assumes "acquireConnectedRoute v i n (st, t) = Inr (st', t')"
  shows "if_handle st' = if_handle st \<and> if_detached st' = if_detached st \<and> valid_routes v t t'"
  using assms
proof (cases rule: acquire_cases)
  case (new h)
  then show ?thesis using valid_add by auto
qed (simp add: fewer_valid)

lemma release_net:
  assumes "releaseConnectedRoute n (st, t) = (st', t')"
  shows "if_handle st' = if_handle st \<and> if_detached st' = if_detached st \<and> fewer_routes t t'"
  using assms
  by (cases rule: release_cases) (auto simp: drop_route_def fewer_dispose)

lemma with_address_flags [simp]:
  "if_handle (with_address p st) = if_handle st" "if_detached (with_address p st) = if_detached st"
  by (simp_all add: with_address_def)

text \<open>Changing one state, with the routes.\<close>

lemma net_change_set:
  assumes "map_get (ns_states (sk_net s)) i = Some st" "if_handle st' = if_handle st"
    "\<not> if_detached st' \<Longrightarrow> \<not> if_detached st"
    "valid_routes (validate_interface s) (ns_routes (sk_net s)) t"
  shows "net_change s (set_state i st' ((sk_net s)\<lparr>ns_routes := t, ns_lwip := l\<rparr>))"
  using assms by (auto simp: net_change_def set_state_def map_get_set)

lemma net_change_same: "ns_states n = ns_states (sk_net s) \<Longrightarrow>
   fewer_routes (ns_routes (sk_net s)) (ns_routes n) \<Longrightarrow> net_change s n"
  by (auto simp: net_change_def fewer_valid)

lemma addAddress_change:
  assumes "addAddress ex (validate_interface s) i cidr (sk_net s) = (r, n)"
  shows "net_change s n"
  using assms
proof (cases rule: addAddress_cases)
  case same
  then show ?thesis by (simp add: net_change_same)
next
  case (added st p st' t l)
  note g = getAttachedState_get [OF added(2)] and a = acquire_net [OF added(6)]
  show ?thesis unfolding added(7) using g a by (intro net_change_set) auto
qed

lemma removeAddress_change:
  assumes "removeAddress ex i cidr (sk_net s) = (r, n)"
  shows "net_change s n"
  using assms
proof (cases rule: removeAddress_cases)
  case same
  then show ?thesis by (simp add: net_change_same)
next
  case (removed st p ad st' t l)
  note g = getAttachedState_get [OF removed(2)] and a = release_net [OF removed(5)]
  show ?thesis unfolding removed(6) using g a by (intro net_change_set) (auto simp: fewer_valid)
qed

lemma setMtu_same: "setMtu ex i mtu n = (r, n') \<Longrightarrow> ns_states n' = ns_states n \<and> ns_routes n' = ns_routes n"
  by (auto simp: setMtu_def Let_def split: sum.splits if_splits prod.splits)

lemma advertise_same: "setRouterAdvertisements ex i options n = (r, n') \<Longrightarrow>
   ns_states n' = ns_states n \<and> ns_routes n' = ns_routes n"
  by (auto simp: setRouterAdvertisements_def Let_def split: sum.splits if_splits prod.splits option.splits)

lemma fold_dispose_fewer: "fewer_routes t (fold (\<lambda>r t. snd (dispose_route (cr_handle r) t)) rs t)"
proof (induction rs arbitrary: t)
  case (Cons r rs)
  from fewer_trans [OF fewer_dispose Cons] show ?case by simp
qed simp

text \<open>What detaching does: an attached state loses all, and the routes of the interface go.\<close>

lemma detach_cases:
  assumes "detach ex i terminal n = (r, n')"
  obtains (none) "map_get (ns_states n) i = None" "n' = n"
    "r = (if terminal then Inr () else throw ''network interface is not attached'')"
  | (again) st where "map_get (ns_states n) i = Some st" "if_detached st" "n' = n" "r = Inr ()"
  | (detached) st l where "map_get (ns_states n) i = Some st" "\<not> if_detached st" "r = Inr ()"
    "n' = set_state i (st\<lparr>if_detached := True, connectedRoutes := [], if_addresses := []\<rparr>)
       (n\<lparr>ns_routes := fold (\<lambda>r t. snd (dispose_route (cr_handle r) t)) (map snd (connectedRoutes st)) (ns_routes n),
         ns_lwip := l\<rparr>)"
    "l = (if terminal then ns_lwip n else snd (set_interface_router_advertisements ex (if_handle st) None (ns_lwip n)))"
  using assms by (auto simp: detach_def Let_def split: option.splits if_splits)

lemma remove_interface_change:
  assumes "remove_interface ex i terminal n = (r, n')"
  shows "(\<forall>j st'. map_get (ns_states n') j = Some st' \<longrightarrow> (\<exists>st. map_get (ns_states n) j = Some st \<and>
        if_handle st' = if_handle st \<and> (\<not> if_detached st' \<longrightarrow> \<not> if_detached st \<and> (j = i \<longrightarrow> False)))) \<and>
     fewer_routes (ns_routes n) (ns_routes n') \<and>
     (r = Inr () \<longrightarrow> (\<forall>r\<in>set (tb_routes (ns_routes n')). rt_via r \<noteq> i))"
proof -
  obtain q m where d: "detach ex i terminal n = (q, m)" by fastforce
  then have states: "(\<forall>j st'. map_get (ns_states m) j = Some st' \<longrightarrow> (\<exists>st. map_get (ns_states n) j = Some st \<and>
        if_handle st' = if_handle st \<and> (\<not> if_detached st' \<longrightarrow> \<not> if_detached st \<and> (j = i \<longrightarrow> False)))) \<and>
      fewer_routes (ns_routes n) (ns_routes m)"
  proof (cases rule: detach_cases)
    case (detached st l)
    then show ?thesis using fold_dispose_fewer by (auto simp: set_state_def map_get_set)
  qed auto
  show ?thesis
  proof (cases q)
    case (Inl e)
    with assms d states show ?thesis by (auto simp: remove_interface_def)
  next
    case (Inr u)
    with assms d have "n' = m\<lparr>ns_routes := removeInterface i (ns_routes m)\<rparr>" by (simp add: remove_interface_def)
    with states show ?thesis by (auto simp: removeInterface_def fewer_routes_def)
  qed
qed

text \<open>None of them frees an interface in the module.\<close>

lemma netif_keepsD:
  assumes "netif_keeps alive ex"
  shows "alive (snd (set_interface_mtu ex h m l)) = alive l"
    "alive (snd (set_interface_ip4_address ex h b n l)) = alive l" "alive (clear_interface_ip4_address ex h l) = alive l"
    "alive (snd (add_interface_ip6_address ex h b l)) = alive l" "alive (snd (remove_interface_ip6_address ex h b l)) = alive l"
    "alive (snd (set_interface_router_advertisements ex h a l)) = alive l"
  using assms by (simp_all add: netif_keeps_def)

lemma removeAddressFromWasm_alive:
  assumes "netif_keeps alive ex" "removeAddressFromWasm ex h f bs l = (r, l')"
  shows "alive l' = alive l"
proof (cases "f = Family4")
  case True
  with assms(2) netif_keepsD(3) [OF assms(1)] show ?thesis by (auto simp: removeAddressFromWasm_def)
next
  case False
  obtain result l2 where "remove_interface_ip6_address ex h bs l = (result, l2)" by fastforce
  with False assms(2) netif_keepsD(5) [OF assms(1), of h bs l] show ?thesis by (simp add: removeAddressFromWasm_def)
qed

lemma add_to_wasm_alive:
  assumes "netif_keeps alive ex"
    "(if f = Family4 then set_interface_ip4_address ex h bs n l else add_interface_ip6_address ex h bs l) = (result, l')"
  shows "alive l' = alive l"
proof (cases "f = Family4")
  case True
  with assms(2) netif_keepsD(2) [OF assms(1), of h bs n l] show ?thesis by simp
next
  case False
  with assms(2) netif_keepsD(4) [OF assms(1), of h bs l] show ?thesis by simp
qed

lemma ns_lwip_set_state [simp]: "ns_lwip (set_state i st n) = ns_lwip n"
  by (simp add: set_state_def)

lemma either_state: "snd (if A then (a, n) else if B then (b, n) else (d, n')) \<in> {n, n'}"
  by simp

lemma setMtu_alive:
  assumes "netif_keeps alive ex" "setMtu ex i mtu n = (r, n')"
  shows "alive (ns_lwip n') = alive (ns_lwip n)"
proof (cases "getAttachedState i n")
  case (Inr st)
  obtain result l where c: "set_interface_mtu ex (if_handle st) (metric_value mtu) (ns_lwip n) = (result, l)"
    by fastforce
  then have "alive l = alive (ns_lwip n)"
    using netif_keepsD(1) [OF assms(1), of "if_handle st" "metric_value mtu" "ns_lwip n"] by simp
  moreover have "snd (setMtu ex i mtu n) \<in> {n, n\<lparr>ns_lwip := l\<rparr>}"
    unfolding setMtu_def Inr sum.case Let_def c prod.case by (rule either_state)
  then have "n' = n \<or> n' = n\<lparr>ns_lwip := l\<rparr>" using assms(2) by simp
  ultimately show ?thesis by (elim disjE) simp_all
next
  case (Inl e)
  with assms(2) show ?thesis by (simp add: setMtu_def)
qed

lemma advertise_alive:
  assumes "netif_keeps alive ex" "setRouterAdvertisements ex i options n = (r, n')"
  shows "alive (ns_lwip n') = alive (ns_lwip n)"
proof -
  have a: "alive (ns_lwip (snd (let (result, l) = set_interface_router_advertisements ex h t (ns_lwip n) in
      (f result, n\<lparr>ns_lwip := l\<rparr>)))) = alive (ns_lwip n)" for h t and f :: "int \<Rightarrow> unit res"
    using netif_keepsD(6) [OF assms(1), of h t "ns_lwip n"] by (simp add: case_prod_beta)
  have "alive (ns_lwip (snd (setRouterAdvertisements ex i options n))) = alive (ns_lwip n)"
    unfolding setRouterAdvertisements_def
    by (simp add: a Let_def split del: if_split split: sum.split option.split)
       (simp add: Let_def a [unfolded Let_def] split: sum.split)
  with assms(2) show ?thesis by simp
qed

lemma removeAddress_alive:
  assumes "netif_keeps alive ex" "removeAddress ex i cidr n = (r, n')"
  shows "alive (ns_lwip n') = alive (ns_lwip n)"
proof (cases "bnd (getAttachedState i n) (\<lambda>st. bnd (parseInterfaceCidr cidr) (\<lambda>parsed. Inr (st, parsed)))")
  case (Inl e)
  with assms show ?thesis by (simp add: removeAddress_def)
next
  case (Inr q)
  obtain st p where q: "q = (st, p)" by (cases q)
  show ?thesis
  proof (cases "map_get (if_addresses st) (pc_canonical p)")
    case None
    with assms Inr q show ?thesis by (simp add: removeAddress_def)
  next
    case (Some ad)
    obtain w l where w: "removeAddressFromWasm ex (if_handle st) (as_family ad) (as_bytes ad) (ns_lwip n) = (w, l)"
      by fastforce
    have "alive l = alive (ns_lwip n)"
      by (rule removeAddressFromWasm_alive [OF assms(1) w])
    moreover obtain st' t where rel: "releaseConnectedRoute (connectedNetwork ad) (st, ns_routes n) = (st', t)"
      by fastforce
    have "ns_lwip n' = l"
    proof (cases w)
      case (Inl e)
      then show ?thesis using arg_cong [OF assms(2), of snd] \<open>bnd _ _ = Inr q\<close> q Some w
        by (simp add: removeAddress_def) auto
    next
      case (Inr u)
      then show ?thesis using arg_cong [OF assms(2), of snd] \<open>bnd _ _ = Inr q\<close> q Some w rel
        by (simp add: removeAddress_def) auto
    qed
    ultimately show ?thesis by simp
  qed
qed

lemma addAddress_alive:
  assumes "netif_keeps alive ex" "addAddress ex v i cidr n = (r, n')"
  shows "alive (ns_lwip n') = alive (ns_lwip n)"
proof (cases "bnd (getAttachedState i n) (\<lambda>st. bnd (parseInterfaceCidr cidr) (\<lambda>parsed. Inr (st, parsed)))")
  case (Inl e)
  with assms show ?thesis by (simp add: addAddress_def)
next
  case (Inr q)
  obtain st p where q: "q = (st, p)" by (cases q)
  obtain result l where c: "(if pa_family p = Family4
      then set_interface_ip4_address ex (if_handle st) (pa_bytes p) (pc_prefixLength p) (ns_lwip n)
      else add_interface_ip6_address ex (if_handle st) (pa_bytes p) (ns_lwip n)) = (result, l)" by fastforce
  have l: "alive l = alive (ns_lwip n)" by (rule add_to_wasm_alive [OF assms(1) c])
  obtain w l' where w: "removeAddressFromWasm ex (if_handle st) (pa_family p) (pa_bytes p) l = (w, l')" by fastforce
  have l': "alive l' = alive l" by (rule removeAddressFromWasm_alive [OF assms(1) w])
  have "ns_lwip n' \<in> {ns_lwip n, l, l'}"
    using assms(2) unfolding addAddress_def Inr q sum.case prod.case c Let_def w
    by (auto split: if_splits sum.splits)
  with l l' show ?thesis by auto
qed

subsection \<open>Attaching\<close>

lemma attach_loop_net:
  assumes "attach_loop v i cidrs (st, t) = (r, st', t')"
  shows "if_handle st' = if_handle st \<and> if_detached st' = if_detached st \<and> valid_routes v t t'"
  using assms
proof (induction cidrs arbitrary: st t)
  case (Cons cidr cidrs)
  show ?case
  proof (cases "parseInterfaceCidr cidr")
    case (Inl e)
    with Cons.prems show ?thesis by simp
  next
    case p: (Inr p)
    show ?thesis
    proof (cases "acquireConnectedRoute v i (pc_network p) (with_address p st, t)")
      case (Inl e)
      with Cons.prems p show ?thesis by auto
    next
      case (Inr w)
      obtain st1 t1 where w: "w = (st1, t1)" by (cases w)
      have a: "acquireConnectedRoute v i (pc_network p) (with_address p st, t) = Inr (st1, t1)" using Inr w by simp
      have "attach_loop v i cidrs (st1, t1) = (r, st', t')" using Cons.prems p a by simp
      from Cons.IH [OF this] acquire_net [OF a] show ?thesis by (auto intro: valid_trans)
    qed
  qed
qed (simp add: fewer_valid)

lemma attach_change:
  assumes "interfaceHandle i s = Inr h" "attach (validate_interface s) i h cidrs (sk_net s) = (r, n)"
  shows "net_change s n \<and> ns_lwip n = wasm s"
proof (cases "map_get (ns_states (sk_net s)) i = None")
  case True
  let ?st = "\<lparr>if_handle = h, if_addresses = [], connectedRoutes = [], if_detached = False\<rparr> :: nat interface_state"
  obtain q st t where l: "attach_loop (validate_interface s) i cidrs (?st, ns_routes (sk_net s)) = (q, st, t)"
    using prod_cases3 by blast
  note a = attach_loop_net [OF l]
  have n: "n = set_state i st ((sk_net s)\<lparr>ns_routes := t\<rparr>)" using assms(2) True l by (simp add: attach_def)
  show ?thesis using a assms(1) by (auto simp: n net_change_def set_state_def map_get_set)
next
  case False
  with assms(2) show ?thesis by (auto simp: attach_def net_change_same)
qed

lemma shapes_net [simp]: "shapes (s\<lparr>sk_net := n\<rparr>) = shapes s"
  by (simp add: shapes_def)

lemma shapes_fields [simp]: "shapes (s\<lparr>sk_interfaces := m\<rparr>) = shapes s" "shapes (s\<lparr>sk_disposedError := e\<rparr>) = shapes s"
  by (simp_all add: shapes_def)

lemma net_change_refl [simp]: "net_change s (sk_net s)"
  by (rule net_change_same) simp_all

lemma attachInterface_inv:
  assumes "stack_inv alive s" "attachInterface i ip s = (r, s')"
  shows "stack_inv alive s'"
proof (cases "interfaceHandle i s")
  case (Inl e)
  with assms show ?thesis by (simp add: attachInterface_def)
next
  case (Inr h)
  obtain q n where a: "attach (validate_interface s) i h (if ip = [] then [] else [ip]) (sk_net s) = (q, n)" by fastforce
  with assms(2) Inr have "s' = s\<lparr>sk_net := n\<rparr>" by (simp add: attachInterface_def)
  with attach_change [OF Inr a] show ?thesis by (intro stack_inv_net [OF assms(1)]) simp_all
qed

subsection \<open>Creating\<close>

lemma fold_registered [simp]: "fold (register_interface k) [] s = s"
  "fold (register_interface k) [h] s = register_interface k h s"
  by simp_all

lemma set_wasm_objects [simp]: "sk_objects (set_wasm l s) = sk_objects s"
  by (simp add: set_wasm_def)

lemma register_get: "map_get (sk_interfaces (register_interface k h s) k) h = Some (length (sk_objects s))"
  by (simp add: register_interface_def set_interfaces_def map_get_set)

lemma create_cases:
  assumes "wasm_ok alive ex" "create_interface ex random k options s = (r, s')"
  obtains (failed) e where "r = Inl e" "s' = s"
  | (null) l e where "r = Inl e \<or> (\<exists>i. r = Inr i \<and> map_get (sk_interfaces s k) 0 = Some i)" "k \<noteq> Bridge"
      "s' = set_wasm l s" "alive l = alive (wasm s)"
  | (created) h l where "r = Inr (length (sk_objects s))" "s' = register_interface k h (set_wasm l s)"
      "h = 0 \<and> k = Bridge \<and> alive l = alive (wasm s) \<or> h \<noteq> 0 \<and> h \<notin> alive (wasm s) \<and> alive l = insert h (alive (wasm s))"
proof (cases "bnd (mac_bytes random k (co_mac options)) (\<lambda>mac. bnd (cidr_bytes (co_ip options)) (\<lambda>cidr.
         bnd (port_handles k (co_ports options) s) (\<lambda>ports. Inr (mac, cidr, ports))))")
  case (Inl e)
  with assms(2) have "r = Inl e" "s' = s" by (simp_all add: create_interface_def)
  then show ?thesis by (rule failed)
next
  case (Inr q)
  obtain mac cidr ports where q: "q = (mac, cidr, ports)" by (cases q)
  obtain h hs l where c: "create_netif ex k mac cidr ports (wasm s) = (h, hs, l)" using prod_cases3 by blast
  have ok: "created_ok alive k (wasm s) (h, hs, l)" using assms(1) c by (metis wasm_ok_def)
  have s: "create_interface ex random k options s = (let s' = fold (register_interface k) hs (set_wasm l s) in
      if k = Bridge then (Inr (length (sk_objects s')), register_interface k h s')
      else (case map_get (sk_interfaces s' k) h of
          None \<Rightarrow> (Inl (Error (lit (kind_name k) @ lit '' interface failed to register'')), s')
        | Some i \<Rightarrow> (Inr i, s')))"
    unfolding create_interface_def Inr q sum.case prod.case c Let_def by simp
  show ?thesis
  proof (cases "k = Bridge")
    case True
    with ok have "hs = []" by (auto simp: created_ok_def split: if_splits)
    with s assms(2) True have "(r, s') = (Inr (length (sk_objects s)), register_interface k h (set_wasm l s))"
      by simp
    moreover have "h = 0 \<and> k = Bridge \<and> alive l = alive (wasm s) \<or>
        h \<noteq> 0 \<and> h \<notin> alive (wasm s) \<and> alive l = insert h (alive (wasm s))"
      using ok True by (cases "h = 0") (simp_all add: created_ok_def)
    ultimately show ?thesis using created [of h l] by blast
  next
    case False
    show ?thesis
    proof (cases "h = 0")
      case True
      with ok have o: "hs = []" "alive l = alive (wasm s)" by (simp_all add: created_ok_def)
      show ?thesis
      proof (cases "map_get (sk_interfaces s k) 0")
        case None
        with s assms(2) False True o null show ?thesis by (simp add: set_wasm_def)
      next
        case (Some i)
        with s assms(2) False True o null show ?thesis by (simp add: set_wasm_def)
      qed
    next
      case h: False
      with ok False have "hs = [h]" "h \<notin> alive (wasm s)" "alive l = insert h (alive (wasm s))"
        by (simp_all add: created_ok_def)
      moreover from this s assms(2) False
      have "(r, s') = (Inr (length (sk_objects s)), register_interface k h (set_wasm l s))"
        by (simp add: register_get)
      ultimately show ?thesis using created [of h l] h by blast
    qed
  qed
qed

lemma registered_at_register:
  "registered_at k' h' i (register_interface k h (set_wasm l s)) \<longleftrightarrow>
     (if k' = k \<and> h' = h then i = length (sk_objects s) else registered_at k' h' i s)"
  by (auto simp: registered_at_def register_interface_def set_interfaces_def set_wasm_def map_get_set)

lemma register_simps [simp]:
  "sk_objects (register_interface k h (set_wasm l s)) = sk_objects s @ [new_interface k h]"
  "sk_net (register_interface k h (set_wasm l s)) = (sk_net s)\<lparr>ns_lwip := l\<rparr>"
  by (simp_all add: register_interface_def set_interfaces_def set_wasm_def)

lemma new_interface_simps [simp]: "vi_type (new_interface k h) = k" "vi_handle (new_interface k h) = h"
  by (simp_all add: new_interface_def)

lemma accounted_register:
  assumes "stack_inv alive s" "accounted i s" "h = 0 \<or> h \<notin> alive (wasm s)"
  shows "accounted i (register_interface k h (set_wasm l s))"
proof -
  have "vi_handle (sk_objects s ! i) = 0 \<or> (vi_type (sk_objects s ! i), vi_handle (sk_objects s ! i)) \<noteq> (k, h)"
    if "present i s" using that assms by (auto simp: stack_inv_def memory_ok_def present_def)
  with assms(2) show ?thesis
    by (auto simp: accounted_def present_def registered_at_register nth_append)
qed

lemma register_inv:
  assumes inv: "stack_inv alive s"
    and h: "h = 0 \<and> k = Bridge \<and> alive l = alive (wasm s) \<or>
      h \<noteq> 0 \<and> h \<notin> alive (wasm s) \<and> alive l = insert h (alive (wasm s))"
  shows "stack_inv alive (register_interface k h (set_wasm l s))"
proof -
  let ?s = "register_interface k h (set_wasm l s)"
  have t: "types_ok s" and m: "memory_ok alive s" and a: "attached_ok s" and v: "vias_ok s"
    using inv by (simp_all add: stack_inv_def)
  have "map_ok (sk_interfaces ?s k')" for k'
    using t by (simp add: types_ok_def register_interface_def set_interfaces_def set_wasm_def map_ok_set)
  moreover have "i < length (sk_objects ?s) \<and> vi_type (sk_objects ?s ! i) = k' \<and>
      vi_handle (sk_objects ?s ! i) = h' \<and> (h' = 0 \<longrightarrow> k' = Bridge)" if "registered_at k' h' i ?s" for k' h' i
    using that types_okD [OF t, of k' h' i] h by (auto simp: registered_at_register nth_append split: if_splits)
  ultimately have "types_ok ?s" by (simp add: types_ok_def)
  moreover have live: "h' \<in> alive (wasm s)" if "registered_at k' h' i s" "h' \<noteq> 0" for k' h' i
    using m that unfolding memory_ok_def by blast
  have l: "alive (wasm ?s) = alive l" by simp
  have "memory_ok alive ?s" unfolding memory_ok_def l
  proof (intro conjI allI impI)
    fix k' h' i
    assume "registered_at k' h' i ?s" "h' \<noteq> 0"
    then show "h' \<in> alive l" using live [of k' h' i] h by (cases "k' = k \<and> h' = h") (auto simp: registered_at_register)
  next
    fix k1 k2 h' i i'
    assume r: "registered_at k1 h' i ?s" "registered_at k2 h' i' ?s" and h': "h' \<noteq> 0"
    show "k1 = k2"
    proof (cases "h' = h")
      case True
      then have "\<not> registered_at k'' h' j s" for k'' j using live h h' by blast
      with r True show ?thesis by (auto simp: registered_at_register split: if_splits)
    next
      case False
      with r have "registered_at k1 h' i s" "registered_at k2 h' i' s" by (simp_all add: registered_at_register)
      with m h' show ?thesis unfolding memory_ok_def by blast
    qed
  qed
  moreover have acc: "accounted i ?s" if "accounted i s" for i
    using accounted_register [OF inv that] h by blast
  have "attached_ok ?s" using a acc by (auto simp: attached_ok_def nth_append less_SucI)
  moreover have "vias_ok ?s" using v acc by (auto simp: vias_ok_def)
  ultimately show ?thesis by (simp add: stack_inv_def)
qed

lemma set_wasm_simps [simp]:
  "sk_interfaces (set_wasm l s) = sk_interfaces s" "shapes (set_wasm l s) = shapes s" "wasm (set_wasm l s) = l"
  "sk_net (set_wasm l s) = (sk_net s)\<lparr>ns_lwip := l\<rparr>" "sk_disposedError (set_wasm l s) = sk_disposedError s"
  by (simp_all add: set_wasm_def shapes_def)

lemma set_wasm_inv: "stack_inv alive s \<Longrightarrow> alive l = alive (wasm s) \<Longrightarrow> stack_inv alive (set_wasm l s)"
  by (rule stack_inv_net [of alive s]) (simp_all add: net_change_same)

lemma create_inv:
  assumes "wasm_ok alive ex" "stack_inv alive s" "create_interface ex random k options s = (r, s')"
  shows "stack_inv alive s'"
  using assms(1,3)
proof (cases rule: create_cases)
  case failed
  with assms(2) show ?thesis by simp
next
  case (null l)
  with assms(2) show ?thesis by (simp add: set_wasm_inv)
next
  case (created h l)
  show ?thesis unfolding created(2) by (rule register_inv [OF assms(2) created(3)])
qed

text \<open>Fields that the invariant does not read.\<close>

lemma stack_inv_fields [simp]:
  "stack_inv alive (s\<lparr>sk_attaching := q\<rparr>) = stack_inv alive s" "stack_inv alive (s\<lparr>sk_packets := ps\<rparr>) = stack_inv alive s"
  "stack_inv alive (s\<lparr>sk_output := os\<rparr>) = stack_inv alive s" "stack_inv alive (s\<lparr>sk_sent := xs\<rparr>) = stack_inv alive s"
  "stack_inv alive (s\<lparr>sk_unhandled := es\<rparr>) = stack_inv alive s"
  "stack_inv alive (s\<lparr>sk_disposedError := e\<rparr>) = stack_inv alive s"
  by (simp_all add: stack_inv_def types_ok_def memory_ok_def attached_ok_def vias_ok_def accounted_def present_def
      registered_at_def)

lemma stack_create_inv:
  assumes "wasm_ok alive ex" "stack_inv alive s" "stack_create ex random k options s = (r, s')"
  shows "stack_inv alive s'"
proof (cases "sk_disposedError s")
  case None
  obtain q s1 where c: "create_interface ex random k options s = (q, s1)" by fastforce
  with create_inv [OF assms(1,2) c] assms(3) None show ?thesis by (auto simp: stack_create_def split: sum.splits)
qed (use assms in \<open>simp add: stack_create_def\<close>)

lemma stack_attach_inv:
  assumes "stack_inv alive s" "stack_attach s = (r, s')"
  shows "stack_inv alive s'"
proof (cases "sk_attaching s")
  case (Cons q qs)
  obtain i ip where q: "q = (i, ip)" by (cases q)
  have inv: "stack_inv alive (s\<lparr>sk_attaching := qs\<rparr>)" using assms(1) by simp
  have "attachInterface i ip (s\<lparr>sk_attaching := qs\<rparr>) = (r, s')" using assms(2) Cons q by (simp add: stack_attach_def)
  then show ?thesis by (rule attachInterface_inv [OF inv])
qed (use assms in \<open>simp add: stack_attach_def\<close>)

lemma update_streams_inv: "stack_inv alive s \<Longrightarrow> stack_inv alive (update_streams i f s)"
  by (rule stack_inv_net [of alive s]) simp_all

subsection \<open>Removing\<close>

lemma stack_invD:
  assumes "stack_inv alive s"
  shows "types_ok s" "memory_ok alive s" "attached_ok s" "vias_ok s"
  using assms by (simp_all add: stack_inv_def)

text \<open>An interface that is detached and has no routes is out of use.\<close>

definition unused :: "nat \<Rightarrow> 'l stack \<Rightarrow> bool" where
  "unused i s \<longleftrightarrow> (\<forall>st. map_get (ns_states (sk_net s)) i = Some st \<longrightarrow> if_detached st) \<and>
     (\<forall>r\<in>set (tb_routes (ns_routes (sk_net s))). rt_via r \<noteq> i)"

lemma stack_inv_maps:
  assumes inv: "stack_inv alive s"
    and reg: "\<And>k h i. registered_at k h i s' \<Longrightarrow> registered_at k h i s"
    and gone: "\<And>i. \<not> unused i s \<Longrightarrow> present i s \<Longrightarrow> present i s'"
    and alive: "\<And>k h i. registered_at k h i s' \<Longrightarrow> h \<noteq> 0 \<Longrightarrow> h \<in> alive (wasm s')"
    and same: "sk_objects s' = sk_objects s" "ns_states (sk_net s') = ns_states (sk_net s)"
      "ns_routes (sk_net s') = ns_routes (sk_net s)" "\<And>k. map_ok (sk_interfaces s' k)"
  shows "stack_inv alive s'"
proof -
  note t = types_okD [OF stack_invD(1) [OF inv]]
  have "types_ok s'" unfolding types_ok_def same(1) using same(4) t reg by blast
  moreover have "memory_ok alive s'"
    using reg alive stack_invD(2) [OF inv] unfolding memory_ok_def by blast
  moreover have acc: "accounted i s'" if "\<not> unused i s" "accounted i s" for i
    using that gone [of i] by (auto simp: accounted_def same(1))
  have "attached_ok s'" using stack_invD(3) [OF inv] acc
    unfolding attached_ok_def same(1,2) unused_def by blast
  moreover have "vias_ok s'" using stack_invD(4) [OF inv] acc
    unfolding vias_ok_def same(3) unused_def by blast
  ultimately show ?thesis by (simp add: stack_inv_def)
qed

lemma unregister_registered:
  assumes "types_ok s"
  shows "registered_at k' h' j (unregister_interface ex k i s) \<longleftrightarrow>
    registered_at k' h' j s \<and> \<not> (k' = k \<and> registered_at k h' i s)"
proof (cases "key_of i (sk_interfaces s k)")
  case None
  with assms have "\<not> registered_at k h' i s" by (metis key_of_registered option.distinct(1))
  with None show ?thesis by (simp add: unregister_interface_def)
next
  case (Some h)
  then have r: "registered_at k h i s" using assms by (simp add: key_of_registered)
  have "registered_at k h' i s \<longleftrightarrow> h' = h"
    using types_okD(3) [OF assms r] types_okD(3) [OF assms, of k h' i] r by auto
  moreover have "map_ok (sk_interfaces s k)" using assms by (simp add: types_ok_def)
  ultimately show ?thesis using Some
    by (auto simp: unregister_interface_def registered_at_def set_interfaces_def map_get_delete)
qed

lemma unregister_simps [simp]:
  "sk_objects (unregister_interface ex k i s) = sk_objects s"
  "ns_states (sk_net (unregister_interface ex k i s)) = ns_states (sk_net s)"
  "ns_routes (sk_net (unregister_interface ex k i s)) = ns_routes (sk_net s)"
  "sk_disposedError (unregister_interface ex k i s) = sk_disposedError s"
  by (simp_all add: unregister_interface_def set_interfaces_def split: option.split)

lemma unregister_inv:
  assumes wasm: "wasm_ok alive ex" and inv: "stack_inv alive s" and i: "unused i s"
  shows "stack_inv alive (unregister_interface ex k i s)"
proof (rule stack_inv_maps [OF inv])
  note t = stack_invD(1) [OF inv] and reg = unregister_registered [OF stack_invD(1) [OF inv]]
  show "registered_at k' h j s" if "registered_at k' h j (unregister_interface ex k i s)" for k' h j
    using that by (simp add: reg)
  show "present j (unregister_interface ex k i s)" if j: "\<not> unused j s" "present j s" for j
  proof -
    have "j \<noteq> i" using i j(1) by blast
    then have "\<not> registered_at k h i s" if "registered_at k h j s" for h
      using that by (auto simp: registered_at_def)
    with j(2) show ?thesis by (auto simp: present_def reg)
  qed
  show "h \<in> alive (wasm (unregister_interface ex k i s))"
    if h: "registered_at k' h j (unregister_interface ex k i s)" "h \<noteq> 0" for k' h j
  proof -
    have r: "registered_at k' h j s" "\<not> (k' = k \<and> registered_at k h i s)" using h by (simp_all add: reg)
    then have a: "h \<in> alive (wasm s)" using stack_invD(2) [OF inv] h unfolding memory_ok_def by blast
    have "\<not> registered_at k h i s" using r h stack_invD(2) [OF inv] unfolding memory_ok_def by blast
    then have "key_of i (sk_interfaces s k) \<noteq> Some h" using t by (simp add: key_of_registered)
    with a wasm show ?thesis
      by (auto simp: unregister_interface_def set_interfaces_def wasm_ok_def split: option.split)
  qed
  show "map_ok (sk_interfaces (unregister_interface ex k i s) k')" for k'
    using t by (auto simp: unregister_interface_def set_interfaces_def types_ok_def map_ok_delete split: option.split)
qed simp_all

lemma remove_interface_alive:
  assumes "netif_keeps alive ex" "remove_interface ex i terminal n = (r, n')"
  shows "alive (ns_lwip n') = alive (ns_lwip n)"
proof -
  obtain q m where d: "detach ex i terminal n = (q, m)" by fastforce
  have "alive (ns_lwip m) = alive (ns_lwip n)" using d
  proof (cases rule: detach_cases)
    case (detached st l)
    with netif_keepsD(6) [OF assms(1)] show ?thesis by simp
  qed simp_all
  moreover have "ns_lwip n' = ns_lwip m" using assms(2) d by (auto simp: remove_interface_def split: sum.splits)
  ultimately show ?thesis by simp
qed

lemma remove_interface_net_change:
  assumes "remove_interface ex i terminal (sk_net s) = (r, n)"
  shows "net_change s n"
  using remove_interface_change [OF assms] fewer_valid unfolding net_change_def by blast

lemma remove_interface_unused:
  assumes "remove_interface ex i terminal (sk_net s) = (Inr (), n)"
  shows "unused i (s\<lparr>sk_net := n\<rparr>)"
  using remove_interface_change [OF assms] by (auto simp: unused_def)

lemma stack_remove_inv:
  assumes wasm: "wasm_ok alive ex" and inv: "stack_inv alive s" and r: "stack_remove ex i s = (r, s')"
  shows "stack_inv alive s'"
proof (cases "sk_disposedError s")
  case None
  obtain q n where q: "remove_interface (we_netif ex) i False (sk_net s) = (q, n)" by fastforce
  have k: "netif_keeps alive (we_netif ex)" using wasm by (simp add: wasm_ok_def)
  have n: "stack_inv alive (s\<lparr>sk_net := n\<rparr>)"
    using remove_interface_net_change [OF q] remove_interface_alive [OF k q]
    by (intro stack_inv_net [OF inv]) simp_all
  show ?thesis
  proof (cases q)
    case (Inl e)
    with r q None n show ?thesis by (simp add: stack_remove_def)
  next
    case (Inr u)
    with r q None have s': "s' = unregister_interface ex (vi_type (sk_objects s ! i)) i (s\<lparr>sk_net := n\<rparr>)"
      by (simp add: stack_remove_def)
    have "remove_interface (we_netif ex) i False (sk_net s) = (Inr (), n)" using q Inr by simp
    then show ?thesis unfolding s' by (intro unregister_inv [OF wasm n] remove_interface_unused)
  qed
qed (use assms in \<open>simp add: stack_remove_def\<close>)

subsection \<open>Disposing\<close>

lemma remove_terminal: "\<exists>n'. remove_interface ex i True n = (Inr (), n')"
proof -
  obtain q m where d: "detach ex i True n = (q, m)" by fastforce
  then have "q = Inr ()" by (cases rule: detach_cases) simp_all
  with d show ?thesis by (simp add: remove_interface_def)
qed

lemma unused_remove:
  assumes "unused j (s\<lparr>sk_net := m\<rparr>)" "remove_interface ex i terminal m = (r, n)"
  shows "unused j (s\<lparr>sk_net := n\<rparr>)"
  using assms(1) remove_interface_change [OF assms(2)] by (fastforce simp: unused_def fewer_routes_def)

lemma remove_all:
  assumes "netif_keeps alive ex" "stack_inv alive s"
  shows "stack_inv alive (s\<lparr>sk_net := fold (\<lambda>i n. snd (remove_interface ex i True n)) is (sk_net s)\<rparr>) \<and>
    (\<forall>i. i \<in> set is \<or> unused i s \<longrightarrow>
       unused i (s\<lparr>sk_net := fold (\<lambda>i n. snd (remove_interface ex i True n)) is (sk_net s)\<rparr>))"
  using assms(2)
proof (induction "is" arbitrary: s)
  case (Cons i "is")
  obtain n where n: "remove_interface ex i True (sk_net s) = (Inr (), n)"
    using remove_terminal [of ex i "sk_net s"] by blast
  let ?s = "s\<lparr>sk_net := n\<rparr>"
  have inv: "stack_inv alive ?s"
    using remove_interface_net_change [OF n] remove_interface_alive [OF assms(1) n]
    by (intro stack_inv_net [OF Cons.prems]) simp_all
  have u: "unused i ?s" by (rule remove_interface_unused [OF n])
  have m: "unused j s \<Longrightarrow> unused j ?s" for j using unused_remove [OF _ n, of j s] by simp
  from Cons.IH [OF inv] u m show ?case by (auto simp: n)
qed simp

lemma fold_update_streams [simp]:
  "sk_net (fold (\<lambda>(h, i). update_streams i f) m s) = sk_net s"
  "sk_interfaces (fold (\<lambda>(h, i). update_streams i f) m s) = sk_interfaces s"
  "shapes (fold (\<lambda>(h, i). update_streams i f) m s) = shapes s"
  "sk_disposedError (fold (\<lambda>(h, i). update_streams i f) m s) = sk_disposedError s"
  by (induction m arbitrary: s) auto

lemma dispose_interfaces_simps [simp]:
  "sk_net (dispose_interfaces k s) = sk_net s" "shapes (dispose_interfaces k s) = shapes s"
  "sk_disposedError (dispose_interfaces k s) = sk_disposedError s"
  "sk_interfaces (dispose_interfaces k s) = (sk_interfaces s)(k := [])"
  by (simp_all add: dispose_interfaces_def set_interfaces_def)

lemma dispose_all:
  "sk_net (fold dispose_interfaces interface_kinds s) = sk_net s"
  "shapes (fold dispose_interfaces interface_kinds s) = shapes s"
  "sk_disposedError (fold dispose_interfaces interface_kinds s) = sk_disposedError s"
  "sk_interfaces (fold dispose_interfaces interface_kinds s) = (\<lambda>k. [])"
proof -
  show "sk_interfaces (fold dispose_interfaces interface_kinds s) = (\<lambda>k. [])"
  proof
    show "sk_interfaces (fold dispose_interfaces interface_kinds s) k = []" for k
      by (cases k) (simp_all add: interface_kinds_def)
  qed
qed (simp_all add: interface_kinds_def)

lemma listInterfaces_present: "types_ok s \<Longrightarrow> i \<in> set (listInterfaces s) \<longleftrightarrow> present i s"
proof
  assume t: "types_ok s" and "i \<in> set (listInterfaces s)"
  then obtain k h where "(h, i) \<in> set (sk_interfaces s k)" by (auto simp: listInterfaces_def)
  with t have "registered_at k h i s" by (simp add: registered_at_def types_ok_def map_get_in_set)
  with t show "present i s" by (rule registered_present)
next
  assume t: "types_ok s" and "present i s"
  then have "(vi_handle (sk_objects s ! i), i) \<in> set (sk_interfaces s (vi_type (sk_objects s ! i)))"
    by (simp add: present_def registered_at_def types_ok_def map_get_in_set)
  then show "i \<in> set (listInterfaces s)" by (force simp: listInterfaces_def)
qed

lemma terminate_inv:
  assumes "wasm_ok alive ex" "stack_inv alive s"
  shows "stack_inv alive (terminate ex s)"
proof (cases "sk_disposedError s")
  case None
  let ?s = "s\<lparr>sk_disposedError := Some disposed_error\<rparr>"
  let ?n = "fold (\<lambda>i n. snd (remove_interface (we_netif ex) i True n)) (listInterfaces s) (sk_net ?s)"
  let ?s1 = "?s\<lparr>sk_net := ?n\<rparr>"
  have k: "netif_keeps alive (we_netif ex)" using assms(1) by (simp add: wasm_ok_def)
  have inv: "stack_inv alive ?s" using assms(2) by simp
  note all = remove_all [OF k inv, of "listInterfaces s"]
  have p: "present i ?s1 \<longleftrightarrow> present i s" for i by (simp add: present_def registered_at_def)
  have "stack_inv alive (?s1\<lparr>sk_interfaces := \<lambda>k. []\<rparr>)"
  proof (rule stack_inv_maps [OF all [THEN conjunct1]])
    show "present i (?s1\<lparr>sk_interfaces := \<lambda>k. []\<rparr>)" if "\<not> unused i ?s1" "present i ?s1" for i
      using that all p listInterfaces_present [OF stack_invD(1) [OF assms(2)]] by blast
  qed (simp_all add: registered_at_def)
  then have "stack_inv alive (fold dispose_interfaces interface_kinds ?s1)"
    by (rule stack_inv_net) (simp_all add: dispose_all net_change_same)
  moreover have "terminate ex s = fold dispose_interfaces interface_kinds ?s1"
    using None by (simp add: terminate_def)
  ultimately show ?thesis by simp
qed (use assms in \<open>simp add: terminate_def\<close>)

subsection \<open>Packets\<close>

lemma deliver_inv: "stack_inv alive s \<Longrightarrow> stack_inv alive (deliver_packet s)"
  by (auto simp: deliver_packet_def Let_def update_streams_inv split: list.split prod.split option.split)

lemma send_hook_inv:
  assumes "wasm_ok alive ex" "stack_inv alive s" "send_hook ex k h packet s = (r, s')"
  shows "stack_inv alive s'"
proof (cases "sk_disposedError s")
  case None
  obtain result l where l: "send_netif ex k h packet (wasm s) = (result, l)" by fastforce
  moreover have "alive (snd (send_netif ex k h packet (wasm s))) = alive (wasm s)"
    using assms(1) unfolding wasm_ok_def by blast
  ultimately have "stack_inv alive (set_wasm l s)" using set_wasm_inv [OF assms(2)] by simp
  moreover have "s' = (set_wasm l s)\<lparr>sk_sent := sk_sent s @ [(k, h, packet)]\<rparr>"
    using assms(3) None l by (simp add: send_hook_def)
  ultimately show ?thesis by simp
qed (use assms in \<open>simp add: send_hook_def\<close>)

lemma write_inv:
  assumes "wasm_ok alive ex" "stack_inv alive s" "write_packet ex i packet s = (r, s')"
  shows "stack_inv alive s'"
proof (cases "ps_writableError (vi_streams (sk_objects s ! i))")
  case None
  obtain q s1 where h: "send_hook ex (vi_type (sk_objects s ! i)) (vi_handle (sk_objects s ! i)) packet s = (q, s1)"
    by fastforce
  obtain r' p where "write_answer (vi_type (sk_objects s ! i)) q (vi_streams (sk_objects s ! i)) = (r', p)" by fastforce
  with assms(3) None h have "s' = update_streams i (\<lambda>_. p) s1" by (simp add: write_packet_def Let_def)
  with send_hook_inv [OF assms(1,2) h] show ?thesis by (simp add: update_streams_inv)
qed (use assms in \<open>simp add: write_packet_def Let_def\<close>)

subsection \<open>Reachable states\<close>

lemma stack_step_inv:
  assumes "wasm_ok alive ex"
  shows "stack_step alive ex s s' \<Longrightarrow> stack_inv alive s \<Longrightarrow> stack_inv alive s'"
proof (induction rule: stack_step.induct)
  note k = assms [unfolded wasm_ok_def, THEN conjunct1]
  note net = stack_inv_net [where s' = "_\<lparr>sk_net := _\<rparr>"]
  {
    case do_create
    then show ?case using stack_create_inv [OF assms] by blast
  next
    case do_attach
    then show ?case using stack_attach_inv by blast
  next
    case do_remove
    then show ?case using stack_remove_inv [OF assms] by blast
  next
    case do_terminate
    then show ?case using terminate_inv [OF assms] by blast
  next
    case (do_addAddress s i cidr r n)
    show ?case using addAddress_change [OF do_addAddress(1)] addAddress_alive [OF k do_addAddress(1)]
      by (intro net [OF do_addAddress(2)]) simp_all
  next
    case (do_removeAddress i cidr s r n)
    show ?case using removeAddress_change [OF do_removeAddress(1)] removeAddress_alive [OF k do_removeAddress(1)]
      by (intro net [OF do_removeAddress(2)]) simp_all
  next
    case (do_setMtu i mtu s r n)
    show ?case using setMtu_same [OF do_setMtu(1)] setMtu_alive [OF k do_setMtu(1)]
      by (intro net [OF do_setMtu(2)]) (simp_all add: net_change_same)
  next
    case (do_advertise i advertised s r n)
    show ?case using advertise_same [OF do_advertise(1)] advertise_alive [OF k do_advertise(1)]
      by (intro net [OF do_advertise(2)]) (simp_all add: net_change_same)
  next
    case (do_add_route s spec h t)
    from do_add_route(1) have "net_change s ((sk_net s)\<lparr>ns_routes := t\<rparr>)"
      by (auto simp: net_change_def valid_add)
    then show ?case by (intro net [OF do_add_route(2)]) simp_all
  next
    case (do_dispose_route h s h' t)
    from do_dispose_route(1) have "net_change s ((sk_net s)\<lparr>ns_routes := t\<rparr>)"
      using fewer_dispose [of "ns_routes (sk_net s)" h] by (intro net_change_same) simp_all
    then show ?case by (intro net [OF do_dispose_route(2)]) simp_all
  next
    case do_lwip
    then show ?case by (simp add: set_wasm_inv)
  next
    case do_write
    then show ?case using write_inv [OF assms] by blast
  }
qed (simp_all add: packet_output_def deliver_inv update_streams_inv)

lemma stack_reachable_inv:
  assumes "wasm_ok alive ex"
  shows "stack_reachable alive ex s \<Longrightarrow> stack_inv alive s"
  by (induction rule: stack_reachable.induct) (auto intro: stack_inv_init stack_step_inv [OF assms])

end
