(* ===== verification/Net_Packets.thy ===== *)
theory Net_Packets
  imports Net_Lifecycle
begin

text \<open>
  Packets from lwIP to the readers of tun and tap interfaces, in every state the stack reaches: what
  lwIP has put out on a handle, what of it waits for its microtask, and what the reader has.
\<close>

definition on_handle :: "interface_kind \<Rightarrow> nat \<Rightarrow> (interface_kind \<times> nat \<times> bytes) list \<Rightarrow> bytes list" where
  "on_handle k h ps = map (\<lambda>(k', h', d). d) (filter (\<lambda>(k', h', d). k' = k \<and> h' = h) ps)"

abbreviation streams_of :: "nat \<Rightarrow> 'l stack \<Rightarrow> packet_streams" where
  "streams_of i s \<equiv> vi_streams (sk_objects s ! i)"

definition pending_for :: "nat \<Rightarrow> 'l stack \<Rightarrow> bytes list" where
  "pending_for i s = on_handle (vi_type (sk_objects s ! i)) (vi_handle (sk_objects s ! i)) (sk_packets s)"

definition output_for :: "nat \<Rightarrow> 'l stack \<Rightarrow> bytes list" where
  "output_for i s = on_handle (vi_type (sk_objects s ! i)) (vi_handle (sk_objects s ! i)) (sk_output s)"

lemma on_handle_simps [simp]:
  "on_handle k h [] = []" "on_handle k h (ps @ qs) = on_handle k h ps @ on_handle k h qs"
  "on_handle k h ((k', h', d) # ps) = (if k' = k \<and> h' = h then d # on_handle k h ps else on_handle k h ps)"
  by (simp_all add: on_handle_def)

definition flows :: "nat \<Rightarrow> 'l stack \<Rightarrow> bool" where
  "flows i s \<longleftrightarrow> sk_disposedError s = None \<and> present i s \<and> takes_packets (streams_of i s)"

definition object_ok :: "nat \<Rightarrow> 'l stack \<Rightarrow> bool" where
  "object_ok i s \<longleftrightarrow> streams_ok (streams_of i s) \<and> (sk_disposedError s = None \<longrightarrow> \<not> ps_disposed (streams_of i s)) \<and>
     sublist (got_packets (streams_of i s)) (output_for i s) \<and>
     (flows i s \<longrightarrow> suffix (got_packets (streams_of i s) @ pending_for i s) (output_for i s))"

lemma sublist_prefix: "sublist ys zs \<Longrightarrow> prefix xs ys \<Longrightarrow> sublist xs zs"
  by (metis append_assoc prefix_def sublist_def)

definition packet_inv :: "'l stack \<Rightarrow> bool" where
  "packet_inv s \<longleftrightarrow> (\<forall>k h. suffix (on_handle k h (sk_packets s)) (on_handle k h (sk_output s))) \<and>
     (\<forall>i < length (sk_objects s). object_ok i s)"

lemma packet_invD:
  assumes "packet_inv s"
  shows "suffix (on_handle k h (sk_packets s)) (on_handle k h (sk_output s))"
    "i < length (sk_objects s) \<Longrightarrow> object_ok i s"
  using assms unfolding packet_inv_def by blast+

text \<open>Steps that leave an object's streams, and may end its flow.\<close>

lemma object_ok_same:
  assumes "object_ok i s" "sk_objects s' ! i = sk_objects s ! i" "sk_output s' = sk_output s"
    "sk_disposedError s' = None \<Longrightarrow> sk_disposedError s = None"
    "flows i s' \<Longrightarrow> flows i s \<and> sk_packets s' = sk_packets s"
  shows "object_ok i s'"
  using assms by (auto simp: object_ok_def pending_for_def output_for_def)

lemma packet_inv_maps:
  assumes "packet_inv s" "sk_objects s' = sk_objects s" "sk_output s' = sk_output s" "sk_packets s' = sk_packets s"
    "sk_disposedError s' = sk_disposedError s" "\<And>i. present i s' \<Longrightarrow> present i s"
  shows "packet_inv s'"
  using packet_invD [OF assms(1)] object_ok_same [of _ s s'] assms(2-6)
  by (auto simp: packet_inv_def flows_def)

lemma packet_inv_fields [simp]:
  "packet_inv (s\<lparr>sk_net := n\<rparr>) = packet_inv s" "packet_inv (s\<lparr>sk_attaching := q\<rparr>) = packet_inv s"
  "packet_inv (s\<lparr>sk_sent := xs\<rparr>) = packet_inv s" "packet_inv (s\<lparr>sk_unhandled := es\<rparr>) = packet_inv s"
  by (simp_all add: packet_inv_def object_ok_def flows_def present_def registered_at_def pending_for_def output_for_def)

text \<open>Changing the streams of one object.\<close>

lemma streams_of_update:
  "i < length (sk_objects s) \<Longrightarrow>
     streams_of i (update_streams j f s) = (if i = j then f (streams_of i s) else streams_of i s)"
  "vi_type (sk_objects (update_streams j f s) ! i) = vi_type (sk_objects s ! i)"
  "vi_handle (sk_objects (update_streams j f s) ! i) = vi_handle (sk_objects s ! i)"
proof -
  show "i < length (sk_objects s) \<Longrightarrow>
     streams_of i (update_streams j f s) = (if i = j then f (streams_of i s) else streams_of i s)"
    by (simp add: update_streams_def nth_list_update)
  have "vi_type (sk_objects (update_streams j f s) ! i) = vi_type (sk_objects s ! i) \<and>
      vi_handle (sk_objects (update_streams j f s) ! i) = vi_handle (sk_objects s ! i)"
  proof (cases "i = j \<and> j < length (sk_objects s)")
    case True
    then show ?thesis by (simp add: update_streams_def)
  next
    case False
    then have "(sk_objects s)[j := x] ! i = sk_objects s ! i" for x
      by (cases "i = j") (simp_all add: list_update_beyond)
    then show ?thesis by (simp add: update_streams_def)
  qed
  then show "vi_type (sk_objects (update_streams j f s) ! i) = vi_type (sk_objects s ! i)"
    "vi_handle (sk_objects (update_streams j f s) ! i) = vi_handle (sk_objects s ! i)" by simp_all
qed

lemma update_streams_for [simp]:
  "pending_for i (update_streams j f s) = pending_for i s" "output_for i (update_streams j f s) = output_for i s"
  "present i (update_streams j f s) = present i s"
  by (simp_all add: pending_for_def output_for_def present_def registered_at_def streams_of_update)

lemma packet_inv_update:
  assumes inv: "packet_inv s"
    and f: "\<And>p. streams_ok p \<Longrightarrow> streams_ok (f p) \<and> prefix (got_packets (f p)) (got_packets p) \<and>
      ps_disposed (f p) = ps_disposed p \<and> (takes_packets (f p) \<longrightarrow> takes_packets p \<and> got_packets (f p) = got_packets p)"
  shows "packet_inv (update_streams j f s)"
proof -
  have "object_ok i (update_streams j f s)" if i: "i < length (sk_objects s)" for i
  proof -
    have ok: "object_ok i s" using packet_invD(2) [OF inv i] .
    show ?thesis
    proof (cases "i = j")
      case True
      have o: "streams_ok (streams_of i s)" "sublist (got_packets (streams_of i s)) (output_for i s)"
        "sk_disposedError s = None \<Longrightarrow> \<not> ps_disposed (streams_of i s)"
        "flows i s \<Longrightarrow> suffix (got_packets (streams_of i s) @ pending_for i s) (output_for i s)"
        using ok by (simp_all add: object_ok_def)
      note g = f [OF o(1)]
      have "sublist (got_packets (f (streams_of i s))) (output_for i s)" using sublist_prefix o(2) g by blast
      moreover have "suffix (got_packets (f (streams_of i s)) @ pending_for i s) (output_for i s)"
        if "sk_disposedError s = None" "present i s" "takes_packets (f (streams_of i s))"
        using that g o(4) by (simp add: flows_def)
      moreover have "streams_of i (update_streams j f s) = f (streams_of i s)"
        using streams_of_update(1) [OF i] True by simp
      ultimately show ?thesis using o(3) g by (simp add: object_ok_def flows_def)
    next
      case False
      with ok show ?thesis by (simp add: object_ok_def flows_def streams_of_update(1) [OF i])
    qed
  qed
  with packet_invD(1) [OF inv] show ?thesis by (simp add: packet_inv_def)
qed

lemma cancel_streams_ok:
  assumes "streams_ok p"
  shows "streams_ok (cancel_streams p) \<and> prefix (got_packets (cancel_streams p)) (got_packets p) \<and>
    \<not> takes_packets (cancel_streams p)"
  using assms rs_ok_cancel [of "ps_readable p"]
  by (auto simp: streams_ok_def cancel_streams_def got_packets_def takes_packets_def can_enqueue_def rs_cancel_def
      rs_finish_def handed_def rs_ok_def)

lemma read_takes [simp]: "takes_packets (read_streams p) \<Longrightarrow> takes_packets p"
  by (auto simp: takes_packets_def read_streams_def can_enqueue_def rs_read_def rs_finish_def Let_def
      split: rs_state.splits list.splits if_splits)

subsection \<open>Steps\<close>

lemma packet_inv_init: "packet_inv (stack_init l)"
  by (simp add: packet_inv_def stack_init_def)

text \<open>Creating: a new object without packets.\<close>

lemma packet_inv_register:
  assumes inv: "packet_inv s" and acc: "stack_inv alive s" and h: "h = 0 \<and> k = Bridge \<or> h \<noteq> 0 \<and> h \<notin> alive (wasm s)"
  shows "packet_inv (register_interface k h (set_wasm l s))"
proof -
  let ?s = "register_interface k h (set_wasm l s)"
  have f: "sk_output ?s = sk_output s" "sk_packets ?s = sk_packets s" "sk_disposedError ?s = sk_disposedError s"
    by (simp_all add: register_interface_def set_interfaces_def set_wasm_def)
  have "object_ok i ?s" if i: "i < length (sk_objects s) + 1" for i
  proof (cases "i = length (sk_objects s)")
    case True
    have "streams_of i ?s = vi_streams (new_interface k h)" using True by simp
    moreover have "suffix (pending_for i ?s) (output_for i ?s)"
      using packet_invD(1) [OF inv] by (simp add: pending_for_def output_for_def f)
    ultimately show ?thesis by (simp add: object_ok_def) (simp add: new_interface_def)
  next
    case False
    then have l: "i < length (sk_objects s)" using i by simp
    show ?thesis
    proof (rule object_ok_same [OF packet_invD(2) [OF inv l]])
      show "sk_objects ?s ! i = sk_objects s ! i" using l by (simp add: nth_append)
      have "present i s" if "present i ?s"
      proof -
        have "registered_at (vi_type (sk_objects s ! i)) (vi_handle (sk_objects s ! i)) i ?s"
          using that l by (simp add: present_def nth_append)
        with False l show ?thesis by (auto simp: present_def registered_at_register split: if_splits)
      qed
      with l show "flows i ?s \<Longrightarrow> flows i s \<and> sk_packets ?s = sk_packets s"
        by (simp add: flows_def f nth_append)
    qed (simp_all add: f)
  qed
  with packet_invD(1) [OF inv] show ?thesis by (simp add: packet_inv_def f)
qed

lemma set_wasm_packet_inv [simp]: "packet_inv (set_wasm l s) = packet_inv s"
  by (simp add: set_wasm_def)

lemma create_packet_inv:
  assumes "wasm_ok alive ex" "stack_inv alive s" "packet_inv s" "stack_create ex random k options s = (r, s')"
  shows "packet_inv s'"
proof (cases "sk_disposedError s")
  case None
  obtain q s1 where c: "create_interface ex random k options s = (q, s1)" by fastforce
  from assms(1) c have "packet_inv s1"
  proof (cases rule: create_cases)
    case (created h l)
    then have "h = 0 \<and> k = Bridge \<or> h \<noteq> 0 \<and> h \<notin> alive (wasm s)" by blast
    from packet_inv_register [OF assms(3,2) this] show ?thesis unfolding created(2) .
  qed (use assms in simp_all)
  with assms(4) None c show ?thesis by (auto simp: stack_create_def split: sum.splits)
qed (use assms in \<open>simp add: stack_create_def\<close>)

lemma attach_packet_inv:
  assumes "packet_inv s" "stack_attach s = (r, s')"
  shows "packet_inv s'"
  using assms
  by (auto simp: stack_attach_def attachInterface_def Let_def split: list.splits sum.splits prod.splits)

lemma unregister_packet_inv:
  assumes "types_ok s" "packet_inv s"
  shows "packet_inv (unregister_interface ex k i s)"
proof (rule packet_inv_maps [OF assms(2)])
  show "present j s" if "present j (unregister_interface ex k i s)" for j
    using that by (simp add: present_def unregister_registered [OF assms(1)])
qed (simp_all add: unregister_interface_def set_interfaces_def set_wasm_def split: option.split)

lemma types_ok_net [simp]: "types_ok (s\<lparr>sk_net := n\<rparr>) = types_ok s"
  by (simp add: types_ok_def registered_at_def)

lemma remove_packet_inv:
  assumes "types_ok s" "packet_inv s" "stack_remove ex i s = (r, s')"
  shows "packet_inv s'"
  using assms
  by (auto simp: stack_remove_def unregister_packet_inv split: option.splits sum.splits prod.splits)

lemma send_hook_packet_inv: "packet_inv s \<Longrightarrow> send_hook ex k h packet s = (r, s') \<Longrightarrow> packet_inv s'"
  by (auto simp: send_hook_def split: option.splits prod.splits)

text \<open>A write leaves the readable side.\<close>

lemma write_answer_ok:
  "write_answer k r p = (r', p') \<Longrightarrow> ps_readable p' = ps_readable p \<and> ps_isListening p' = ps_isListening p \<and>
     ps_disposed p' = ps_disposed p"
  by (auto simp: write_answer_def split: option.splits if_splits)

lemma update_streams_cong:
  "f (streams_of i s) = g (streams_of i s) \<Longrightarrow> update_streams i f s = update_streams i g s"
  by (simp add: update_streams_def)

lemma send_hook_objects: "send_hook ex k h packet s = (r, s') \<Longrightarrow> sk_objects s' = sk_objects s"
  by (auto simp: send_hook_def split: option.splits prod.splits)

lemma write_packet_inv:
  assumes "packet_inv s" "write_packet ex i packet s = (r, s')"
  shows "packet_inv s'"
proof (cases "ps_writableError (streams_of i s)")
  case None
  obtain q s1 where h: "send_hook ex (vi_type (sk_objects s ! i)) (vi_handle (sk_objects s ! i)) packet s = (q, s1)"
    by fastforce
  obtain r' p where w: "write_answer (vi_type (sk_objects s ! i)) q (streams_of i s) = (r', p)" by fastforce
  have s': "s' = update_streams i (\<lambda>_. p) s1" using assms(2) None h w by (simp add: write_packet_def Let_def)
  let ?f = "\<lambda>x. x\<lparr>ps_writableError := ps_writableError p\<rparr>"
  have "?f (streams_of i s1) = p" using write_answer_ok [OF w] send_hook_objects [OF h] by simp
  then have "s' = update_streams i ?f s1" unfolding s' by (intro update_streams_cong) simp
  moreover have "packet_inv (update_streams i ?f s1)"
    using send_hook_packet_inv [OF assms(1) h]
    by (rule packet_inv_update) (simp add: streams_ok_def got_packets_def takes_packets_def)
  ultimately show ?thesis by simp
qed (use assms in \<open>simp add: write_packet_def Let_def\<close>)

text \<open>Disposing: the streams that are listed are disposed, and nothing flows any more.\<close>

lemma streams_of_dispose:
  assumes "i < length (sk_objects s)"
  shows "streams_of i (fold (\<lambda>(h, i). update_streams i (dispose_streams e)) m s) =
    (if i \<in> snd ` set m then dispose_streams e (streams_of i s) else streams_of i s)"
  using assms
proof (induction m arbitrary: s)
  case (Cons x m)
  obtain h j where x: "x = (h, j)" by (cases x)
  have idem: "dispose_streams e (dispose_streams e p) = dispose_streams e p" for p
    by (simp add: dispose_streams_def)
  have s1: "streams_of i (update_streams j (dispose_streams e) s) =
      (if i = j then dispose_streams e (streams_of i s) else streams_of i s)"
    by (rule streams_of_update(1) [OF Cons.prems])
  have "i < length (sk_objects (update_streams j (dispose_streams e) s))" using Cons.prems by simp
  from Cons.IH [OF this] s1 show ?case by (auto simp: x idem)
qed simp

lemma fold_update_length [simp]:
  "length (sk_objects (fold (\<lambda>(h, i). update_streams i f) m s)) = length (sk_objects s)"
  by (induction m arbitrary: s) auto

lemma streams_of_bindings:
  assumes "i < length (sk_objects s)"
  shows "streams_of i (dispose_interfaces k s) =
    (if has_streams k \<and> i \<in> snd ` set (sk_interfaces s k) then dispose_streams disposed_error (streams_of i s)
     else streams_of i s)"
  using streams_of_dispose [OF assms, of disposed_error "sk_interfaces s k"]
  by (simp add: dispose_interfaces_def set_interfaces_def)

lemma dispose_interfaces_length [simp]: "length (sk_objects (dispose_interfaces k s)) = length (sk_objects s)"
  by (simp add: dispose_interfaces_def set_interfaces_def)

lemma listed_kind: "types_ok s \<Longrightarrow> i \<in> snd ` set (sk_interfaces s k) \<longleftrightarrow> present i s \<and> vi_type (sk_objects s ! i) = k"
proof
  assume t: "types_ok s" and "i \<in> snd ` set (sk_interfaces s k)"
  then obtain h where "(h, i) \<in> set (sk_interfaces s k)" by auto
  with t have r: "registered_at k h i s" by (simp add: registered_at_def types_ok_def map_get_in_set)
  with t types_okD(2) [OF t r] show "present i s \<and> vi_type (sk_objects s ! i) = k"
    by (simp add: registered_present)
next
  assume t: "types_ok s" and p: "present i s \<and> vi_type (sk_objects s ! i) = k"
  then have "(vi_handle (sk_objects s ! i), i) \<in> set (sk_interfaces s k)"
    by (auto simp: present_def registered_at_def types_ok_def map_get_in_set)
  then show "i \<in> snd ` set (sk_interfaces s k)" by force
qed

lemma streams_of_terminate:
  assumes "types_ok s" "i < length (sk_objects s)" "sk_disposedError s = None"
  shows "streams_of i (terminate ex s) =
    (if present i s \<and> has_streams (vi_type (sk_objects s ! i)) then dispose_streams disposed_error (streams_of i s)
     else streams_of i s)"
proof -
  have "streams_of i (fold dispose_interfaces interface_kinds u) =
      (if i \<in> snd ` set (sk_interfaces u Tun) \<or> i \<in> snd ` set (sk_interfaces u Tap)
       then dispose_streams disposed_error (streams_of i u) else streams_of i u)"
    if u: "i < length (sk_objects u)" for u :: "'a stack"
  proof -
    have "dispose_streams e (dispose_streams e p) = dispose_streams e p" for e p by (simp add: dispose_streams_def)
    then show ?thesis using u by (simp add: interface_kinds_def streams_of_bindings has_streams_def)
  qed
  with assms(2,3) show ?thesis
    by (auto simp: terminate_def listed_kind [OF assms(1)] has_streams_def)
qed

lemma terminate_same:
  assumes "sk_disposedError s = None"
  shows "sk_output (terminate ex s) = sk_output s" "sk_packets (terminate ex s) = sk_packets s"
    "sk_disposedError (terminate ex s) = Some disposed_error" "shapes (terminate ex s) = shapes s"
    "sk_interfaces (terminate ex s) = (\<lambda>k. [])" "sk_attaching (terminate ex s) = sk_attaching s"
proof -
  have f: "sk_output (fold (\<lambda>(h, i). update_streams i f) m s) = sk_output s"
    "sk_packets (fold (\<lambda>(h, i). update_streams i f) m s) = sk_packets s"
    "sk_attaching (fold (\<lambda>(h, i). update_streams i f) m s) = sk_attaching s" for f m and s :: "'a stack"
    by (induction m arbitrary: s) auto
  have "sk_output (fold dispose_interfaces ks u) = sk_output u" "sk_packets (fold dispose_interfaces ks u) = sk_packets u"
    "sk_attaching (fold dispose_interfaces ks u) = sk_attaching u" for ks and u :: "'a stack"
    by (induction ks arbitrary: u) (simp_all add: dispose_interfaces_def set_interfaces_def f)
  then show "sk_output (terminate ex s) = sk_output s" "sk_packets (terminate ex s) = sk_packets s"
    "sk_disposedError (terminate ex s) = Some disposed_error" "shapes (terminate ex s) = shapes s"
    "sk_interfaces (terminate ex s) = (\<lambda>k. [])" "sk_attaching (terminate ex s) = sk_attaching s"
    using assms by (simp_all add: terminate_def dispose_all)
qed

lemma terminate_packet_inv:
  assumes "types_ok s" "packet_inv s"
  shows "packet_inv (terminate ex s)"
proof (cases "sk_disposedError s")
  case None
  note same = terminate_same [OF None]
  have "object_ok i (terminate ex s)" if i: "i < length (sk_objects s)" for i
  proof -
    have ok: "streams_ok (streams_of i s)" "sublist (got_packets (streams_of i s)) (output_for i s)"
      using packet_invD(2) [OF assms(2) i] by (simp_all add: object_ok_def)
    have "streams_ok (streams_of i (terminate ex s)) \<and>
        got_packets (streams_of i (terminate ex s)) = got_packets (streams_of i s)"
      using ok dispose_streams_ok by (simp add: streams_of_terminate [OF assms(1) i None])
    moreover have "output_for i (terminate ex s) = output_for i s"
      using shapes_nth(2) [OF same(4) i] by (simp add: output_for_def same)
    ultimately show ?thesis using ok by (simp add: object_ok_def flows_def same)
  qed
  with packet_invD(1) [OF assms(2)] show ?thesis
    by (simp add: packet_inv_def same(1,2) shapes_nth(1) [OF same(4)])
qed (use assms in \<open>simp add: terminate_def\<close>)

text \<open>A packet that lwIP puts out, and the microtask that takes it to the interface of its handle.\<close>

lemma sublist_more: "sublist xs ys \<Longrightarrow> sublist xs (ys @ zs)"
  by (metis append_assoc sublist_def)

lemma suffix_sublist: "suffix (xs @ ys) zs \<Longrightarrow> sublist xs zs"
  by (metis suffix_def sublist_def)

lemma output_packet_inv:
  assumes "packet_inv s"
  shows "packet_inv (packet_output k h d s)"
proof (cases "sk_disposedError s = None \<and> has_streams k")
  case True
  let ?s = "packet_output k h d s"
  have s: "?s = s\<lparr>sk_packets := sk_packets s @ [(k, h, d)], sk_output := sk_output s @ [(k, h, d)]\<rparr>"
    using True by (simp add: packet_output_def)
  have "object_ok i ?s" if i: "i < length (sk_objects s)" for i
  proof -
    let ?x = "on_handle (vi_type (sk_objects s ! i)) (vi_handle (sk_objects s ! i)) [(k, h, d)]"
    have "pending_for i ?s = pending_for i s @ ?x" "output_for i ?s = output_for i s @ ?x" "flows i ?s = flows i s"
      by (simp_all add: pending_for_def output_for_def flows_def present_def registered_at_def s)
    moreover have "suffix (xs @ ?x) (ys @ ?x)" if "suffix xs ys" for xs ys
      using that by (simp add: suffix_append)
    moreover note ok = packet_invD(2) [OF assms i, unfolded object_ok_def]
    moreover have "sublist (got_packets (streams_of i s)) (output_for i s @ ?x)" using ok sublist_more by blast
    moreover have "streams_of i ?s = streams_of i s" "sk_disposedError ?s = sk_disposedError s" by (simp_all add: s)
    ultimately show ?thesis unfolding object_ok_def by (metis append_assoc)
  qed
  moreover have "suffix (on_handle k' h' (sk_packets ?s)) (on_handle k' h' (sk_output ?s))" for k' h'
    using packet_invD(1) [OF assms, of k' h'] by (simp add: s)
  ultimately show ?thesis by (simp add: packet_inv_def) (simp add: s)
next
  case False
  then have "packet_output k h d s = s" by (auto simp: packet_output_def)
  with assms show ?thesis by simp
qed

lemma deliver_cases:
  assumes "sk_packets s = (k, h, d) # rest"
  obtains (dropped) "deliver_packet s = s\<lparr>sk_packets := rest\<rparr>"
      "sk_disposedError s = None \<Longrightarrow> map_get (sk_interfaces s k) h = None"
  | (taken) i r p where "sk_disposedError s = None" "map_get (sk_interfaces s k) h = Some i"
      "receive_packet d (streams_of i s) = (r, p)"
      "deliver_packet s = (update_streams i (\<lambda>_. p) (s\<lparr>sk_packets := rest\<rparr>))\<lparr>sk_unhandled := sk_unhandled s @
         (case r of Inl e \<Rightarrow> [e] | Inr _ \<Rightarrow> [])\<rparr>"
proof (cases "sk_disposedError s")
  case None
  show ?thesis
  proof (cases "map_get (sk_interfaces s k) h")
    case (Some i)
    obtain r p where "receive_packet d (streams_of i s) = (r, p)" by fastforce
    with None Some assms taken show ?thesis by (simp add: deliver_packet_def Let_def)
  qed (use None assms dropped in \<open>simp add: deliver_packet_def Let_def\<close>)
qed (use assms dropped in \<open>simp add: deliver_packet_def Let_def\<close>)

lemma object_ok_unhandled [simp]: "object_ok i (s\<lparr>sk_unhandled := es\<rparr>) = object_ok i s"
  by (simp add: object_ok_def flows_def present_def registered_at_def pending_for_def output_for_def)

lemma pending_rest:
  "sk_packets s = (k, h, d) # rest \<Longrightarrow> pending_for i s =
     (if vi_type (sk_objects s ! i) = k \<and> vi_handle (sk_objects s ! i) = h then [d] else []) @
     pending_for i (s\<lparr>sk_packets := rest\<rparr>)"
  by (simp add: pending_for_def)

lemma object_ok_rest:
  assumes "object_ok i s" "sk_packets s = (k, h, d) # rest"
    "flows i s \<Longrightarrow> (vi_type (sk_objects s ! i), vi_handle (sk_objects s ! i)) \<noteq> (k, h)"
  shows "object_ok i (s\<lparr>sk_packets := rest\<rparr>)"
proof -
  have "flows i (s\<lparr>sk_packets := rest\<rparr>) = flows i s" "output_for i (s\<lparr>sk_packets := rest\<rparr>) = output_for i s"
    by (simp_all add: flows_def present_def registered_at_def output_for_def)
  with assms pending_rest [OF assms(2), of i] show ?thesis by (auto simp: object_ok_def)
qed

lemma object_ok_taken:
  assumes ok: "object_ok i s" and q: "sk_packets s = (k, h, d) # rest" and i: "i < length (sk_objects s)"
    and key: "vi_type (sk_objects s ! i) = k" "vi_handle (sk_objects s ! i) = h"
    and r: "receive_packet d (streams_of i s) = (r, p)" and a: "sk_disposedError s = None" "present i s"
  shows "object_ok i (update_streams i (\<lambda>_. p) (s\<lparr>sk_packets := rest\<rparr>))"
proof -
  let ?s = "update_streams i (\<lambda>_. p) (s\<lparr>sk_packets := rest\<rparr>)"
  have o: "streams_ok (streams_of i s)" "sublist (got_packets (streams_of i s)) (output_for i s)"
    "flows i s \<Longrightarrow> suffix (got_packets (streams_of i s) @ pending_for i s) (output_for i s)"
    using ok by (simp_all add: object_ok_def)
  note p = receive_packet_ok [OF o(1) r]
  have st: "streams_of i ?s = p" using i by (simp add: streams_of_update(1))
  have out: "output_for i ?s = output_for i s" by (simp add: output_for_def streams_of_update(2,3))
  have pend: "pending_for i s = d # pending_for i ?s" using pending_rest [OF q, of i] key by simp
  have disp: "ps_disposed p = ps_disposed (streams_of i s)"
    using r by (auto simp: receive_packet_def split: if_splits)
  have fl: "flows i ?s = flows i s" using p by (simp add: flows_def st) (simp add: present_def registered_at_def)
  have suf: "suffix (got_packets p @ pending_for i ?s) (output_for i s)" if f: "flows i s"
  proof (cases "ps_isListening (streams_of i s)")
    case True
    with f have "got_packets p = got_packets (streams_of i s) @ [d]" using p by (simp add: flows_def)
    with o(3) [OF f] pend show ?thesis by simp
  next
    case False
    then have "got_packets p = []" "got_packets (streams_of i s) = []" using p o(1) by (simp_all add: streams_ok_def)
    with o(3) [OF f] pend show ?thesis by (simp add: suffix_ConsD)
  qed
  have sub: "sublist (got_packets p) (output_for i s)"
  proof (cases "flows i s")
    case True
    then show ?thesis by (rule suffix_sublist [OF suf])
  next
    case False
    with a p have "got_packets p = got_packets (streams_of i s)" by (simp add: flows_def)
    with o(2) show ?thesis by simp
  qed
  show ?thesis unfolding object_ok_def st out fl using p sub suf disp ok by (auto simp: object_ok_def)
qed

lemma deliver_packet_inv:
  assumes t: "types_ok s" and inv: "packet_inv s"
  shows "packet_inv (deliver_packet s)"
proof (cases "sk_packets s")
  case (Cons x rest)
  obtain k h d where x: "x = (k, h, d)" by (cases x)
  have q: "sk_packets s = (k, h, d) # rest" using Cons x by simp
  have suf: "suffix (on_handle k' h' rest) (on_handle k' h' (sk_output s))" for k' h'
    using packet_invD(1) [OF inv, of k' h'] by (simp add: q suffix_ConsD split: if_splits)
  from q show ?thesis
  proof (cases rule: deliver_cases)
    case dropped
    have "object_ok i (s\<lparr>sk_packets := rest\<rparr>)" if i: "i < length (sk_objects s)" for i
      using dropped(2) by (intro object_ok_rest [OF packet_invD(2) [OF inv i] q])
        (auto simp: flows_def present_def registered_at_def)
    with suf show ?thesis by (simp add: dropped(1) packet_inv_def)
  next
    case (taken i r p)
    have reg: "registered_at k h i s" using taken(2) by (simp add: registered_at_def)
    note key = types_okD [OF t reg]
    have "object_ok j (update_streams i (\<lambda>_. p) (s\<lparr>sk_packets := rest\<rparr>))" if j: "j < length (sk_objects s)" for j
    proof (cases "j = i")
      case True
      with object_ok_taken [OF packet_invD(2) [OF inv key(1)] q key(1-3) taken(3,1) registered_present [OF t reg]]
      show ?thesis by simp
    next
      case False
      have "object_ok j (s\<lparr>sk_packets := rest\<rparr>)"
        using False reg by (intro object_ok_rest [OF packet_invD(2) [OF inv j] q])
          (auto simp: flows_def present_def registered_at_def)
      moreover have "streams_of j (update_streams i (\<lambda>_. p) (s\<lparr>sk_packets := rest\<rparr>)) = streams_of j (s\<lparr>sk_packets := rest\<rparr>)"
        using False j by (simp add: streams_of_update(1))
      ultimately show ?thesis by (simp add: object_ok_def flows_def)
    qed
    with suf show ?thesis by (simp add: taken(4) packet_inv_def)
  qed
qed (use inv in \<open>simp add: deliver_packet_def\<close>)

lemma stack_step_packet_inv:
  assumes "wasm_ok alive ex"
  shows "stack_step alive ex s s' \<Longrightarrow> stack_inv alive s \<Longrightarrow> packet_inv s \<Longrightarrow> packet_inv s'"
proof (induction rule: stack_step.induct)
  case (do_create random k options s r s')
  show ?case by (rule create_packet_inv [OF assms do_create(2,3,1)])
next
  case (do_attach s r s')
  show ?case by (rule attach_packet_inv [OF do_attach(3,1)])
next
  case (do_remove i s r s')
  show ?case by (rule remove_packet_inv [OF stack_invD(1) [OF do_remove(2)] do_remove(3,1)])
next
  case (do_terminate s)
  show ?case by (rule terminate_packet_inv [OF stack_invD(1) [OF do_terminate(1)] do_terminate(2)])
next
  case (do_output s k h packet)
  show ?case by (rule output_packet_inv [OF do_output(2)])
next
  case (do_deliver s)
  show ?case by (rule deliver_packet_inv [OF stack_invD(1) [OF do_deliver(1)] do_deliver(2)])
next
  case (do_lock s i)
  show ?case using lock_streams_ok
    by (intro packet_inv_update [OF do_lock(2)]) (auto simp: lock_streams_def takes_packets_def)
next
  case (do_read s i)
  show ?case using read_streams_ok by (intro packet_inv_update [OF do_read(2)]) (auto simp: read_streams_def)
next
  case (do_cancel s i)
  show ?case using cancel_streams_ok by (intro packet_inv_update [OF do_cancel(2)]) (auto simp: cancel_streams_def)
next
  case (do_write i packet s r s')
  show ?case by (rule write_packet_inv [OF do_write(3,1)])
qed simp_all

lemma stack_reachable_packets:
  assumes "wasm_ok alive ex"
  shows "stack_reachable alive ex s \<Longrightarrow> packet_inv s"
  by (induction rule: stack_reachable.induct)
     (auto intro: packet_inv_init stack_step_packet_inv [OF assms] stack_reachable_inv [OF assms])

end
