(* ===== verification/Net_Guarantees.thy ===== *)
theory Net_Guarantees
  imports Net_Packets
begin

text \<open>
  What the stack guarantees of its interfaces: where they are listed, that calls into the wasm module
  name interfaces it still has, what creating, removing and disposing undo, and the order of packets.
\<close>

subsection \<open>Types and handles\<close>

lemma count_key:
  assumes "map_ok m" "\<forall>h h'. (h, i) \<in> set m \<longrightarrow> (h', i) \<in> set m \<longrightarrow> h = h'"
  shows "count_list (map snd m) i = (if i \<in> snd ` set m then 1 else 0)"
  using assms
proof (induction m)
  case (Cons e m)
  obtain a b where e: "e = (a, b)" by (cases e)
  have ih: "count_list (map snd m) i = (if i \<in> snd ` set m then 1 else 0)"
    using Cons by (simp add: map_ok_def)
  have "i \<notin> snd ` set m" if "b = i"
    using Cons.prems that e by (force simp: map_ok_def)
  with ih e show ?case by auto
qed simp

text \<open>C35: The interface maps of the stack are typed. In every state that the operations of the stack
  reach, an object that the bindings of a kind list under a handle is an interface of that kind with
  that handle, no other bindings list it, and it is listed once; so the \<open>switch\<close> on
  \<open>netInterface.type\<close> in \<open>interfaces.remove\<close> always takes the bindings that hold the interface, and
  its default branch, and the silent end of the bindings' loop, are not reached for it.\<close>

theorem interface_types:
  assumes "wasm_ok alive ex" "stack_reachable alive ex s" "map_get (sk_interfaces s k) h = Some i"
  shows "i < length (sk_objects s) \<and> vi_type (sk_objects s ! i) = k \<and> vi_handle (sk_objects s ! i) = h \<and>
    (\<forall>k'. key_of i (sk_interfaces s k') = (if k' = k then Some h else None)) \<and>
    count_list (listInterfaces s) i = 1"
proof -
  have t: "types_ok s" using stack_reachable_inv [OF assms(1,2)] by (simp add: stack_inv_def)
  have r: "registered_at k h i s" using assms(3) by (simp add: registered_at_def)
  note d = types_okD [OF t r]
  have key: "key_of i (sk_interfaces s k') = (if k' = k then Some h else None)" for k'
  proof (cases "k' = k")
    case True
    with r t show ?thesis by (simp add: key_of_registered)
  next
    case False
    have "\<not> registered_at k' h' i s" for h' using types_okD(2) [OF t, of k' h' i] d(2) False by auto
    then have "key_of i (sk_interfaces s k') = None" using key_of_registered [OF t] by (metis not_None_eq)
    with False show ?thesis by simp
  qed
  have "count_list (map snd (sk_interfaces s k')) i = (if k' = k then 1 else 0)" for k'
  proof -
    have m: "map_ok (sk_interfaces s k')" using t by (simp add: types_ok_def)
    then have "\<forall>g g'. (g, i) \<in> set (sk_interfaces s k') \<longrightarrow> (g', i) \<in> set (sk_interfaces s k') \<longrightarrow> g = g'"
      using key_of_registered [OF t] by (metis map_get_in_set option.inject registered_at_def)
    moreover have "i \<in> snd ` set (sk_interfaces s k') \<longleftrightarrow> k' = k"
      using key [of k'] key_of_None [of i "sk_interfaces s k'"] by (auto split: if_splits)
    ultimately show ?thesis using count_key [OF m] by simp
  qed
  then have "count_list (listInterfaces s) i = 1"
    by (cases k) (simp_all add: listInterfaces_def interface_kinds_def)
  with d key show ?thesis by blast
qed


text \<open>The route bindings never hand lwIP an interface it does not have. While the stack is active,
  the answer to lwIP's \<open>route_ip4\<close> and \<open>route_ip6\<close> is the null pointer when the table has no route
  for the address, and otherwise the handle of the interface the routing table gives, which is listed
  by the stack and allocated in the module; as long as no bridge has the null handle, the lookup
  throws no error into lwIP's code.\<close>

theorem route_lookup_live:
  assumes "wasm_ok alive ex" "stack_reachable alive ex s" "sk_disposedError s = None"
    "0 \<notin> vi_handle ` set (sk_objects s)"
  shows "case lookupBytes family destination (ns_routes (sk_net s)) of
      None \<Rightarrow> route_lookup family destination s = Inr 0
    | Some i \<Rightarrow> route_lookup family destination s = Inr (vi_handle (sk_objects s ! i)) \<and>
        i \<in> set (listInterfaces s) \<and> vi_handle (sk_objects s ! i) \<in> alive (wasm s) - {0}"
proof (cases "lookupBytes family destination (ns_routes (sk_net s))")
  case None
  with assms(3) show ?thesis by (simp add: route_lookup_def)
next
  case (Some i)
  have inv: "stack_inv alive s" by (rule stack_reachable_inv [OF assms(1,2)])
  note t = stack_invD(1) [OF inv]
  obtain r where r: "r \<in> set (tb_routes (ns_routes (sk_net s)))" "rt_via r = i"
    using lookupBytes_cases [of family destination "ns_routes (sk_net s)"] Some
    by (auto simp: best_route_def matching_def)
  then have "accounted i s" using stack_invD(4) [OF inv] by (auto simp: vias_ok_def)
  moreover from this have h: "vi_handle (sk_objects s ! i) \<noteq> 0"
    using assms(4) by (auto simp: accounted_def image_iff)
  ultimately have p: "present i s" by (simp add: accounted_def)
  then have "vi_handle (sk_objects s ! i) \<in> alive (wasm s)"
    using stack_invD(2) [OF inv] h unfolding memory_ok_def present_def by blast
  with Some assms(3) h p interfaceHandle_present [OF t assms(3) p] listInterfaces_present [OF t]
  show ?thesis by (simp add: route_lookup_def)
qed

subsection \<open>Disposing\<close>

text \<open>C12: The packets and frames of a tun or tap interface reach its reader in order, once each, and
  without gaps. In every reachable state, what the reader has been given and what its stream holds is
  an unbroken stretch of what lwIP has put out on the interface's handle; nothing is held before the
  stream has been locked for reading; and for an interface that is listed by an active stack and whose
  reader has not cancelled, that stretch followed by the packets still in their microtask is the whole
  end of what lwIP put out, so that from the first packet it takes it misses none.\<close>

theorem packets_in_order:
  assumes "wasm_ok alive ex" "stack_reachable alive ex s" "i < length (sk_objects s)"
  shows "sublist (handed (ps_readable (streams_of i s)) @ rs_queue (ps_readable (streams_of i s))) (output_for i s) \<and>
    (\<not> ps_isListening (streams_of i s) \<longrightarrow> rs_queue (ps_readable (streams_of i s)) = []) \<and>
    (sk_disposedError s = None \<and> i \<in> set (listInterfaces s) \<and> can_enqueue (ps_readable (streams_of i s)) \<longrightarrow>
       suffix (handed (ps_readable (streams_of i s)) @ rs_queue (ps_readable (streams_of i s)) @ pending_for i s)
         (output_for i s))"
proof -
  have ok: "object_ok i s" by (rule packet_invD(2) [OF stack_reachable_packets [OF assms(1,2)] assms(3)])
  have "present i s" if "i \<in> set (listInterfaces s)"
    using that listInterfaces_present stack_invD(1) [OF stack_reachable_inv [OF assms(1,2)]] by blast
  with ok show ?thesis by (auto simp: object_ok_def flows_def takes_packets_def streams_ok_def got_packets_def)
qed

subsection \<open>Disposing\<close>





subsection \<open>Creating and removing\<close>

lemma created_interface:
  assumes wasm: "wasm_ok alive ex" and inv: "stack_inv alive s" and act: "sk_disposedError s = None"
    and c: "stack_create ex random k options s = (Inr i, s1)"
  obtains h l where "i = length (sk_objects s)"
    "s1 = (register_interface k h (set_wasm l s))\<lparr>sk_attaching := sk_attaching s @ [(i, co_ip options)]\<rparr>"
    "h = 0 \<and> k = Bridge \<and> alive l = alive (wasm s) \<or> h \<noteq> 0 \<and> h \<notin> alive (wasm s) \<and> alive l = insert h (alive (wasm s))"
    "map_get (ns_states (sk_net s)) i = None" "\<forall>r\<in>set (tb_routes (ns_routes (sk_net s))). rt_via r \<noteq> i"
proof -
  obtain s2 where s2: "create_interface ex random k options s = (Inr i, s2)"
      "s1 = s2\<lparr>sk_attaching := sk_attaching s2 @ [(i, co_ip options)]\<rparr>"
    using c act by (auto simp: stack_create_def split: sum.splits prod.splits)
  from wasm s2(1) show ?thesis
  proof (cases rule: create_cases)
    case (null l)
    then have "registered_at k 0 i s" by (simp add: registered_at_def)
    with types_okD(4) [OF stack_invD(1) [OF inv] this] null(2) show ?thesis by simp
  next
    case (created h l)
    then have i: "i = length (sk_objects s)" by simp
    have "map_get (ns_states (sk_net s)) i = None"
      using stack_invD(3) [OF inv] i unfolding attached_ok_def by (metis less_irrefl not_None_eq)
    moreover have "\<forall>r\<in>set (tb_routes (ns_routes (sk_net s))). rt_via r \<noteq> i"
      using stack_invD(4) [OF inv] i by (auto simp: vias_ok_def accounted_def)
    moreover have "sk_attaching s2 = sk_attaching s"
      using created(2) by (simp add: register_interface_def set_interfaces_def set_wasm_def)
    ultimately show ?thesis using that [of h l] i s2(2) created(2,3) by simp
  qed simp_all
qed

text \<open>The state in which a created interface is attached.\<close>

lemma created_attach:
  assumes inv: "stack_inv alive s" and act: "sk_disposedError s = None" and i: "i = length (sk_objects s)"
    and s1: "s1 = (register_interface k h (set_wasm l s))\<lparr>sk_attaching := q\<rparr>"
    and h: "h = 0 \<and> k = Bridge \<and> alive l = alive (wasm s) \<or> h \<noteq> 0 \<and> h \<notin> alive (wasm s) \<and> alive l = insert h (alive (wasm s))"
  shows "interfaceHandle i s1 = Inr h" "validate_interface s1 i = Inr ()" "stack_inv alive s1" "present i s1"
    "i \<in> set (listInterfaces s1)" "h \<noteq> 0 \<Longrightarrow> h \<in> alive (wasm s1)" "vi_handle (sk_objects s1 ! i) = h" "vi_type (sk_objects s1 ! i) = k"
proof -
  show inv1: "stack_inv alive s1" unfolding s1 using register_inv [OF inv h] by simp
  have obj: "sk_objects s1 = sk_objects s @ [new_interface k h]" unfolding s1 by simp
  have "registered_at k h i s1" unfolding s1 using i
    by (simp add: registered_at_def) (simp add: register_interface_def set_interfaces_def map_get_set)
  then show p: "present i s1" using stack_invD(1) [OF inv1] registered_present by blast
  show o: "vi_handle (sk_objects s1 ! i) = h" "vi_type (sk_objects s1 ! i) = k" by (simp_all add: obj i)
  have "sk_disposedError s1 = None"
    unfolding s1 using act by (simp add: register_interface_def set_interfaces_def set_wasm_def)
  from interfaceHandle_present [OF stack_invD(1) [OF inv1] this p] o
  show ih: "interfaceHandle i s1 = Inr h" by simp
  then show "validate_interface s1 i = Inr ()" by (simp add: validate_interface_def)
  show "i \<in> set (listInterfaces s1)" using p listInterfaces_present stack_invD(1) [OF inv1] by blast
  show "h \<noteq> 0 \<Longrightarrow> h \<in> alive (wasm s1)" unfolding s1 using h by auto
qed

text \<open>An interface whose address only one of the two parsers takes is left half-made. The address
  given to \<open>interfaces.create...\<close> is read first by \<open>serializeIPv4Cidr\<close>, for lwIP, and after the interface
  has been made by \<open>parseInterfaceCidr\<close>, which is stricter. When the second rejects what the first took,
  as for 10.0.0.1/24abc, the call fails with the parser's error and the caller gets no interface; but
  lwIP, which was given the address, has the interface, the stack lists it, and it counts as attached
  with no address and no connected route.\<close>

theorem create_half_done:
  assumes "wasm_ok alive ex" "stack_reachable alive ex s" "sk_disposedError s = None"
    "stack_create ex random k options s = (Inr i, s1)" "co_ip options \<noteq> []"
    "parseInterfaceCidr (co_ip options) = Inl e" "attachInterface i (co_ip options) s1 = (r, s2)"
  shows "r = Inl (JsError e) \<and> i \<in> set (listInterfaces s2) \<and> sk_interfaces s2 = sk_interfaces s1 \<and>
    (vi_handle (sk_objects s2 ! i) \<noteq> 0 \<longrightarrow> vi_handle (sk_objects s2 ! i) \<in> alive (wasm s2)) \<and>
    map_get (ns_states (sk_net s2)) i = Some \<lparr>if_handle = vi_handle (sk_objects s2 ! i), if_addresses = [],
      connectedRoutes = [], if_detached = False\<rparr> \<and>
    (\<forall>r\<in>set (tb_routes (ns_routes (sk_net s2))). rt_via r \<noteq> i)"
proof -
  have inv: "stack_inv alive s" by (rule stack_reachable_inv [OF assms(1,2)])
  obtain h l where c: "i = length (sk_objects s)"
    "s1 = (register_interface k h (set_wasm l s))\<lparr>sk_attaching := sk_attaching s @ [(i, co_ip options)]\<rparr>"
    "h = 0 \<and> k = Bridge \<and> alive l = alive (wasm s) \<or> h \<noteq> 0 \<and> h \<notin> alive (wasm s) \<and> alive l = insert h (alive (wasm s))"
    "map_get (ns_states (sk_net s)) i = None" "\<forall>r\<in>set (tb_routes (ns_routes (sk_net s))). rt_via r \<noteq> i"
    using created_interface [OF assms(1) inv assms(3,4)] by blast
  note a = created_attach [OF inv assms(3) c(1,2,3)]
  let ?st = "\<lparr>if_handle = h, if_addresses = [], connectedRoutes = [], if_detached = False\<rparr> :: nat interface_state"
  have net: "sk_net s1 = (sk_net s)\<lparr>ns_lwip := l\<rparr>" using c(2) by simp
  have "attach (validate_interface s1) i h [co_ip options] (sk_net s1) = (Inl e, set_state i ?st (sk_net s1))"
    using c(4) assms(6) by (simp add: attach_def net)
  with assms(5,7) a(1) have s2: "r = Inl (JsError e)" "s2 = s1\<lparr>sk_net := set_state i ?st (sk_net s1)\<rparr>"
    by (simp_all add: attachInterface_def)
  have "listInterfaces s2 = listInterfaces s1" by (simp add: s2(2) listInterfaces_def)
  with s2 a c(5) net show ?thesis by (simp add: set_state_def map_get_set)
qed




text \<open>C34: Removing a tun or tap interface does not dispose of its streams. After a successful removal
  of a listed interface the object's streams are as they were: the reader's pending reads stay
  pending, and a write still succeeds and passes the packet to lwIP's send function with the handle of
  the removed interface, whose memory the module has freed.\<close>

theorem removed_interface_still_sends:
  assumes "wasm_ok alive ex" "stack_reachable alive ex s" "i \<in> set (listInterfaces s)"
    "stack_remove ex i s = (Inr (), s')" "has_streams (vi_type (sk_objects s ! i))"
    "ps_writableError (streams_of i s) = None" "write_packet ex i packet s' = (r, s2)"
  shows "i \<notin> set (listInterfaces s') \<and> vi_handle (sk_objects s ! i) \<notin> alive (wasm s') \<and>
    streams_of i s' = streams_of i s \<and> r = None \<and>
    sk_sent s2 = sk_sent s' @ [(vi_type (sk_objects s ! i), vi_handle (sk_objects s ! i), packet)]"
proof -
  let ?k = "vi_type (sk_objects s ! i)" and ?h = "vi_handle (sk_objects s ! i)"
  have inv: "stack_inv alive s" by (rule stack_reachable_inv [OF assms(1,2)])
  note t = stack_invD(1) [OF inv]
  have p: "present i s" using assms(3) listInterfaces_present [OF t] by blast
  have act: "sk_disposedError s = None" using assms(4) by (auto simp: stack_remove_def split: option.splits)
  obtain n where n: "s' = unregister_interface ex ?k i (s\<lparr>sk_net := n\<rparr>)"
    using assms(4) act by (auto simp: stack_remove_def split: sum.splits prod.splits)
  have key: "key_of i (sk_interfaces s ?k) = Some ?h" using p by (simp add: key_of_registered [OF t] present_def)
  have s': "wasm s' = remove_netif ex ?k ?h (ns_lwip n)" "sk_disposedError s' = None" "sk_objects s' = sk_objects s"
    using key act by (simp_all add: n) (simp add: unregister_interface_def set_interfaces_def)
  have dead: "?h \<notin> alive (wasm s')" using assms(1) by (simp add: s'(1) wasm_ok_def)
  have "\<not> present i s'"
  proof
    assume "present i s'"
    then have "registered_at ?k ?h i s'" by (simp add: present_def s'(3))
    with unregister_registered [of "s\<lparr>sk_net := n\<rparr>" ?k ?h i ex ?k i] t show False by (simp add: n)
  qed
  moreover have "types_ok s'" using stack_invD(1) [OF stack_remove_inv [OF assms(1) inv assms(4)]] .
  ultimately have "i \<notin> set (listInterfaces s')" using listInterfaces_present by blast
  moreover obtain result l where l: "send_netif ex ?k ?h packet (wasm s') = (result, l)" by fastforce
  have "r = None \<and> sk_sent s2 = sk_sent s' @ [(?k, ?h, packet)]"
    using assms(5,6,7) s'(2,3) l by (auto simp: write_packet_def send_hook_def write_answer_def Let_def split: if_splits)
  ultimately show ?thesis using dead s'(3) by simp
qed

text \<open>
  A bridge for which the module has no memory is registered all the same, with the null handle, and
  attached; the other kinds of interface report the failure.
\<close>

lemma null_bridge:
  assumes "wasm_ok alive ex" "sk_disposedError s = None" "create_netif ex Bridge mac cidr ports (wasm s) = (0, hs, l)"
    "mac_bytes random Bridge (co_mac options) = Inr mac" "cidr_bytes (co_ip options) = Inr cidr"
    "port_handles Bridge (co_ports options) s = Inr ports"
  shows "\<exists>s'. stack_create ex random Bridge options s = (Inr (length (sk_objects s)), s') \<and>
    map_get (sk_interfaces s' Bridge) 0 = Some (length (sk_objects s))"
proof -
  have "created_ok alive Bridge (wasm s) (0, hs, l)" using assms(1,3) by (metis wasm_ok_def)
  then have "hs = []" by (simp add: created_ok_def)
  with assms(2-6) show ?thesis
    by (simp add: stack_create_def create_interface_def Let_def register_get)
qed

subsection \<open>Witnesses\<close>

text \<open>A module whose state is the list of its interfaces; a new one is above all of them.\<close>

definition example_wasm :: "nat list wasm_exports" where
  "example_wasm = \<lparr>we_netif = \<lparr>get_interface_mtu = (\<lambda>h l. 1500), set_interface_mtu = (\<lambda>h m l. (0, l)),
       set_interface_ip4_address = (\<lambda>h b n l. (0, l)), clear_interface_ip4_address = (\<lambda>h l. l),
       add_interface_ip6_address = (\<lambda>h b l. (0, l)), remove_interface_ip6_address = (\<lambda>h b l. (0, l)),
       set_interface_router_advertisements = (\<lambda>h t l. (0, l))\<rparr>,
     create_netif = (\<lambda>k mac cidr ports l. let h = Suc (sum_list l) in (h, if k = Bridge then [] else [h], h # l)),
     remove_netif = (\<lambda>k h l. removeAll h l), send_netif = (\<lambda>k h packet l. (0, l)),
     get_interface_ip4_address = (\<lambda>h l. None), get_interface_ip4_netmask = (\<lambda>h l. None),
     get_interface_mac_address = (\<lambda>h l. [2, 0, 0, 0, 0, 1])\<rparr>"

lemma example_wasm_ok: "wasm_ok set example_wasm"
proof -
  have "Suc (sum_list l) \<notin> set l" for l :: "nat list" using member_le_sum_list [of "Suc (sum_list l)" l] by auto
  then show ?thesis
    by (auto simp: wasm_ok_def netif_keeps_def created_ok_def example_wasm_def Let_def)
qed

definition example_options :: "jstring \<Rightarrow> create_options" where
  "example_options ip = \<lparr>co_mac = [], co_ip = ip, co_ports = []\<rparr>"

definition example_created :: "jstring \<Rightarrow> nat list stack" where
  "example_created ip = \<lparr>sk_disposedError = None, sk_interfaces = (\<lambda>k. [])(Tun := [(1, 0)]),
     sk_net = \<lparr>ns_states = [], ns_routes = table_init, ns_lwip = [1]\<rparr>, sk_objects = [new_interface Tun 1],
     sk_attaching = [(0, ip)], sk_packets = [], sk_unhandled = [], sk_output = [], sk_sent = []\<rparr>"

definition example_ip :: jstring where
  "example_ip = lit ''192.168.1.7/23''"

definition example_net_attached :: "(nat, nat list) net_state" where
  "example_net_attached = snd (attach (\<lambda>_. Inr ()) (0 :: nat) 1 [example_ip]
     \<lparr>ns_states = [], ns_routes = table_init, ns_lwip = [1]\<rparr>)"

definition example_attached :: "nat list stack" where
  "example_attached = (example_created example_ip)\<lparr>sk_attaching := [], sk_net := example_net_attached\<rparr>"

definition example_flowing :: "nat list stack" where
  "example_flowing = packet_output Tun 1 [7] (deliver_packet (packet_output Tun 1 [5]
     (update_streams 0 lock_streams example_attached)))"

lemma example_create:
  assumes "cidr_bytes ip = Inr c"
  shows "stack_create example_wasm [] Tun (example_options ip) (stack_init []) = (Inr 0, example_created ip)"
  using assms
  by (simp add: stack_create_def create_interface_def mac_bytes_def port_handles_def example_options_def
      example_wasm_def stack_init_def register_interface_def set_interfaces_def set_wasm_def net_init_def
      map_get_set example_created_def)

lemma cidr_bytes_parts:
  assumes "js_split (lit ''/'') ip = [a, b]" "a \<noteq> []" "b \<noteq> []" "ip \<noteq> []" "parseInt 10 b = Some m"
    "generateNetmask (Some m) = Inr nm" "serializeIPv4Address a = Inr bytes"
  shows "cidr_bytes ip = Inr (Some (bytes, nm))"
  using assms by (simp add: cidr_bytes_def serializeIPv4Cidr_def)

lemma example_ip: "example_ip \<noteq> []" "cidr_bytes example_ip = Inr (Some ([192, 168, 1, 7], [255, 255, 254, 0]))"
proof -
  show "example_ip \<noteq> []" by code_simp
  moreover have "js_split (lit ''/'') example_ip = [lit ''192.168.1.7'', lit ''23'']" "lit ''192.168.1.7'' \<noteq> []"
    "lit ''23'' \<noteq> []" "generateNetmask (Some 23) = Inr [255, 255, 254, 0]"
    "serializeIPv4Address (lit ''192.168.1.7'') = Inr [192, 168, 1, 7]" by code_simp+
  moreover have "parseInt 10 (lit ''23'') = Some 23"
    by (simp add: parseInt_def lit_simps is_space_def char_digit_def digits_value_def)
  ultimately show "cidr_bytes example_ip = Inr (Some ([192, 168, 1, 7], [255, 255, 254, 0]))"
    using cidr_bytes_parts by blast
qed

lemma acquire_valid:
  assumes "v i = Inr ()"
  shows "acquireConnectedRoute v i n (st, t) = acquireConnectedRoute (\<lambda>_. Inr ()) i n (st, t)"
proof -
  have "add_route v spec t = add_route (\<lambda>_. Inr ()) spec t" if "sp_via spec = i" for spec
    by (simp only: add_route_def that assms)
  then have "add_route v (connected_spec i n) t = add_route (\<lambda>_. Inr ()) (connected_spec i n) t"
    by (simp add: connected_spec_def)
  then show ?thesis by (simp add: acquireConnectedRoute_def connected_spec_def split: option.split)
qed

lemma attach_valid:
  assumes "v i = Inr ()"
  shows "attach v i h cidrs s = attach (\<lambda>_. Inr ()) i h cidrs s"
proof -
  have "attach_loop v i cidrs (st, t) = attach_loop (\<lambda>_. Inr ()) i cidrs (st, t)" for st t
    using acquire_valid [of v, OF assms] by (induction cidrs arbitrary: st t) (auto split: sum.split)
  then show ?thesis by (simp add: attach_def)
qed

lemma example_attach: "attachInterface 0 (example_ip) ((example_created example_ip)\<lparr>sk_attaching := []\<rparr>) = (Inr (), example_attached)"
proof -
  let ?s = "(example_created example_ip)\<lparr>sk_attaching := []\<rparr>"
  have h: "interfaceHandle 0 ?s = Inr 1"
    by (simp add: interfaceHandle_def interface_kinds_def key_of_def example_created_def)
  then have v: "validate_interface ?s 0 = Inr ()" by (simp add: validate_interface_def)
  have "fst (attach (\<lambda>_. Inr ()) (0 :: nat) 1 [example_ip]
      \<lparr>ns_states = [], ns_routes = table_init, ns_lwip = [1 :: nat]\<rparr>) = Inr ()" by code_simp
  then have "attach (validate_interface ?s) 0 1 [example_ip] (sk_net ?s) = (Inr (), example_net_attached)"
    unfolding attach_valid [of "validate_interface ?s", OF v]
    by (simp add: example_created_def example_net_attached_def prod_eq_iff)
  then show ?thesis using h example_ip(1) by (simp add: attachInterface_def example_attached_def)
qed

lemma example_stack_reachable:
  "stack_reachable set example_wasm (stack_init [])" "stack_reachable set example_wasm (example_created example_ip)"
  "stack_reachable set example_wasm example_attached" "stack_reachable set example_wasm example_flowing"
proof -
  show a: "stack_reachable set example_wasm (stack_init [])" by (rule stack_start)
  show b: "stack_reachable set example_wasm (example_created example_ip)"
    by (rule stack_next [OF a do_create [OF example_create [OF example_ip(2)]]])
  show c: "stack_reachable set example_wasm example_attached"
  proof (rule stack_next [OF b do_attach])
    show "stack_attach (example_created example_ip) = (Inr (), example_attached)"
      using example_attach by (simp add: stack_attach_def) (simp add: example_created_def)
  qed
  show "stack_reachable set example_wasm example_flowing" unfolding example_flowing_def
    by (rule stack_next [OF stack_next [OF stack_next [OF stack_next [OF c do_lock] do_output] do_deliver] do_output])
qed

lemma example_listed: "map_get (sk_interfaces example_attached Tun) 1 = Some 0"
  by (simp add: example_attached_def example_created_def)

theorem interface_types_witness: "vi_type (sk_objects example_attached ! 0) = Tun"
  using interface_types [OF example_wasm_ok example_stack_reachable(3) example_listed] by blast

lemma example_net:
  "map_get (ns_states example_net_attached) 0 = Some (snd (hd (ns_states example_net_attached)))"
  "if_detached (snd (hd (ns_states example_net_attached))) = False"
  "if_handle (snd (hd (ns_states example_net_attached))) = 1" "ns_lwip example_net_attached = [1]"
  "lookupBytes Family4 [192, 168, 0, 9] (ns_routes example_net_attached) = Some 0"
  by code_simp+

lemma example_state:
  "sk_net example_attached = example_net_attached" "sk_disposedError example_attached = None"
  "sk_objects example_attached = [new_interface Tun 1]" "listInterfaces example_attached = [0]"
  "sk_packets example_attached = []"
  by (simp_all add: example_attached_def example_created_def listInterfaces_def interface_kinds_def)


theorem route_lookup_live_witness: "route_lookup Family4 [192, 168, 0, 9] example_attached = Inr 1"
proof -
  have "0 \<notin> vi_handle ` set (sk_objects example_attached)" by (simp add: example_state)
  from route_lookup_live [OF example_wasm_ok example_stack_reachable(3) example_state(2) this, of Family4 "[192, 168, 0, 9]"]
  show ?thesis by (simp add: example_net example_state)
qed

theorem packets_in_order_witness:
  "suffix (handed (ps_readable (streams_of 0 example_flowing)) @ rs_queue (ps_readable (streams_of 0 example_flowing)) @
     pending_for 0 example_flowing) (output_for 0 example_flowing)"
proof -
  have c: "can_enqueue (rs_init :: bytes rstream)" by (simp add: can_enqueue_def rs_init_def)
  have "sk_objects example_flowing ! 0 = (new_interface Tun 1)\<lparr>vi_streams := ps_readable_update (\<lambda>_. rs_put [5] rs_init)
      (lock_streams (vi_streams (new_interface Tun 1)))\<rparr> \<and> length (sk_objects example_flowing) = 1 \<and>
      sk_interfaces example_flowing = sk_interfaces example_attached \<and> sk_disposedError example_flowing = None"
    using example_listed c
    by (simp add: example_flowing_def packet_output_def deliver_packet_def update_streams_def example_state has_streams_def
        lock_streams_def receive_packet_def new_interface_def)
  moreover from this have "listInterfaces example_flowing = [0]" using example_state(4) by (simp add: listInterfaces_def)
  ultimately show ?thesis
    using packets_in_order [OF example_wasm_ok example_stack_reachable(4), of 0]
    using c by (simp add: can_enqueue_def)
qed


theorem create_half_done_witness:
  "0 \<in> set (listInterfaces (snd (attachInterface 0 (lit ''10.0.0.1/24abc'') (example_created (lit ''10.0.0.1/24abc'')))))"
proof -
  let ?ip = "lit ''10.0.0.1/24abc''"
  have ne: "?ip \<noteq> []" by code_simp
  moreover have "js_split (lit ''/'') ?ip = [lit ''10.0.0.1'', lit ''24abc'']" "lit ''10.0.0.1'' \<noteq> []"
    "lit ''24abc'' \<noteq> []" "generateNetmask (Some 24) = Inr [255, 255, 255, 0]"
    "serializeIPv4Address (lit ''10.0.0.1'') = Inr [10, 0, 0, 1]" by code_simp+
  moreover have "parseInt 10 (lit ''24abc'') = Some 24"
    by (simp add: parseInt_def lit_simps is_space_def char_digit_def digits_value_def)
  ultimately have "cidr_bytes ?ip = Inr (Some ([10, 0, 0, 1], [255, 255, 255, 0]))" using cidr_bytes_parts by blast
  then have c: "stack_create example_wasm [] Tun (example_options ?ip) (stack_init []) = (Inr 0, example_created ?ip)"
    by (rule example_create)
  have "parseInterfaceCidr ?ip = cidr_error ''invalid CIDR prefix: '' ?ip" by code_simp
  then have e: "parseInterfaceCidr (co_ip (example_options ?ip)) = Inl (Error (lit ''invalid CIDR prefix: '' @ ?ip))"
    by (simp only: cidr_error_def example_options_def create_options.simps)
  have a: "sk_disposedError (stack_init [] :: nat list stack) = None" "co_ip (example_options ?ip) \<noteq> []"
    using ne by (simp_all add: stack_init_def example_options_def)
  have o: "co_ip (example_options ?ip) = ?ip" by (simp add: example_options_def)
  from create_half_done [OF example_wasm_ok example_stack_reachable(1) a(1) c a(2) e surjective_pairing]
  show ?thesis unfolding o by blast
qed


theorem removed_interface_still_sends_witness:
  "sk_sent (snd (write_packet example_wasm 0 [9] (snd (stack_remove example_wasm 0 example_attached)))) =
     sk_sent (snd (stack_remove example_wasm 0 example_attached)) @ [(Tun, 1, [9])]"
proof -
  have "fst (stack_remove example_wasm 0 example_attached) = Inr ()"
    using example_net(1,2)
    by (simp add: stack_remove_def example_state remove_interface_def detach_def Let_def split: prod.split)
  then have r: "stack_remove example_wasm 0 example_attached = (Inr (), snd (stack_remove example_wasm 0 example_attached))"
    by (simp add: prod_eq_iff)
  have "0 \<in> set (listInterfaces example_attached)" "has_streams (vi_type (sk_objects example_attached ! 0))"
    "ps_writableError (streams_of 0 example_attached) = None"
    by (simp_all add: example_state has_streams_def) (simp add: new_interface_def)
  from removed_interface_still_sends [OF example_wasm_ok example_stack_reachable(3) this(1) r this(2,3) surjective_pairing, of "[9]"]
  show ?thesis by (simp add: example_state)
qed

end
