(* ===== verification/Http_Parser.thy ===== *)
theory Http_Parser
  imports Http_Serialize JS_Stream "HOL-Library.Sublist"
begin

text \<open>
  \<open>packages/http/src/parser.ts\<close>, the class \<open>HttpParser\<close>: messages for their consumers from the callbacks
  of llhttp. Messages, their bodies and the promises of \<open>nextMessage\<close> are numbered in the order in which
  they are made. llhttp is not part of the model: what it calls back for a chunk, and what it answers,
  are given with the chunk. \<open>Headers\<close> is the list of its entries as they came, with names in lower case. What leaves a callback by
  an exception goes through llhttp to the caller of \<open>write\<close>, and what was to follow is lost.
\<close>

subsection \<open>Messages\<close>

record headers_event =
  he_isRequest :: bool
  he_method :: jstring
  he_url :: jstring
  he_statusCode :: "nat option"
  he_statusText :: jstring
  he_httpMajor :: nat
  he_httpMinor :: nat
  he_headers :: headers
  he_shouldKeepAlive :: bool
  he_upgrade :: bool

text \<open>An empty method, URL or status text is an absent one. \<open>pm_body\<close> is the number of the body.\<close>

datatype start_line = Request_line jstring jstring | Status_line nat jstring

record parsed_message =
  pm_start :: start_line
  pm_httpMajor :: nat
  pm_httpMinor :: nat
  pm_headers :: headers
  pm_body :: nat
  pm_shouldKeepAlive :: bool
  pm_upgrade :: bool

datatype parser_event = On_headers headers_event | On_body bytes | On_complete | On_error js_error

subsection \<open>State\<close>

text \<open>
  The fields of the class, messages by number; then the bodies, all messages, the settled promises, the
  number of promises, the microtasks that free the parser, the calls of \<open>freeParser\<close>, and what only the
  statements read: the chunks that came for each body and the bodies that were cancelled.
\<close>

record http_parser =
  hp_messages :: "nat list"
  hp_pendingMessages :: "nat list"
  hp_currentBody :: "nat option"
  hp_freed :: bool
  hp_closed :: bool
  hp_bodies :: "bytes rstream list"
  hp_made :: "parsed_message list"
  hp_settled :: "(nat \<times> (js_error + nat)) list"
  hp_promises :: nat
  hp_microtasks :: nat
  hp_frees :: nat
  hp_chunks :: "(nat \<times> bytes) list"
  hp_cancelled :: "nat list"

definition parser_init :: http_parser where
  "parser_init = \<lparr>hp_messages = [], hp_pendingMessages = [], hp_currentBody = None, hp_freed = False,
     hp_closed = False, hp_bodies = [], hp_made = [], hp_settled = [], hp_promises = 0, hp_microtasks = 0,
     hp_frees = 0, hp_chunks = [], hp_cancelled = []\<rparr>"

definition parser_free :: "http_parser \<Rightarrow> http_parser" where
  "parser_free s = (if hp_freed s then s else s\<lparr>hp_freed := True, hp_frees := hp_frees s + 1\<rparr>)"

definition parser_freeSoon :: "http_parser \<Rightarrow> http_parser" where
  "parser_freeSoon s = s\<lparr>hp_closed := True, hp_microtasks := hp_microtasks s + 1\<rparr>"

definition parser_microtask :: "http_parser \<Rightarrow> http_parser" where
  "parser_microtask s = (if hp_microtasks s = 0 then s
     else parser_free (s\<lparr>hp_microtasks := hp_microtasks s - 1\<rparr>))"

definition parser_close :: "http_parser \<Rightarrow> http_parser" where
  "parser_close s = (if hp_closed s then s else parser_free (s\<lparr>hp_closed := True\<rparr>))"

definition nextMessage :: "http_parser \<Rightarrow> http_parser" where
  "nextMessage s =
     (let n = hp_promises s; s' = s\<lparr>hp_promises := n + 1\<rparr> in
      case hp_messages s of
        m # ms \<Rightarrow> s'\<lparr>hp_messages := ms, hp_settled := hp_settled s @ [(n, Inr m)]\<rparr>
      | [] \<Rightarrow> s'\<lparr>hp_pendingMessages := hp_pendingMessages s @ [n]\<rparr>)"

subsection \<open>Callbacks\<close>

definition update_body :: "nat \<Rightarrow> (bytes rstream \<Rightarrow> bytes rstream) \<Rightarrow> http_parser \<Rightarrow> http_parser" where
  "update_body b f s = s\<lparr>hp_bodies := (hp_bodies s)[b := f (hp_bodies s ! b)]\<rparr>"

definition onError :: "js_error \<Rightarrow> http_parser \<Rightarrow> http_parser" where
  "onError e s =
     (let s' = (case hp_currentBody s of None \<Rightarrow> s | Some b \<Rightarrow> update_body b (controller_error e) s) in
      parser_freeSoon (s'\<lparr>hp_currentBody := None,
        hp_settled := hp_settled s @ map (\<lambda>n. (n, Inl e)) (hp_pendingMessages s), hp_pendingMessages := []\<rparr>))"

definition start_of :: "headers_event \<Rightarrow> start_line res" where
  "start_of e =
     (if he_isRequest e then
        if he_method e = [] then throw ''http request is missing method''
        else if he_url e = [] then throw ''http request is missing url''
        else Inr (Request_line (he_method e) (he_url e))
      else case he_statusCode e of
        None \<Rightarrow> throw ''http response is missing status code''
      | Some code \<Rightarrow> Inr (Status_line code (he_statusText e)))"

definition hand_over :: "nat \<Rightarrow> http_parser \<Rightarrow> http_parser" where
  "hand_over m s = (case hp_pendingMessages s of
     n # ns \<Rightarrow> s\<lparr>hp_pendingMessages := ns, hp_settled := hp_settled s @ [(n, Inr m)]\<rparr>
   | [] \<Rightarrow> s\<lparr>hp_messages := hp_messages s @ [m]\<rparr>)"

text \<open>
  \<open>new Headers(entries)\<close> of the fetch standard: names are tokens; values are byte strings, lose the white
  space at their ends, and then contain no null character and no line break.
\<close>

definition token_char :: "16 word \<Rightarrow> bool" where
  "token_char c \<longleftrightarrow> 48 \<le> c \<and> c \<le> 57 \<or> 65 \<le> c \<and> c \<le> 90 \<or> 97 \<le> c \<and> c \<le> 122 \<or>
     c \<in> {33, 35, 36, 37, 38, 39, 42, 43, 45, 46, 94, 95, 96, 124, 126}"

definition trim_value :: "jstring \<Rightarrow> jstring" where
  "trim_value v = (let f = dropWhile (\<lambda>c. c \<in> {9, 10, 13, 32}) in rev (f (rev (f v))))"

definition valid_header :: "jstring \<times> jstring \<Rightarrow> bool" where
  "valid_header h \<longleftrightarrow> fst h \<noteq> [] \<and> list_all token_char (fst h) \<and> list_all (\<lambda>c. c \<le> 255) (snd h) \<and>
     list_all (\<lambda>c. c \<notin> {0, 10, 13}) (trim_value (snd h))"

definition new_headers :: "headers \<Rightarrow> headers res" where
  "new_headers hs = (if list_all valid_header hs then Inr (map (\<lambda>h. (toLowerCase (fst h), trim_value (snd h))) hs) else Inl TypeError)"

definition onHeaders :: "headers_event \<Rightarrow> http_parser \<Rightarrow> unit res \<times> http_parser" where
  "onHeaders event s =
     (let b = length (hp_bodies s);
          s' = s\<lparr>hp_bodies := hp_bodies s @ [rs_init], hp_currentBody := Some b\<rparr> in
      case new_headers (he_headers event) of
        Inl e \<Rightarrow> (Inl e, s')
      | Inr hs \<Rightarrow> (Inr (), case start_of event of
            Inl e \<Rightarrow> onError e s'
          | Inr start \<Rightarrow> hand_over (length (hp_made s)) (s'\<lparr>hp_made := hp_made s @ [\<lparr>pm_start = start,
              pm_httpMajor = he_httpMajor event, pm_httpMinor = he_httpMinor event, pm_headers = hs,
              pm_body = b, pm_shouldKeepAlive = he_shouldKeepAlive event, pm_upgrade = he_upgrade event\<rparr>]\<rparr>)))"

definition onBody :: "bytes \<Rightarrow> http_parser \<Rightarrow> unit res \<times> http_parser" where
  "onBody data s = (case hp_currentBody s of
     None \<Rightarrow> (Inr (), s)
   | Some b \<Rightarrow> let s' = s\<lparr>hp_chunks := hp_chunks s @ [(b, data)]\<rparr> in
       if can_enqueue (hp_bodies s ! b) then (Inr (), update_body b (rs_put data) s') else (Inl TypeError, s'))"

definition onComplete :: "http_parser \<Rightarrow> unit res \<times> http_parser" where
  "onComplete s = (case hp_currentBody s of
     None \<Rightarrow> (Inr (), parser_freeSoon s)
   | Some b \<Rightarrow> (case controller_close (hp_bodies s ! b) of
       Inl e \<Rightarrow> (Inl e, s)
     | Inr r \<Rightarrow> (Inr (), parser_freeSoon ((update_body b (\<lambda>_. r) s)\<lparr>hp_currentBody := None\<rparr>))))"

fun parser_callback :: "parser_event \<Rightarrow> http_parser \<Rightarrow> unit res \<times> http_parser" where
  "parser_callback (On_headers event) s = onHeaders event s"
| "parser_callback (On_body data) s = onBody data s"
| "parser_callback On_complete s = onComplete s"
| "parser_callback (On_error e) s = (Inr (), onError e s)"

fun parser_callbacks :: "parser_event list \<Rightarrow> http_parser \<Rightarrow> unit res \<times> http_parser" where
  "parser_callbacks [] s = (Inr (), s)"
| "parser_callbacks (ev # evs) s = (case parser_callback ev s of
     (Inl e, s') \<Rightarrow> (Inl e, s')
   | (Inr _, s') \<Rightarrow> parser_callbacks evs s')"

subsection \<open>Writing\<close>

text \<open>
  \<open>write\<close> and \<open>finish\<close>, with \<open>executeParser\<close> and \<open>finishParser\<close> of \<open>wasm/bindings.ts\<close>: the callbacks are
  the events, then the answer of llhttp is checked.
\<close>

definition result_error :: "string \<Rightarrow> nat \<Rightarrow> js_error" where
  "result_error msg code = Error (lit msg @ num_str 10 code)"

definition executeParser :: "string \<Rightarrow> parser_event list \<Rightarrow> nat \<Rightarrow> http_parser \<Rightarrow> unit res \<times> http_parser" where
  "executeParser msg evs code s = (case parser_callbacks evs s of
     (Inl e, s') \<Rightarrow> (Inl e, s')
   | (Inr _, s') \<Rightarrow> (if code \<noteq> 0 then Inl (result_error msg code) else Inr (), s'))"

definition parser_write :: "parser_event list \<Rightarrow> nat \<Rightarrow> http_parser \<Rightarrow> unit res \<times> http_parser" where
  "parser_write evs code s = (if hp_closed s then (throw ''http parser is closed'', s)
     else executeParser ''http parse failed with code '' evs code s)"

definition parser_finish :: "parser_event list \<Rightarrow> nat \<Rightarrow> http_parser \<Rightarrow> unit res \<times> http_parser" where
  "parser_finish evs code s = (if hp_closed s then (Inr (), s)
     else executeParser ''http parser finish failed with code '' evs code s)"

subsection \<open>Runs\<close>

datatype parser_input = Write "parser_event list" nat | Finish "parser_event list" nat | Next | Close | Microtask
  | Read_body nat | Cancel_body nat

fun parser_step :: "parser_input \<Rightarrow> http_parser \<Rightarrow> http_parser" where
  "parser_step (Write evs code) s = snd (parser_write evs code s)"
| "parser_step (Finish evs code) s = snd (parser_finish evs code s)"
| "parser_step Next s = nextMessage s"
| "parser_step Close s = parser_close s"
| "parser_step Microtask s = parser_microtask s"
| "parser_step (Read_body b) s = (if b < length (hp_bodies s) then update_body b (\<lambda>r. fst (rs_read r)) s else s)"
| "parser_step (Cancel_body b) s = (if b < length (hp_bodies s) 
     then (update_body b rs_cancel s)\<lparr>hp_cancelled := b # hp_cancelled s\<rparr> else s)"

definition parser_run :: "parser_input list \<Rightarrow> http_parser" where
  "parser_run xs = fold parser_step xs parser_init"

subsection \<open>The invariant\<close>

definition resolved :: "(nat \<times> (js_error + nat)) list \<Rightarrow> nat list" where
  "resolved rs = concat (map (\<lambda>(n, r). case r of Inl e \<Rightarrow> [] | Inr m \<Rightarrow> [m]) rs)"

lemma resolved_simps [simp]:
  "resolved [] = []" "resolved (rs @ rs') = resolved rs @ resolved rs'" "resolved [(n, Inr m)] = [m]"
  "resolved (map (\<lambda>n. (n, Inl e)) ns) = []"
  by (simp_all add: resolved_def comp_def)

definition chunks_of :: "nat \<Rightarrow> http_parser \<Rightarrow> bytes list" where
  "chunks_of b s = map snd (filter (\<lambda>c. fst c = b) (hp_chunks s))"

definition given :: "bytes rstream \<Rightarrow> bytes list" where
  "given r = handed r @ rs_queue r"

definition queues_ok :: "http_parser \<Rightarrow> bool" where
  "queues_ok s \<longleftrightarrow> (hp_messages s = [] \<or> hp_pendingMessages s = []) \<and>
     map fst (hp_settled s) @ hp_pendingMessages s = [0..<hp_promises s] \<and>
     resolved (hp_settled s) @ hp_messages s = [0..<length (hp_made s)]"

definition frees_ok :: "http_parser \<Rightarrow> bool" where
  "frees_ok s \<longleftrightarrow> hp_frees s = (if hp_freed s then 1 else 0) \<and> (hp_freed s \<longrightarrow> hp_closed s) \<and>
     (hp_closed s \<longrightarrow> hp_freed s \<or> 0 < hp_microtasks s) \<and> (0 < hp_microtasks s \<longrightarrow> hp_closed s)"

definition body_ok :: "nat \<Rightarrow> http_parser \<Rightarrow> bool" where
  "body_ok b s \<longleftrightarrow> rs_ok (hp_bodies s ! b) \<and> prefix (given (hp_bodies s ! b)) (chunks_of b s) \<and>
     (b \<notin> set (hp_cancelled s) \<longrightarrow> (\<forall>e. rs_state (hp_bodies s ! b) \<noteq> Rs_errored e) \<longrightarrow>
        given (hp_bodies s ! b) = chunks_of b s)"

definition bodies_ok :: "http_parser \<Rightarrow> bool" where
  "bodies_ok s \<longleftrightarrow> (\<forall>b < length (hp_bodies s). body_ok b s) \<and>
     (\<forall>b. hp_currentBody s = Some b \<longrightarrow> b < length (hp_bodies s) \<and> \<not> rs_closeRequested (hp_bodies s ! b) \<and>
        (b \<notin> set (hp_cancelled s) \<longrightarrow> rs_state (hp_bodies s ! b) = Rs_readable)) \<and>
     (\<forall>c\<in>set (hp_chunks s). fst c < length (hp_bodies s)) \<and>
     (\<forall>b\<in>set (hp_cancelled s). b < length (hp_bodies s) \<and> rs_state (hp_bodies s ! b) \<noteq> Rs_readable)"

definition parser_inv :: "http_parser \<Rightarrow> bool" where
  "parser_inv s \<longleftrightarrow> queues_ok s \<and> frees_ok s \<and> bodies_ok s"

lemma parser_inv_init: "parser_inv parser_init"
  by (simp add: parser_inv_def queues_ok_def frees_ok_def bodies_ok_def parser_init_def)

text \<open>Each part of the invariant reads its own fields.\<close>

lemma parts_same:
  "hp_messages s' = hp_messages s \<Longrightarrow> hp_pendingMessages s' = hp_pendingMessages s \<Longrightarrow> hp_settled s' = hp_settled s \<Longrightarrow>
     hp_promises s' = hp_promises s \<Longrightarrow> hp_made s' = hp_made s \<Longrightarrow> queues_ok s' = queues_ok s"
  "hp_frees s' = hp_frees s \<Longrightarrow> hp_freed s' = hp_freed s \<Longrightarrow> hp_closed s' = hp_closed s \<Longrightarrow>
     hp_microtasks s' = hp_microtasks s \<Longrightarrow> frees_ok s' = frees_ok s"
  "hp_bodies s' = hp_bodies s \<Longrightarrow> hp_currentBody s' = hp_currentBody s \<Longrightarrow> hp_chunks s' = hp_chunks s \<Longrightarrow>
     hp_cancelled s' = hp_cancelled s \<Longrightarrow> bodies_ok s' = bodies_ok s"
  by (simp_all add: queues_ok_def frees_ok_def bodies_ok_def body_ok_def chunks_of_def)

lemma free_inv:
  assumes "queues_ok s" "bodies_ok s" "hp_closed s" "hp_frees s = (if hp_freed s then 1 else 0)"
  shows "parser_inv (parser_free s)"
proof -
  have "queues_ok (parser_free s) = queues_ok s" "bodies_ok (parser_free s) = bodies_ok s"
    by (rule parts_same; simp add: parser_free_def)+
  moreover have "frees_ok (parser_free s)" using assms(3,4) by (simp add: frees_ok_def parser_free_def)
  ultimately show ?thesis using assms(1,2) by (simp add: parser_inv_def)
qed

lemma freeSoon_inv:
  assumes "queues_ok s" "bodies_ok s" "frees_ok s"
  shows "parser_inv (parser_freeSoon s)"
proof -
  have "queues_ok (parser_freeSoon s) = queues_ok s" "bodies_ok (parser_freeSoon s) = bodies_ok s"
    by (rule parts_same; simp add: parser_freeSoon_def)+
  moreover have "frees_ok (parser_freeSoon s)" using assms(3) by (auto simp: frees_ok_def parser_freeSoon_def)
  ultimately show ?thesis using assms(1,2) by (simp add: parser_inv_def)
qed

lemma microtask_inv:
  assumes "parser_inv s"
  shows "parser_inv (parser_microtask s)"
proof (cases "hp_microtasks s = 0")
  case False
  let ?s = "s\<lparr>hp_microtasks := hp_microtasks s - 1\<rparr>"
  have "queues_ok ?s = queues_ok s" "bodies_ok ?s = bodies_ok s" by (rule parts_same; simp)+
  with assms False have "parser_inv (parser_free ?s)"
    by (intro free_inv) (auto simp: parser_inv_def frees_ok_def)
  with False show ?thesis by (simp add: parser_microtask_def)
qed (use assms in \<open>simp add: parser_microtask_def\<close>)

lemma close_inv:
  assumes "parser_inv s"
  shows "parser_inv (parser_close s)"
proof (cases "hp_closed s")
  case False
  let ?s = "s\<lparr>hp_closed := True\<rparr>"
  have "queues_ok ?s = queues_ok s" "bodies_ok ?s = bodies_ok s" by (rule parts_same; simp)+
  with assms False have "parser_inv (parser_free ?s)"
    by (intro free_inv) (auto simp: parser_inv_def frees_ok_def)
  with False show ?thesis by (simp add: parser_close_def)
qed (use assms in \<open>simp add: parser_close_def\<close>)

lemma nextMessage_inv:
  assumes "parser_inv s"
  shows "parser_inv (nextMessage s)"
proof -
  have "frees_ok (nextMessage s) = frees_ok s" "bodies_ok (nextMessage s) = bodies_ok s"
    by (rule parts_same; simp add: nextMessage_def Let_def split: list.split)+
  moreover have "queues_ok (nextMessage s)"
    using assms by (auto simp: parser_inv_def queues_ok_def nextMessage_def Let_def split: list.split)
  ultimately show ?thesis using assms by (simp add: parser_inv_def)
qed

lemma hand_over_queues:
  assumes "hp_messages s = [] \<or> hp_pendingMessages s = []"
    "map fst (hp_settled s) @ hp_pendingMessages s = [0..<hp_promises s]"
    "resolved (hp_settled s) @ hp_messages s = [0..<n]" "length (hp_made s) = Suc n"
  shows "queues_ok (hand_over n s)"
  using assms by (auto simp: queues_ok_def hand_over_def split: list.split)

subsection \<open>Bodies\<close>

lemma bodies_ok_change:
  assumes ok: "bodies_ok s" and b: "b < length (hp_bodies s)"
    and s': "hp_bodies s' = (hp_bodies s)[b := r]" "body_ok b s'"
    and same: "\<And>c. c \<noteq> b \<Longrightarrow> chunks_of c s' = chunks_of c s" "set (hp_cancelled s') \<subseteq> insert b (set (hp_cancelled s))"
      "set (hp_cancelled s) \<subseteq> set (hp_cancelled s')" "\<And>c. c \<in> set (hp_chunks s') \<Longrightarrow> c \<in> set (hp_chunks s) \<or> fst c = b"
    and cur: "hp_currentBody s' = None \<or> hp_currentBody s' = hp_currentBody s"
      "hp_currentBody s' = Some b \<Longrightarrow> \<not> rs_closeRequested r \<and> (b \<notin> set (hp_cancelled s') \<longrightarrow> rs_state r = Rs_readable)"
    and dead: "b \<in> set (hp_cancelled s') \<Longrightarrow> rs_state r \<noteq> Rs_readable"
  shows "bodies_ok s'"
proof -
  have "body_ok c s'" if "c < length (hp_bodies s)" for c
  proof (cases "c = b")
    case False
    have "c \<in> set (hp_cancelled s') \<longleftrightarrow> c \<in> set (hp_cancelled s)" using same(2,3) False by blast
    with ok that False same(1) [OF False] show ?thesis by (simp add: bodies_ok_def body_ok_def s'(1))
  qed (use s'(2) in simp)
  moreover have "c < length (hp_bodies s') \<and> \<not> rs_closeRequested (hp_bodies s' ! c) \<and>
      (c \<notin> set (hp_cancelled s') \<longrightarrow> rs_state (hp_bodies s' ! c) = Rs_readable)" if "hp_currentBody s' = Some c" for c
  proof (cases "c = b")
    case True
    with that cur(2) b show ?thesis by (simp add: s'(1))
  next
    case False
    with that cur(1) ok have "c < length (hp_bodies s) \<and> \<not> rs_closeRequested (hp_bodies s ! c) \<and>
        (c \<notin> set (hp_cancelled s) \<longrightarrow> rs_state (hp_bodies s ! c) = Rs_readable)" by (auto simp: bodies_ok_def)
    with False same(3) show ?thesis by (auto simp: s'(1))
  qed
  moreover have "fst c < length (hp_bodies s')" if "c \<in> set (hp_chunks s')" for c
    using same(4) [OF that] ok b unfolding bodies_ok_def s'(1) by auto
  moreover have "c < length (hp_bodies s') \<and> rs_state (hp_bodies s' ! c) \<noteq> Rs_readable" if "c \<in> set (hp_cancelled s')" for c
    using ok same(2) b dead that by (cases "c = b") (auto simp: bodies_ok_def s'(1))
  ultimately show ?thesis by (simp add: bodies_ok_def s'(1))
qed

lemma body_okD: "bodies_ok s \<Longrightarrow> b < length (hp_bodies s) \<Longrightarrow> body_ok b s"
  by (simp add: bodies_ok_def)

lemma given_read: "given (fst (rs_read r)) = given r"
  by (simp add: given_def handed_read)

lemma given_close: "controller_close r = Inr r' \<Longrightarrow> given r' = given r"
  by (auto simp: given_def controller_close_def rs_finish_def handed_def split: if_splits)

lemma given_dropped: "prefix (given (controller_error e r)) (given r)" "prefix (given (rs_cancel r)) (given r)"
  by (auto simp: given_def controller_error_def rs_cancel_def rs_finish_def handed_def)

lemma update_body_simps [simp]:
  "hp_bodies (update_body b f s) = (hp_bodies s)[b := f (hp_bodies s ! b)]" "hp_currentBody (update_body b f s) = hp_currentBody s"
  "hp_chunks (update_body b f s) = hp_chunks s" "hp_cancelled (update_body b f s) = hp_cancelled s"
  "chunks_of c (update_body b f s) = chunks_of c s"
  "queues_ok (update_body b f s) = queues_ok s" "frees_ok (update_body b f s) = frees_ok s"
  by (simp_all add: update_body_def chunks_of_def queues_ok_def frees_ok_def)

lemma read_inv:
  assumes "parser_inv s" "b < length (hp_bodies s)"
  shows "parser_inv (update_body b (\<lambda>r. fst (rs_read r)) s)"
proof -
  have ok: "bodies_ok s" using assms(1) by (simp add: parser_inv_def)
  note bo = body_okD [OF ok assms(2), unfolded body_ok_def]
  have st: "rs_state (fst (rs_read r)) = Rs_readable" if "rs_state r = Rs_readable" "\<not> rs_closeRequested r" for r :: "bytes rstream"
    using that by (simp add: rs_read_def Let_def split: list.split)
  have cl: "rs_closeRequested (fst (rs_read r)) = rs_closeRequested r" for r :: "bytes rstream"
    by (simp add: rs_read_def Let_def rs_finish_def split: list.split rs_state.split)
  have er: "rs_state (fst (rs_read r)) = Rs_errored e \<longleftrightarrow> rs_state r = Rs_errored e" for r :: "bytes rstream" and e
    by (auto simp: rs_read_def Let_def rs_finish_def split: list.split rs_state.split)
  have "bodies_ok (update_body b (\<lambda>r. fst (rs_read r)) s)"
  proof (rule bodies_ok_change [OF ok assms(2)])
    show "body_ok b (update_body b (\<lambda>r. fst (rs_read r)) s)"
      using bo assms(2) rs_ok_read [of "hp_bodies s ! b"] by (simp add: body_ok_def given_read er)
    show "\<not> rs_closeRequested (fst (rs_read (hp_bodies s ! b))) \<and>
        (b \<notin> set (hp_cancelled (update_body b (\<lambda>r. fst (rs_read r)) s)) \<longrightarrow>
          rs_state (fst (rs_read (hp_bodies s ! b))) = Rs_readable)"
      if "hp_currentBody (update_body b (\<lambda>r. fst (rs_read r)) s) = Some b"
      using that ok st cl by (simp add: bodies_ok_def)
    show "rs_state (fst (rs_read (hp_bodies s ! b))) \<noteq> Rs_readable"
      if "b \<in> set (hp_cancelled (update_body b (\<lambda>r. fst (rs_read r)) s))"
      using that ok by (auto simp: bodies_ok_def rs_read_def split: rs_state.split)
  qed auto
  with assms(1) show ?thesis by (simp add: parser_inv_def)
qed

lemma cancel_inv:
  assumes "parser_inv s" "b < length (hp_bodies s)"
  shows "parser_inv ((update_body b rs_cancel s)\<lparr>hp_cancelled := b # hp_cancelled s\<rparr>)"
proof -
  let ?s = "(update_body b rs_cancel s)\<lparr>hp_cancelled := b # hp_cancelled s\<rparr>"
  have ok: "bodies_ok s" using assms(1) by (simp add: parser_inv_def)
  note bo = body_okD [OF ok assms(2), unfolded body_ok_def]
  have ch: "chunks_of c ?s = chunks_of c s" for c by (simp add: chunks_of_def)
  have "bodies_ok ?s"
  proof (rule bodies_ok_change [OF ok assms(2)])
    show "body_ok b ?s"
      using bo assms(2) rs_ok_cancel given_dropped(2) [of "hp_bodies s ! b"] prefix_order.trans
      by (simp add: body_ok_def ch) blast
    show "\<not> rs_closeRequested (rs_cancel (hp_bodies s ! b)) \<and>
        (b \<notin> set (hp_cancelled ?s) \<longrightarrow> rs_state (rs_cancel (hp_bodies s ! b)) = Rs_readable)"
      if "hp_currentBody ?s = Some b"
      using that ok by (auto simp: bodies_ok_def rs_cancel_def rs_finish_def)
    show "rs_state (rs_cancel (hp_bodies s ! b)) \<noteq> Rs_readable" by (simp add: rs_cancel_def rs_finish_def)
  qed (auto simp: ch)
  moreover have "queues_ok ?s = queues_ok (update_body b rs_cancel s)" "frees_ok ?s = frees_ok (update_body b rs_cancel s)"
    by (rule parts_same; simp)+
  ultimately show ?thesis using assms(1) by (simp add: parser_inv_def)
qed

subsection \<open>Callbacks keep the invariant\<close>

lemma new_body_inv:
  assumes "parser_inv s"
  shows "parser_inv (s\<lparr>hp_bodies := hp_bodies s @ [rs_init], hp_currentBody := Some (length (hp_bodies s))\<rparr>)"
proof -
  let ?s = "s\<lparr>hp_bodies := hp_bodies s @ [rs_init], hp_currentBody := Some (length (hp_bodies s))\<rparr>"
  have ok: "bodies_ok s" using assms by (simp add: parser_inv_def)
  have ch: "chunks_of c ?s = chunks_of c s" for c by (simp add: chunks_of_def)
  have none: "chunks_of (length (hp_bodies s)) s = []"
    using ok by (auto simp: bodies_ok_def chunks_of_def filter_empty_conv)
  have "body_ok c ?s" if "c < length (hp_bodies s) + 1" for c
  proof (cases "c = length (hp_bodies s)")
    case True
    then show ?thesis by (simp add: body_ok_def ch none) (simp add: given_def rs_init_def handed_def)
  next
    case False
    with that ok have "body_ok c s" "c < length (hp_bodies s)" by (simp_all add: bodies_ok_def)
    then show ?thesis by (simp add: body_ok_def ch nth_append)
  qed
  moreover have "c < length (hp_bodies ?s) \<and> rs_state (hp_bodies ?s ! c) \<noteq> Rs_readable" if "c \<in> set (hp_cancelled s)" for c
    using that ok by (auto simp: bodies_ok_def nth_append)
  ultimately have "bodies_ok ?s" using ok by (simp add: bodies_ok_def less_SucI) (simp add: rs_init_def)
  moreover have "queues_ok ?s = queues_ok s" "frees_ok ?s = frees_ok s" by (rule parts_same; simp)+
  ultimately show ?thesis using assms by (simp add: parser_inv_def)
qed

lemma onError_inv:
  assumes "parser_inv s"
  shows "parser_inv (onError e s)"
proof -
  let ?s1 = "case hp_currentBody s of None \<Rightarrow> s | Some b \<Rightarrow> update_body b (controller_error e) s"
  let ?s2 = "?s1\<lparr>hp_currentBody := None, hp_settled := hp_settled s @ map (\<lambda>n. (n, Inl e)) (hp_pendingMessages s),
    hp_pendingMessages := []\<rparr>"
  have q: "queues_ok s" "frees_ok s" and ok: "bodies_ok s" using assms by (simp_all add: parser_inv_def)
  have f: "hp_messages ?s1 = hp_messages s" "hp_promises ?s1 = hp_promises s" "hp_made ?s1 = hp_made s"
    "hp_frees ?s1 = hp_frees s" "hp_freed ?s1 = hp_freed s" "hp_closed ?s1 = hp_closed s" "hp_microtasks ?s1 = hp_microtasks s"
    by (simp_all add: update_body_def split: option.split)
  have "queues_ok ?s2" using q(1) by (auto simp: queues_ok_def f comp_def)
  moreover have "frees_ok ?s2" using q(2) by (simp add: frees_ok_def f)
  moreover have "bodies_ok ?s2"
  proof (cases "hp_currentBody s")
    case None
    with ok show ?thesis by (simp add: bodies_ok_def body_ok_def chunks_of_def)
  next
    case (Some b)
    have b: "b < length (hp_bodies s)" using ok Some by (simp add: bodies_ok_def)
    note bo = body_okD [OF ok b, unfolded body_ok_def]
    have st: "rs_state (hp_bodies s ! b) = Rs_readable \<Longrightarrow> rs_state (controller_error e (hp_bodies s ! b)) = Rs_errored e"
      "rs_state (hp_bodies s ! b) \<noteq> Rs_readable \<Longrightarrow> controller_error e (hp_bodies s ! b) = hp_bodies s ! b"
      by (simp_all add: controller_error_def)
    have ch: "chunks_of c ?s2 = chunks_of c s" for c by (simp add: Some chunks_of_def)
    have r: "hp_bodies ?s2 = (hp_bodies s)[b := controller_error e (hp_bodies s ! b)]" by (simp add: Some)
    show ?thesis
    proof (rule bodies_ok_change [OF ok b r])
      have "prefix (given (controller_error e (hp_bodies s ! b))) (chunks_of b s)"
        using bo given_dropped(1) prefix_order.trans by blast
      moreover have "rs_ok (controller_error e (hp_bodies s ! b))" using bo rs_ok_error by blast
      moreover have "b \<notin> set (hp_cancelled s) \<longrightarrow> (\<forall>e'. rs_state (controller_error e (hp_bodies s ! b)) \<noteq> Rs_errored e') \<longrightarrow>
          given (controller_error e (hp_bodies s ! b)) = chunks_of b s"
        using bo st by (cases "rs_state (hp_bodies s ! b) = Rs_readable") auto
      ultimately show "body_ok b ?s2" using b by (simp add: body_ok_def ch) (simp add: Some)
      show "rs_state (controller_error e (hp_bodies s ! b)) \<noteq> Rs_readable" by (simp add: controller_error_def)
    qed (auto simp: ch, auto simp: Some)
  qed
  ultimately have "parser_inv (parser_freeSoon ?s2)" by (intro freeSoon_inv)
  then show ?thesis by (simp add: onError_def Let_def)
qed

lemma onHeaders_inv:
  assumes "parser_inv s" "onHeaders event s = (r, s')"
  shows "parser_inv s'"
proof -
  let ?s = "s\<lparr>hp_bodies := hp_bodies s @ [rs_init], hp_currentBody := Some (length (hp_bodies s))\<rparr>"
  note inv = new_body_inv [OF assms(1)]
  consider e where "new_headers (he_headers event) = Inl e" | hs where "new_headers (he_headers event) = Inr hs"
    by (cases "new_headers (he_headers event)")
  then show ?thesis
  proof cases
    case 1
    with assms(2) have "s' = ?s" by (simp add: onHeaders_def Let_def)
    with inv show ?thesis by simp
  next
    case (2 hs)
    show ?thesis
    proof (cases "start_of event")
      case (Inl e)
      then show ?thesis using onError_inv [OF inv, of e] assms(2) 2 by (auto simp: onHeaders_def Let_def)
    next
      case (Inr start)
      have "\<exists>m. s' = hand_over (length (hp_made s)) (?s\<lparr>hp_made := hp_made s @ [m]\<rparr>)"
        using Inr assms(2) 2 by (auto simp: onHeaders_def Let_def)
      then obtain m where m: "s' = hand_over (length (hp_made s)) (?s\<lparr>hp_made := hp_made s @ [m]\<rparr>)" by blast
      let ?t = "?s\<lparr>hp_made := hp_made s @ [m]\<rparr>"
      have "queues_ok (hand_over (length (hp_made s)) ?t)"
        using assms(1) by (intro hand_over_queues) (simp_all add: parser_inv_def queues_ok_def)
      moreover have "frees_ok (hand_over n ?t) = frees_ok ?s" "bodies_ok (hand_over n ?t) = bodies_ok ?s" for n
        by (rule parts_same; simp add: hand_over_def split: list.split)+
      ultimately show ?thesis using inv by (simp add: m parser_inv_def)
    qed
  qed
qed

lemma onBody_inv:
  assumes "parser_inv s" "onBody data s = (r, s')"
  shows "parser_inv s'"
proof (cases "hp_currentBody s")
  case (Some b)
  let ?s = "s\<lparr>hp_chunks := hp_chunks s @ [(b, data)]\<rparr>"
  have ok: "bodies_ok s" using assms(1) by (simp add: parser_inv_def)
  then have b: "b < length (hp_bodies s)" using Some by (simp add: bodies_ok_def)
  note bo = body_okD [OF ok b, unfolded body_ok_def]
  have cur: "\<not> rs_closeRequested (hp_bodies s ! b)" "b \<notin> set (hp_cancelled s) \<longrightarrow> rs_state (hp_bodies s ! b) = Rs_readable"
    using ok Some by (simp_all add: bodies_ok_def)
  have qf: "queues_ok ?s = queues_ok s" "frees_ok ?s = frees_ok s" by (rule parts_same; simp)+
  have same: "c \<noteq> b \<Longrightarrow> chunks_of c ?s = chunks_of c s" "chunks_of b ?s = chunks_of b s @ [data]" for c
    by (simp_all add: chunks_of_def)
  show ?thesis
  proof (cases "can_enqueue (hp_bodies s ! b)")
    case True
    then have s': "s' = update_body b (rs_put data) ?s" using assms(2) Some by (simp add: onBody_def Let_def)
    have req: "rs_queue (hp_bodies s ! b) = [] \<or> rs_requests (hp_bodies s ! b) = 0" using bo by (auto simp: rs_ok_def)
    have g: "given (rs_put data (hp_bodies s ! b)) = given (hp_bodies s ! b) @ [data]"
      using handed_put [OF req, of data] by (simp add: given_def)
    have st: "rs_state (hp_bodies s ! b) = Rs_readable" using True by (simp add: can_enqueue_def)
    then have nc: "b \<notin> set (hp_cancelled s)" using ok by (auto simp: bodies_ok_def)
    then have eq: "given (hp_bodies s ! b) = chunks_of b s" using bo st by simp
    have "bodies_ok s'" unfolding s'
    proof (rule bodies_ok_change [OF ok b])
      show "hp_bodies (update_body b (rs_put data) ?s) = (hp_bodies s)[b := rs_put data (hp_bodies s ! b)]" by simp
      show "body_ok b (update_body b (rs_put data) ?s)"
        using bo b True eq rs_ok_put by (simp add: body_ok_def g same(2))
    qed (use cur nc Some same st in auto)
    then show ?thesis using assms(1) qf by (simp add: parser_inv_def s')
  next
    case False
    then have s': "s' = ?s" using assms(2) Some by (simp add: onBody_def Let_def)
    have "bodies_ok ?s"
    proof (rule bodies_ok_change [OF ok b])
      show "hp_bodies ?s = (hp_bodies s)[b := hp_bodies s ! b]" by simp
      show "body_ok b ?s"
        using bo cur False by (auto simp: body_ok_def same can_enqueue_def)
    qed (use ok cur Some same in \<open>auto simp: bodies_ok_def\<close>)
    then show ?thesis using assms(1) qf by (simp add: parser_inv_def s')
  qed
qed (use assms in \<open>simp add: onBody_def\<close>)

lemma onComplete_inv:
  assumes "parser_inv s" "onComplete s = (r, s')"
  shows "parser_inv s'"
proof (cases "hp_currentBody s")
  case None
  with assms(2) have "s' = parser_freeSoon s" by (simp add: onComplete_def)
  with assms(1) show ?thesis using freeSoon_inv [of s] by (simp add: parser_inv_def)
next
  case (Some b)
  have ok: "bodies_ok s" using assms(1) by (simp add: parser_inv_def)
  then have b: "b < length (hp_bodies s)" using Some by (simp add: bodies_ok_def)
  note bo = body_okD [OF ok b, unfolded body_ok_def]
  show ?thesis
  proof (cases "controller_close (hp_bodies s ! b)")
    case (Inl e)
    with assms Some show ?thesis by (simp add: onComplete_def)
  next
    case (Inr x)
    let ?s = "(update_body b (\<lambda>_. x) s)\<lparr>hp_currentBody := None\<rparr>"
    have st: "rs_state (hp_bodies s ! b) = Rs_readable"
      using Inr by (auto simp: controller_close_def can_enqueue_def split: if_splits)
    then have nc: "b \<notin> set (hp_cancelled s)" using ok by (auto simp: bodies_ok_def)
    have ch: "chunks_of c ?s = chunks_of c s" for c by (simp add: chunks_of_def)
    have "bodies_ok ?s"
    proof (rule bodies_ok_change [OF ok b])
      show "body_ok b ?s"
        using bo b st nc rs_ok_close [OF _ Inr] by (simp add: body_ok_def ch given_close [OF Inr])
    qed (use nc ch in auto)
    moreover have "queues_ok ?s = queues_ok (update_body b (\<lambda>_. x) s)" "frees_ok ?s = frees_ok (update_body b (\<lambda>_. x) s)"
      by (rule parts_same; simp)+
    ultimately have "parser_inv (parser_freeSoon ?s)" using assms(1) by (intro freeSoon_inv) (simp_all add: parser_inv_def)
    then show ?thesis using assms(2) Some Inr by (auto simp: onComplete_def)
  qed
qed

lemma callback_inv: "parser_inv s \<Longrightarrow> parser_callback ev s = (r, s') \<Longrightarrow> parser_inv s'"
  by (cases ev) (auto simp: onError_inv intro: onHeaders_inv onBody_inv onComplete_inv)

lemma callbacks_inv: "parser_inv s \<Longrightarrow> parser_callbacks evs s = (r, s') \<Longrightarrow> parser_inv s'"
proof (induction evs arbitrary: s)
  case (Cons ev evs)
  obtain q s1 where c: "parser_callback ev s = (q, s1)" by fastforce
  note i = callback_inv [OF Cons.prems(1) c]
  from Cons.IH [OF i] Cons.prems(2) c i show ?case by (cases q) auto
qed simp

lemma execute_inv: "parser_inv s \<Longrightarrow> executeParser msg evs code s = (r, s') \<Longrightarrow> parser_inv s'"
  using callbacks_inv [of s evs] by (fastforce simp: executeParser_def split: prod.splits sum.splits)

lemma step_inv:
  assumes "parser_inv s"
  shows "parser_inv (parser_step x s)"
proof (cases x)
  case (Write evs code)
  with assms execute_inv [OF assms surjective_pairing] show ?thesis by (simp add: parser_write_def)
next
  case (Finish evs code)
  with assms execute_inv [OF assms surjective_pairing] show ?thesis by (simp add: parser_finish_def)
qed (use assms nextMessage_inv close_inv microtask_inv read_inv cancel_inv in simp_all)

lemma run_inv: "parser_inv (parser_run xs)"
proof -
  have "parser_inv s \<Longrightarrow> parser_inv (fold parser_step xs s)" for s
    by (induction xs arbitrary: s) (simp_all add: step_inv)
  then show ?thesis by (simp add: parser_run_def parser_inv_init)
qed

subsection \<open>Properties\<close>

text \<open>C25: \<open>nextMessage\<close> gives out the parsed messages in order, each to one caller. After any sequence of
  chunks with whatever callbacks llhttp makes for them, whatever throws, and of calls of \<open>nextMessage\<close>, \<open>finish\<close> and
  \<open>close\<close>, the promises of \<open>nextMessage\<close> have been settled in the order of the calls, each at most once,
  and those that were not are the pending ones; the messages they were resolved with, followed by the
  queued ones, are all messages in the order of their headers; and no call waits beside a queued
  message.\<close>

theorem parser_messages_in_order:
  "let s = parser_run xs in
     map fst (hp_settled s) @ hp_pendingMessages s = [0..<hp_promises s] \<and>
     resolved (hp_settled s) @ hp_messages s = [0..<length (hp_made s)] \<and>
     (hp_messages s = [] \<or> hp_pendingMessages s = [])"
  using run_inv [of xs] by (simp add: Let_def parser_inv_def queues_ok_def)


lemma microtasks_free:
  assumes "frees_ok s" "hp_closed s" "hp_microtasks s \<le> n"
  shows "hp_frees ((parser_microtask ^^ n) s) = 1"
  using assms
proof (induction n arbitrary: s)
  case 0
  then show ?case by (auto simp: frees_ok_def)
next
  case (Suc n)
  have "frees_ok (parser_microtask s)" "hp_closed (parser_microtask s)" "hp_microtasks (parser_microtask s) \<le> n"
    using Suc.prems by (auto simp: frees_ok_def parser_microtask_def parser_free_def)
  from Suc.IH [OF this] show ?case by (simp add: funpow_swap1)
qed

text \<open>C27: The parser in the WebAssembly module is freed once, and not used afterwards. In every state
  it has been freed at most once; a closed parser has been freed, or is as soon as its microtasks have
  run; and once it is closed \<open>write\<close> throws and \<open>finish\<close> and \<open>close\<close> do nothing, so that llhttp is not
  called with a freed parser.\<close>

theorem parser_freed_once:
  "let s = parser_run xs in hp_frees s \<le> 1 \<and> (0 < hp_frees s \<longrightarrow> hp_closed s) \<and>
    (hp_closed s \<longrightarrow> hp_frees ((parser_microtask ^^ hp_microtasks s) s) = 1 \<and>
       parser_write evs code s = (throw ''http parser is closed'', s) \<and> parser_finish evs code s = (Inr (), s) \<and>
       parser_close s = s)"
proof -
  have "frees_ok (parser_run xs)" using run_inv [of xs] by (simp add: parser_inv_def)
  then show ?thesis using microtasks_free [of "parser_run xs" "hp_microtasks (parser_run xs)"]
    by (auto simp: Let_def frees_ok_def parser_write_def parser_finish_def parser_close_def)
qed

text \<open>
  When the consumer has cancelled the body of the message that is being parsed, its completion throws in
  the callback, and the parser is left open and is not freed.
\<close>

lemma cancelled_body_leaks:
  assumes "hp_currentBody s = Some b" "b < length (hp_bodies s)" "\<not> hp_closed s"
  shows "parser_step (Write [On_complete] code) (parser_step (Cancel_body b) s) = parser_step (Cancel_body b) s \<and>
    fst (parser_write [On_complete] code (parser_step (Cancel_body b) s)) = Inl TypeError"
proof -
  have "controller_close (rs_cancel (hp_bodies s ! b)) = Inl TypeError"
    by (auto simp: controller_close_def can_enqueue_def rs_cancel_def rs_finish_def)
  with assms show ?thesis
    by (simp add: parser_write_def executeParser_def onComplete_def) (simp add: update_body_def)
qed

subsection \<open>Witnesses\<close>

definition example_event :: headers_event where
  "example_event = \<lparr>he_isRequest = True, he_method = [71, 69, 84], he_url = [47], he_statusCode = None, he_statusText = [],
     he_httpMajor = 1, he_httpMinor = 1, he_headers = [], he_shouldKeepAlive = True, he_upgrade = False\<rparr>"

definition example_inputs :: "parser_input list" where
  "example_inputs = [Next, Write [On_headers example_event, On_body [1], On_body [2], On_complete] 0, Read_body 0]"


theorem parser_freed_once_witness:
  "hp_closed (parser_run example_inputs) \<and> hp_frees (parser_microtask (parser_run example_inputs)) = 1"
proof -
  have "hp_closed (parser_run example_inputs)" "hp_microtasks (parser_run example_inputs) = 1" by code_simp+
  then show ?thesis using parser_freed_once [of example_inputs] by (simp add: Let_def)
qed

end
