(* ===== verification/Http_Headers.thy ===== *)
theory Http_Headers
  imports Http_Parser
begin

text \<open>
  How headers come from llhttp to the parser: the buffers of \<open>packages/http/wasm/http_parser.c\<close>, which
  collect the pieces llhttp reports into one block of bytes, and the reading of the block and of the
  other fields in \<open>packages/http/src/wasm/bindings.ts\<close>. Allocation failures are left out.
\<close>

subsection \<open>The buffers\<close>

record header_buffers =
  header_field :: bytes
  header_value :: bytes
  header_block :: bytes


definition append_header :: "header_buffers \<Rightarrow> header_buffers" where
  "append_header w = (if header_field w = [] then w
     else \<lparr>header_field = [], header_value = [],
       header_block = header_block w @ header_field w @ [58] @ header_value w @ [0]\<rparr>)"

datatype header_piece = Field_piece bytes | Value_piece bytes

fun on_header_piece :: "header_piece \<Rightarrow> header_buffers \<Rightarrow> header_buffers" where
  "on_header_piece (Field_piece at) w =
     (let w' = (if header_value w \<noteq> [] then append_header w else w) in
      w'\<lparr>header_field := header_field w' @ at\<rparr>)"
| "on_header_piece (Value_piece at) w = w\<lparr>header_value := header_value w @ at\<rparr>"


subsection \<open>Reading\<close>







subsection \<open>Round trip\<close>











definition between_headers :: "header_buffers \<Rightarrow> bool" where
  "between_headers w \<longleftrightarrow> (header_field w = [] \<longleftrightarrow> header_value w = [])"

lemma append_between: "between_headers w \<Longrightarrow> header_field (append_header w) = [] \<and> header_value (append_header w) = []"
  by (auto simp: between_headers_def append_header_def)




text \<open>A header with an empty value is run together with the next one.\<close>

lemma empty_value_merges:
  assumes "n \<noteq> []" "between_headers w"
  shows "fold on_header_piece [Field_piece n, Value_piece [], Field_piece n', Value_piece v] w =
    fold on_header_piece [Field_piece (n @ n'), Value_piece v] w"
proof -
  have "on_header_piece (Field_piece x) w = (append_header w)\<lparr>header_field := x\<rparr>" for x
    using append_between [OF assms(2)] assms(2)
    by (cases "header_value w = []") (simp_all add: Let_def between_headers_def append_header_def)
  then show ?thesis using append_between [OF assms(2)] by (simp add: Let_def)
qed

subsection \<open>Witness\<close>


end
