(* ===== verification/Http_Fetch.thy ===== *)
theory Http_Fetch
  imports Http_Parser Http_Framing
begin

text \<open>
  \<open>packages/http/src/fetch.ts\<close>: the body of a request as the serializer takes it, the call of \<open>fetch\<close>
  from its connection to its response, and the stream that closes the connection with the body of the
  response. The transport, the platform's classes and llhttp answer through the inputs of a run; a
  continuation runs with the input that makes it ready.
\<close>

subsection \<open>Request bodies\<close>

text \<open>
  The kinds of \<open>BodyInit\<close> that the code tells apart. \<open>Search_params\<close> holds the printed parameters, \<open>Blob\<close>
  its stream and \<open>size\<close>, \<open>Array_view\<close> its buffer, offset and length.
\<close>

datatype body_init = Undefined_body | Null_body | Readable_body body_stream | Text_body jstring
  | Search_params jstring | Blob body_stream nat | Array_buffer bytes | Array_view bytes nat nat | Other_body

definition bytesToStream :: "bytes \<Rightarrow> body_stream" where
  "bytesToStream bs = \<lparr>bs_chunks = [bs], bs_error = None\<rparr>"

definition knownBytesToBody :: "bytes \<Rightarrow> http_body" where
  "knownBytesToBody bs = Measured (bytesToStream bs) (Some (length bs))"

fun bodyToSerializableBody :: "body_init \<Rightarrow> http_body option" where
  "bodyToSerializableBody Undefined_body = None"
| "bodyToSerializableBody Null_body = None"
| "bodyToSerializableBody (Readable_body s) = Some (Stream s)"
| "bodyToSerializableBody (Text_body s) = Some (knownBytesToBody (utf8_encode s))"
| "bodyToSerializableBody (Search_params s) = Some (knownBytesToBody (utf8_encode s))"
| "bodyToSerializableBody (Blob s size') = Some (Measured s (Some size'))"
| "bodyToSerializableBody (Array_buffer bs) = Some (knownBytesToBody bs)"
| "bodyToSerializableBody (Array_view buffer byteOffset byteLength) =
     Some (knownBytesToBody (take byteLength (List.drop byteOffset buffer)))"
| "bodyToSerializableBody Other_body = None"

text \<open>\<open>init.body\<close> is used as it was given, the stream of the request only without it.\<close>

definition fetch_body :: "body_init \<Rightarrow> body_stream option \<Rightarrow> http_body option" where
  "fetch_body init request_body = (if init \<noteq> Undefined_body then bodyToSerializableBody init
     else map_option Stream request_body)"

definition fetch_target :: "jstring \<Rightarrow> jstring \<Rightarrow> jstring \<Rightarrow> (jstring \<times> nat) res" where
  "fetch_target protocol hostname port = (if protocol \<noteq> lit ''http:'' then Inl TypeError
     else Inr (hostname, if port = [] then 80 else digits_value 10 (digits_prefix 10 port)))"

subsection \<open>Feeding the parser\<close>

text \<open>
  What a read of the connection gives, with what llhttp calls back and answers for the chunk, or when
  the parser is finished. The value is the outcome of the loop, if it ends.
\<close>

datatype read_result = Chunk_read "parser_event list" nat | End_read "parser_event list" nat
  | Read_failed js_error "parser_event list" nat

definition tcp_closed_error :: js_error where
  "tcp_closed_error = Error (lit ''tcp connection closed'')"

fun feedParser :: "read_result \<Rightarrow> http_parser \<Rightarrow> unit res option \<times> http_parser" where
  "feedParser (Chunk_read evs code) p = (case parser_write evs code p of
     (Inl e, p') \<Rightarrow> (Some (Inl e), p') | (Inr _, p') \<Rightarrow> (None, p'))"
| "feedParser (End_read evs code) p = (case parser_finish evs code p of (r, p') \<Rightarrow> (Some r, p'))"
| "feedParser (Read_failed e evs code) p = (if e \<noteq> tcp_closed_error then (Some (Inl e), p)
     else case parser_finish evs code p of (r, p') \<Rightarrow> (Some r, p'))"

text \<open>The handler of the loop tells its errors by their text; no error of the parser has that text.\<close>

lemma callbacks_error: "parser_callbacks evs s = (Inl e, s') \<Longrightarrow> e = TypeError"
proof (induction evs arbitrary: s)
  case (Cons ev evs)
  have c: "q = TypeError" if "parser_callback ev s = (Inl q, t)" for q t
    using that by (cases ev) (auto simp: onHeaders_def new_headers_def onBody_def onComplete_def controller_close_def Let_def
        split: if_splits option.splits sum.splits)
  from Cons.prems show ?case
    by (auto split: prod.splits sum.splits dest: c Cons.IH)
qed simp

lemma parser_errors_differ:
  "parser_write evs code p \<noteq> (Inl tcp_closed_error, p')" "parser_finish evs code p \<noteq> (Inl tcp_closed_error, p')"
proof -
  have "executeParser msg evs code p \<noteq> (Inl tcp_closed_error, p')" if "hd msg = CHR ''h''" "msg \<noteq> []" for msg
    using callbacks_error [of evs p tcp_closed_error p'] that
    by (cases msg) (auto simp: executeParser_def result_error_def tcp_closed_error_def lit_simps
        split: prod.splits sum.splits if_splits)
  then show "parser_write evs code p \<noteq> (Inl tcp_closed_error, p')" "parser_finish evs code p \<noteq> (Inl tcp_closed_error, p')"
    by (simp_all add: parser_write_def parser_finish_def tcp_closed_error_def lit_simps)
qed

subsection \<open>The call\<close>

record fetch_response =
  fr_status :: nat
  fr_statusText :: jstring
  fr_headers :: headers
  fr_body :: "nat option"

text \<open>\<open>new Response\<close> of the fetch standard, for the number of a body.\<close>

definition reason_char :: "16 word \<Rightarrow> bool" where
  "reason_char c \<longleftrightarrow> c = 9 \<or> 32 \<le> c \<and> c \<le> 126 \<or> 128 \<le> c \<and> c \<le> 255"

definition new_Response :: "nat option \<Rightarrow> nat \<Rightarrow> jstring \<Rightarrow> headers \<Rightarrow> fetch_response res" where
  "new_Response body status text' hs =
     (if \<not> list_all (\<lambda>c. c \<le> 255) text' then Inl TypeError
      else if status < 200 \<or> 599 < status then Inl RangeError
      else if \<not> list_all reason_char text' \<or> body \<noteq> None \<and> status \<in> {204, 205, 304} then Inl TypeError
      else Inr \<lparr>fr_status = status, fr_statusText = text', fr_headers = hs, fr_body = body\<rparr>)"

definition canHaveResponseBody :: "jstring \<Rightarrow> nat \<Rightarrow> bool" where
  "canHaveResponseBody method status \<longleftrightarrow> method \<noteq> lit ''HEAD'' \<and> statusAllowsBody status"

text \<open>
  The state of a call after \<open>connect\<close>: the parser, the outcomes of \<open>responseRead\<close>, \<open>requestWrite\<close> and of
  the call, and how often it has closed the connection itself.
\<close>

record fetch_call =
  ft_parser :: http_parser
  ft_read :: "unit res option"
  ft_written :: "unit res option"
  ft_result :: "fetch_response res option"
  ft_closes :: nat

definition fetch_start :: fetch_call where
  "fetch_start = \<lparr>ft_parser = nextMessage parser_init, ft_read = None, ft_written = None, ft_result = None,
     ft_closes = 0\<rparr>"

definition respond :: "jstring \<Rightarrow> parsed_message \<Rightarrow> fetch_call \<Rightarrow> fetch_call" where
  "respond method message f = (case pm_start message of
     Request_line _ _ \<Rightarrow> f\<lparr>ft_result := Some (throw ''expected http response'')\<rparr>
   | Status_line status text' \<Rightarrow>
       if \<not> canHaveResponseBody method status
       then f\<lparr>ft_closes := ft_closes f + 1, ft_result := Some (new_Response None status text' (pm_headers message))\<rparr>
       else f\<lparr>ft_result := Some (new_Response (Some (pm_body message)) status text' (pm_headers message))\<rparr>)"

definition fetch_resume :: "jstring \<Rightarrow> fetch_call \<Rightarrow> fetch_call" where
  "fetch_resume method f = (if ft_result f \<noteq> None then f
     else case ft_written f of
       None \<Rightarrow> f
     | Some (Inl e) \<Rightarrow> f\<lparr>ft_result := Some (Inl e)\<rparr>
     | Some (Inr _) \<Rightarrow> (case map_of (hp_settled (ft_parser f)) 0 of
         None \<Rightarrow> f
       | Some (Inl e) \<Rightarrow> f\<lparr>ft_result := Some (Inl e)\<rparr>
       | Some (Inr m) \<Rightarrow> respond method (hp_made (ft_parser f) ! m) f))"

datatype fetch_input = Fed read_result | Written "unit res" | Body_read nat | Body_cancelled nat | Free_task

fun fetch_input_step :: "fetch_input \<Rightarrow> fetch_call \<Rightarrow> fetch_call" where
  "fetch_input_step (Fed r) f = (if ft_read f \<noteq> None then f
     else case feedParser r (ft_parser f) of (out, p) \<Rightarrow> f\<lparr>ft_parser := p, ft_read := out\<rparr>)"
| "fetch_input_step (Written r) f = (if ft_written f \<noteq> None then f else f\<lparr>ft_written := Some r\<rparr>)"
| "fetch_input_step (Body_read b) f = f\<lparr>ft_parser := parser_step (Read_body b) (ft_parser f)\<rparr>"
| "fetch_input_step (Body_cancelled b) f = f\<lparr>ft_parser := parser_step (Cancel_body b) (ft_parser f)\<rparr>"
| "fetch_input_step Free_task f = f\<lparr>ft_parser := parser_step Microtask (ft_parser f)\<rparr>"

definition fetch_step :: "jstring \<Rightarrow> fetch_input \<Rightarrow> fetch_call \<Rightarrow> fetch_call" where
  "fetch_step method x f = fetch_resume method (fetch_input_step x f)"

definition fetch_run :: "jstring \<Rightarrow> fetch_input list \<Rightarrow> fetch_call" where
  "fetch_run method xs = fold (fetch_step method) xs fetch_start"

subsection \<open>Closing the connection with the body\<close>

text \<open>
  \<open>closeConnectionWithBody\<close>: the returned stream, whether its \<open>pull\<close> waits for a read of the inner body,
  the calls of \<open>close\<close>, and the chunks that came. The stream has the default strategy.
\<close>

record closing_body =
  cb_stream :: "bytes rstream"
  cb_reading :: bool
  cb_closes :: nat
  cb_chunks :: "bytes list"

definition closing_start :: closing_body where
  "closing_start = \<lparr>cb_stream = rs_init, cb_reading = False, cb_closes = 0, cb_chunks = []\<rparr>"

text \<open>The standard's call of \<open>pull\<close>, which starts a read of the inner body.\<close>

definition pull_if_needed :: "closing_body \<Rightarrow> closing_body" where
  "pull_if_needed c = (if \<not> should_pull 1 (\<lambda>_. 1) (cb_stream c) then c
     else if rs_pulling (cb_stream c) then c\<lparr>cb_stream := (cb_stream c)\<lparr>rs_pullAgain := True\<rparr>\<rparr>
     else c\<lparr>cb_stream := (cb_stream c)\<lparr>rs_pulling := True\<rparr>, cb_reading := True\<rparr>)"

datatype closing_input = Started | Inner "bytes read_answer" | Pulled | Outer_read | Outer_cancel

text \<open>\<open>releaseLock\<close> on cancelling rejects a read that is waiting, which ends that \<open>pull\<close> without effect.\<close>

fun closing_step :: "closing_input \<Rightarrow> closing_body \<Rightarrow> closing_body" where
  "closing_step Started c = (if rs_started (cb_stream c) then c
     else pull_if_needed (c\<lparr>cb_stream := (cb_stream c)\<lparr>rs_started := True\<rparr>\<rparr>))"
| "closing_step (Inner a) c = (if \<not> cb_reading c then c
     else let c' = c\<lparr>cb_reading := False\<rparr> in
       case a of
         Chunk value \<Rightarrow> pull_if_needed (c'\<lparr>cb_stream := rs_put value (cb_stream c), cb_chunks := cb_chunks c @ [value]\<rparr>)
       | Done \<Rightarrow> (case controller_close (cb_stream c) of
           Inl e \<Rightarrow> c'\<lparr>cb_stream := controller_error e (cb_stream c)\<rparr>
         | Inr s \<Rightarrow> c'\<lparr>cb_stream := s, cb_closes := cb_closes c + 1\<rparr>)
       | Failed e \<Rightarrow> c'\<lparr>cb_stream := controller_error e (cb_stream c)\<rparr>)"
| "closing_step Pulled c = (if cb_reading c \<or> \<not> rs_pulling (cb_stream c) then c
     else if rs_pullAgain (cb_stream c)
       then pull_if_needed (c\<lparr>cb_stream := (cb_stream c)\<lparr>rs_pulling := False, rs_pullAgain := False\<rparr>\<rparr>)
       else c\<lparr>cb_stream := (cb_stream c)\<lparr>rs_pulling := False\<rparr>\<rparr>)"
| "closing_step Outer_read c = (case rs_read (cb_stream c) of
     (s, again) \<Rightarrow> let c' = c\<lparr>cb_stream := s\<rparr> in if again then pull_if_needed c' else c')"
| "closing_step Outer_cancel c = (if rs_state (cb_stream c) \<noteq> Rs_readable then c
     else c\<lparr>cb_stream := rs_cancel (cb_stream c), cb_reading := False, cb_closes := cb_closes c + 1\<rparr>)"

definition closing_run :: "closing_input list \<Rightarrow> closing_body" where
  "closing_run xs = fold closing_step xs closing_start"

subsection \<open>Bodies and their lengths\<close>

fun blob_ok :: "body_init \<Rightarrow> bool" where
  "blob_ok (Blob s n) = (n = length (concat (bs_chunks s)))"
| "blob_ok _ = True"

lemma bodyLength_content:
  "blob_ok init \<Longrightarrow> bodyStream (fetch_body init rb) = Some s \<Longrightarrow>
     bodyLength (fetch_body init rb) = None \<or> bodyLength (fetch_body init rb) = Some (length (concat (bs_chunks s)))"
  by (cases init; cases rb) (auto simp: fetch_body_def knownBytesToBody_def bytesToStream_def)

subsection \<open>The parser of a call\<close>

lemma callbacks_append:
  "parser_callbacks (xs @ ys) s = (case parser_callbacks xs s of (Inl e, s') \<Rightarrow> (Inl e, s') | (Inr _, s') \<Rightarrow> parser_callbacks ys s')"
  by (induction xs arbitrary: s) (auto split: prod.split sum.split)

text \<open>What is settled stays settled, and the messages stay.\<close>

definition extends :: "http_parser \<Rightarrow> http_parser \<Rightarrow> bool" where
  "extends s s' \<longleftrightarrow> prefix (hp_settled s) (hp_settled s') \<and> prefix (hp_made s) (hp_made s')"

lemma extends_refl [simp]: "extends s s"
  by (simp add: extends_def)

lemma extends_trans: "extends s t \<Longrightarrow> extends t u \<Longrightarrow> extends s u"
  by (auto simp: extends_def intro: prefix_order.trans)

lemma extends_callback: "extends s (snd (parser_callback ev s))"
proof (cases ev)
  case (On_headers event)
  have e: "extends s (onError e (s\<lparr>hp_bodies := x, hp_currentBody := y\<rparr>))" for e x y
    by (simp add: extends_def onError_def parser_freeSoon_def Let_def update_body_def split: option.split)
  have h: "extends s (hand_over n (s\<lparr>hp_bodies := x, hp_currentBody := y, hp_made := hp_made s @ z\<rparr>))" for n x y z
    by (simp add: extends_def hand_over_def split: list.split)
  show ?thesis using e h
    by (simp add: On_headers onHeaders_def Let_def extends_def split: sum.split)
next
  case (On_body data)
  then show ?thesis by (simp add: onBody_def extends_def Let_def update_body_def split: option.split)
next
  case On_complete
  then show ?thesis by (simp add: onComplete_def extends_def parser_freeSoon_def update_body_def split: option.split sum.split)
next
  case (On_error e)
  then show ?thesis by (simp add: extends_def onError_def parser_freeSoon_def Let_def update_body_def split: option.split)
qed

lemma extends_callbacks: "extends s (snd (parser_callbacks evs s))"
proof (induction evs arbitrary: s)
  case (Cons ev evs)
  obtain r t where c: "parser_callback ev s = (r, t)" by fastforce
  then have "extends s t" using extends_callback [of s ev] by simp
  with Cons [of t] c show ?case by (cases r) (auto intro: extends_trans)
qed simp

lemma extends_step: "extends s (parser_step x s)"
proof (cases x)
  case (Write evs code)
  then show ?thesis using extends_callbacks [of s evs]
    by (auto simp: parser_write_def executeParser_def split: prod.split sum.split)
next
  case (Finish evs code)
  then show ?thesis using extends_callbacks [of s evs]
    by (auto simp: parser_finish_def executeParser_def split: prod.split sum.split)
qed (simp_all add: extends_def nextMessage_def parser_close_def parser_microtask_def parser_free_def update_body_def Let_def
    split: list.split)

fun parser_inputs :: "read_result \<Rightarrow> parser_input list" where
  "parser_inputs (Chunk_read evs code) = [Write evs code]"
| "parser_inputs (End_read evs code) = [Finish evs code]"
| "parser_inputs (Read_failed e evs code) = (if e \<noteq> tcp_closed_error then [] else [Finish evs code])"

lemma feedParser_inputs: "snd (feedParser r p) = fold parser_step (parser_inputs r) p"
  by (cases r) (auto split: prod.split sum.split)

lemma parser_run_snoc: "fold parser_step ys (parser_run xs) = parser_run (xs @ ys)"
  by (simp add: parser_run_def)

lemma input_step_parser:
  "ft_parser f = parser_run ys \<Longrightarrow> \<exists>zs. ft_parser (fetch_input_step x f) = parser_run (ys @ zs)"
proof (cases x)
  case (Fed r)
  assume f: "ft_parser f = parser_run ys"
  have "snd (feedParser r (ft_parser f)) = parser_run (ys @ parser_inputs r)"
    by (simp add: feedParser_inputs f parser_run_snoc)
  with Fed f show ?thesis
    by (cases "ft_read f") (auto simp: split: prod.split intro: exI [of _ "[]"])
next
  case (Body_read b)
  assume "ft_parser f = parser_run ys"
  then show ?thesis using parser_run_snoc [of "[Read_body b]" ys] Body_read by (intro exI [of _ "[Read_body b]"]) simp
next
  case (Body_cancelled b)
  assume "ft_parser f = parser_run ys"
  then show ?thesis using parser_run_snoc [of "[Cancel_body b]" ys] Body_cancelled by (intro exI [of _ "[Cancel_body b]"]) simp
next
  case Free_task
  assume "ft_parser f = parser_run ys"
  then show ?thesis using parser_run_snoc [of "[Microtask]" ys] Free_task by (intro exI [of _ "[Microtask]"]) simp
qed (auto intro: exI [of _ "[]"])

subsection \<open>The outcome of a call\<close>

lemma upt_Cons_0: "k # ks = [0..<n] \<Longrightarrow> k = 0 \<and> 0 < n"
proof -
  assume k: "k # ks = [0..<n]"
  then have "0 < n" by (cases n) simp_all
  with k show ?thesis by (simp add: upt_conv_Cons)
qed

lemma first_settled:
  assumes "queues_ok s"
  shows "map_of (hp_settled s) 0 = (case hp_settled s of [] \<Rightarrow> None | r # _ \<Rightarrow> Some (snd r))"
    and "map_of (hp_settled s) 0 = Some (Inr m) \<Longrightarrow> m = 0 \<and> hp_made s \<noteq> []"
proof -
  note q = assms [unfolded queues_ok_def]
  show *: "map_of (hp_settled s) 0 = (case hp_settled s of [] \<Rightarrow> None | r # _ \<Rightarrow> Some (snd r))"
  proof (cases "hp_settled s")
    case (Cons r rs)
    then have "fst r = 0" using q upt_Cons_0 [of "fst r" _ "hp_promises s"] by (cases "hp_promises s") auto
    with Cons show ?thesis by (cases r) simp
  qed simp
  assume "map_of (hp_settled s) 0 = Some (Inr m)"
  with * obtain n rs where "hp_settled s = (n, Inr m) # rs" by (cases "hp_settled s") auto
  with q have "m # (resolved rs @ hp_messages s) = [0..<length (hp_made s)]" by (simp add: resolved_def)
  from upt_Cons_0 [OF this] show "m = 0 \<and> hp_made s \<noteq> []" by auto
qed

definition ready :: "fetch_call \<Rightarrow> bool" where
  "ready f \<longleftrightarrow> (\<exists>e. ft_written f = Some (Inl e)) \<or> ft_written f = Some (Inr ()) \<and> hp_settled (ft_parser f) \<noteq> []"

definition answer_ok :: "jstring \<Rightarrow> fetch_call \<Rightarrow> fetch_response \<Rightarrow> bool" where
  "answer_ok method f resp \<longleftrightarrow> ft_written f = Some (Inr ()) \<and> hp_made (ft_parser f) \<noteq> [] \<and>
     (let m = hd (hp_made (ft_parser f)) in
        pm_start m = Status_line (fr_status resp) (fr_statusText resp) \<and> fr_headers resp = pm_headers m \<and>
        fr_body resp = (if canHaveResponseBody method (fr_status resp) then Some (pm_body m) else None) \<and>
        ft_closes f = (if canHaveResponseBody method (fr_status resp) then 0 else 1))"

definition fetch_inv :: "jstring \<Rightarrow> fetch_call \<Rightarrow> bool" where
  "fetch_inv method f \<longleftrightarrow> (\<exists>ys. ft_parser f = parser_run ys) \<and> (ft_result f \<noteq> None \<longleftrightarrow> ready f) \<and>
     (ft_result f = None \<longrightarrow> ft_closes f = 0) \<and> (\<forall>resp. ft_result f = Some (Inr resp) \<longrightarrow> answer_ok method f resp)"

lemma input_step_extends:
  "extends (ft_parser f) (ft_parser (fetch_input_step x f))" "ft_result (fetch_input_step x f) = ft_result f"
  "ft_closes (fetch_input_step x f) = ft_closes f"
  "ft_written f \<noteq> None \<Longrightarrow> ft_written (fetch_input_step x f) = ft_written f"
proof -
  have "extends p (fold parser_step zs p)" for p zs
    by (induction zs arbitrary: p) (auto intro: extends_trans extends_step)
  then have "extends p (snd (feedParser r p))" for r p by (simp add: feedParser_inputs)
  then have "extends p q" if "feedParser r p = (out, q)" for r p out q using that by (metis snd_conv)
  then show "extends (ft_parser f) (ft_parser (fetch_input_step x f))"
    by (cases x) (auto simp: split: prod.split simp del: parser_step.simps intro: extends_step)
qed (cases x; simp split: prod.split)+

lemma ready_mono: "ready f \<Longrightarrow> ready (fetch_input_step x f)"
  using input_step_extends(1,4) [where f = f and x = x] by (auto simp: ready_def extends_def)

lemma answer_mono: "answer_ok method f resp \<Longrightarrow> answer_ok method (fetch_input_step x f) resp"
  using input_step_extends [where f = f and x = x] by (auto simp: answer_ok_def extends_def prefix_def Let_def)

lemma new_Response_fields:
  "new_Response b st t hs = Inr resp \<Longrightarrow> fr_status resp = st \<and> fr_statusText resp = t \<and> fr_headers resp = hs \<and> fr_body resp = b"
  by (auto simp: new_Response_def split: if_splits)

lemma fetch_step_inv:
  assumes "fetch_inv method f"
  shows "fetch_inv method (fetch_step method x f)"
proof -
  let ?g = "fetch_input_step x f"
  obtain ys where ys: "ft_parser ?g = parser_run ys" using assms input_step_parser unfolding fetch_inv_def by blast
  have q: "queues_ok (ft_parser ?g)" using run_inv [of ys] ys by (simp add: parser_inv_def)
  note g = input_step_extends(2,3) [where f = f and x = x]
  show ?thesis
  proof (cases "ft_result f")
    case (Some r)
    then have "fetch_step method x f = ?g" by (simp add: fetch_step_def fetch_resume_def g)
    with assms Some ys g ready_mono [of f x] answer_mono [of _ f _ x] show ?thesis by (auto simp: fetch_inv_def)
  next
    case None
    then have r: "ft_result ?g = None" "ft_closes ?g = 0" using assms g by (simp_all add: fetch_inv_def)
    consider "ft_written ?g = None" | e where "ft_written ?g = Some (Inl e)"
      | "ft_written ?g = Some (Inr ())" "hp_settled (ft_parser ?g) = []"
      | e where "ft_written ?g = Some (Inr ())" "hp_settled (ft_parser ?g) \<noteq> []" "map_of (hp_settled (ft_parser ?g)) 0 = Some (Inl e)"
      | m where "ft_written ?g = Some (Inr ())" "hp_settled (ft_parser ?g) \<noteq> []" "map_of (hp_settled (ft_parser ?g)) 0 = Some (Inr m)"
    proof (cases "ft_written ?g")
      case (Some w)
      show ?thesis
      proof (cases w)
        case (Inr u)
        show ?thesis
        proof (cases "hp_settled (ft_parser ?g)")
          case (Cons n rs)
          with first_settled(1) [OF q] Some Inr that(4,5) show ?thesis by (cases "snd n") simp_all
        qed (use Some Inr that(3) in \<open>simp\<close>)
      qed (use Some that(2) in \<open>simp\<close>)
    qed (use that(1) in \<open>simp\<close>)
    then show ?thesis
    proof cases
      case (5 m)
      note m = first_settled(2) [OF q 5(3)]
      let ?m = "hd (hp_made (ft_parser ?g))"
      have s: "fetch_step method x f = respond method ?m ?g"
        using r 5 m by (simp add: fetch_step_def fetch_resume_def hd_conv_nth)
      have p: "ft_parser (respond method ?m ?g) = ft_parser ?g" "ft_written (respond method ?m ?g) = ft_written ?g"
        "ft_result (respond method ?m ?g) \<noteq> None"
        by (simp_all add: respond_def split: start_line.split)
      have "answer_ok method (respond method ?m ?g) resp" if "ft_result (respond method ?m ?g) = Some (Inr resp)" for resp
      proof (cases "pm_start ?m")
        case (Status_line st tx)
        show ?thesis
        proof (cases "canHaveResponseBody method st")
          case True
          with that Status_line have "new_Response (Some (pm_body ?m)) st tx (pm_headers ?m) = Inr resp" by (simp add: respond_def)
          from new_Response_fields [OF this] True Status_line 5(1) m r show ?thesis
            by (simp add: answer_ok_def respond_def Let_def)
        next
          case False
          with that Status_line have "new_Response None st tx (pm_headers ?m) = Inr resp" by (simp add: respond_def)
          from new_Response_fields [OF this] False Status_line 5(1) m r show ?thesis
            by (simp add: answer_ok_def respond_def Let_def)
        qed
      qed (use that in \<open>simp add: respond_def\<close>)
      with 5 ys p show ?thesis by (auto simp: s fetch_inv_def ready_def)
    qed (use ys r in \<open>auto simp: fetch_step_def fetch_resume_def fetch_inv_def ready_def\<close>)
  qed
qed

lemma fetch_run_inv: "fetch_inv method (fetch_run method xs)"
proof -
  have s: "ft_parser fetch_start = parser_run [Next]" by (simp add: fetch_start_def parser_run_def)
  have "fetch_inv method fetch_start"
    using s by (auto simp: fetch_inv_def ready_def) (simp_all add: fetch_start_def)
  moreover have "fetch_inv method f \<Longrightarrow> fetch_inv method (fold (fetch_step method) xs f)" for f
    by (induction xs arbitrary: f) (simp_all add: fetch_step_inv)
  ultimately show ?thesis by (simp add: fetch_run_def)
qed

text \<open>C30: A call of \<open>fetch\<close> has an outcome exactly when the request could not be written, or was written
  and the parser has a message or an error for it; a response has the status, text and headers of the
  first message that was parsed, and its body unless the method or the status allow none, in which case
  the call itself has closed the connection, once.\<close>

theorem fetch_settles:
  "let f = fetch_run method xs; p = ft_parser f; m = hd (hp_made p) in
     (ft_result f \<noteq> None \<longleftrightarrow> (\<exists>e. ft_written f = Some (Inl e)) \<or> ft_written f = Some (Inr ()) \<and> hp_settled p \<noteq> []) \<and>
     (\<forall>resp. ft_result f = Some (Inr resp) \<longrightarrow> ft_written f = Some (Inr ()) \<and> hp_made p \<noteq> [] \<and>
        pm_start m = Status_line (fr_status resp) (fr_statusText resp) \<and> fr_headers resp = pm_headers m \<and>
        (if canHaveResponseBody method (fr_status resp) then fr_body resp = Some (pm_body m) \<and> ft_closes f = 0
         else fr_body resp = None \<and> ft_closes f = 1))"
  using fetch_run_inv [of "method" xs] by (auto simp: Let_def fetch_inv_def ready_def answer_ok_def)

text \<open>When the connection fails with another error than that it was closed, nobody is told.\<close>

lemma read_failure_unseen:
  assumes "e \<noteq> tcp_closed_error" "ft_read f = None"
  shows "ft_parser (fetch_input_step (Fed (Read_failed e evs code)) f) = ft_parser f"
    "ft_result (fetch_input_step (Fed (Read_failed e evs code)) f) = ft_result f"
  using assms by simp_all

subsection \<open>The closing of the connection\<close>

definition stream_ok :: "closing_body \<Rightarrow> bool" where
  "stream_ok c \<longleftrightarrow> rs_ok (cb_stream c) \<and> (rs_closeRequested (cb_stream c) \<longrightarrow> rs_state (cb_stream c) \<noteq> Rs_readable) \<and>
     cb_closes c = (if rs_state (cb_stream c) = Rs_closed then 1 else 0) \<and>
     prefix (given (cb_stream c)) (cb_chunks c) \<and>
     (rs_state (cb_stream c) = Rs_readable \<longrightarrow> given (cb_stream c) = cb_chunks c)"

text \<open>A pull waits only while the stream is empty and open.\<close>

definition reading_ok :: "closing_body \<Rightarrow> bool" where
  "reading_ok c \<longleftrightarrow> (cb_reading c \<longrightarrow> rs_queue (cb_stream c) = [] \<and> can_enqueue (cb_stream c) \<and> rs_pulling (cb_stream c))"

lemma given_flags [simp]:
  "given (s\<lparr>rs_started := b\<rparr>) = given s" "given (s\<lparr>rs_pulling := b\<rparr>) = given s" "given (s\<lparr>rs_pullAgain := b\<rparr>) = given s"
  "given (s\<lparr>rs_pulling := b, rs_pullAgain := b'\<rparr>) = given s"
  by (simp_all add: given_def handed_def)

lemma pull_ok:
  assumes "stream_ok c" "reading_ok c"
  shows "stream_ok (pull_if_needed c) \<and> reading_ok (pull_if_needed c)"
proof (cases "should_pull 1 (\<lambda>_. 1) (cb_stream c)")
  case True
  then have s: "can_enqueue (cb_stream c)" "rs_started (cb_stream c)" and
    n: "0 < rs_requests (cb_stream c) \<or> 0 < null_as_0 (desiredSize 1 (\<lambda>_. 1) (cb_stream c))"
    by (simp_all add: should_pull_def)
  have "rs_queue (cb_stream c) = []"
    using n s(1) assms(1) by (cases "rs_queue (cb_stream c)")
      (auto simp: stream_ok_def rs_ok_def desiredSize_def null_as_0_def can_enqueue_def)
  with assms s True show ?thesis
    by (auto simp: pull_if_needed_def stream_ok_def reading_ok_def rs_ok_def can_enqueue_def)
qed (use assms in \<open>simp add: pull_if_needed_def\<close>)

lemma closing_step_ok:
  assumes "stream_ok c" "reading_ok c"
  shows "stream_ok (closing_step x c) \<and> reading_ok (closing_step x c)"
proof (cases x)
  case Started
  have "stream_ok (c\<lparr>cb_stream := (cb_stream c)\<lparr>rs_started := True\<rparr>\<rparr>)" "reading_ok (c\<lparr>cb_stream := (cb_stream c)\<lparr>rs_started := True\<rparr>\<rparr>)"
    using assms by (simp_all add: stream_ok_def reading_ok_def rs_ok_def can_enqueue_def)
  from pull_ok [OF this] assms Started show ?thesis by simp
next
  case Pulled
  let ?c = "c\<lparr>cb_stream := (cb_stream c)\<lparr>rs_pulling := False, rs_pullAgain := False\<rparr>\<rparr>"
  show ?thesis
  proof (cases "cb_reading c")
    case False
    have "stream_ok ?c" "reading_ok ?c" using assms False by (simp_all add: stream_ok_def reading_ok_def rs_ok_def)
    from pull_ok [OF this] assms Pulled False show ?thesis
      by (auto simp: stream_ok_def reading_ok_def rs_ok_def)
  qed (use assms Pulled in simp)
next
  case Outer_read
  obtain s again where s: "rs_read (cb_stream c) = (s, again)" by fastforce
  have "rs_ok s" using rs_ok_read [of "cb_stream c"] assms(1) s by (simp add: stream_ok_def)
  moreover have g: "given s = given (cb_stream c)" using given_read [of "cb_stream c"] s by simp
  moreover have "rs_state s = rs_state (cb_stream c)" "rs_closeRequested s = rs_closeRequested (cb_stream c)"
    "rs_pulling s = rs_pulling (cb_stream c)" "rs_queue (cb_stream c) = [] \<Longrightarrow> rs_queue s = []"
    using s assms(1) by (auto simp: stream_ok_def rs_read_def Let_def split: rs_state.splits list.splits if_splits)
  ultimately have "stream_ok (c\<lparr>cb_stream := s\<rparr>)" "reading_ok (c\<lparr>cb_stream := s\<rparr>)"
    using assms by (simp_all add: stream_ok_def reading_ok_def can_enqueue_def)
  from pull_ok [OF this] this Outer_read s show ?thesis by (simp add: Let_def)
next
  case Outer_cancel
  then show ?thesis using assms rs_ok_cancel [of "cb_stream c"] given_dropped(2) [of "cb_stream c"]
    by (cases "rs_state (cb_stream c) = Rs_readable")
      (simp_all add: stream_ok_def reading_ok_def rs_cancel_def rs_finish_def)
next
  case (Inner a)
  show ?thesis
  proof (cases "cb_reading c")
    case True
    then have q: "rs_queue (cb_stream c) = []" "can_enqueue (cb_stream c)" using assms(2) by (simp_all add: reading_ok_def)
    then have st: "rs_state (cb_stream c) = Rs_readable" "\<not> rs_closeRequested (cb_stream c)" by (simp_all add: can_enqueue_def)
    show ?thesis
    proof (cases a)
      case (Chunk v)
      let ?c = "c\<lparr>cb_reading := False, cb_stream := rs_put v (cb_stream c), cb_chunks := cb_chunks c @ [v]\<rparr>"
      have "given (rs_put v (cb_stream c)) = given (cb_stream c) @ [v]" using handed_put [of "cb_stream c" v] q by (simp add: given_def)
      then have "stream_ok ?c" "reading_ok ?c"
        using assms(1) q st rs_ok_put [of "cb_stream c" v] by (simp_all add: stream_ok_def reading_ok_def)
      from pull_ok [OF this] Inner Chunk True show ?thesis by (simp add: Let_def)
    next
      case Done
      let ?s = "rs_finish ((cb_stream c)\<lparr>rs_closeRequested := True\<rparr>)"
      have "controller_close (cb_stream c) = Inr ?s" using q by (simp add: controller_close_def)
      with rs_ok_close [OF _ this] given_close [OF this] assms(1) st Inner Done True show ?thesis
        by (simp add: stream_ok_def reading_ok_def) (simp add: rs_finish_def)
    next
      case (Failed e)
      then show ?thesis using assms(1) st Inner True rs_ok_error [of "cb_stream c" e] given_dropped(1) [of e "cb_stream c"]
        by (simp add: stream_ok_def reading_ok_def) (simp add: controller_error_def)
    qed
  qed (use assms Inner in simp)
qed

text \<open>C31: The body that \<open>fetch\<close> hands out is the body of the message, and closes the connection. In every
  state what its reader has, with what the stream holds, is a beginning of the chunks of the inner body in
  order, and all of them while the stream is open; the connection has been closed once when the stream
  has ended or was cancelled, and not before. A body that fails leaves the connection open.\<close>

theorem body_closes_connection:
  "let c = closing_run xs; s = cb_stream c in
     prefix (handed s @ rs_queue s) (cb_chunks c) \<and>
     (rs_state s = Rs_readable \<longrightarrow> handed s @ rs_queue s = cb_chunks c) \<and>
     cb_closes c = (if rs_state s = Rs_closed then 1 else 0)"
proof -
  have "stream_ok closing_start \<and> reading_ok closing_start"
    using rs_ok_init by (simp add: stream_ok_def reading_ok_def closing_start_def) (simp add: rs_init_def given_def handed_def)
  moreover have "stream_ok c \<and> reading_ok c \<Longrightarrow> stream_ok (fold closing_step xs c) \<and> reading_ok (fold closing_step xs c)" for c
    by (induction xs arbitrary: c) (simp_all add: closing_step_ok)
  ultimately show ?thesis by (simp add: closing_run_def Let_def stream_ok_def given_def)
qed

subsection \<open>Witnesses\<close>

definition example_reply :: headers_event where
  "example_reply = \<lparr>he_isRequest = False, he_method = [], he_url = [], he_statusCode = Some 204, he_statusText = [],
     he_httpMajor = 1, he_httpMinor = 1, he_headers = [], he_shouldKeepAlive = True, he_upgrade = False\<rparr>"

definition example_fetch :: "fetch_input list" where
  "example_fetch = [Fed (Chunk_read [On_headers example_reply, On_complete] 0), Written (Inr ()), Free_task]"

theorem fetch_settles_witness:
  "ft_result (fetch_run [71, 69, 84] example_fetch) =
     Some (Inr \<lparr>fr_status = 204, fr_statusText = [], fr_headers = [], fr_body = None\<rparr>) \<and>
   ft_closes (fetch_run [71, 69, 84] example_fetch) = 1"
proof -
  have "ft_result (fetch_run [71, 69, 84] example_fetch) =
     Some (Inr \<lparr>fr_status = 204, fr_statusText = [], fr_headers = [], fr_body = None\<rparr>)" by code_simp
  moreover have "\<not> canHaveResponseBody [71, 69, 84] 204" by code_simp
  ultimately show ?thesis using fetch_settles [of "[71, 69, 84]" example_fetch] by (simp add: Let_def)
qed

theorem body_closes_connection_witness:
  "cb_closes (closing_run [Started, Outer_read, Inner (Chunk [1]), Pulled, Inner Done]) = 1 \<and>
   prefix [[1]] (cb_chunks (closing_run [Started, Outer_read, Inner (Chunk [1]), Pulled, Inner Done]))"
proof -
  let ?c = "closing_run [Started, Outer_read, Inner (Chunk [1]), Pulled, Inner Done]"
  have "rs_state (cb_stream ?c) = Rs_closed" "handed (cb_stream ?c) @ rs_queue (cb_stream ?c) = [[1]]" by code_simp+
  then show ?thesis using body_closes_connection [of "[Started, Outer_read, Inner (Chunk [1]), Pulled, Inner Done]"]
    by (simp add: Let_def)
qed

end
