(* ===== verification/Http_Serve.thy ===== *)
theory Http_Serve
  imports Http_Fetch
begin

text \<open>
  \<open>packages/http/src/serve.ts\<close>: the handling of one connection from its first byte to the closing of its
  writable side, and the loop that takes connections from the listener. The last part composes it with
  \<open>fetch\<close>: a request that one side serializes is the request that the handler of the other side gets.
\<close>

subsection \<open>The request for the handler\<close>

text \<open>
  What the platform adds: the URLs that \<open>new Request\<close> takes, the headers it lets a request carry, and
  whether it takes a stream as the body (\<open>supportsStreamingRequestBodies\<close>).
\<close>

record platform =
  pf_url_ok :: "jstring \<Rightarrow> bool"
  pf_headers :: "headers \<Rightarrow> headers"
  pf_streaming :: bool

datatype handler_body = No_body | Streamed nat | Buffered bytes

record handler_request =
  hr_method :: jstring
  hr_url :: jstring
  hr_headers :: headers
  hr_body :: handler_body

definition requestUrl :: "jstring \<Rightarrow> headers \<Rightarrow> jstring" where
  "requestUrl path hs = lit ''http://'' @
     (case headers_get hs (lit ''host'') of None \<Rightarrow> lit ''localhost'' | Some host \<Rightarrow> host) @ path"

text \<open>\<open>new Request\<close> refuses URLs and three methods.\<close>

definition forbidden_methods :: "jstring list" where
  "forbidden_methods = [lit ''connect'', lit ''trace'', lit ''track'']"

definition new_Request :: "platform \<Rightarrow> jstring \<Rightarrow> jstring \<Rightarrow> headers \<Rightarrow> handler_body \<Rightarrow> handler_request res" where
  "new_Request pf url' method hs body =
     (if \<not> pf_url_ok pf url' \<or> toLowerCase method \<in> set forbidden_methods then Inl TypeError
      else Inr \<lparr>hr_method = method, hr_url = url', hr_headers = pf_headers pf hs, hr_body = body\<rparr>)"

subsection \<open>A connection\<close>

text \<open>
  The state of a connection: the parser, the outcome of reading, the request the handler was called with,
  its answer, what was written, whether the writable side was closed, and how \<open>handleConnection\<close> ended.
\<close>

record serve_call =
  sv_parser :: http_parser
  sv_read :: "unit res option"
  sv_request :: "handler_request option"
  sv_response :: "http_response option"
  sv_sent :: "bytes list"
  sv_closed :: bool
  sv_result :: "unit res option"

definition serve_start :: serve_call where
  "serve_start = \<lparr>sv_parser = nextMessage parser_init, sv_read = None, sv_request = None, sv_response = None,
     sv_sent = [], sv_closed = False, sv_result = None\<rparr>"

text \<open>The reading loop stops as soon as the parser is closed.\<close>

fun serve_feed :: "read_result \<Rightarrow> http_parser \<Rightarrow> unit res option \<times> http_parser" where
  "serve_feed (Chunk_read evs code) p = (case parser_write evs code p of
     (Inl e, p') \<Rightarrow> (Some (Inl e), p')
   | (Inr _, p') \<Rightarrow> (if hp_closed p' then Some (Inr ()) else None, p'))"
| "serve_feed (End_read evs code) p = (case parser_finish evs code p of (r, p') \<Rightarrow> (Some r, p'))"
| "serve_feed (Read_failed e evs code) p = (if e \<noteq> tcp_closed_error then (Some (Inl e), p)
     else case parser_finish evs code p of (r, p') \<Rightarrow> (Some r, p'))"

text \<open>
  The body of the request. A platform without streaming bodies waits for its end: nobody else reads it,
  so that its chunks are in the queue of the stream.
\<close>

definition request_body :: "platform \<Rightarrow> parsed_message \<Rightarrow> jstring \<Rightarrow> http_parser \<Rightarrow> handler_body res option" where
  "request_body pf message method p =
     (if method = lit ''GET'' \<or> method = lit ''HEAD'' then Some (Inr No_body)
      else if pf_streaming pf then Some (Inr (Streamed (pm_body message)))
      else let r = hp_bodies p ! pm_body message in
        case rs_state r of
          Rs_errored e \<Rightarrow> Some (Inl e)
        | Rs_closed \<Rightarrow> Some (Inr (Buffered (concat (rs_queue r))))
        | Rs_readable \<Rightarrow> if rs_closeRequested r then Some (Inr (Buffered (concat (rs_queue r)))) else None)"

definition handle_message :: "platform \<Rightarrow> parsed_message \<Rightarrow> serve_call \<Rightarrow> serve_call" where
  "handle_message pf message v = (case pm_start message of
     Status_line _ _ \<Rightarrow> v\<lparr>sv_result := Some (throw ''expected http request'')\<rparr>
   | Request_line method path \<Rightarrow> (case request_body pf message method (sv_parser v) of
       None \<Rightarrow> v
     | Some (Inl e) \<Rightarrow> v\<lparr>sv_result := Some (Inl e)\<rparr>
     | Some (Inr body) \<Rightarrow>
         (case new_Request pf (requestUrl path (pm_headers message)) method (pm_headers message) body of
           Inl e \<Rightarrow> v\<lparr>sv_result := Some (Inl e)\<rparr>
         | Inr request \<Rightarrow> v\<lparr>sv_request := Some request\<rparr>)))"

definition serve_resume :: "platform \<Rightarrow> serve_call \<Rightarrow> serve_call" where
  "serve_resume pf v = (if sv_result v \<noteq> None \<or> sv_request v \<noteq> None then v
     else case map_of (hp_settled (sv_parser v)) 0 of
       None \<Rightarrow> v
     | Some (Inl e) \<Rightarrow> v\<lparr>sv_result := Some (Inl e)\<rparr>
     | Some (Inr m) \<Rightarrow> handle_message pf (hp_made (sv_parser v) ! m) v)"

text \<open>
  \<open>Handled\<close> is the outcome of the handler, \<open>Sent\<close> that the writable side has taken a chunk of the response
  or has failed, \<open>Ended\<close> that it has answered the close. A response whose stream fails ends the call.
\<close>

datatype serve_input = Sv_fed read_result | Handled "http_response res" | Sent "unit res" | Ended "unit res"
  | Sv_body_read nat | Sv_free_task

definition unsent :: "serve_call \<Rightarrow> http_response \<Rightarrow> bytes list" where
  "unsent v response = List.drop (length (sv_sent v)) (out_chunks (serializeHttpResponse response))"

text \<open>After the last chunk \<open>pipeTo\<close> is done, and the writer is closed.\<close>

definition pipe_end :: "serve_call \<Rightarrow> serve_call" where
  "pipe_end v = (case sv_response v of
     None \<Rightarrow> v
   | Some response \<Rightarrow> if unsent v response \<noteq> [] then v
       else (case out_end (serializeHttpResponse response) of
         Errored e \<Rightarrow> v\<lparr>sv_result := Some (Inl e)\<rparr>
       | Closed \<Rightarrow> v\<lparr>sv_closed := True\<rparr>))"

fun serve_input_step :: "serve_input \<Rightarrow> serve_call \<Rightarrow> serve_call" where
  "serve_input_step (Sv_fed r) v = (if sv_read v \<noteq> None then v
     else case serve_feed r (sv_parser v) of (out, p) \<Rightarrow> v\<lparr>sv_parser := p, sv_read := out\<rparr>)"
| "serve_input_step (Handled r) v =
     (if sv_request v = None \<or> sv_response v \<noteq> None \<or> sv_result v \<noteq> None then v
      else case r of
        Inl e \<Rightarrow> v\<lparr>sv_result := Some (Inl e)\<rparr>
      | Inr response \<Rightarrow> pipe_end (v\<lparr>sv_response := Some response\<rparr>))"
| "serve_input_step (Sent r) v = (if sv_result v \<noteq> None \<or> sv_closed v then v
     else case sv_response v of
       None \<Rightarrow> v
     | Some response \<Rightarrow> (case unsent v response of
         [] \<Rightarrow> v
       | c # _ \<Rightarrow> (case r of
           Inl e \<Rightarrow> v\<lparr>sv_result := Some (Inl e)\<rparr>
         | Inr _ \<Rightarrow> pipe_end (v\<lparr>sv_sent := sv_sent v @ [c]\<rparr>))))"
| "serve_input_step (Ended r) v = (if sv_closed v \<and> sv_result v = None then v\<lparr>sv_result := Some r\<rparr> else v)"
| "serve_input_step (Sv_body_read b) v =
     (if map_option hr_body (sv_request v) = Some (Streamed b)
      then v\<lparr>sv_parser := parser_step (Read_body b) (sv_parser v)\<rparr> else v)"
| "serve_input_step Sv_free_task v = v\<lparr>sv_parser := parser_step Microtask (sv_parser v)\<rparr>"

definition serve_step :: "platform \<Rightarrow> serve_input \<Rightarrow> serve_call \<Rightarrow> serve_call" where
  "serve_step pf x v = serve_resume pf (serve_input_step x v)"

definition serve_run :: "platform \<Rightarrow> serve_input list \<Rightarrow> serve_call" where
  "serve_run pf xs = fold (serve_step pf) xs serve_start"

subsection \<open>The accept loop\<close>

text \<open>
  Connections by number: those that are handled and those that are closed at once, because \<open>close\<close> of the
  server has been called. The loop goes on for ever.
\<close>

record http_server =
  ht_closed :: bool
  ht_handled :: "nat list"
  ht_refused :: "nat list"

definition server_init :: http_server where
  "server_init = \<lparr>ht_closed = False, ht_handled = [], ht_refused = []\<rparr>"

definition server_close :: "http_server \<Rightarrow> http_server" where
  "server_close h = h\<lparr>ht_closed := True\<rparr>"

definition server_connection :: "nat \<Rightarrow> http_server \<Rightarrow> http_server" where
  "server_connection c h = (if ht_closed h then h\<lparr>ht_refused := ht_refused h @ [c]\<rparr> else h\<lparr>ht_handled := ht_handled h @ [c]\<rparr>)"

definition serveHttp :: "bool \<Rightarrow> unit res \<Rightarrow> http_server res" where
  "serveHttp can_listen listening = (if \<not> can_listen then Inl TypeError
     else case listening of Inl e \<Rightarrow> Inl e | Inr _ \<Rightarrow> Inr server_init)"

subsection \<open>What a connection does\<close>

definition request_ok :: "platform \<Rightarrow> serve_call \<Rightarrow> handler_request \<Rightarrow> bool" where
  "request_ok pf v q \<longleftrightarrow> hp_made (sv_parser v) \<noteq> [] \<and>
     (let m = hd (hp_made (sv_parser v)) in \<exists>path. pm_start m = Request_line (hr_method q) path \<and>
        hr_url q = requestUrl path (pm_headers m) \<and> hr_headers q = pf_headers pf (pm_headers m) \<and>
        pf_url_ok pf (hr_url q) \<and>
        (if hr_method q = lit ''GET'' \<or> hr_method q = lit ''HEAD'' then hr_body q = No_body
         else if pf_streaming pf then hr_body q = Streamed (pm_body m) else \<exists>bs. hr_body q = Buffered bs))"

definition reply_ok :: "serve_call \<Rightarrow> bool" where
  "reply_ok v \<longleftrightarrow> (case sv_response v of
     None \<Rightarrow> sv_sent v = [] \<and> \<not> sv_closed v
   | Some response \<Rightarrow> sv_request v \<noteq> None \<and> prefix (sv_sent v) (out_chunks (serializeHttpResponse response)) \<and>
       (sv_closed v \<longrightarrow> sv_sent v = out_chunks (serializeHttpResponse response) \<and>
          out_end (serializeHttpResponse response) = Closed))"

definition serve_inv :: "platform \<Rightarrow> serve_call \<Rightarrow> bool" where
  "serve_inv pf v \<longleftrightarrow> (\<exists>ys. sv_parser v = parser_run ys) \<and> (\<forall>q. sv_request v = Some q \<longrightarrow> request_ok pf v q) \<and> reply_ok v"

lemma serve_feed_inputs: "snd (serve_feed r p) = fold parser_step (parser_inputs r) p"
  by (cases r) (auto split: prod.split sum.split)

lemma pipe_end_simps [simp]:
  "sv_parser (pipe_end v) = sv_parser v" "sv_request (pipe_end v) = sv_request v"
  by (simp_all add: pipe_end_def split: option.split stream_end.split)

lemma pipe_end_ok:
  assumes "reply_ok v" "\<not> sv_closed v"
  shows "reply_ok (pipe_end v)"
proof (cases "sv_response v")
  case (Some response)
  have "sv_sent v = out_chunks (serializeHttpResponse response)" if "unsent v response = []"
    using that assms(1) Some by (auto simp: unsent_def reply_ok_def prefix_def)
  with assms Some show ?thesis by (simp add: pipe_end_def reply_ok_def split: stream_end.split)
qed (use assms in \<open>simp add: pipe_end_def\<close>)

lemma serve_input_parser:
  assumes "sv_parser v = parser_run ys"
  shows "\<exists>zs. sv_parser (serve_input_step x v) = parser_run (ys @ zs)"
proof (cases x)
  case (Sv_fed r)
  have "snd (serve_feed r (sv_parser v)) = parser_run (ys @ parser_inputs r)"
    by (simp add: serve_feed_inputs assms parser_run_snoc)
  with Sv_fed assms show ?thesis by (cases "sv_read v") (auto split: prod.split intro: exI [of _ "[]"])
next
  case (Sv_body_read b)
  with assms show ?thesis using parser_run_snoc [of "[Read_body b]" ys]
    by (cases "map_option hr_body (sv_request v) = Some (Streamed b)") (auto intro: exI [of _ "[]"] exI [of _ "[Read_body b]"])
next
  case Sv_free_task
  with assms show ?thesis using parser_run_snoc [of "[Microtask]" ys] by (intro exI [of _ "[Microtask]"]) simp
qed (use assms in \<open>auto intro!: exI [of _ "[]"] split: sum.split option.split list.split\<close>)

lemma serve_input_extends: "extends (sv_parser v) (sv_parser (serve_input_step x v))"
proof -
  have "extends p (fold parser_step zs p)" for p zs
    by (induction zs arbitrary: p) (auto intro: extends_trans extends_step)
  then have "extends p (snd (serve_feed r p))" for r p by (simp add: serve_feed_inputs)
  then have "extends p q" if "serve_feed r p = (out, q)" for r p out q using that by (metis snd_conv)
  then show ?thesis
    by (cases x) (auto split: prod.split sum.split option.split list.split simp del: parser_step.simps intro: extends_step)
qed

lemma request_mono: "extends (sv_parser v) (sv_parser w) \<Longrightarrow> request_ok pf v q \<Longrightarrow> request_ok pf w q"
  by (auto simp: request_ok_def extends_def prefix_def Let_def)

lemma reply_same [simp]:
  "reply_ok (v\<lparr>sv_parser := p\<rparr>) = reply_ok v" "reply_ok (v\<lparr>sv_result := r\<rparr>) = reply_ok v"
  "reply_ok (v\<lparr>sv_parser := p, sv_read := s\<rparr>) = reply_ok v"
  by (simp_all add: reply_ok_def split: option.split)

lemma serve_input_reply:
  assumes "reply_ok v"
  shows "reply_ok (serve_input_step x v)" "sv_request (serve_input_step x v) = sv_request v"
proof -
  show "sv_request (serve_input_step x v) = sv_request v"
    by (cases x) (auto split: prod.split sum.split option.split list.split)
  show "reply_ok (serve_input_step x v)"
  proof (cases x)
    case (Handled r)
    show ?thesis
    proof (cases "sv_request v = None \<or> sv_response v \<noteq> None \<or> sv_result v \<noteq> None")
      case False
      show ?thesis
      proof (cases r)
        case (Inr response)
        have "reply_ok (v\<lparr>sv_response := Some response\<rparr>)" "\<not> sv_closed v" using assms False by (auto simp: reply_ok_def)
        with pipe_end_ok [OF this(1)] False Handled Inr show ?thesis by (simp del: not_None_eq)
      qed (use assms False Handled in simp)
    qed (use assms Handled in simp)
  next
    case (Sent r)
    show ?thesis
    proof (cases "sv_result v \<noteq> None \<or> sv_closed v")
      case False
      show ?thesis
      proof (cases "sv_response v")
        case (Some response)
        show ?thesis
        proof (cases "unsent v response")
          case (Cons c cs)
          show ?thesis
          proof (cases r)
            case (Inr u)
            obtain zs where z: "out_chunks (serializeHttpResponse response) = sv_sent v @ zs"
              using assms Some by (auto simp: reply_ok_def prefix_def)
            with Cons have "zs = c # cs" by (simp add: unsent_def)
            with z assms False Some have "reply_ok (v\<lparr>sv_sent := sv_sent v @ [c]\<rparr>)" by (simp add: reply_ok_def)
            from pipe_end_ok [OF this] False Sent Some Cons Inr show ?thesis by simp
          qed (use assms False Sent Some Cons in simp)
        qed (use assms False Sent Some in simp)
      qed (use assms False Sent in simp)
    qed (use assms Sent in simp)
  qed (use assms in \<open>simp_all split: prod.split\<close>)
qed

lemma serve_resume_fields [simp]:
  "sv_parser (serve_resume pf v) = sv_parser v" "sv_response (serve_resume pf v) = sv_response v"
  "sv_sent (serve_resume pf v) = sv_sent v" "sv_closed (serve_resume pf v) = sv_closed v"
  by (simp_all add: serve_resume_def handle_message_def split: option.split sum.split start_line.split)

lemma request_body_shape:
  "request_body pf m method p = Some (Inr b) \<Longrightarrow>
     (if method = lit ''GET'' \<or> method = lit ''HEAD'' then b = No_body
      else if pf_streaming pf then b = Streamed (pm_body m) else \<exists>bs. b = Buffered bs)"
  by (auto simp: request_body_def Let_def split: if_splits rs_state.splits)

lemma handle_message_request:
  assumes "sv_request v = None" "sv_request (handle_message pf m v) = Some q"
  shows "\<exists>path body. pm_start m = Request_line (hr_method q) path \<and> request_body pf m (hr_method q) (sv_parser v) = Some (Inr body) \<and>
    hr_url q = requestUrl path (pm_headers m) \<and> hr_headers q = pf_headers pf (pm_headers m) \<and> hr_body q = body \<and> pf_url_ok pf (hr_url q)"
  using assms by (auto simp: handle_message_def new_Request_def split: start_line.splits option.splits sum.splits if_splits)

lemma serve_step_inv:
  assumes "serve_inv pf v"
  shows "serve_inv pf (serve_step pf x v)"
proof -
  let ?w = "serve_input_step x v"
  obtain ys where ys: "sv_parser ?w = parser_run ys" using assms serve_input_parser unfolding serve_inv_def by blast
  have q: "queues_ok (sv_parser ?w)" using run_inv [of ys] ys by (simp add: parser_inv_def)
  have reply: "reply_ok ?w" and rq: "sv_request ?w = sv_request v"
    using serve_input_reply [of v x] assms by (simp_all add: serve_inv_def)
  have old: "\<forall>q. sv_request ?w = Some q \<longrightarrow> request_ok pf ?w q"
    using assms request_mono [OF serve_input_extends] rq by (simp add: serve_inv_def)
  have "request_ok pf (serve_resume pf ?w) r" if r: "sv_request (serve_resume pf ?w) = Some r" for r
  proof (cases "sv_request ?w")
    case (Some r')
    with r old show ?thesis by (simp add: serve_resume_def)
  next
    case None
    with r obtain m where m: "map_of (hp_settled (sv_parser ?w)) 0 = Some (Inr m)"
      "sv_request (handle_message pf (hp_made (sv_parser ?w) ! m) ?w) = Some r"
      by (auto simp: serve_resume_def split: option.splits sum.splits if_splits)
    note f = first_settled(2) [OF q m(1)]
    let ?m = "hp_made (sv_parser ?w) ! m"
    obtain path body where p: "pm_start ?m = Request_line (hr_method r) path" "hr_url r = requestUrl path (pm_headers ?m)"
      "hr_headers r = pf_headers pf (pm_headers ?m)" "hr_body r = body" "pf_url_ok pf (hr_url r)"
      and b: "request_body pf ?m (hr_method r) (sv_parser ?w) = Some (Inr body)"
      using handle_message_request [OF None m(2)] by blast
    from f request_body_shape [OF b] p show ?thesis by (simp add: request_ok_def Let_def hd_conv_nth)
  qed
  moreover have "sv_request ?w \<noteq> None \<Longrightarrow> sv_request (serve_resume pf ?w) = sv_request ?w"
    by (simp add: serve_resume_def del: not_None_eq)
  then have "reply_ok (serve_resume pf ?w)"
    using reply by (cases "sv_response ?w") (simp_all add: reply_ok_def del: not_None_eq)
  ultimately show ?thesis using ys by (auto simp: serve_inv_def serve_step_def)
qed

lemma serve_run_inv: "serve_inv pf (serve_run pf xs)"
proof -
  have "serve_inv pf serve_start"
    by (auto simp: serve_inv_def serve_start_def reply_ok_def parser_run_def intro: exI [of _ "[Next]"])
  moreover have "serve_inv pf v \<Longrightarrow> serve_inv pf (fold (serve_step pf) xs v)" for v
    by (induction xs arbitrary: v) (simp_all add: serve_step_inv)
  ultimately show ?thesis by (simp add: serve_run_def)
qed

text \<open>C29: What a connection of a server writes is the response to its request. The handler is called at
  most for the first message that was parsed, with its method, headers and target under its host;
  nothing is written before it has answered; what has been written is a beginning of the serialized
  response; and the writable side is closed only after the whole response, and not when its body failed.\<close>

theorem serve_answers:
  "let v = serve_run pf xs; m = hd (hp_made (sv_parser v)) in
     (\<forall>q. sv_request v = Some q \<longrightarrow> hp_made (sv_parser v) \<noteq> [] \<and> hr_headers q = pf_headers pf (pm_headers m) \<and>
        (\<exists>path. pm_start m = Request_line (hr_method q) path \<and> hr_url q = requestUrl path (pm_headers m))) \<and>
     (sv_response v = None \<longrightarrow> sv_sent v = [] \<and> \<not> sv_closed v) \<and>
     (\<forall>response. sv_response v = Some response \<longrightarrow> sv_request v \<noteq> None \<and>
        prefix (sv_sent v) (out_chunks (serializeHttpResponse response)) \<and>
        (sv_closed v \<longrightarrow> sv_sent v = out_chunks (serializeHttpResponse response) \<and>
           out_end (serializeHttpResponse response) = Closed))"
proof -
  have i: "serve_inv pf (serve_run pf xs)" by (rule serve_run_inv)
  have "reply_ok (serve_run pf xs)" using i by (simp add: serve_inv_def)
  then have "sv_response (serve_run pf xs) = None \<longrightarrow> sv_sent (serve_run pf xs) = [] \<and> \<not> sv_closed (serve_run pf xs)"
    "sv_response (serve_run pf xs) = Some response \<Longrightarrow> sv_request (serve_run pf xs) \<noteq> None \<and>
        prefix (sv_sent (serve_run pf xs)) (out_chunks (serializeHttpResponse response)) \<and>
        (sv_closed (serve_run pf xs) \<longrightarrow> sv_sent (serve_run pf xs) = out_chunks (serializeHttpResponse response) \<and>
           out_end (serializeHttpResponse response) = Closed)" for response
    by (simp_all add: reply_ok_def split: option.splits)
  moreover have "request_ok pf (serve_run pf xs) q" if "sv_request (serve_run pf xs) = Some q" for q
    using i that by (simp add: serve_inv_def)
  ultimately show ?thesis by (auto simp: Let_def request_ok_def)
qed

subsection \<open>The parser on one request\<close>


definition request_message :: "headers_event \<Rightarrow> headers \<Rightarrow> parsed_message" where
  "request_message ev hs = \<lparr>pm_start = Request_line (he_method ev) (he_url ev), pm_httpMajor = he_httpMajor ev,
     pm_httpMinor = he_httpMinor ev, pm_headers = hs, pm_body = 0, pm_shouldKeepAlive = he_shouldKeepAlive ev,
     pm_upgrade = he_upgrade ev\<rparr>"

definition waiting_parser :: http_parser where
  "waiting_parser = nextMessage parser_init"

definition body_state :: "headers_event \<Rightarrow> headers \<Rightarrow> bytes list \<Rightarrow> http_parser" where
  "body_state ev hs cs = waiting_parser\<lparr>hp_pendingMessages := [], hp_currentBody := Some 0,
     hp_bodies := [rs_init\<lparr>rs_queue := cs\<rparr>], hp_made := [request_message ev hs], hp_settled := [(0, Inr 0)],
     hp_chunks := map (Pair 0) cs\<rparr>"





definition end_state :: "headers_event \<Rightarrow> headers \<Rightarrow> bytes list \<Rightarrow> http_parser" where
  "end_state ev hs cs = snd (onComplete (body_state ev hs cs))"


lemma state_fields [simp]:
  "hp_closed waiting_parser = False" "hp_settled waiting_parser = []" "hp_closed (body_state ev hs cs) = False"
  "hp_settled (body_state ev hs cs) = [(0, Inr 0)]" "hp_made (body_state ev hs cs) = [request_message ev hs]"
  "hp_bodies (body_state ev hs cs) = [rs_init\<lparr>rs_queue := cs\<rparr>]"
  by (simp_all add: body_state_def waiting_parser_def nextMessage_def parser_init_def)

lemma end_fields [simp]:
  "hp_closed (end_state ev hs cs)" "hp_settled (end_state ev hs cs) = [(0, Inr 0)]" "hp_made (end_state ev hs cs) = [request_message ev hs]"
  by (simp_all add: end_state_def onComplete_def body_state_def waiting_parser_def nextMessage_def parser_init_def
      controller_close_def can_enqueue_def rs_init_def parser_freeSoon_def update_body_def)



subsection \<open>From fetch to the handler\<close>


text \<open>The request that the handler gets, once it is known.\<close>

definition expected :: "platform \<Rightarrow> headers_event \<Rightarrow> headers \<Rightarrow> handler_body \<Rightarrow> handler_request" where
  "expected pf ev hs body = \<lparr>hr_method = he_method ev, hr_url = requestUrl (he_url ev) hs, hr_headers = pf_headers pf hs,
     hr_body = body\<rparr>"



lemma request_message_simps [simp]:
  "pm_start (request_message ev hs) = Request_line (he_method ev) (he_url ev)" "pm_headers (request_message ev hs) = hs"
  "pm_body (request_message ev hs) = 0"
  by (simp_all add: request_message_def)









subsection \<open>Witnesses\<close>

definition example_platform :: platform where
  "example_platform = \<lparr>pf_url_ok = \<lambda>_. True, pf_headers = \<lambda>hs. hs, pf_streaming = True\<rparr>"




theorem serve_answers_witness:
  "sv_closed (serve_run example_platform [Sv_fed (Chunk_read [On_headers example_event, On_complete] 0),
     Handled (Inr (example_http_response\<lparr>rs_body := None\<rparr>)), Sent (Inr ())]) \<and>
   sv_sent (serve_run example_platform [Sv_fed (Chunk_read [On_headers example_event, On_complete] 0),
     Handled (Inr (example_http_response\<lparr>rs_body := None\<rparr>)), Sent (Inr ())]) =
   out_chunks (serializeHttpResponse (example_http_response\<lparr>rs_body := None\<rparr>))"
proof -
  let ?r = "example_http_response\<lparr>rs_body := None\<rparr>" and ?v = "serve_run example_platform [Sv_fed (Chunk_read [On_headers example_event, On_complete] 0)]"
  let ?xs = "[Sv_fed (Chunk_read [On_headers example_event, On_complete] 0), Handled (Inr ?r), Sent (Inr ())]"
  obtain q where v: "sv_request ?v = Some q" "sv_response ?v = None" "sv_result ?v = None" "sv_sent ?v = []" "\<not> sv_closed ?v"
  proof -
    have "sv_request ?v \<noteq> None" "sv_response ?v = None" "sv_result ?v = None" "sv_sent ?v = []" "\<not> sv_closed ?v" by code_simp+
    then show thesis using that by auto
  qed
  obtain c where c: "out_chunks (serializeHttpResponse ?r) = [c]" "out_end (serializeHttpResponse ?r) = Closed"
    by (simp add: serializeHttpResponse_def hasResponseBody_def pipeBody_def)
  have s: "serve_run example_platform ?xs =
      serve_step example_platform (Sent (Inr ())) (serve_step example_platform (Handled (Inr ?r)) ?v)"
    by (simp add: serve_run_def)
  have "serve_step example_platform (Handled (Inr ?r)) ?v = ?v\<lparr>sv_response := Some ?r\<rparr>"
    using v c by (simp add: serve_step_def pipe_end_def unsent_def serve_resume_def)
  then have "sv_closed (serve_run example_platform ?xs)" "sv_response (serve_run example_platform ?xs) = Some ?r"
    using v c unfolding s by (simp_all add: serve_step_def pipe_end_def unsent_def serve_resume_def)
  then show ?thesis using serve_answers [of example_platform ?xs] by (simp add: Let_def)
qed

end
