(* ===== verification/Transport_Streams.thy ===== *)
theory Transport_Streams
  imports JS_Stream
begin

text \<open>
  \<open>packages/transport/src/index.ts\<close>: a readable stream as an asynchronous iterator, and the piping of two
  byte streams into each other; and the network card of \<open>packages/v86/src/network-adapter.ts\<close> as a pair of
  streams. The iterator is used as a \<open>for await\<close> loop uses it: the next chunk is asked for when the last
  one has come, and the loop is left between chunks.
\<close>

subsection \<open>Streams as iterators\<close>

text \<open>A generator that is dropped before its first step does not run its \<open>finally\<close> block.\<close>

datatype reader_state = Fresh | Suspended | Awaiting | Finished | Dropped

text \<open>The stream, where the generator stands, \<open>preventCancel\<close>, what was yielded, and whether the stream is locked.\<close>

record 'a reader_iterator =
  ri_stream :: "'a rstream"
  ri_state :: reader_state
  ri_preventCancel :: bool
  ri_yielded :: "'a list"
  ri_locked :: bool

definition fromReadable :: "bool \<Rightarrow> 'a rstream \<Rightarrow> 'a reader_iterator" where
  "fromReadable preventCancel readable = \<lparr>ri_stream = readable, ri_state = Fresh, ri_preventCancel = preventCancel,
     ri_yielded = [], ri_locked = True\<rparr>"

text \<open>
  The \<open>finally\<close> block: cancelling a stream that has failed rejects, and the lock is then not released.
\<close>

definition reader_finally :: "'a reader_iterator \<Rightarrow> 'a reader_iterator" where
  "reader_finally g =
     (if ri_preventCancel g then g\<lparr>ri_state := Finished, ri_locked := False\<rparr>
      else case rs_state (ri_stream g) of
        Rs_errored e \<Rightarrow> g\<lparr>ri_state := Finished\<rparr>
      | _ \<Rightarrow> g\<lparr>ri_state := Finished, ri_stream := rs_cancel (ri_stream g), ri_locked := False\<rparr>)"

text \<open>The generator goes on with the answer of its read, when there is one.\<close>

definition reader_answered :: "'a reader_iterator \<Rightarrow> 'a reader_iterator" where
  "reader_answered g = (if ri_state g \<noteq> Awaiting \<or> 0 < rs_requests (ri_stream g) then g
     else case last (rs_answers (ri_stream g)) of
       Chunk value \<Rightarrow> g\<lparr>ri_state := Suspended, ri_yielded := ri_yielded g @ [value]\<rparr>
     | Done \<Rightarrow> reader_finally g
     | Failed e \<Rightarrow> reader_finally g)"

datatype 'a reader_input = Reader_next | Reader_return | Source_put 'a | Source_close | Source_error js_error

fun reader_step :: "'a reader_input \<Rightarrow> 'a reader_iterator \<Rightarrow> 'a reader_iterator" where
  "reader_step Reader_next g = (if ri_state g \<noteq> Suspended \<and> ri_state g \<noteq> Fresh then g
     else reader_answered (g\<lparr>ri_state := Awaiting, ri_stream := fst (rs_read (ri_stream g))\<rparr>))"
| "reader_step Reader_return g = (if ri_state g = Fresh then g\<lparr>ri_state := Dropped\<rparr>
     else if ri_state g \<noteq> Suspended then g else reader_finally g)"
| "reader_step (Source_put x) g = (if \<not> can_enqueue (ri_stream g) then g
     else reader_answered (g\<lparr>ri_stream := rs_put x (ri_stream g)\<rparr>))"
| "reader_step Source_close g = (case controller_close (ri_stream g) of
     Inl e \<Rightarrow> g | Inr s \<Rightarrow> reader_answered (g\<lparr>ri_stream := s\<rparr>))"
| "reader_step (Source_error e) g = reader_answered (g\<lparr>ri_stream := controller_error e (ri_stream g)\<rparr>)"

definition reader_run :: "bool \<Rightarrow> 'a reader_input list \<Rightarrow> 'a reader_iterator" where
  "reader_run preventCancel xs = fold reader_step xs (fromReadable preventCancel rs_init)"

text \<open>
  In every state the loop has been given what the stream has handed out, a read waits only while the
  generator does, and an iterator that is at its end has given up its lock, or the stream has failed.
\<close>

definition reader_ok :: "'a reader_iterator \<Rightarrow> bool" where
  "reader_ok g \<longleftrightarrow> rs_ok (ri_stream g) \<and> ri_yielded g = handed (ri_stream g) \<and>
     rs_requests (ri_stream g) = (if ri_state g = Awaiting then 1 else 0) \<and>
     (ri_state g \<noteq> Finished \<longrightarrow> ri_locked g) \<and>
     (ri_state g = Finished \<longrightarrow> (ri_preventCancel g \<or> rs_state (ri_stream g) \<noteq> Rs_readable) \<and>
        (ri_locked g \<longrightarrow> \<not> ri_preventCancel g \<and> (\<exists>e. rs_state (ri_stream g) = Rs_errored e)))"

text \<open>What a change of the stream has to give for the generator to go on from it.\<close>

lemma handed_last:
  assumes "answers_ok s" "rs_answers s \<noteq> []" "rs_requests s = 0"
  shows "last (rs_answers s) = Chunk x \<Longrightarrow> handed s = answered_chunks (butlast (rs_answers s)) @ [x]"
    and "last (rs_answers s) = Done \<or> last (rs_answers s) = Failed e \<Longrightarrow> handed s = answered_chunks (butlast (rs_answers s))"
proof -
  have l: "rs_answers s = butlast (rs_answers s) @ [last (rs_answers s)]" using assms(2) by simp
  show "last (rs_answers s) = Chunk x \<Longrightarrow> handed s = answered_chunks (butlast (rs_answers s)) @ [x]"
    unfolding handed_def by (subst l) simp
  show "last (rs_answers s) = Done \<or> last (rs_answers s) = Failed e \<Longrightarrow> handed s = answered_chunks (butlast (rs_answers s))"
    unfolding handed_def by (subst l) auto
qed

lemma finally_ok:
  assumes "rs_ok (ri_stream g)" "ri_yielded g = handed (ri_stream g)" "rs_requests (ri_stream g) = 0" "ri_locked g"
  shows "reader_ok (reader_finally g)"
proof -
  have "rs_ok (rs_cancel (ri_stream g))" by (rule rs_ok_cancel [OF assms(1)])
  moreover have "handed (rs_cancel (ri_stream g)) = handed (ri_stream g)" "rs_requests (rs_cancel (ri_stream g)) = 0"
    "rs_state (ri_stream g) = Rs_errored e \<or> rs_state (rs_cancel (ri_stream g)) \<noteq> Rs_readable" for e
    using assms(3) by (simp_all add: rs_cancel_def rs_finish_def handed_def)
  ultimately show ?thesis using assms
    by (cases "rs_state (ri_stream g)") (auto simp: reader_ok_def reader_finally_def)
qed

text \<open>The answer to a read: the stream has one answer more, and no read waits.\<close>

lemma answered_ok:
  assumes "rs_ok s" "rs_requests s = 0" "rs_answers s = as @ [a]" "ri_yielded g = answered_chunks as" "ri_locked g"
  shows "reader_ok (reader_answered (g\<lparr>ri_state := Awaiting, ri_stream := s\<rparr>))"
proof (cases a)
  case (Chunk x)
  with assms show ?thesis by (simp add: reader_answered_def reader_ok_def handed_def)
next
  case Done
  with assms show ?thesis
    by (simp add: reader_answered_def) (rule finally_ok; simp add: handed_def)
next
  case (Failed e)
  with assms show ?thesis
    by (simp add: reader_answered_def) (rule finally_ok; simp add: handed_def)
qed

lemma source_ok:
  assumes "reader_ok g" "rs_ok s" "rs_state (ri_stream g) = Rs_readable"
    "if rs_requests (ri_stream g) = 0 then rs_requests s = 0 \<and> rs_answers s = rs_answers (ri_stream g)
     else rs_requests s = 0 \<and> (\<exists>a. rs_answers s = rs_answers (ri_stream g) @ [a]) \<or>
       rs_requests s = rs_requests (ri_stream g) \<and> rs_answers s = rs_answers (ri_stream g)"
    "ri_state g = Finished \<Longrightarrow> ri_preventCancel g \<or> rs_state s \<noteq> Rs_readable"
  shows "reader_ok (reader_answered (g\<lparr>ri_stream := s\<rparr>))"
proof (cases "ri_state g = Awaiting")
  case True
  then have r: "rs_requests (ri_stream g) = 1" "ri_locked g" "ri_yielded g = answered_chunks (rs_answers (ri_stream g))"
    using assms(1) by (simp_all add: reader_ok_def handed_def)
  have g: "g\<lparr>ri_stream := s\<rparr> = g\<lparr>ri_state := Awaiting, ri_stream := s\<rparr>" using True by simp
  from assms(4) r(1) consider a where "rs_requests s = 0" "rs_answers s = rs_answers (ri_stream g) @ [a]"
    | "rs_requests s = 1" "rs_answers s = rs_answers (ri_stream g)" by auto
  then show ?thesis
  proof cases
    case 1
    show ?thesis unfolding g by (rule answered_ok [OF assms(2) 1 r(3,2)])
  next
    case 2
    with assms(1,2) True r show ?thesis by (simp add: reader_answered_def reader_ok_def handed_def)
  qed
next
  case False
  then have "rs_requests (ri_stream g) = 0" using assms(1) by (simp add: reader_ok_def)
  with assms False show ?thesis by (auto simp: reader_answered_def reader_ok_def handed_def)
qed

lemma read_answers:
  "rs_requests s = 0 \<Longrightarrow>
     rs_requests (fst (rs_read s)) = 0 \<and> (\<exists>a. rs_answers (fst (rs_read s)) = rs_answers s @ [a]) \<or>
     rs_requests (fst (rs_read s)) = 1 \<and> rs_answers (fst (rs_read s)) = rs_answers s"
  by (simp add: rs_read_def rs_finish_def Let_def split: rs_state.split list.split)

lemma reader_step_ok:
  assumes "reader_ok g"
  shows "reader_ok (reader_step x g)"
proof (cases x)
  case Reader_next
  show ?thesis
  proof (cases "ri_state g = Suspended \<or> ri_state g = Fresh")
    case True
    let ?s = "fst (rs_read (ri_stream g))"
    have g: "rs_ok (ri_stream g)" "rs_requests (ri_stream g) = 0" "ri_locked g" "ri_yielded g = answered_chunks (rs_answers (ri_stream g))"
      using assms True by (auto simp: reader_ok_def handed_def)
    have s: "rs_ok ?s" by (rule rs_ok_read [OF g(1)])
    consider a where "rs_requests ?s = 0" "rs_answers ?s = rs_answers (ri_stream g) @ [a]"
      | "rs_requests ?s = 1" "rs_answers ?s = rs_answers (ri_stream g)"
      using read_answers [OF g(2)] by blast
    then show ?thesis
    proof cases
      case 1
      from answered_ok [OF s 1 g(4,3)] True Reader_next show ?thesis by auto
    next
      case 2
      with s g True Reader_next show ?thesis by (auto simp: reader_answered_def reader_ok_def handed_def)
    qed
  qed (use assms Reader_next in simp)
next
  case Reader_return
  then show ?thesis using assms finally_ok [of g] by (auto simp: reader_ok_def)
next
  case (Source_put y)
  show ?thesis
  proof (cases "can_enqueue (ri_stream g)")
    case True
    then have "rs_state (ri_stream g) = Rs_readable" by (simp add: can_enqueue_def)
    moreover have "rs_ok (rs_put y (ri_stream g))" using rs_ok_put [OF _ True] assms by (simp add: reader_ok_def)
    ultimately have "reader_ok (reader_answered (g\<lparr>ri_stream := rs_put y (ri_stream g)\<rparr>))"
      using assms by (intro source_ok) (auto simp: rs_put_def reader_ok_def split: if_splits)
    with True Source_put show ?thesis by simp
  qed (use assms Source_put in simp)
next
  case Source_close
  show ?thesis
  proof (cases "controller_close (ri_stream g)")
    case (Inr s)
    then have "rs_state (ri_stream g) = Rs_readable" by (auto simp: controller_close_def can_enqueue_def split: if_splits)
    moreover have "rs_ok s" using rs_ok_close [OF _ Inr] assms by (simp add: reader_ok_def)
    ultimately have "reader_ok (reader_answered (g\<lparr>ri_stream := s\<rparr>))"
      using assms Inr by (intro source_ok) (auto simp: controller_close_def rs_finish_def reader_ok_def split: if_splits)
    with Inr Source_close show ?thesis by simp
  qed (use assms Source_close in simp)
next
  case (Source_error e)
  show ?thesis
  proof (cases "rs_state (ri_stream g) = Rs_readable")
    case True
    have "rs_ok (controller_error e (ri_stream g))" using rs_ok_error [of "ri_stream g" e] assms by (simp add: reader_ok_def)
    then have "reader_ok (reader_answered (g\<lparr>ri_stream := controller_error e (ri_stream g)\<rparr>))"
      using assms True by (intro source_ok) (auto simp: controller_error_def reader_ok_def split: if_splits)
    with Source_error show ?thesis by simp
  next
    case False
    then have "controller_error e (ri_stream g) = ri_stream g" "ri_state g \<noteq> Awaiting"
      using assms by (auto simp: controller_error_def reader_ok_def rs_ok_def)
    with Source_error assms show ?thesis by (simp add: reader_answered_def)
  qed
qed

text \<open>
  A \<open>for await\<close> loop over a stream gets what the stream hands out, in order and nothing else. When the loop
  is left the stream is no longer open, unless that was prevented, and its lock has been released, unless
  the stream has failed.
\<close>

theorem reader_yields:
  "let g = reader_run preventCancel (xs :: 'a reader_input list); s = ri_stream g in
     ri_yielded g = handed s \<and> (ri_state g \<noteq> Awaiting \<longrightarrow> rs_requests s = 0) \<and>
     (ri_state g = Finished \<longrightarrow> (preventCancel \<or> rs_state s \<noteq> Rs_readable) \<and>
        (ri_locked g \<longrightarrow> (\<exists>e. rs_state s = Rs_errored e)))"
proof -
  have "reader_ok (fromReadable preventCancel rs_init :: 'a reader_iterator)"
    using rs_ok_init by (simp add: reader_ok_def fromReadable_def) (simp add: rs_init_def handed_def)
  moreover have "ri_preventCancel (reader_finally g) = ri_preventCancel g" for g :: "'a reader_iterator"
    by (simp add: reader_finally_def split: rs_state.split)
  then have p: "ri_preventCancel (reader_answered g) = ri_preventCancel g" for g :: "'a reader_iterator"
    by (simp add: reader_answered_def split: read_answer.split)
  have "ri_preventCancel (reader_step x g) = ri_preventCancel g" for x and g :: "'a reader_iterator"
    by (cases x) (simp_all add: p reader_finally_def split: rs_state.split sum.split)
  then have "reader_ok g \<Longrightarrow> reader_ok (fold reader_step xs g) \<and> ri_preventCancel (fold reader_step xs g) = ri_preventCancel g"
    for g :: "'a reader_iterator"
    by (induction xs arbitrary: g) (simp_all add: reader_step_ok)
  ultimately have "reader_ok (reader_run preventCancel xs)" "ri_preventCancel (reader_run preventCancel xs) = preventCancel"
    by (simp_all add: reader_run_def) (simp add: fromReadable_def)
  then show ?thesis by (auto simp: Let_def reader_ok_def)
qed

subsection \<open>Piping\<close>

text \<open>A chunk whose transformation throws is left out, with a warning.\<close>

definition transform_chunk :: "('a \<Rightarrow> 'a res) option \<Rightarrow> 'a \<Rightarrow> 'a list" where
  "transform_chunk t chunk = (case t of
     None \<Rightarrow> [chunk]
   | Some f \<Rightarrow> (case f chunk of Inl e \<Rightarrow> [] | Inr c \<Rightarrow> [c]))"

text \<open>What each side writes to the other, after what each has read.\<close>

definition connectStreams :: "('a \<Rightarrow> 'a res) option \<Rightarrow> ('a \<Rightarrow> 'a res) option \<Rightarrow> 'a list \<Rightarrow> 'a list \<Rightarrow> 'a list \<times> 'a list" where
  "connectStreams transformAtoB transformBtoA fromA fromB =
     (concat (map (transform_chunk transformAtoB) fromA), concat (map (transform_chunk transformBtoA) fromB))"

lemma connectStreams_plain: "connectStreams None None as bs = (as, bs)"
proof -
  have "transform_chunk None = (\<lambda>c :: 'a. [c])" by (simp add: transform_chunk_def fun_eq_iff)
  then show ?thesis by (simp add: connectStreams_def)
qed

lemma connectStreams_append:
  "connectStreams f g (as @ as') (bs @ bs') =
     (fst (connectStreams f g as bs) @ fst (connectStreams f g as' bs'), snd (connectStreams f g as bs) @ snd (connectStreams f g as' bs'))"
  by (simp add: connectStreams_def)

subsection \<open>The network card of v86\<close>

text \<open>A frame of the emulator goes to the readable stream, a written one to its bus.\<close>

definition v86_net0_send :: "'a \<Rightarrow> 'a rstream \<Rightarrow> unit res \<times> 'a rstream" where
  "v86_net0_send frame readable = (if can_enqueue readable then (Inr (), rs_put frame readable) else (Inl TypeError, readable))"

definition v86_write :: "'a \<Rightarrow> 'a list \<Rightarrow> 'a list" where
  "v86_write frame bus = bus @ [frame]"

end
