(* ===== verification/Spec2Isabelle.thy ===== *)
theory Spec2Isabelle
  imports JS_Base JS_String JS_Text JS_Map JS_Sort JS_Table
    Wire_Util Wire_Addr Wire_Netmask Wire_IPv6 Wire_Chars Wire_Ethernet
    Dhcp_Util Dhcp_Wire Dhcp_Server
    Dns_Wire Dns_Message Dns_Util Dns_Peers
    Ip_Addr Ip_Routes
    Http_Serialize Http_Framing
    Tcp_Bindings Tcp_Listener Net_Advertise Icmp_Sessions Udp_Sockets Net_Guarantees Http_Headers Http_Serve Transport_Streams
begin

text \<open>
  A model of tcpip.js (\<open>src/packages\<close>), a TCP/IP stack for JavaScript: the TypeScript packages
  around the lwIP stack (itself compiled to WebAssembly, and not in this repository).

  \<^bold>\<open>The program.\<close> \<open>wire\<close> turns Ethernet, ARP, IPv4, ICMP, UDP and TCP units
  into bytes and back, with their checksums and address texts. \<open>dhcp\<close> is a DHCP server over a
  datagram socket, \<open>dns\<close> a DNS client and server; both have message formats of their own and use
  the address texts of \<open>wire\<close>. \<open>http\<close> writes HTTP/1.1 messages to byte streams and reads
  them with llhttp. \<open>tcpip\<close> holds the routing table, which decides for every packet of lwIP which
  interface it leaves by, and the bindings of lwIP's sockets to web streams. \<open>transport\<close> has the
  interfaces between these packages.

  \<^bold>\<open>The theories.\<close> The prelude is what the packages use of JavaScript:
  \<^item> \<open>JS_Base\<close>: errors as values (\<open>res\<close>, \<open>bnd\<close>), numbers as \<open>int\<close> with the 32-bit
    bitwise operators, bytes, \<open>subarray\<close>, \<open>DataView\<close> reads and writes that throw out of
    range; the collections \<open>res_simps\<close>, \<open>js_arith\<close> and \<open>layout\<close>.
  \<^item> \<open>JS_String\<close>: strings of UTF-16 units, splitting and joining, numbers printed and read;
    \<open>JS_Text\<close>: \<open>TextEncoder\<close> and \<open>TextDecoder\<close>.
  \<^item> \<open>JS_Map\<close> (locale \<open>key_value_map\<close>), \<open>JS_Sort\<close> (locale \<open>comparator\<close>) and
    \<open>JS_Table\<close> (locale \<open>code_table\<close>): maps in insertion order, stable sorting, constant code
    tables; each locale states the laws its clients use.

  The components, each after the file it models:
  \<^item> \<open>Wire_Util\<close>, \<open>Wire_Addr\<close>, \<open>Wire_Netmask\<close>, \<open>Wire_IPv6\<close>, \<open>Wire_Icmp\<close>,
    \<open>Wire_Udp\<close>, \<open>Wire_Tcp\<close>, \<open>Wire_Arp\<close>, \<open>Wire_IPv4\<close>, \<open>Wire_Ethernet\<close>:
    \<open>packages/wire/src\<close>. A packet type is a record with the source's fields, the union of payloads
    a datatype; \<open>parseX\<close> and \<open>serializeX\<close> are the functions of the same name. The locale
    \<open>fixed_codec\<close> states the contract of a fixed-width address codec and is interpreted for IPv4,
    MAC and IPv6 addresses. \<open>Wire_Chars\<close> has the characters of address texts.
  \<^item> \<open>Dhcp_Util\<close>, \<open>Dhcp_Wire\<close>, \<open>Dhcp_Server\<close>: \<open>packages/dhcp/src\<close>. The state is the
    pair of maps \<open>leases\<close> and \<open>offers\<close>; a handler takes it with the message and the clock
    readings of its run and returns the new state, also when it throws, with the reply;
    \<open>processDhcpMessage\<close> is one datagram, \<open>process_all\<close> a sequence of them.
  \<^item> \<open>Dns_Wire\<close>, \<open>Dns_Message\<close>, \<open>Dns_Util\<close>, \<open>Dns_Peers\<close>: \<open>packages/dns/src\<close>. A
    typed array is given with its buffer, because the parsers read some fields from the start of the
    buffer. The locale \<open>section_codec\<close> states what a message section needs of its element parser.
    The server's callback and the client's network are arguments.
  \<^item> \<open>Ip_Addr\<close>, \<open>Ip_Routes\<close>: \<open>packages/tcpip/src/ip.ts\<close> and \<open>routes.ts\<close>. The table is a
    record with its list of routes and the next installation order, a handle a record with the
    \<open>installed\<close> flag of the closure; \<open>route_step\<close> and \<open>route_reachable\<close> are the calls
    on a table and the states they reach.
  \<^item> \<open>Net_Interface\<close>, \<open>Net_Addresses\<close>, \<open>Net_Advertise\<close>:
    \<open>packages/tcpip/src/bindings/network-interface.ts\<close>. The state of all interfaces is a map, taken
    with the routing table and lwIP, whose exported functions are an argument; \<open>net_step\<close> and
    \<open>net_reachable\<close> are the calls, users' own routes between them, and the states they reach.
  \<^item> \<open>Net_Errors\<close>, \<open>Icmp_Sessions\<close>: \<open>packages/tcpip/src/bindings/icmp.ts\<close>. Pings are
    numbered promises; timers, microtasks and lwIP's replies are inputs of \<open>icmp_run\<close>.
  \<^item> \<open>Udp_Sockets\<close>: \<open>packages/tcpip/src/bindings/udp.ts\<close>, bindings and sockets together; a send
    waits for its name lookup, a datagram for its microtask, and \<open>udp_run\<close> takes all inputs.
  \<^item> \<open>Net_Ports\<close>, \<open>Net_Stack\<close>: \<open>packages/tcpip/src/stack.ts\<close> and the bindings of the four
    kinds of interface with their objects and streams. One state holds the interface maps, the objects,
    the state of \<open>Net_Interface\<close> and the packets on their way; the WebAssembly module is an argument.
    \<open>Net_Lifecycle\<close> has the steps (\<open>stack_step\<close>, \<open>stack_reachable\<close>) and the invariant of handles and
    routes, \<open>Net_Packets\<close> that of packets, \<open>Net_Guarantees\<close> the properties. What the stack needs of
    the module's memory is \<open>wasm_ok\<close>.
  \<^item> \<open>Http_Serialize\<close>, \<open>Http_Framing\<close>: \<open>packages/http/src/serialize.ts\<close>. A body is the
    list of chunks its stream gives and how the stream ends; \<open>Http_Framing\<close> has a reader of bodies
    by the rules of HTTP/1.1, against which the serializer is proved.
  \<^item> \<open>Http_Parser\<close>, \<open>Http_Headers\<close>: \<open>packages/http/src/parser.ts\<close>, with what
    \<open>packages/http/src/wasm/bindings.ts\<close> and \<open>packages/http/wasm/http_parser.c\<close> do with headers. What
    llhttp calls back for a chunk is an input of \<open>parser_run\<close>, next to the calls of the consumers.
  \<^item> \<open>Http_Fetch\<close>, \<open>Http_Serve\<close>: \<open>fetch.ts\<close> and \<open>serve.ts\<close> of \<open>packages/http/src\<close>. \<open>fetch_run\<close> is a call
    with its parser after a list of inputs (reads, the outcome of the writing, the consumer of the body),
    \<open>closing_run\<close> the stream of its response, \<open>serve_run\<close> a connection with its handler. \<open>Http_Serve\<close>
    ends with a request on its way from \<open>fetch\<close> to the handler of the other side.
  \<^item> \<open>JS_Stream\<close>, \<open>Tcp_Stream\<close>, \<open>Tcp_Reading\<close>, \<open>Tcp_Delivery\<close>: the class
    \<open>VirtualTcpConnection\<close> of \<open>packages/tcpip/src/bindings/tcp.ts\<close>, on a model of the readable
    streams of the Streams standard. \<open>tcp_run\<close> is the state after a list of events: calls of the
    hooks, reads, cancels and the microtasks of the pull machinery. \<open>enqueueBuffer\<close> may run itself
    through the stream's \<open>pull\<close>; it is defined in two layers and proved a fixed point.
  \<^item> \<open>Transport_Streams\<close>: \<open>packages/transport/src/index.ts\<close>, the iterator over a stream as a state machine
    and the piping of two streams, and the network card of \<open>packages/v86\<close>.
  \<^item> \<open>Tcp_Listener\<close>: the class \<open>VirtualTcpListener\<close>, with any number of iterators.
  \<^item> \<open>Tcp_Bindings\<close>: the class \<open>TcpBindings\<close>. lwIP is a state of any type with the functions
    \<open>tcp_exports\<close>; its calls, the user's calls and the continuations are inputs in any order.

  \<^bold>\<open>What the lemmas show.\<close> Round trips of every format (frame to payload, DHCP replies, DNS
  messages, CIDR and address texts, PTR names); the checksum as the RFC 1071 sum and its detection of
  every single-byte header error; netmasks and prefix matching bit by bit; the invariants of the
  DHCP server (addresses are unique and in range, an acknowledgement means a lease, an offer is
  honoured whatever other clients send) and of the routing table, with longest prefix match as its
  specification; a DNS query over a server as a call of the server's callback; that a TCP
  connection hands the data of lwIP to its reader whole and in order, never waits beside data,
  reopens the receive window for what it has handed on and holds bounded memory; that writes reach
  lwIP whole and end; that the stack passes lwIP only interfaces it has, that removing an interface
  undoes its creation and that disposing leaves nothing; that the messages and bodies of the HTTP
  parser are what llhttp delivered, and that its parser is freed once; that the handler of an HTTP server
  gets the request, body included, that the other side gave to \<open>fetch\<close>. Properties of kind
  \<open>error\<close> state behaviour that does not do what the code means to do; each has a finding.

  \<^bold>\<open>Termination.\<close> Every loop of the modelled code ends: all functions are total, by structural
  recursion, by a measure on what is left to read, or as a \<open>while\<close> whose end is proved
  (\<open>tcp_enqueue_terminates\<close>); no fuel is used. The checksum fold ends after at most
  three rounds from any 32-bit sum (\<open>fold_measure\<close>). That waits end is stated with the number of
  microtasks or acknowledgements that are enough (\<open>tcp_reads_answered\<close>, \<open>tcp_write_completes\<close>).

  \<^bold>\<open>Not modelled.\<close> lwIP and llhttp (WebAssembly modules, a git submodule and a build product)
  and the code that only moves values between their memory and JavaScript (\<open>tcpip/src/bindings\<close>
  apart from what is named above, \<open>http/src/wasm\<close> apart from the headers); the loading of the module and the packet timer
  (\<open>#init\<close> of \<open>stack.ts\<close>); the arguments of \<open>serve\<close> (\<open>index.ts\<close>); back pressure between piped streams; console output.
\<close>

end
